(* ===== verification/Prelude.thy ===== *)
theory Prelude
  imports Main "HOL-Library.Word"
begin

text \<open>
  What every component of the kernel model shares: the machine integers of
  types.h, the constants of param.h, mmu.h and memlayout.h, the names of the
  spin locks and of the sleep channels, and the result type of kernel code.

  Kernel code that can stop is a function into \<open>'a res\<close>: \<open>Inr x\<close> is a normal
  return, \<open>Inl (Panic m)\<close> a call of \<open>panic(m)\<close>, \<open>Inl Fault\<close> a null pointer
  followed, \<open>Inl (Spin l)\<close> a spin on a lock that another CPU holds, \<open>Inl (Sleeps c)\<close> a wait that needs another process to
  make progress first, and \<open>Inl Diverge\<close> a pointer chase that does not reach the
  end of its list.  Results are sequenced with \<open>Rbind\<close>.
\<close>

section \<open>Machine integers\<close>

unbundle bit_operations_syntax

type_synonym uchar = "8 word"
type_synonym ushort = "16 word"
type_synonym uint = "32 word"

section \<open>Kernel constants\<close>

definition NPROC :: nat where "NPROC = 64"
definition NCPU :: nat where "NCPU = 8"
definition NOFILE :: nat where "NOFILE = 16"
definition NFILE :: nat where "NFILE = 100"
definition NINODE :: nat where "NINODE = 50"
definition NDEV :: nat where "NDEV = 10"
definition ROOTDEV :: uint where "ROOTDEV = 1"
definition MAXARG :: nat where "MAXARG = 32"
definition MAXOPBLOCKS :: nat where "MAXOPBLOCKS = 10"
definition LOGSIZE :: nat where "LOGSIZE = MAXOPBLOCKS * 3"
definition NBUF :: nat where "NBUF = MAXOPBLOCKS * 3"
definition FSSIZE :: nat where "FSSIZE = 2000"
definition DEFUID :: uint where "DEFUID = 0"
definition DEFGID :: uint where "DEFGID = 0"
definition MAXP :: int where "MAXP = 5"  \<comment> \<open>\<^verbatim>\<open>MAX\<close> of param.h\<close>
definition BUDGET :: uint where "BUDGET = 200"
definition TICKS_TO_PROMOTE :: uint where "TICKS_TO_PROMOTE = 5000"
definition DEFMODE :: uint where "DEFMODE = 493"

definition PGSIZE :: uint where "PGSIZE = 4096"
definition KSTACKSIZE :: uint where "KSTACKSIZE = 4096"
definition KERNBASE :: uint where "KERNBASE = 0x80000000"
definition PHYSTOP :: uint where "PHYSTOP = 0xE000000"
definition PGROUNDUP :: "uint \<Rightarrow> uint" where
  "PGROUNDUP sz = (sz + PGSIZE - 1) AND (NOT (PGSIZE - 1))"
definition PGROUNDDOWN :: "uint \<Rightarrow> uint" where
  "PGROUNDDOWN a = a AND (NOT (PGSIZE - 1))"
definition v2p :: "uint \<Rightarrow> uint" where "v2p a = a - KERNBASE"
definition p2v :: "uint \<Rightarrow> uint" where "p2v a = a + KERNBASE"

section \<open>Locks, channels, results\<close>

text \<open>The spin locks of the kernel, by the variable that holds each.\<close>

datatype lockname =
    PtableLock | KmemLock | BcacheLock | IdeLock | LogLock
  | IcacheLock | FtableLock | ConsLock | PipeLock uint

text \<open>
  A sleep channel is the address of some kernel object; \<open>NoChan\<close> is the null
  pointer.
\<close>

datatype chan =
    NoChan | ProcAddr nat | TicksAddr | LogAddr | BufAddr nat | InodeAddr nat
  | PipeReadAddr uint | PipeWriteAddr uint | InputAddr

datatype kerr = Panic string | Fault | Spin lockname | Sleeps chan | Diverge

type_synonym 'a res = "kerr + 'a"

definition Rbind :: "'a res \<Rightarrow> ('a \<Rightarrow> 'b res) \<Rightarrow> 'b res" where
  "Rbind m f = (case m of Inl e \<Rightarrow> Inl e | Inr x \<Rightarrow> f x)"

lemma Rbind_Inl [simp]: "Rbind (Inl e) f = Inl e"
  by (simp add: Rbind_def)

lemma Rbind_Inr [simp]: "Rbind (Inr x) f = f x"
  by (simp add: Rbind_def)

lemma Rbind_assoc: "Rbind (Rbind m f) g = Rbind m (\<lambda>x. Rbind (f x) g)"
  by (simp add: Rbind_def split: sum.splits)

lemma Rbind_eq_Inr_iff: "Rbind m f = Inr y \<longleftrightarrow> (\<exists>x. m = Inr x \<and> f x = Inr y)"
  by (simp add: Rbind_def split: sum.splits)

lemma Rbind_InrE [elim]:
  assumes "Rbind m f = Inr y"
  obtains x where "m = Inr x" "f x = Inr y"
  using assms by (auto simp: Rbind_eq_Inr_iff)

lemma Rbind_if: "Rbind (if b then m else n) f = (if b then Rbind m f else Rbind n f)"
  by simp

section \<open>Lists\<close>

lemma remove1_notin: "x \<notin> set xs \<Longrightarrow> remove1 x xs = xs"
  by (induction xs) auto

lemma remove1_append_mid:
  "x \<notin> set xs \<Longrightarrow> remove1 x (xs @ x # ys) = xs @ ys"
  by (induction xs) auto

lemma filter_neq_notin: "x \<notin> set xs \<Longrightarrow> filter (\<lambda>y. y \<noteq> x) xs = xs"
  by (induction xs) auto

lemma fold_fun_upd_notin:
  "x \<notin> set xs \<Longrightarrow> fold (\<lambda>y f. f(y := g y)) xs f x = f x"
  by (induction xs arbitrary: f) auto

section \<open>Words\<close>

lemma sint_le_0_cases: "sint (w :: 'a::len word) \<le> 0 \<or> 0 < sint w"
  by linarith


section \<open>Ring buffers with wrapping counters\<close>

text \<open>A counter that runs through all 32-bit values indexes a buffer whose size divides their range.\<close>

lemma wrap_slot:
  assumes "N dvd 2 ^ 32"
  shows "unat (a + of_nat i :: uint) mod N = (unat a + i) mod N"
proof -
  have "unat (a + of_nat i :: uint) = (unat a + i) mod 2 ^ 32"
    by (simp add: unat_word_ariths unat_of_nat mod_simps)
  then show ?thesis
    using assms by (simp add: mod_mod_cancel)
qed

lemma slots_apart:
  fixes a :: nat
  assumes "i < n" "n < N"
  shows "(a + i) mod N \<noteq> (a + n) mod N"
proof
  assume "(a + i) mod N = (a + n) mod N"
  then have "N dvd (a + n) - (a + i)"
    using assms by (intro mod_eq_dvd_iff_nat [THEN iffD1]) auto
  then show False
    using assms dvd_imp_le [of N "n - i"] by simp
qed

end
