(* ===== verification/Spinlock.thy ===== *)
theory Spinlock
  imports Prelude
begin

text \<open>
  spinlock.c and the CPU structure of proc.h: the interrupt-disable nesting
  counter (\<open>pushcli\<close>, \<open>popcli\<close>), the locks (\<open>initlock\<close>, \<open>acquire\<close>, \<open>release\<close>,
  \<open>holding\<close>) and the call-stack recorder \<open>getcallerpcs\<close>.

  The state is the part of the machine that locks touch: every CPU's
  \<open>struct cpu\<close> and its interrupt flag, which CPU executes the current code (the
  \<^verbatim>\<open>%gs\<close>-relative variable \<open>cpu\<close>), and the locks.  The other components extend this
  record.  The debugging field \<open>pcs\<close> of a lock is left out of the state.
\<close>

section \<open>State\<close>

record cpu =
  eflags_IF :: bool       \<comment> \<open>the interrupt-enable flag of this CPU\<close>
  ncli :: int             \<comment> \<open>depth of pushcli nesting\<close>
  intena :: bool          \<comment> \<open>were interrupts enabled before pushcli?\<close>
  cproc :: "nat option"   \<comment> \<open>\<open>proc\<close>: the currently running process\<close>

record spinlock =
  locked :: bool
  lname :: string
  lcpu :: "nat option"    \<comment> \<open>\<open>cpu\<close>: the CPU holding the lock\<close>

record machine =
  cpus :: "nat \<Rightarrow> cpu"
  curcpu :: nat
  locks :: "lockname \<Rightarrow> spinlock"

definition mycpu :: "'a machine_scheme \<Rightarrow> cpu" where
  "mycpu s = cpus s (curcpu s)"

definition upd_cpu :: "(cpu \<Rightarrow> cpu) \<Rightarrow> 'a machine_scheme \<Rightarrow> 'a machine_scheme" where
  "upd_cpu f s = s\<lparr>cpus := (cpus s)(curcpu s := f (cpus s (curcpu s)))\<rparr>"

definition upd_lock ::
  "lockname \<Rightarrow> (spinlock \<Rightarrow> spinlock) \<Rightarrow> 'a machine_scheme \<Rightarrow> 'a machine_scheme" where
  "upd_lock l f s = s\<lparr>locks := (locks s)(l := f (locks s l))\<rparr>"

section \<open>Operations\<close>

definition initlock :: "lockname \<Rightarrow> string \<Rightarrow> 'a machine_scheme \<Rightarrow> 'a machine_scheme" where
  "initlock l nm s = upd_lock l (\<lambda>_. \<lparr>locked = False, lname = nm, lcpu = None\<rparr>) s"

definition holding :: "lockname \<Rightarrow> 'a machine_scheme \<Rightarrow> bool" where
  "holding l s \<longleftrightarrow> locked (locks s l) \<and> lcpu (locks s l) = Some (curcpu s)"

definition cpu_push :: "cpu \<Rightarrow> cpu" where
  "cpu_push c =
     c\<lparr>eflags_IF := False, ncli := ncli c + 1,
       intena := (if ncli c = 0 then eflags_IF c else intena c)\<rparr>"

definition cpu_pop :: "cpu \<Rightarrow> cpu" where
  "cpu_pop c =
     c\<lparr>ncli := ncli c - 1,
       eflags_IF := (if ncli c - 1 = 0 \<and> intena c then True else eflags_IF c)\<rparr>"

definition pushcli :: "'a machine_scheme \<Rightarrow> 'a machine_scheme" where
  "pushcli s = upd_cpu cpu_push s"

definition popcli :: "'a machine_scheme \<Rightarrow> 'a machine_scheme res" where
  "popcli s =
     (if eflags_IF (mycpu s) then Inl (Panic ''popcli - interruptible'')
      else if ncli (mycpu s) - 1 < 0 then Inl (Panic ''popcli'')
      else Inr (upd_cpu cpu_pop s))"

text \<open>
  \<open>acquire\<close> in its atomic pieces: entry (\<open>pushcli\<close> and the re-entry check), one
  \<open>xchg\<close> of the lock word, and the record of the holder.  \<open>release\<close> likewise.
\<close>

definition acquire_entry :: "lockname \<Rightarrow> 'a machine_scheme \<Rightarrow> 'a machine_scheme res" where
  "acquire_entry l s =
     (let s = pushcli s in if holding l s then Inl (Panic ''acquire'') else Inr s)"

definition xchg :: "lockname \<Rightarrow> bool \<Rightarrow> 'a machine_scheme \<Rightarrow> bool \<times> 'a machine_scheme" where
  "xchg l v s = (locked (locks s l), upd_lock l (\<lambda>k. k\<lparr>locked := v\<rparr>) s)"

definition acquire_record :: "lockname \<Rightarrow> 'a machine_scheme \<Rightarrow> 'a machine_scheme" where
  "acquire_record l s = upd_lock l (\<lambda>k. k\<lparr>lcpu := Some (curcpu s)\<rparr>) s"

definition acquire :: "lockname \<Rightarrow> 'a machine_scheme \<Rightarrow> 'a machine_scheme res" where
  "acquire l s =
     Rbind (acquire_entry l s) (\<lambda>s.
       case xchg l True s of
         (True, _) \<Rightarrow> Inl (Spin l)
       | (False, s) \<Rightarrow> Inr (acquire_record l s))"

definition release_entry :: "lockname \<Rightarrow> 'a machine_scheme \<Rightarrow> 'a machine_scheme res" where
  "release_entry l s =
     (if \<not> holding l s then Inl (Panic ''release'')
      else Inr (upd_lock l (\<lambda>k. k\<lparr>lcpu := None\<rparr>) s))"

definition release_exit :: "lockname \<Rightarrow> 'a machine_scheme \<Rightarrow> 'a machine_scheme res" where
  "release_exit l s = popcli (snd (xchg l False s))"

definition release :: "lockname \<Rightarrow> 'a machine_scheme \<Rightarrow> 'a machine_scheme res" where
  "release l s = Rbind (release_entry l s) (release_exit l)"

text \<open>
  \<open>getcallerpcs\<close> follows the saved frame pointers from the frame of the argument
  at address \<open>v\<close>; \<open>m\<close> gives the word at an address.
\<close>

fun getcallerpcs_loop :: "(uint \<Rightarrow> uint) \<Rightarrow> uint \<Rightarrow> nat \<Rightarrow> uint list" where
  "getcallerpcs_loop m ebp 0 = []"
| "getcallerpcs_loop m ebp (Suc n) =
     (if ebp = 0 \<or> ebp < KERNBASE \<or> ebp = 0xffffffff then replicate (Suc n) 0
      else m (ebp + 4) # getcallerpcs_loop m (m ebp) n)"

definition getcallerpcs :: "(uint \<Rightarrow> uint) \<Rightarrow> uint \<Rightarrow> uint list" where
  "getcallerpcs m v = getcallerpcs_loop m (v - 8) 10"

section \<open>Sequential behaviour\<close>

text \<open>
  The state after an uncontended \<open>acquire\<close>, and the state after the matching
  \<open>release\<close>: only the saved \<open>intena\<close> of an outermost section changes.
\<close>

definition acquired :: "lockname \<Rightarrow> 'a machine_scheme \<Rightarrow> 'a machine_scheme" where
  "acquired l s = upd_lock l (\<lambda>k. k\<lparr>locked := True, lcpu := Some (curcpu s)\<rparr>) (pushcli s)"

definition cpu_settled :: "cpu \<Rightarrow> cpu" where
  "cpu_settled c = (if ncli c = 0 then c\<lparr>intena := eflags_IF c\<rparr> else c)"

definition settled :: "'a machine_scheme \<Rightarrow> 'a machine_scheme" where
  "settled s = upd_cpu cpu_settled s"

definition lock_free :: "lockname \<Rightarrow> 'a machine_scheme \<Rightarrow> bool" where
  "lock_free l s \<longleftrightarrow> \<not> locked (locks s l) \<and> lcpu (locks s l) = None"

text \<open>A CPU whose interrupts are off whenever it is inside a \<open>pushcli\<close> section.\<close>

definition cpu_ok :: "'a machine_scheme \<Rightarrow> bool" where
  "cpu_ok s \<longleftrightarrow> 0 \<le> ncli (mycpu s) \<and> (0 < ncli (mycpu s) \<longrightarrow> \<not> eflags_IF (mycpu s))"

lemmas machine_defs =
  mycpu_def upd_cpu_def upd_lock_def pushcli_def popcli_def holding_def xchg_def
  acquire_entry_def acquire_record_def release_entry_def release_exit_def

lemma acquire_free [simp]: "lock_free l s \<Longrightarrow> acquire l s = Inr (acquired l s)"
  by (simp add: acquire_def acquired_def lock_free_def machine_defs Let_def)

lemma acquire_held: "locked (locks s l) \<Longrightarrow> \<exists>e. acquire l s = Inl e"
  by (auto simp: acquire_def machine_defs Let_def split: prod.splits)

lemma acquire_reentry:
  "holding l s \<Longrightarrow> acquire l s = Inl (Panic ''acquire'')"
  by (simp add: acquire_def machine_defs Let_def)

lemma release_not_holding:
  "\<not> holding l s \<Longrightarrow> release l s = Inl (Panic ''release'')"
  by (simp add: release_def release_entry_def)

text \<open>
  A critical section that leaves the machine part alone: \<open>t\<close> is the state its
  body reached from \<open>acquired l s\<close>.
\<close>

definition same_machine :: "'a machine_scheme \<Rightarrow> 'b machine_scheme \<Rightarrow> bool" where
  "same_machine s t \<longleftrightarrow> cpus t = cpus s \<and> curcpu t = curcpu s \<and> locks t = locks s"

lemma same_machine_refl [simp]: "same_machine s s"
  by (simp add: same_machine_def)

lemma same_machine_trans [trans]:
  "same_machine s t \<Longrightarrow> same_machine t u \<Longrightarrow> same_machine s u"
  by (simp add: same_machine_def)

lemma cpu_pop_push:
  assumes "0 \<le> ncli c" "0 < ncli c \<longrightarrow> \<not> eflags_IF c"
  shows "cpu_pop (cpu_push c) = cpu_settled c"
  using assms by (cases c) (auto simp: cpu_pop_def cpu_push_def cpu_settled_def)

lemma cpu_push_sel [simp]:
  "eflags_IF (cpu_push c) = False" "ncli (cpu_push c) = ncli c + 1" "cproc (cpu_push c) = cproc c"
  by (simp_all add: cpu_push_def)

lemma cpu_settled_sel [simp]:
  "eflags_IF (cpu_settled c) = eflags_IF c" "ncli (cpu_settled c) = ncli c"
  "cproc (cpu_settled c) = cproc c"
  by (simp_all add: cpu_settled_def)

lemma release_section:
  assumes "lock_free l s" "cpu_ok s" "same_machine (acquired l s) t"
  shows "release l t = Inr (t\<lparr>cpus := cpus (settled s), locks := locks s\<rparr>)"
proof -
  let ?c = "curcpu s"
  have t: "cpus t = (cpus s)(?c := cpu_push (cpus s ?c))" "curcpu t = ?c"
    "locks t = (locks s)(l := (locks s l)\<lparr>locked := True, lcpu := Some ?c\<rparr>)"
    using assms(3) by (auto simp: same_machine_def acquired_def machine_defs)
  have lk: "(locks s l)\<lparr>lcpu := None, locked := False\<rparr> = locks s l"
    using assms(1) by (cases "locks s l") (simp add: lock_free_def)
  have pop: "cpu_pop (cpu_push (cpus s ?c)) = cpu_settled (cpus s ?c)" "0 \<le> ncli (cpus s ?c)"
    using assms(2) by (auto simp: cpu_ok_def mycpu_def intro: cpu_pop_push)
  show ?thesis
    using pop by (simp add: release_def settled_def machine_defs t lk)
qed

lemma release_acquired:
  assumes "lock_free l s" "cpu_ok s"
  shows "release l (acquired l s) = Inr (settled s)"
proof -
  have "(acquired l s)\<lparr>cpus := cpus (settled s), locks := locks s\<rparr> = settled s"
    by (simp add: acquired_def settled_def machine_defs)
  then show ?thesis
    using release_section [OF assms same_machine_refl] by simp
qed

lemma settled_frame [simp]:
  "curcpu (settled s) = curcpu s" "locks (settled s) = locks s"
  "ncli (cpus (settled s) c) = ncli (cpus s c)"
  "eflags_IF (cpus (settled s) c) = eflags_IF (cpus s c)"
  "cproc (cpus (settled s) c) = cproc (cpus s c)"
  by (auto simp: settled_def machine_defs)

lemma acquired_frame [simp]:
  "curcpu (acquired l s) = curcpu s"
  "cproc (cpus (acquired l s) c) = cproc (cpus s c)"
  "ncli (cpus (acquired l s) c) = (if c = curcpu s then ncli (cpus s c) + 1 else ncli (cpus s c))"
  "eflags_IF (cpus (acquired l s) c) = (c \<noteq> curcpu s \<and> eflags_IF (cpus s c))"
  "locks (acquired l s) =
     (locks s)(l := (locks s l)\<lparr>locked := True, lcpu := Some (curcpu s)\<rparr>)"
  by (auto simp: acquired_def machine_defs)

lemma holding_acquired [simp]: "holding l (acquired l s)"
  by (simp add: holding_def)

text \<open>The recorder always fills its ten slots.\<close>

lemma length_getcallerpcs_loop: "length (getcallerpcs_loop m ebp n) = n"
  by (induction m ebp n rule: getcallerpcs_loop.induct) auto

lemma length_getcallerpcs: "length (getcallerpcs m v) = 10"
  by (simp add: getcallerpcs_def length_getcallerpcs_loop)

text \<open>Nested \<open>pushcli\<close>/\<open>popcli\<close> pairs: only the outermost \<open>popcli\<close> turns interrupts on.\<close>

lemma popcli_pushcli:
  assumes "cpu_ok s"
  shows "popcli (pushcli s) = Inr (settled s)"
proof -
  have "cpu_pop (cpu_push (cpus s (curcpu s))) = cpu_settled (cpus s (curcpu s))"
    "0 \<le> ncli (cpus s (curcpu s))"
    using assms by (auto simp: cpu_ok_def mycpu_def intro: cpu_pop_push)
  then show ?thesis by (simp add: settled_def machine_defs)
qed

section \<open>Interleaved CPUs\<close>

text \<open>
  Any number of CPUs use one lock.  A step is one atomic piece of \<open>acquire\<close> or
  \<open>release\<close> on one CPU, so the holder's record may lag behind the lock word, as in
  the code.
\<close>

datatype lockpc = Out | Trying | Won | Inside | Leaving

type_synonym lock_sys = "machine \<times> (nat \<Rightarrow> lockpc)"

definition on_cpu :: "nat \<Rightarrow> 'a machine_scheme \<Rightarrow> 'a machine_scheme" where
  "on_cpu c s = s\<lparr>curcpu := c\<rparr>"

inductive lock_step :: "lockname \<Rightarrow> lock_sys \<Rightarrow> lock_sys \<Rightarrow> bool" for l where
  enter: "pc c = Out \<Longrightarrow> acquire_entry l (on_cpu c s) = Inr s' \<Longrightarrow>
    lock_step l (s, pc) (s', pc(c := Trying))"
| spin: "pc c = Trying \<Longrightarrow> xchg l True (on_cpu c s) = (True, s') \<Longrightarrow>
    lock_step l (s, pc) (s', pc)"
| win: "pc c = Trying \<Longrightarrow> xchg l True (on_cpu c s) = (False, s') \<Longrightarrow>
    lock_step l (s, pc) (s', pc(c := Won))"
| note_holder: "pc c = Won \<Longrightarrow> acquire_record l (on_cpu c s) = s' \<Longrightarrow>
    lock_step l (s, pc) (s', pc(c := Inside))"
| leave: "pc c = Inside \<Longrightarrow> release_entry l (on_cpu c s) = Inr s' \<Longrightarrow>
    lock_step l (s, pc) (s', pc(c := Leaving))"
| exit: "pc c = Leaving \<Longrightarrow> release_exit l (on_cpu c s) = Inr s' \<Longrightarrow>
    lock_step l (s, pc) (s', pc(c := Out))"

definition lock_init :: "lockname \<Rightarrow> lock_sys \<Rightarrow> bool" where
  "lock_init l sp \<longleftrightarrow> lock_free l (fst sp) \<and> snd sp = (\<lambda>_. Out) \<and>
     (\<forall>c. ncli (cpus (fst sp) c) = 0)"

inductive lock_reach :: "lockname \<Rightarrow> lock_sys \<Rightarrow> bool" for l where
  start: "lock_init l sp \<Longrightarrow> lock_reach l sp"
| step: "lock_reach l sp \<Longrightarrow> lock_step l sp sp' \<Longrightarrow> lock_reach l sp'"

definition owns :: "lockpc \<Rightarrow> bool" where
  "owns p \<longleftrightarrow> p \<in> {Won, Inside, Leaving}"

definition lock_inv :: "lockname \<Rightarrow> lock_sys \<Rightarrow> bool" where
  "lock_inv l sp \<longleftrightarrow> (case sp of (s, pc) \<Rightarrow>
     (\<forall>c d. owns (pc c) \<longrightarrow> owns (pc d) \<longrightarrow> c = d) \<and>
     (locked (locks s l) \<longleftrightarrow> (\<exists>c. owns (pc c))) \<and>
     (\<forall>c. lcpu (locks s l) = Some c \<longleftrightarrow> pc c = Inside) \<and>
     (\<forall>c. ncli (cpus s c) = (if pc c = Out then 0 else 1)) \<and>
     (\<forall>c. pc c \<noteq> Out \<longrightarrow> \<not> eflags_IF (cpus s c)))"

lemma owns_simps [simp]:
  "\<not> owns Out" "\<not> owns Trying" "owns Won" "owns Inside" "owns Leaving"
  by (simp_all add: owns_def)

lemma on_cpu_sel [simp]:
  "curcpu (on_cpu c s) = c" "cpus (on_cpu c s) = cpus s" "locks (on_cpu c s) = locks s"
  by (simp_all add: on_cpu_def)

lemma lock_inv_init: "lock_init l sp \<Longrightarrow> lock_inv l sp"
  by (auto simp: lock_init_def lock_inv_def lock_free_def split: prod.splits)

lemma lock_inv_step: "lock_step l sp sp' \<Longrightarrow> lock_inv l sp \<Longrightarrow> lock_inv l sp'"
proof (induction rule: lock_step.induct)
  case (enter pc c s s')
  then show ?case
    by (auto simp: lock_inv_def machine_defs Let_def split: if_splits) (metis owns_simps(1))
next
  case (spin pc c s s')
  then show ?case
    by (auto simp: lock_inv_def machine_defs)
next
  case (win pc c s s')
  then show ?case
    by (auto simp: lock_inv_def machine_defs)
next
  case (note_holder pc c s s')
  then show ?case
    by (auto simp: lock_inv_def machine_defs) (metis owns_simps(3))
next
  case (leave pc c s s')
  then show ?case
    by (auto simp: lock_inv_def machine_defs split: if_splits) (metis lockpc.distinct(5))
next
  case (exit pc c s s')
  then show ?case
    by (auto simp: lock_inv_def machine_defs cpu_pop_def split: if_splits)
qed

lemma lock_reach_inv: "lock_reach l sp \<Longrightarrow> lock_inv l sp"
  by (induction rule: lock_reach.induct) (auto intro: lock_inv_init lock_inv_step)

section \<open>Properties\<close>

text \<open>
  C5. Mutual exclusion: in every interleaving of the atomic pieces of \<open>acquire\<close>
  and \<open>release\<close> at most one CPU owns the lock, \<open>holding\<close> answers truthfully even
  between the \<open>xchg\<close> and the record of the holder, and no CPU that follows the
  protocol panics in \<open>acquire\<close>, \<open>release\<close> or \<open>popcli\<close>.
\<close>

theorem spinlock_mutual_exclusion:
  assumes "lock_reach l (s, pc)"
  shows "(owns (pc c) \<and> owns (pc d) \<longrightarrow> c = d) \<and>
    (holding l (on_cpu c s) \<longleftrightarrow> pc c = Inside) \<and>
    (pc c = Out \<longrightarrow> (\<exists>s'. acquire_entry l (on_cpu c s) = Inr s')) \<and>
    (pc c = Inside \<longrightarrow> (\<exists>s'. release_entry l (on_cpu c s) = Inr s')) \<and>
    (pc c = Leaving \<longrightarrow> (\<exists>s'. release_exit l (on_cpu c s) = Inr s'))"
proof -
  from assms have inv: "lock_inv l (s, pc)" by (rule lock_reach_inv)
  then have hold: "holding l (on_cpu c s) \<longleftrightarrow> pc c = Inside"
    by (auto simp: lock_inv_def holding_def) (metis owns_simps(4))
  have "pc c \<noteq> Inside \<Longrightarrow> acquire_entry l (on_cpu c s) = Inr (pushcli (on_cpu c s))"
    using hold by (simp add: machine_defs Let_def)
  moreover have "pc c = Inside \<Longrightarrow> \<exists>s'. release_entry l (on_cpu c s) = Inr s'"
    using hold by (simp add: release_entry_def)
  moreover have "pc c = Leaving \<Longrightarrow> \<exists>s'. release_exit l (on_cpu c s) = Inr s'"
    using inv by (auto simp: lock_inv_def machine_defs)
  ultimately show ?thesis
    using inv hold by (auto simp: lock_inv_def)
qed

text \<open>The run of the witness: CPU 0 wins the lock while CPU 1 is about to spin on it.\<close>

definition demo_machine :: machine where
  "demo_machine =
     \<lparr>cpus = (\<lambda>_. \<lparr>eflags_IF = True, ncli = 0, intena = False, cproc = None\<rparr>), curcpu = 0,
      locks = (\<lambda>_. \<lparr>locked = False, lname = ''ptable'', lcpu = None\<rparr>)\<rparr>"

theorem spinlock_mutual_exclusion_witness:
  "\<exists>s pc. lock_reach PtableLock (s, pc) \<and> pc 0 = Won \<and> pc 1 = Trying \<and>
     \<not> holding PtableLock (on_cpu 0 s)"
proof -
  let ?l = PtableLock
  let ?s1 = "pushcli (on_cpu 0 demo_machine)"
  let ?s2 = "pushcli (on_cpu 1 ?s1)"
  let ?s3 = "snd (xchg ?l True (on_cpu 0 ?s2))"
  have r0: "lock_reach ?l (demo_machine, \<lambda>_. Out)"
    by (rule lock_reach.start) (simp add: lock_init_def lock_free_def demo_machine_def)
  have r1: "lock_reach ?l (?s1, (\<lambda>_. Out)(0 := Trying))"
    by (rule lock_reach.step [OF r0], rule lock_step.enter)
       (simp_all add: demo_machine_def machine_defs Let_def)
  have r2: "lock_reach ?l (?s2, (\<lambda>_. Out)(0 := Trying, 1 := Trying))"
    by (rule lock_reach.step [OF r1], rule lock_step.enter)
       (simp_all add: demo_machine_def machine_defs Let_def)
  have r3: "lock_reach ?l (?s3, (\<lambda>_. Out)(0 := Trying, 1 := Trying, 0 := Won))"
    by (rule lock_reach.step [OF r2], rule lock_step.win)
       (simp_all add: demo_machine_def machine_defs)
  show ?thesis
    using r3 spinlock_mutual_exclusion [OF r3, of 0 0]
    by (intro exI [of _ ?s3] exI [of _ "(\<lambda>_. Out)(0 := Trying, 1 := Trying, 0 := Won)"]) simp
qed

end
