(* ===== verification/Chain.thy ===== *)
theory Chain
  imports Prelude
begin

text \<open>
  Singly linked lists in memory, shared by every component that threads objects
  through a \<open>next\<close> pointer (the page allocator, the process lists, the disk
  queue).  \<open>f\<close> maps a node to its \<open>next\<close> field, \<open>None\<close> is the null pointer.
  \<open>chain f p xs\<close>: following \<open>f\<close> from \<open>p\<close> visits exactly \<open>xs\<close> and ends at null.
  \<open>lseg f p xs q\<close>: it visits \<open>xs\<close> and then stands at \<open>q\<close>.
\<close>

type_synonym 'a ptr = "'a option"

fun chain :: "('a \<Rightarrow> 'a ptr) \<Rightarrow> 'a ptr \<Rightarrow> 'a list \<Rightarrow> bool" where
  "chain f p [] \<longleftrightarrow> p = None"
| "chain f p (x # xs) \<longleftrightarrow> p = Some x \<and> chain f (f x) xs"

fun lseg :: "('a \<Rightarrow> 'a ptr) \<Rightarrow> 'a ptr \<Rightarrow> 'a list \<Rightarrow> 'a ptr \<Rightarrow> bool" where
  "lseg f p [] q \<longleftrightarrow> p = q"
| "lseg f p (x # xs) q \<longleftrightarrow> p = Some x \<and> lseg f (f x) xs q"

lemma chain_None [simp]: "chain f None xs \<longleftrightarrow> xs = []"
  by (cases xs) auto

lemma chain_Some: "chain f (Some x) xs \<longleftrightarrow> (\<exists>ys. xs = x # ys \<and> chain f (f x) ys)"
  by (cases xs) auto

lemma chain_append: "chain f p (xs @ ys) \<longleftrightarrow> (\<exists>q. lseg f p xs q \<and> chain f q ys)"
  by (induction xs arbitrary: p) auto

lemma lseg_append: "lseg f p (xs @ ys) r \<longleftrightarrow> (\<exists>q. lseg f p xs q \<and> lseg f q ys r)"
  by (induction xs arbitrary: p) auto

lemma chain_unique: "chain f p xs \<Longrightarrow> chain f p ys \<Longrightarrow> xs = ys"
proof (induction xs arbitrary: p ys)
  case Nil
  then show ?case by simp
next
  case (Cons x xs)
  then show ?case by (auto simp: chain_Some)
qed

text \<open>A list that ends cannot visit a node twice.\<close>

lemma chain_not_in_tail: "chain f (f x) xs \<Longrightarrow> x \<notin> set xs"
proof
  assume ch: "chain f (f x) xs" and "x \<in> set xs"
  then obtain as bs where xs: "xs = as @ x # bs"
    by (meson split_list)
  with ch have "chain f (f x) bs"
    by (auto simp: chain_append)
  with ch have "xs = bs"
    by (rule chain_unique)
  with xs show False
    by simp
qed

lemma chain_distinct: "chain f p xs \<Longrightarrow> distinct xs"
  by (induction xs arbitrary: p) (auto dest: chain_not_in_tail)

lemma chain_upd [simp]: "x \<notin> set xs \<Longrightarrow> chain (f(x := q)) p xs \<longleftrightarrow> chain f p xs"
  by (induction xs arbitrary: p) auto

lemma lseg_upd [simp]: "x \<notin> set xs \<Longrightarrow> lseg (f(x := q)) p xs r \<longleftrightarrow> lseg f p xs r"
  by (induction xs arbitrary: p) auto

lemma chain_cong:
  "(\<And>x. x \<in> set xs \<Longrightarrow> f x = g x) \<Longrightarrow> chain f p xs \<longleftrightarrow> chain g p xs"
  by (induction xs arbitrary: p) auto

text \<open>Following at most \<open>n\<close> pointers: \<open>None\<close> when the end is not reached.\<close>

fun chase :: "nat \<Rightarrow> ('a \<Rightarrow> 'a ptr) \<Rightarrow> 'a ptr \<Rightarrow> 'a list option" where
  "chase n f None = Some []"
| "chase 0 f (Some x) = None"
| "chase (Suc n) f (Some x) = map_option (Cons x) (chase n f (f x))"

lemma chase_chain: "chain f p xs \<Longrightarrow> length xs \<le> n \<Longrightarrow> chase n f p = Some xs"
proof (induction xs arbitrary: p n)
  case Nil
  then show ?case by simp
next
  case (Cons x xs)
  then show ?case by (cases n) auto
qed

lemma chase_Some: "chase n f p = Some xs \<Longrightarrow> chain f p xs \<and> length xs \<le> n"
proof (induction n f p arbitrary: xs rule: chase.induct)
  case (3 n f x)
  then show ?case by auto
qed auto

end
