(* ===== verification/Kalloc.thy ===== *)
theory Kalloc
  imports Spinlock Chain
begin

text \<open>
  kalloc.c: the physical page allocator.  Free pages form a list threaded through
  the first word of each page; \<open>pmem\<close> gives the word at a (4-aligned) kernel
  address, null is address 0.  The linker's symbol \<^verbatim>\<open>end\<close>, the first address
  after the kernel image, is the parameter \<open>kend\<close>.
\<close>

section \<open>State and operations\<close>

record kmem = machine +
  use_lock :: bool
  freelist :: uint
  pmem :: "uint \<Rightarrow> uint"

definition page_fill :: "uint \<Rightarrow> uint \<Rightarrow> (uint \<Rightarrow> uint) \<Rightarrow> uint \<Rightarrow> uint" where
  "page_fill v w m = (\<lambda>a. if v \<le> a \<and> a - v < PGSIZE then w else m a)"

definition klock :: "'a kmem_scheme \<Rightarrow> 'a kmem_scheme res" where
  "klock s = (if use_lock s then acquire KmemLock s else Inr s)"

definition kunlock :: "'a kmem_scheme \<Rightarrow> 'a kmem_scheme res" where
  "kunlock s = (if use_lock s then release KmemLock s else Inr s)"

definition kfree :: "uint \<Rightarrow> uint \<Rightarrow> 'a kmem_scheme \<Rightarrow> 'a kmem_scheme res" where
  "kfree kend v s =
     (if v mod PGSIZE \<noteq> 0 \<or> v < kend \<or> v2p v \<ge> PHYSTOP then Inl (Panic ''kfree'')
      else
        let s = s\<lparr>pmem := page_fill v 0x01010101 (pmem s)\<rparr> in
        Rbind (klock s) (\<lambda>s.
        let s = s\<lparr>pmem := (pmem s)(v := freelist s), freelist := v\<rparr> in
        kunlock s))"

definition kalloc :: "'a kmem_scheme \<Rightarrow> (uint \<times> 'a kmem_scheme) res" where
  "kalloc s =
     Rbind (klock s) (\<lambda>s.
     let r = freelist s;
         s = (if r \<noteq> 0 then s\<lparr>freelist := pmem s r\<rparr> else s) in
     Rbind (kunlock s) (\<lambda>s. Inr (r, s)))"

lemma Rbind_cong [fundef_cong]:
  "m = n \<Longrightarrow> (\<And>x. n = Inr x \<Longrightarrow> f x = g x) \<Longrightarrow> Rbind m f = Rbind n g"
  by (cases n) auto

text \<open>
  The loop of \<open>freerange\<close> ends because \<open>kfree\<close> panics on a page at or above
  \<open>PHYSTOP\<close>.
\<close>

lemma v2p_step: "v2p p < PHYSTOP \<Longrightarrow> unat (v2p (p + PGSIZE)) = unat (v2p p) + 4096"
proof -
  assume "v2p p < PHYSTOP"
  then have lt: "unat (v2p p) < 0xE000000"
    by (simp add: PHYSTOP_def word_less_nat_alt)
  have "v2p (p + PGSIZE) = v2p p + 4096"
    by (simp add: v2p_def PGSIZE_def)
  then show ?thesis
    using lt by (simp add: unat_word_ariths)
qed

lemma kfree_InrD: "kfree kend v s = Inr t \<Longrightarrow> v2p v < PHYSTOP \<and> kend \<le> v \<and> v mod PGSIZE = 0"
  by (auto simp: kfree_def split: if_splits)

function freerange_loop :: "uint \<Rightarrow> uint \<Rightarrow> uint \<Rightarrow> 'a kmem_scheme \<Rightarrow> 'a kmem_scheme res" where
  "freerange_loop kend p vend s =
     (if p + PGSIZE \<le> vend
      then Rbind (kfree kend p s) (\<lambda>s. freerange_loop kend (p + PGSIZE) vend s)
      else Inr s)"
  by pat_completeness auto
termination
proof (relation "measure (\<lambda>(kend, p, vend, s). 0xE001000 - unat (v2p p))", goal_cases)
  case 1
  then show ?case by simp
next
  case (2 kend p vend s t)
  then have "v2p p < PHYSTOP" by (simp add: kfree_InrD)
  moreover from this have "unat (v2p p) < 0xE000000"
    by (simp add: PHYSTOP_def word_less_nat_alt)
  ultimately show ?case
    using v2p_step [of p] by simp
qed

definition freerange :: "uint \<Rightarrow> uint \<Rightarrow> uint \<Rightarrow> 'a kmem_scheme \<Rightarrow> 'a kmem_scheme res" where
  "freerange kend vstart vend s = freerange_loop kend (PGROUNDUP vstart) vend s"

definition kinit1 :: "uint \<Rightarrow> uint \<Rightarrow> uint \<Rightarrow> 'a kmem_scheme \<Rightarrow> 'a kmem_scheme res" where
  "kinit1 kend vstart vend s =
     freerange kend vstart vend ((initlock KmemLock ''kmem'' s)\<lparr>use_lock := False\<rparr>)"

definition kinit2 :: "uint \<Rightarrow> uint \<Rightarrow> uint \<Rightarrow> 'a kmem_scheme \<Rightarrow> 'a kmem_scheme res" where
  "kinit2 kend vstart vend s =
     Rbind (freerange kend vstart vend s) (\<lambda>s. Inr (s\<lparr>use_lock := True\<rparr>))"

declare freerange_loop.simps [simp del]

section \<open>Closed forms\<close>

definition kmem_ready :: "'a kmem_scheme \<Rightarrow> bool" where
  "kmem_ready s \<longleftrightarrow> (use_lock s \<longrightarrow> lock_free KmemLock s \<and> cpu_ok s)"

definition kfin :: "'a kmem_scheme \<Rightarrow> 'a kmem_scheme \<Rightarrow> 'a kmem_scheme" where
  "kfin s t = (if use_lock s then t\<lparr>cpus := cpus (settled s)\<rparr> else t)"

definition page_ok :: "uint \<Rightarrow> uint \<Rightarrow> bool" where
  "page_ok kend v \<longleftrightarrow> v mod PGSIZE = 0 \<and> kend \<le> v \<and> v2p v < PHYSTOP"

lemma kfin_sel [simp]:
  "freelist (kfin s t) = freelist t" "pmem (kfin s t) = pmem t" "use_lock (kfin s t) = use_lock t"
  "locks (kfin s t) = locks t" "curcpu (kfin s t) = curcpu t"
  by (simp_all add: kfin_def)

lemma kmem_section:
  assumes "kmem_ready s" "use_lock t = use_lock s"
    "same_machine (if use_lock s then acquired KmemLock s else s) t"
  shows "kunlock t = Inr (kfin s (t\<lparr>locks := locks s\<rparr>))"
  using assms release_section [of KmemLock s t]
  by (auto simp: kunlock_def kmem_ready_def kfin_def same_machine_def)

lemma kalloc_eq:
  assumes "kmem_ready s"
  shows "kalloc s = Inr (freelist s,
    kfin s (if freelist s \<noteq> 0 then s\<lparr>freelist := pmem s (freelist s)\<rparr> else s))"
proof -
  let ?s1 = "if use_lock s then acquired KmemLock s else s"
  let ?t = "if freelist s \<noteq> 0 then ?s1\<lparr>freelist := pmem s (freelist s)\<rparr> else ?s1"
  have sel: "freelist ?s1 = freelist s" "pmem ?s1 = pmem s" "use_lock ?s1 = use_lock s"
    by (simp_all add: acquired_def upd_lock_def pushcli_def upd_cpu_def)
  have lk: "klock s = Inr ?s1"
    using assms by (simp add: klock_def kmem_ready_def)
  have un: "kunlock ?t = Inr (kfin s (?t\<lparr>locks := locks s\<rparr>))"
    by (rule kmem_section [OF assms]) (simp_all add: sel same_machine_def)
  have fin: "kfin s (?t\<lparr>locks := locks s\<rparr>) =
    kfin s (if freelist s \<noteq> 0 then s\<lparr>freelist := pmem s (freelist s)\<rparr> else s)"
    by (simp add: kfin_def acquired_def upd_lock_def pushcli_def upd_cpu_def)
  show ?thesis
    using un fin by (auto simp: kalloc_def lk sel Let_def split: if_splits)
qed

lemma kfree_eq:
  assumes "kmem_ready s" "page_ok kend v"
  shows "kfree kend v s = Inr (kfin s (s\<lparr>
    pmem := (page_fill v 0x01010101 (pmem s))(v := freelist s), freelist := v\<rparr>))"
proof -
  let ?s0 = "s\<lparr>pmem := page_fill v 0x01010101 (pmem s)\<rparr>"
  let ?s1 = "if use_lock s then acquired KmemLock ?s0 else ?s0"
  let ?t = "?s1\<lparr>pmem := (pmem ?s1)(v := freelist ?s1), freelist := v\<rparr>"
  have rdy: "kmem_ready ?s0"
    using assms(1) by (simp add: kmem_ready_def lock_free_def cpu_ok_def mycpu_def)
  have lk: "klock ?s0 = Inr ?s1"
    using rdy by (simp add: klock_def kmem_ready_def)
  have un: "kunlock ?t = Inr (kfin ?s0 (?t\<lparr>locks := locks ?s0\<rparr>))"
    by (rule kmem_section [OF rdy])
       (simp_all add: same_machine_def acquired_def upd_lock_def pushcli_def upd_cpu_def)
  have fin: "kfin ?s0 (?t\<lparr>locks := locks ?s0\<rparr>) = kfin s (s\<lparr>
    pmem := (page_fill v 0x01010101 (pmem s))(v := freelist s), freelist := v\<rparr>)"
    by (simp add: kfin_def settled_def acquired_def upd_lock_def pushcli_def upd_cpu_def)
  show ?thesis
    using assms(2) un fin by (simp add: kfree_def lk Let_def page_ok_def not_le not_less)
qed

section \<open>The free list\<close>

definition ptr_of :: "uint \<Rightarrow> uint ptr" where
  "ptr_of a = (if a = 0 then None else Some a)"

definition free_rel :: "uint \<Rightarrow> 'a kmem_scheme \<Rightarrow> uint list \<Rightarrow> bool" where
  "free_rel kend s ps \<longleftrightarrow> kmem_ready s \<and>
     chain (\<lambda>a. ptr_of (pmem s a)) (ptr_of (freelist s)) ps \<and> (\<forall>v\<in>set ps. page_ok kend v)"

lemma page_ok_nonzero: "page_ok kend v \<Longrightarrow> v \<noteq> 0"
  by (auto simp: page_ok_def v2p_def KERNBASE_def PHYSTOP_def)

lemma page_aligned_unique:
  assumes "v mod PGSIZE = 0" "a mod PGSIZE = 0" "v \<le> a" "a - v < PGSIZE"
  shows "a = v"
proof -
  have m: "unat v mod 4096 = 0" "unat a mod 4096 = 0"
    using assms(1,2) by (simp_all add: PGSIZE_def unat_eq_0 [symmetric] unat_mod)
  have "unat (a - v) = unat a - unat v"
    using assms(3) by (rule unat_sub)
  moreover have "unat (a - v) < 4096" "unat v \<le> unat a"
    using assms(3,4) by (simp_all add: PGSIZE_def word_less_nat_alt word_le_nat_alt)
  ultimately have "unat a < unat v + 4096" "unat v \<le> unat a"
    by simp_all
  with m have "unat a = unat v"
    by (auto simp: mod_eq_0_iff_dvd elim!: dvdE)
  then show ?thesis
    by (simp add: word_unat_eq_iff)
qed

lemma page_fill_other:
  "page_ok kend v \<Longrightarrow> page_ok kend a \<Longrightarrow> a \<noteq> v \<Longrightarrow> page_fill v w m a = m a"
  using page_aligned_unique [of v a] by (auto simp: page_fill_def page_ok_def)

lemma kmem_ready_kfin:
  "kmem_ready s \<Longrightarrow> use_lock t = use_lock s \<Longrightarrow> locks t = locks s \<Longrightarrow> cpus t = cpus s \<Longrightarrow>
   curcpu t = curcpu s \<Longrightarrow> kmem_ready (kfin s t)"
  by (auto simp: kmem_ready_def kfin_def lock_free_def cpu_ok_def mycpu_def)

lemma free_rel_distinct: "free_rel kend s ps \<Longrightarrow> distinct ps"
  by (auto simp: free_rel_def intro: chain_distinct)

lemma kfree_free_rel:
  assumes "free_rel kend s ps" "page_ok kend v" "v \<notin> set ps"
  shows "\<exists>t. kfree kend v s = Inr t \<and> free_rel kend t (v # ps)"
proof -
  let ?m = "(page_fill v 0x01010101 (pmem s))(v := freelist s)"
  let ?t = "kfin s (s\<lparr>pmem := ?m, freelist := v\<rparr>)"
  have rdy: "kmem_ready s" and ch: "chain (\<lambda>a. ptr_of (pmem s a)) (ptr_of (freelist s)) ps"
    and ok: "\<forall>a\<in>set ps. page_ok kend a"
    using assms(1) by (auto simp: free_rel_def)
  have "chain (\<lambda>a. ptr_of (?m a)) (ptr_of (freelist s)) ps \<longleftrightarrow>
      chain (\<lambda>a. ptr_of (pmem s a)) (ptr_of (freelist s)) ps"
    using assms(2,3) ok by (intro chain_cong) (auto simp: page_fill_other)
  moreover have "ptr_of v = Some v"
    using page_ok_nonzero [OF assms(2)] by (simp add: ptr_of_def)
  ultimately have "free_rel kend ?t (v # ps)"
    using ch ok assms(2) rdy by (simp add: free_rel_def kmem_ready_kfin)
  then show ?thesis
    using kfree_eq [OF rdy assms(2)] by simp
qed

lemma kalloc_free_rel_Cons:
  assumes "free_rel kend s (p # ps)"
  shows "\<exists>t. kalloc s = Inr (p, t) \<and> free_rel kend t ps"
proof -
  have rdy: "kmem_ready s" and p: "freelist s = p" "p \<noteq> 0"
    and ch: "chain (\<lambda>a. ptr_of (pmem s a)) (ptr_of (pmem s p)) ps"
    and ok: "\<forall>a\<in>set ps. page_ok kend a"
    using assms by (auto simp: free_rel_def ptr_of_def split: if_splits)
  have "free_rel kend (kfin s (s\<lparr>freelist := pmem s p\<rparr>)) ps"
    using rdy ch ok by (simp add: free_rel_def kmem_ready_kfin)
  then show ?thesis
    using kalloc_eq [OF rdy] p by simp
qed

lemma kalloc_free_rel_Nil:
  assumes "free_rel kend s []"
  shows "\<exists>t. kalloc s = Inr (0, t) \<and> free_rel kend t []"
proof -
  have rdy: "kmem_ready s" and "freelist s = 0"
    using assms by (auto simp: free_rel_def ptr_of_def split: if_splits)
  then show ?thesis
    using kalloc_eq [OF rdy] by (simp add: free_rel_def kmem_ready_kfin ptr_of_def)
qed

section \<open>The allocator's interface\<close>

text \<open>
  What the rest of the kernel relies on.  A client that frees only pages it holds
  sees every page in exactly one place: free, or with one holder.
\<close>

text \<open>
  The calls of the allocator's clients, as a sequence: \<open>None\<close> allocates, \<open>Some i\<close>
  frees the \<open>i\<close>th of the pages that are held.
\<close>

fun run_client ::
  "('s \<Rightarrow> (uint \<times> 's) res) \<Rightarrow> (uint \<Rightarrow> 's \<Rightarrow> 's res) \<Rightarrow> nat option list \<Rightarrow> uint list \<Rightarrow> 's \<Rightarrow>
   (uint list \<times> 's) res" where
  "run_client alloc free [] live s = Inr (live, s)"
| "run_client alloc free (None # ops) live s =
     Rbind (alloc s) (\<lambda>(p, s). run_client alloc free ops (if p = 0 then live else p # live) s)"
| "run_client alloc free (Some i # ops) live s =
     (if i < length live
      then Rbind (free (live ! i) s)
        (\<lambda>s. run_client alloc free ops (take i live @ drop (Suc i) live) s)
      else run_client alloc free ops live s)"

locale page_allocator =
  fixes alloc :: "'s \<Rightarrow> (uint \<times> 's) res"
    and free :: "uint \<Rightarrow> 's \<Rightarrow> 's res"
    and avail :: "'s \<Rightarrow> uint list \<Rightarrow> bool"
    and valid :: "uint \<Rightarrow> bool"
  assumes avail_valid: "avail s ps \<Longrightarrow> p \<in> set ps \<Longrightarrow> valid p"
    and avail_distinct: "avail s ps \<Longrightarrow> distinct ps"
    and valid_nonzero: "valid p \<Longrightarrow> p \<noteq> 0"
    and alloc_Cons: "avail s (p # ps) \<Longrightarrow> \<exists>t. alloc s = Inr (p, t) \<and> avail t ps"
    and alloc_Nil: "avail s [] \<Longrightarrow> \<exists>t. alloc s = Inr (0, t) \<and> avail t []"
    and free_avail: "avail s ps \<Longrightarrow> valid p \<Longrightarrow> p \<notin> set ps \<Longrightarrow>
      \<exists>t. free p s = Inr t \<and> avail t (p # ps)"
begin

lemma client_safe:
  assumes "avail s ps" "distinct (live @ ps)" "\<forall>p\<in>set live. valid p"
  shows "\<exists>live' s' ps'. run_client alloc free ops live s = Inr (live', s') \<and> avail s' ps' \<and>
    distinct (live' @ ps') \<and> set (live' @ ps') = set (live @ ps)"
  using assms
proof (induction ops arbitrary: live s ps)
  case Nil
  then show ?case by auto
next
  case (Cons op ops)
  note IH = Cons.IH and prems = Cons.prems
  consider (empty) "op = None" "ps = []"
    | (page) p ps' where "op = None" "ps = p # ps'"
    | (free) i where "op = Some i" "i < length live"
    | (skip) i where "op = Some i" "\<not> i < length live"
    by (cases op; cases ps) auto
  then show ?case
  proof cases
    case empty
    then obtain t where "alloc s = Inr (0, t)" "avail t []"
      using prems alloc_Nil by blast
    then show ?thesis
      using IH [of t "[]" live] prems(2,3) empty by auto
  next
    case page
    then obtain t where "alloc s = Inr (p, t)" "avail t ps'"
      using prems alloc_Cons by blast
    moreover have "valid p" "p \<noteq> 0"
      using prems(1) page avail_valid [of s ps p] valid_nonzero by auto
    ultimately show ?thesis
      using IH [of t ps' "p # live"] prems(2,3) page by auto
  next
    case free
    then obtain as x bs where live: "live = as @ x # bs" "live ! i = x"
      "take i live @ drop (Suc i) live = as @ bs"
      using id_take_nth_drop by blast
    then have d: "distinct ((as @ bs) @ x # ps)" "set ((as @ bs) @ x # ps) = set (live @ ps)"
      "\<forall>p\<in>set (as @ bs). valid p" "valid x" "x \<notin> set ps"
      using prems(2,3) by auto
    obtain t where t: "free x s = Inr t" "avail t (x # ps)"
      using free_avail [OF prems(1) d(4,5)] by auto
    show ?thesis
      using IH [OF t(2) d(1,3)] t(1) free live(2,3) d(2) by simp
  next
    case skip
    then show ?thesis
      using IH [OF prems] by simp
  qed
qed

end

interpretation km: page_allocator kalloc "kfree kend" "free_rel kend" "page_ok kend" for kend
proof
  show "free_rel kend s ps \<Longrightarrow> p \<in> set ps \<Longrightarrow> page_ok kend p" for s ps p
    by (auto simp: free_rel_def)
qed (auto intro: free_rel_distinct kalloc_free_rel_Cons kalloc_free_rel_Nil kfree_free_rel
    dest: page_ok_nonzero)

section \<open>Properties\<close>

text \<open>
  C6. However calls of \<open>kalloc\<close> and \<open>kfree\<close> are mixed, as long as pages are freed
  by their holder, every call returns, no page is ever handed out twice, no free
  page is held by anybody and no page is lost: held and free pages together are
  the same set of distinct pages throughout.
\<close>

theorem kalloc_no_double_allocation:
  assumes "free_rel kend s ps" "distinct (live @ ps)" "\<forall>p\<in>set live. page_ok kend p"
  shows "\<exists>live' s' ps'. run_client kalloc (kfree kend) ops live s = Inr (live', s') \<and>
    free_rel kend s' ps' \<and> distinct (live' @ ps') \<and> set (live' @ ps') = set (live @ ps)"
  by (rule km.client_safe [OF assms])

definition demo_kmem :: kmem where
  "demo_kmem =
     \<lparr>cpus = (\<lambda>_. \<lparr>eflags_IF = True, ncli = 0, intena = False, cproc = None\<rparr>), curcpu = 0,
      locks = (\<lambda>_. \<lparr>locked = False, lname = ''kmem'', lcpu = None\<rparr>),
      use_lock = True, freelist = 0x80401000,
      pmem = (\<lambda>_. 0)(0x80401000 := 0x80400000)\<rparr>"

lemma demo_kmem_free_rel: "free_rel 0x80400000 demo_kmem [0x80401000, 0x80400000]"
  by (simp add: free_rel_def demo_kmem_def kmem_ready_def lock_free_def cpu_ok_def mycpu_def
      ptr_of_def page_ok_def PGSIZE_def v2p_def KERNBASE_def PHYSTOP_def)

theorem kalloc_no_double_allocation_witness:
  "\<exists>live' s' ps'.
     run_client kalloc (kfree 0x80400000) [None, None, None, Some 0] [] demo_kmem = Inr (live', s') \<and>
     free_rel 0x80400000 s' ps' \<and> distinct (live' @ ps') \<and>
     set (live' @ ps') = {0x80401000, 0x80400000}"
  using kalloc_no_double_allocation [OF demo_kmem_free_rel, of "[]" "[None, None, None, Some 0]"]
  by simp

text \<open>
  \<open>freerange\<close> hands the allocator exactly the whole pages of the range, in
  descending order, and returns.
\<close>

definition page_range :: "uint \<Rightarrow> nat \<Rightarrow> uint list" where
  "page_range p n = map (\<lambda>i. p + of_nat i * PGSIZE) [0..<n]"

lemma page_range_Suc: "page_range p (Suc n) = p # page_range (p + PGSIZE) n"
proof -
  have "[0..<Suc n] = 0 # map Suc [0..<n]"
    by (simp add: upt_conv_Cons map_Suc_upt del: upt_Suc)
  then show ?thesis
    by (simp add: page_range_def algebra_simps comp_def del: upt_Suc)
qed

lemma freerange_loop_pages:
  assumes "free_rel kend s ps" "p mod PGSIZE = 0" "KERNBASE \<le> p" "kend \<le> p"
    "unat p + n * 4096 \<le> unat vend" "unat vend < unat p + Suc n * 4096"
    "unat vend \<le> 0x8E000000" "\<forall>a\<in>set ps. \<not> p \<le> a"
  shows "\<exists>t. freerange_loop kend p vend s = Inr t \<and> free_rel kend t (rev (page_range p n) @ ps)"
  using assms
proof (induction n arbitrary: p s ps)
  case 0
  then have "unat (p + PGSIZE) = unat p + 4096"
    by (simp add: PGSIZE_def unat_word_ariths)
  then have "\<not> p + PGSIZE \<le> vend"
    using 0 by (simp add: word_le_nat_alt)
  then show ?case
    using 0 by (subst freerange_loop.simps) (simp add: page_range_def)
next
  case (Suc n)
  have step: "unat (p + PGSIZE) = unat p + 4096"
    using Suc.prems by (simp add: PGSIZE_def unat_word_ariths)
  have "unat (v2p p) = unat p - unat KERNBASE"
    unfolding v2p_def using Suc.prems(3) by (rule unat_sub)
  then have pg: "page_ok kend p"
    using Suc.prems by (simp add: page_ok_def word_less_nat_alt KERNBASE_def PHYSTOP_def)
  then obtain t where t: "kfree kend p s = Inr t" "free_rel kend t (p # ps)"
    using kfree_free_rel [OF Suc.prems(1)] Suc.prems(8) by auto
  have "(unat p + 4096) mod 4096 = 0"
    using Suc.prems(2) by (simp add: PGSIZE_def unat_eq_0 [symmetric] unat_mod)
  then have "(p + PGSIZE) mod PGSIZE = 0"
    using step by (simp add: unat_eq_0 [symmetric] unat_mod PGSIZE_def)
  moreover have "\<forall>a\<in>set (p # ps). \<not> p + PGSIZE \<le> a"
    using Suc.prems(8) step by (auto simp: word_le_nat_alt)
  ultimately have "\<exists>u. freerange_loop kend (p + PGSIZE) vend t = Inr u \<and>
      free_rel kend u (rev (page_range (p + PGSIZE) n) @ p # ps)"
    using Suc.IH [OF t(2)] Suc.prems step by (auto simp: word_le_nat_alt)
  moreover have "p + PGSIZE \<le> vend"
    using Suc.prems step by (simp add: word_le_nat_alt)
  ultimately show ?case
    by (subst freerange_loop.simps) (simp add: t page_range_Suc)
qed

end
