(* ===== verification/ProcList.thy ===== *)
theory ProcList
  imports Kalloc
begin

text \<open>
  The process table of proc.c and its state lists (\<open>struct StateLists\<close>, in the
  build with \<^verbatim>\<open>CS333_P3P4\<close>): \<open>struct proc\<close>, the list heads, and the three list
  operations \<open>addhead\<close>, \<open>addtail\<close>, \<open>remove\<close> on the \<open>next\<close> pointers.

  A pointer to a process is its index in \<open>ptable.proc\<close>.  The heads are a function
  of the list's name; \<open>PReady i\<close> is the cell \<open>ready[i]\<close>.  Loops that follow \<open>next\<close>
  take at most \<open>NPROC + 1\<close> steps and give \<open>Diverge\<close> beyond: a list without a
  cycle has at most \<open>NPROC\<close> members.  The trap frame and the saved context live
  on the kernel stack in the code and are fields here; \<open>pcontext\<close> says where the
  process continues when it is switched to.
\<close>

section \<open>State\<close>

datatype procstate = UNUSED | EMBRYO | SLEEPING | RUNNABLE | RUNNING | ZOMBIE

record trapframe =
  tf_eax :: uint
  tf_esp :: uint
  tf_eip :: uint
  tf_cs :: uint
  tf_ds :: uint
  tf_es :: uint
  tf_ss :: uint
  tf_eflags :: uint
  tf_trapno :: uint
  tf_err :: uint

text \<open>
  Where a switched-out process stands: at the start of \<open>forkret\<close>, or after the
  \<open>swtch\<close> in \<open>sched\<close> with its saved \<open>intena\<close>, called from \<open>yield\<close>, from \<open>sleep\<close>
  (with its channel and lock argument, \<open>None\<close> a null lock) or from \<open>exit\<close>.
\<close>

datatype caller = FromYield | FromSleep chan "lockname option" | FromExit

datatype ctx = NoCtx | AtForkret | InSched bool caller

record proc =
  sz :: uint
  pgdir :: uint
  kstack :: uint
  state :: procstate
  pid :: uint
  parent :: "nat ptr"
  tf :: trapframe
  pcontext :: ctx
  pchan :: chan
  killed :: bool
  ofile :: "nat \<Rightarrow> nat ptr"
  cwd :: "nat ptr"
  pname :: string
  start_ticks :: uint
  uid :: uint
  gid :: uint
  cpu_ticks_total :: uint
  cpu_ticks_in :: uint
  pnext :: "nat ptr"
  budget :: uint
  prio :: int

datatype listhead = PReady int | PFree | PSleep | PZombie | PRunning | PEmbryo

record ptable = kmem +
  ptab :: "nat \<Rightarrow> proc"
  pLists :: "listhead \<Rightarrow> nat ptr"
  PromoteAtTime :: uint
  initproc :: "nat ptr"
  nextpid :: uint
  ticks :: uint

definition upd_proc :: "nat \<Rightarrow> (proc \<Rightarrow> proc) \<Rightarrow> 'a ptable_scheme \<Rightarrow> 'a ptable_scheme" where
  "upd_proc p f s = s\<lparr>ptab := (ptab s)(p := f (ptab s p))\<rparr>"

definition set_head :: "listhead \<Rightarrow> nat ptr \<Rightarrow> 'a ptable_scheme \<Rightarrow> 'a ptable_scheme" where
  "set_head r q s = s\<lparr>pLists := (pLists s)(r := q)\<rparr>"

definition set_next :: "nat \<Rightarrow> nat ptr \<Rightarrow> 'a ptable_scheme \<Rightarrow> 'a ptable_scheme" where
  "set_next p q s = upd_proc p (\<lambda>x. x\<lparr>pnext := q\<rparr>) s"

definition LISTFUEL :: nat where "LISTFUEL = NPROC + 1"

section \<open>List operations\<close>

definition addhead :: "listhead \<Rightarrow> nat \<Rightarrow> 'a ptable_scheme \<Rightarrow> 'a ptable_scheme" where
  "addhead r p s = set_head r (Some p) (set_next p (pLists s r) s)"

fun last_node :: "nat \<Rightarrow> (nat \<Rightarrow> proc) \<Rightarrow> nat \<Rightarrow> nat option" where
  "last_node 0 h c = None"
| "last_node (Suc n) h c = (case pnext (h c) of None \<Rightarrow> Some c | Some d \<Rightarrow> last_node n h d)"

definition addtail :: "listhead \<Rightarrow> nat \<Rightarrow> 'a ptable_scheme \<Rightarrow> 'a ptable_scheme res" where
  "addtail r p s =
     (case pLists s r of
        None \<Rightarrow> Inr (set_next p None (set_head r (Some p) s))
      | Some c \<Rightarrow>
          (case last_node LISTFUEL (ptab s) c of
             None \<Rightarrow> Inl Diverge
           | Some c \<Rightarrow> Inr (set_next p None (set_next c (Some p) s))))"

text \<open>The search loop of \<open>remove\<close>: the final \<open>previous\<close> and \<open>current\<close>.\<close>

fun remove_loop ::
  "nat \<Rightarrow> (nat \<Rightarrow> proc) \<Rightarrow> nat ptr \<Rightarrow> nat ptr \<Rightarrow> nat \<Rightarrow> (nat ptr \<times> nat ptr) option" where
  "remove_loop n h pv None p = Some (pv, None)"
| "remove_loop 0 h pv (Some c) p = None"
| "remove_loop (Suc n) h pv (Some c) p =
     (if c \<noteq> p then remove_loop n h (Some c) (pnext (h c)) p else Some (pv, Some c))"

definition remove :: "listhead \<Rightarrow> nat \<Rightarrow> 'a ptable_scheme \<Rightarrow> (int \<times> 'a ptable_scheme) res" where
  "remove r p s =
     (case pLists s r of
        None \<Rightarrow> Inr (-1, s)
      | Some h0 \<Rightarrow>
          if h0 = p then Inr (0, set_next p None (set_head r (pnext (ptab s p)) s))
          else
            (case remove_loop LISTFUEL (ptab s) None (Some h0) p of
               None \<Rightarrow> Inl Diverge
             | Some (_, None) \<Rightarrow> Inr (-1, s)
             | Some (None, Some c) \<Rightarrow> Inl Fault
             | Some (Some pv, Some c) \<Rightarrow>
                 Inr (0, set_next c None (set_next pv (pnext (ptab s c)) s))))"

text \<open>\<open>assert\<close> of proc.c, and the idiom \<^verbatim>\<open>if(remove(...)) panic(msg)\<close>.\<close>

definition assert_state :: "nat \<Rightarrow> procstate \<Rightarrow> 'a ptable_scheme \<Rightarrow> 'a ptable_scheme res" where
  "assert_state p st s =
     (if state (ptab s p) \<noteq> st then Inl (Panic ''Error, invalid state removal'') else Inr s)"

definition remove_or_panic ::
  "listhead \<Rightarrow> nat \<Rightarrow> string \<Rightarrow> 'a ptable_scheme \<Rightarrow> 'a ptable_scheme res" where
  "remove_or_panic r p msg s =
     Rbind (remove r p s) (\<lambda>(rc, s). if rc \<noteq> 0 then Inl (Panic msg) else Inr s)"

text \<open>
  The two shapes of read loop over a list.  \<open>find_list\<close>: walk to the first member
  that satisfies a test.  \<open>each_list\<close>: run an assignment to fields other than
  \<open>next\<close> on every member.
\<close>

fun find_loop :: "nat \<Rightarrow> (proc \<Rightarrow> bool) \<Rightarrow> (nat \<Rightarrow> proc) \<Rightarrow> nat ptr \<Rightarrow> nat ptr res" where
  "find_loop n P h None = Inr None"
| "find_loop 0 P h (Some p) = Inl Diverge"
| "find_loop (Suc n) P h (Some p) =
     (if P (h p) then Inr (Some p) else find_loop n P h (pnext (h p)))"

definition find_list :: "(proc \<Rightarrow> bool) \<Rightarrow> listhead \<Rightarrow> 'a ptable_scheme \<Rightarrow> nat ptr res" where
  "find_list P r s = find_loop LISTFUEL P (ptab s) (pLists s r)"

fun find_lists :: "(proc \<Rightarrow> bool) \<Rightarrow> listhead list \<Rightarrow> 'a ptable_scheme \<Rightarrow> nat ptr res" where
  "find_lists P [] s = Inr None"
| "find_lists P (r # rs) s =
     Rbind (find_list P r s) (\<lambda>q. if q = None then find_lists P rs s else Inr q)"

fun each_loop ::
  "nat \<Rightarrow> (proc \<Rightarrow> proc) \<Rightarrow> nat ptr \<Rightarrow> 'a ptable_scheme \<Rightarrow> 'a ptable_scheme res" where
  "each_loop n f None s = Inr s"
| "each_loop 0 f (Some p) s = Inl Diverge"
| "each_loop (Suc n) f (Some p) s =
     (let s = upd_proc p f s in each_loop n f (pnext (ptab s p)) s)"

definition each_list ::
  "(proc \<Rightarrow> proc) \<Rightarrow> listhead \<Rightarrow> 'a ptable_scheme \<Rightarrow> 'a ptable_scheme res" where
  "each_list f r s = each_loop LISTFUEL f (pLists s r) s"

fun each_lists ::
  "(proc \<Rightarrow> proc) \<Rightarrow> listhead list \<Rightarrow> 'a ptable_scheme \<Rightarrow> 'a ptable_scheme res" where
  "each_lists f [] s = Inr s"
| "each_lists f (r # rs) s = Rbind (each_list f r s) (each_lists f rs)"

definition ready_lists :: "listhead list" where
  "ready_lists = map PReady [0, 1, 2, 3, 4, 5]"

section \<open>The lists as sequences\<close>

definition nexts :: "'a ptable_scheme \<Rightarrow> nat \<Rightarrow> nat ptr" where
  "nexts s = (\<lambda>p. pnext (ptab s p))"

definition lists_ok :: "'a ptable_scheme \<Rightarrow> (listhead \<Rightarrow> nat list) \<Rightarrow> bool" where
  "lists_ok s L \<longleftrightarrow>
     (\<forall>r. chain (nexts s) (pLists s r) (L r)) \<and>
     (\<forall>r r'. r \<noteq> r' \<longrightarrow> set (L r) \<inter> set (L r') = {}) \<and>
     (\<forall>r. set (L r) \<subseteq> {..<NPROC})"

definition forget :: "(nat \<Rightarrow> proc) \<Rightarrow> nat \<Rightarrow> proc" where
  "forget h p = (h p)\<lparr>pnext := None\<rparr>"

text \<open>\<open>t\<close> differs from \<open>s\<close> only in list heads and \<open>next\<close> pointers.\<close>

definition relinked :: "'a ptable_scheme \<Rightarrow> 'a ptable_scheme \<Rightarrow> bool" where
  "relinked s t \<longleftrightarrow> t = s\<lparr>ptab := ptab t, pLists := pLists t\<rparr> \<and> forget (ptab t) = forget (ptab s)"

lemma relinked_refl [simp]: "relinked s s"
  by (simp add: relinked_def)

lemma relinked_trans [trans]: "relinked s t \<Longrightarrow> relinked t u \<Longrightarrow> relinked s u"
proof -
  assume st: "relinked s t" and tu: "relinked t u"
  have "u = (s\<lparr>ptab := ptab t, pLists := pLists t\<rparr>)\<lparr>ptab := ptab u, pLists := pLists u\<rparr>"
    using st tu unfolding relinked_def by metis
  also have "\<dots> = s\<lparr>ptab := ptab u, pLists := pLists u\<rparr>"
    by simp
  finally show ?thesis
    using st tu unfolding relinked_def by metis
qed

lemma lists_ok_distinct: "lists_ok s L \<Longrightarrow> distinct (L r)"
  by (auto simp: lists_ok_def intro: chain_distinct)

lemma lists_ok_length: "lists_ok s L \<Longrightarrow> length (L r) \<le> NPROC"
proof -
  assume ok: "lists_ok s L"
  have "length (L r) = card (set (L r))"
    using lists_ok_distinct [OF ok] by (simp add: distinct_card)
  also have "\<dots> \<le> card {..<NPROC}"
    using ok by (intro card_mono) (auto simp: lists_ok_def)
  finally show ?thesis by simp
qed

lemma lists_ok_fuel: "lists_ok s L \<Longrightarrow> length (L r) \<le> LISTFUEL"
  using lists_ok_length [of s L r] by (simp add: LISTFUEL_def)

lemma lists_okI_sub:
  assumes "lists_ok s L" "\<And>r. chain (nexts t) (pLists t r) (L' r)" "\<And>r. set (L' r) \<subseteq> set (L r)"
  shows "lists_ok t L'"
  using assms unfolding lists_ok_def by blast

lemma set_sel [simp]:
  "ptab (set_next p q s) = (ptab s)(p := (ptab s p)\<lparr>pnext := q\<rparr>)"
  "pLists (set_next p q s) = pLists s"
  "ptab (set_head r q s) = ptab s"
  "pLists (set_head r q s) = (pLists s)(r := q)"
  "ptab (upd_proc p f s) = (ptab s)(p := f (ptab s p))"
  "pLists (upd_proc p f s) = pLists s"
  by (simp_all add: set_next_def set_head_def upd_proc_def)

lemma nexts_set [simp]:
  "nexts (set_next p q s) = (nexts s)(p := q)" "nexts (set_head r q s) = nexts s"
  by (auto simp: nexts_def)

lemma nexts_upd_proc [simp]: "(\<And>x. pnext (f x) = pnext x) \<Longrightarrow> nexts (upd_proc p f s) = nexts s"
  by (auto simp: nexts_def)

lemma relinked_set_next [simp]: "relinked s (set_next p q s)"
  by (auto simp: relinked_def set_next_def upd_proc_def forget_def)

lemma relinked_set_head [simp]: "relinked s (set_head r q s)"
  by (auto simp: relinked_def set_head_def)

lemma last_node_chain:
  "chain (\<lambda>p. pnext (h p)) (Some c) xs \<Longrightarrow> length xs \<le> n \<Longrightarrow> last_node n h c = Some (last xs)"
proof (induction n h c arbitrary: xs rule: last_node.induct)
  case (1 h c)
  then show ?case by (simp add: chain_Some)
next
  case (2 n h c)
  then obtain ys where xs: "xs = c # ys" and ch: "chain (\<lambda>p. pnext (h p)) (pnext (h c)) ys"
    by (auto simp: chain_Some)
  show ?case
  proof (cases "pnext (h c)")
    case None
    with xs ch show ?thesis by simp
  next
    case (Some d)
    with ch 2 xs have "last_node n h d = Some (last ys)" "ys \<noteq> []"
      by (auto simp: chain_Some)
    with xs Some show ?thesis by simp
  qed
qed

lemma remove_loop_found:
  "chain (\<lambda>p. pnext (h p)) c (xs @ p # ys) \<Longrightarrow> p \<notin> set xs \<Longrightarrow> length xs < n \<Longrightarrow>
   remove_loop n h pv c p = Some (if xs = [] then pv else Some (last xs), Some p)"
proof (induction xs arbitrary: n pv c)
  case Nil
  then show ?case by (cases n) auto
next
  case (Cons x xs)
  then show ?case by (cases n) auto
qed

lemma remove_loop_missing:
  "chain (\<lambda>p. pnext (h p)) c xs \<Longrightarrow> p \<notin> set xs \<Longrightarrow> length xs \<le> n \<Longrightarrow>
   \<exists>pv'. remove_loop n h pv c p = Some (pv', None)"
proof (induction xs arbitrary: n pv c)
  case Nil
  then show ?case by simp
next
  case (Cons x xs)
  then show ?case by (cases n) auto
qed

section \<open>Each operation on the sequences\<close>

definition unlinked :: "nat \<Rightarrow> (listhead \<Rightarrow> nat list) \<Rightarrow> bool" where
  "unlinked p L \<longleftrightarrow> (\<forall>r. p \<notin> set (L r))"

lemma lists_okI:
  assumes "\<And>r. chain (nexts s) (pLists s r) (L r)"
    and "\<And>r r'. r \<noteq> r' \<Longrightarrow> set (L r) \<inter> set (L r') = {}"
    and "\<And>r. set (L r) \<subseteq> {..<NPROC}"
  shows "lists_ok s L"
  using assms by (auto simp: lists_ok_def)

lemma addhead_lists:
  assumes "lists_ok s L" "p < NPROC" "unlinked p L"
  shows "lists_ok (addhead r p s) (L(r := p # L r)) \<and> relinked s (addhead r p s)"
proof
  show "lists_ok (addhead r p s) (L(r := p # L r))"
    using assms by (auto simp: lists_ok_def addhead_def unlinked_def)
  show "relinked s (addhead r p s)"
    unfolding addhead_def by (rule relinked_trans [OF relinked_set_next relinked_set_head])
qed

lemma addtail_lists:
  assumes ok: "lists_ok s L" and p: "p < NPROC" "unlinked p L"
  shows "\<exists>t. addtail r p s = Inr t \<and> lists_ok t (L(r := L r @ [p])) \<and> relinked s t"
proof (cases "pLists s r")
  case None
  then have "L r = []"
    using ok by (auto simp: lists_ok_def dest!: spec [of _ r])
  moreover have "relinked s (set_next p None (set_head r (Some p) s))"
    by (rule relinked_trans [OF relinked_set_head relinked_set_next])
  ultimately show ?thesis
    using None assms
    by (auto simp: addtail_def lists_ok_def unlinked_def)
next
  case (Some c)
  have ch: "chain (nexts s) (Some c) (L r)" and ne: "L r \<noteq> []"
    using ok Some by (auto simp: lists_ok_def dest!: spec [of _ r])
  then obtain xs l where L: "L r = xs @ [l]"
    by (metis append_butlast_last_id)
  let ?t = "set_next p None (set_next l (Some p) s)"
  have "last_node LISTFUEL (ptab s) c = Some l"
    using last_node_chain [OF ch [unfolded nexts_def] lists_ok_fuel [OF ok]] L by simp
  then have eq: "addtail r p s = Inr ?t"
    using Some by (simp add: addtail_def)
  have notin: "p \<notin> set (L r')" for r'
    using p(2) by (simp add: unlinked_def)
  have other: "l \<notin> set (L r')" if "r' \<noteq> r" for r'
    using ok that L unfolding lists_ok_def by (metis disjoint_iff in_set_conv_decomp)
  have "l \<notin> set xs" "p \<noteq> l" "p \<notin> set xs"
    using lists_ok_distinct [OF ok, of r] notin [of r] by (auto simp: L)
  then have tail: "chain ((nexts s)(l := Some p, p := None)) (Some c) (L r @ [p])"
    using ch by (auto simp: L chain_append)
  have "lists_ok ?t (L(r := L r @ [p]))"
  proof (rule lists_okI)
    show "chain (nexts ?t) (pLists ?t r') ((L(r := L r @ [p])) r')" for r'
      using ok notin other [of r'] tail Some by (auto simp: lists_ok_def)
  qed (use ok p notin in \<open>auto simp: lists_ok_def\<close>)
  moreover have "relinked s ?t"
    by (rule relinked_trans [OF relinked_set_next relinked_set_next])
  ultimately show ?thesis
    using eq by blast
qed

lemma remove_lists:
  assumes ok: "lists_ok s L" and mem: "p \<in> set (L r)"
  shows "\<exists>t. remove r p s = Inr (0, t) \<and> lists_ok t (L(r := remove1 p (L r))) \<and> relinked s t"
proof -
  obtain xs ys where L: "L r = xs @ p # ys" and xs: "p \<notin> set xs"
    using mem by (meson split_list_first)
  have d: "distinct (xs @ p # ys)"
    using lists_ok_distinct [OF ok, of r] L by simp
  have ch: "chain (nexts s) (pLists s r) (xs @ p # ys)"
    using ok L by (metis lists_ok_def)
  have other: "q \<notin> set (L r')" if "r' \<noteq> r" "q \<in> set (L r)" for q r'
    using ok that by (auto simp: lists_ok_def)
  have rm: "remove1 p (L r) = xs @ ys"
    using L xs by (simp add: remove1_append)
  show ?thesis
  proof (cases "xs = []")
    case True
    let ?t = "set_next p None (set_head r (nexts s p) s)"
    have "remove r p s = Inr (0, ?t)"
      using ch True by (simp add: remove_def nexts_def)
    moreover have "lists_ok ?t (L(r := remove1 p (L r)))"
    proof (rule lists_okI_sub [OF ok])
      show "chain (nexts ?t) (pLists ?t r') ((L(r := remove1 p (L r))) r')" for r'
        using ok ch True d rm other [of r' p] mem by (auto simp: lists_ok_def)
    qed (simp add: set_remove1_subset)
    moreover have "relinked s ?t"
      by (rule relinked_trans [OF relinked_set_head relinked_set_next])
    ultimately show ?thesis by blast
  next
    case False
    then obtain zs x where zs: "xs = zs @ [x]"
      by (metis append_butlast_last_id)
    then obtain h0 where hd: "pLists s r = Some h0" "h0 \<noteq> p"
      using ch xs by (cases zs) auto
    let ?t = "set_next p None (set_next x (nexts s p) s)"
    have "remove_loop LISTFUEL (ptab s) None (Some h0) p = Some (Some x, Some p)"
      using remove_loop_found [of "ptab s" "Some h0" xs p ys LISTFUEL None] ch xs zs hd
        lists_ok_fuel [OF ok, of r] L by (simp add: nexts_def)
    then have eq: "remove r p s = Inr (0, ?t)"
      using hd by (simp add: remove_def nexts_def)
    have new: "chain ((nexts s)(x := nexts s p, p := None)) (pLists s r) (xs @ ys)"
      using ch d zs by (auto simp: chain_append)
    have "lists_ok ?t (L(r := remove1 p (L r)))"
    proof (rule lists_okI_sub [OF ok])
      show "chain (nexts ?t) (pLists ?t r') ((L(r := remove1 p (L r))) r')" for r'
        using ok new rm other [of r' p] other [of r' x] L zs by (auto simp: lists_ok_def)
    qed (simp add: set_remove1_subset)
    moreover have "relinked s ?t"
      by (rule relinked_trans [OF relinked_set_next relinked_set_next])
    ultimately show ?thesis
      using eq by blast
  qed
qed

lemma remove_missing:
  assumes ok: "lists_ok s L" and "p \<notin> set (L r)"
  shows "remove r p s = Inr (-1, s)"
proof (cases "pLists s r")
  case None
  then show ?thesis by (simp add: remove_def)
next
  case (Some h0)
  have ch: "chain (nexts s) (Some h0) (L r)"
    using ok Some by (metis lists_ok_def)
  then have "h0 \<noteq> p"
    using assms(2) by (auto simp: chain_Some)
  moreover obtain pv where "remove_loop LISTFUEL (ptab s) None (Some h0) p = Some (pv, None)"
    using remove_loop_missing [OF ch [unfolded nexts_def] assms(2) lists_ok_fuel [OF ok]] by blast
  ultimately show ?thesis
    using Some by (cases pv) (simp_all add: remove_def)
qed

section \<open>The contract of the list operations\<close>

text \<open>
  A process belongs to the list that its state (and, when ready, its priority)
  names.  \<open>placed\<close> says that the lists agree with the table.
\<close>

definition home :: "proc \<Rightarrow> listhead" where
  "home x = (case state x of
     UNUSED \<Rightarrow> PFree | EMBRYO \<Rightarrow> PEmbryo | SLEEPING \<Rightarrow> PSleep | RUNNABLE \<Rightarrow> PReady (prio x)
   | RUNNING \<Rightarrow> PRunning | ZOMBIE \<Rightarrow> PZombie)"

definition prio_ok :: "proc \<Rightarrow> bool" where
  "prio_ok x \<longleftrightarrow> 0 \<le> prio x \<and> prio x \<le> MAXP"

definition placed :: "(listhead \<Rightarrow> nat list) \<Rightarrow> (nat \<Rightarrow> proc) \<Rightarrow> bool" where
  "placed L h \<longleftrightarrow> (\<forall>p<NPROC. prio_ok (h p) \<and> (\<forall>r. p \<in> set (L r) \<longleftrightarrow> r = home (h p)))"

text \<open>Field updates that neither read nor write \<open>next\<close>.\<close>

definition skips_next :: "(proc \<Rightarrow> proc) \<Rightarrow> bool" where
  "skips_next f \<longleftrightarrow> (\<forall>x n. f (x\<lparr>pnext := n\<rparr>) = (f x)\<lparr>pnext := n\<rparr>)"

text \<open>The lists after taking \<open>p\<close> off \<open>r\<close> and putting it on \<open>r'\<close>.\<close>

definition moved_head ::
  "listhead \<Rightarrow> listhead \<Rightarrow> nat \<Rightarrow> (listhead \<Rightarrow> nat list) \<Rightarrow> listhead \<Rightarrow> nat list" where
  "moved_head r r' p L = (let L = L(r := remove1 p (L r)) in L(r' := p # L r'))"

definition moved_tail ::
  "listhead \<Rightarrow> listhead \<Rightarrow> nat \<Rightarrow> (listhead \<Rightarrow> nat list) \<Rightarrow> listhead \<Rightarrow> nat list" where
  "moved_tail r r' p L = (let L = L(r := remove1 p (L r)) in L(r' := L r' @ [p]))"

lemma pnext_skips: "skips_next f \<Longrightarrow> pnext (f x) = pnext x"
proof -
  assume "skips_next f"
  then have "f (x\<lparr>pnext := pnext x\<rparr>) = (f x)\<lparr>pnext := pnext x\<rparr>"
    by (simp only: skips_next_def)
  then have "f x = (f x)\<lparr>pnext := pnext x\<rparr>"
    by simp
  then show ?thesis
    by (metis proc.select_convs(19) proc.surjective proc.update_convs(19))
qed

lemma home_next [simp]: "home (x\<lparr>pnext := n\<rparr>) = home x" "prio_ok (x\<lparr>pnext := n\<rparr>) = prio_ok x"
  by (simp_all add: home_def prio_ok_def split: procstate.splits)

lemma forget_eqD: "forget h = forget g \<Longrightarrow> (h p)\<lparr>pnext := None\<rparr> = (g p)\<lparr>pnext := None\<rparr>"
  by (metis forget_def)

lemma placed_forget: "forget h = forget g \<Longrightarrow> placed L h = placed L g"
  unfolding placed_def by (metis forget_eqD home_next)

lemma placed_move:
  assumes "placed L h" "p < NPROC" "prio_ok x"
    "\<And>r. set (L' r) = (if r = home x then insert p (set (L r))
           else if r = home (h p) then set (L r) - {p} else set (L r))"
  shows "placed L' (h(p := x))"
proof -
  have "q \<in> set (L' r) \<longleftrightarrow> r = home ((h(p := x)) q)" if "q < NPROC" for q r
    using assms(1,2) that unfolding assms(4) placed_def by (cases "q = p") auto
  moreover have "prio_ok ((h(p := x)) q)" if "q < NPROC" for q
    using assms(1,3) that by (simp add: placed_def)
  ultimately show ?thesis
    unfolding placed_def by blast
qed

lemma forget_upd:
  "skips_next f \<Longrightarrow> forget h = forget g \<Longrightarrow>
   forget (h(p := f (h p))) = forget (g(p := f (g p)))"
proof
  fix q assume f: "skips_next f" and hg: "forget h = forget g"
  have "(f (h p))\<lparr>pnext := None\<rparr> = (f (g p))\<lparr>pnext := None\<rparr>"
    using forget_eqD [OF hg, of p] f by (metis skips_next_def)
  then show "forget (h(p := f (h p))) q = forget (g(p := f (g p))) q"
    using forget_eqD [OF hg, of q] by (simp add: forget_def)
qed

text \<open>
  What the process operations rely on.  \<open>lrel s L\<close>: the lists of \<open>s\<close> are the
  sequences \<open>L\<close>; \<open>same s t\<close>: only links differ.
\<close>

locale state_lists =
  fixes lrel :: "'s \<Rightarrow> (listhead \<Rightarrow> nat list) \<Rightarrow> bool"
    and tab :: "'s \<Rightarrow> nat \<Rightarrow> proc"
    and same :: "'s \<Rightarrow> 's \<Rightarrow> bool"
    and upd :: "nat \<Rightarrow> (proc \<Rightarrow> proc) \<Rightarrow> 's \<Rightarrow> 's"
    and addh :: "listhead \<Rightarrow> nat \<Rightarrow> 's \<Rightarrow> 's"
    and addt :: "listhead \<Rightarrow> nat \<Rightarrow> 's \<Rightarrow> 's res"
    and del :: "listhead \<Rightarrow> nat \<Rightarrow> 's \<Rightarrow> (int \<times> 's) res"
  assumes addh_law: "lrel s L \<Longrightarrow> p < NPROC \<Longrightarrow> unlinked p L \<Longrightarrow>
      lrel (addh r p s) (L(r := p # L r)) \<and> same s (addh r p s)"
    and addt_law: "lrel s L \<Longrightarrow> p < NPROC \<Longrightarrow> unlinked p L \<Longrightarrow>
      \<exists>t. addt r p s = Inr t \<and> lrel t (L(r := L r @ [p])) \<and> same s t"
    and del_law: "lrel s L \<Longrightarrow> p \<in> set (L r) \<Longrightarrow>
      \<exists>t. del r p s = Inr (0, t) \<and> lrel t (L(r := remove1 p (L r))) \<and> same s t"
    and distinct_law: "lrel s L \<Longrightarrow> distinct (L r)"
    and upd_law: "skips_next f \<Longrightarrow> lrel (upd p f s) L = lrel s L"
    and upd_tab: "tab (upd p f s) = (tab s)(p := f (tab s p))"
    and upd_same: "skips_next f \<Longrightarrow> same s t \<Longrightarrow> same (upd p f s) (upd p f t)"
    and same_tab: "same s t \<Longrightarrow> forget (tab t) = forget (tab s)"
    and same_trans: "same s t \<Longrightarrow> same t u \<Longrightarrow> same s u"
begin

definition linv :: "(listhead \<Rightarrow> nat list) \<Rightarrow> 's \<Rightarrow> bool" where
  "linv L s \<longleftrightarrow> lrel s L \<and> placed L (tab s)"

lemma home_mem: "linv L s \<Longrightarrow> p < NPROC \<Longrightarrow> p \<in> set (L r) \<longleftrightarrow> r = home (tab s p)"
  by (simp add: linv_def placed_def)

lemma linv_same: "linv L s \<Longrightarrow> same s t \<Longrightarrow> lrel t L \<Longrightarrow> linv L t"
  unfolding linv_def by (metis same_tab placed_forget)

lemma linv_upd:
  assumes "linv L s" "skips_next f" "p < NPROC \<Longrightarrow> home (f (tab s p)) = home (tab s p)"
    "p < NPROC \<Longrightarrow> prio_ok (f (tab s p))"
  shows "linv L (upd p f s)"
  using assms by (auto simp: linv_def placed_def upd_law upd_tab)

lemma take_off:
  assumes "linv L s" "p < NPROC" "r = home (tab s p)" "skips_next f"
  obtains s1 where "del r p s = Inr (0, s1)" "same s s1"
    "lrel (upd p f s1) (L(r := remove1 p (L r)))" "same (upd p f s) (upd p f s1)"
    "unlinked p (L(r := remove1 p (L r)))"
proof -
  have l: "lrel s L" and m: "p \<in> set (L r)"
    using assms by (simp_all add: home_mem) (simp add: linv_def)
  obtain s1 where s1: "del r p s = Inr (0, s1)" "lrel s1 (L(r := remove1 p (L r)))" "same s s1"
    using del_law [OF l m] by blast
  have "unlinked p (L(r := remove1 p (L r)))"
    using assms distinct_law [OF l, of r] home_mem [OF assms(1,2)] by (simp add: unlinked_def)
  then show ?thesis
    using that s1 upd_law upd_same assms(4) by blast
qed

lemma placed_moved:
  assumes "linv L s" "p < NPROC" "same (upd p f s) t" "prio_ok (f (tab s p))"
    "L' = moved_head (home (tab s p)) (home (f (tab s p))) p L \<or>
     L' = moved_tail (home (tab s p)) (home (f (tab s p))) p L"
  shows "placed L' (tab t)"
proof -
  have d: "distinct (L r)" for r
    using assms(1) distinct_law unfolding linv_def by blast
  have "placed L' ((tab s)(p := f (tab s p)))"
  proof (rule placed_move)
    show "placed L (tab s)"
      using assms(1) by (simp add: linv_def)
    show "set (L' r) = (if r = home (f (tab s p)) then insert p (set (L r))
           else if r = home (tab s p) then set (L r) - {p} else set (L r))" for r
      using assms(5) d home_mem [OF assms(1,2)]
      by (auto simp: moved_head_def moved_tail_def Let_def)
  qed (use assms d in auto)
  then show ?thesis
    using placed_forget [OF same_tab [OF assms(3)]] by (simp add: upd_tab)
qed

lemma move_head:
  assumes "linv L s" "p < NPROC" "skips_next f" "prio_ok (f (tab s p))"
  obtains s1 where "del (home (tab s p)) p s = Inr (0, s1)" "same s s1"
    "linv (moved_head (home (tab s p)) (home (f (tab s p))) p L)
       (addh (home (f (tab s p))) p (upd p f s1))"
    "same (upd p f s) (addh (home (f (tab s p))) p (upd p f s1))"
proof -
  let ?r = "home (tab s p)" and ?r' = "home (f (tab s p))"
  obtain s1 where s1: "del ?r p s = Inr (0, s1)" "same s s1"
    "lrel (upd p f s1) (L(?r := remove1 p (L ?r)))" "same (upd p f s) (upd p f s1)"
    "unlinked p (L(?r := remove1 p (L ?r)))"
    using take_off [OF assms(1,2) refl assms(3)] by blast
  have t: "lrel (addh ?r' p (upd p f s1)) (moved_head ?r ?r' p L)"
    "same (upd p f s1) (addh ?r' p (upd p f s1))"
    using addh_law [OF s1(3) assms(2) s1(5), of ?r'] by (simp_all add: moved_head_def Let_def)
  then have "same (upd p f s) (addh ?r' p (upd p f s1))"
    using s1(4) same_trans by blast
  then show ?thesis
    using that [OF s1(1,2)] t(1) placed_moved [OF assms(1,2), of f] assms(4) by (simp add: linv_def)
qed

lemma move_tail:
  assumes "linv L s" "p < NPROC" "skips_next f" "prio_ok (f (tab s p))"
  obtains s1 t where "del (home (tab s p)) p s = Inr (0, s1)" "same s s1"
    "addt (home (f (tab s p))) p (upd p f s1) = Inr t"
    "linv (moved_tail (home (tab s p)) (home (f (tab s p))) p L) t" "same (upd p f s) t"
proof -
  let ?r = "home (tab s p)" and ?r' = "home (f (tab s p))"
  obtain s1 where s1: "del ?r p s = Inr (0, s1)" "same s s1"
    "lrel (upd p f s1) (L(?r := remove1 p (L ?r)))" "same (upd p f s) (upd p f s1)"
    "unlinked p (L(?r := remove1 p (L ?r)))"
    using take_off [OF assms(1,2) refl assms(3)] by blast
  obtain t where t: "addt ?r' p (upd p f s1) = Inr t"
    "lrel t (moved_tail ?r ?r' p L)" "same (upd p f s1) t"
    using addt_law [OF s1(3) assms(2) s1(5), of ?r'] by (auto simp: moved_tail_def Let_def)
  then have "same (upd p f s) t"
    using s1(4) same_trans by blast
  then show ?thesis
    using that [OF s1(1,2) t(1)] t(2) placed_moved [OF assms(1,2), of f] assms(4) by (simp add: linv_def)
qed

end

section \<open>The contract holds\<close>

lemma lists_ok_cong: "nexts t = nexts s \<Longrightarrow> pLists t = pLists s \<Longrightarrow> lists_ok t L = lists_ok s L"
  by (simp add: lists_ok_def)

lemma upd_relinked:
  assumes "skips_next f" "relinked s t"
  shows "relinked (upd_proc p f s) (upd_proc p f t)"
proof -
  obtain h g where t: "t = s\<lparr>ptab := h, pLists := g\<rparr>" and h: "forget h = forget (ptab s)"
    using assms(2) unfolding relinked_def by blast
  show ?thesis
    using forget_upd [OF assms(1) h, of p] by (simp add: t relinked_def upd_proc_def)
qed

lemma upd_lists_ok: "skips_next f \<Longrightarrow> lists_ok (upd_proc p f s) L = lists_ok s L"
  by (rule lists_ok_cong) (simp_all add: pnext_skips)

lemma relinked_forget: "relinked s t \<Longrightarrow> forget (ptab t) = forget (ptab s)"
  by (simp add: relinked_def)

interpretation sl: state_lists lists_ok ptab relinked upd_proc addhead addtail remove
  by unfold_locales
     (fact addhead_lists addtail_lists remove_lists lists_ok_distinct upd_lists_ok set_sel(5)
        upd_relinked relinked_forget relinked_trans)+

abbreviation pt_inv :: "(listhead \<Rightarrow> nat list) \<Rightarrow> 'a ptable_scheme \<Rightarrow> bool" where
  "pt_inv \<equiv> sl.linv"

lemmas pt_inv_def = sl.linv_def

text \<open>Every field but \<open>next\<close> survives relinking.\<close>

lemma relinked_fields:
  assumes "relinked s t"
  shows "state (ptab t p) = state (ptab s p)" "prio (ptab t p) = prio (ptab s p)"
    "pid (ptab t p) = pid (ptab s p)" "pchan (ptab t p) = pchan (ptab s p)"
    "parent (ptab t p) = parent (ptab s p)" "kstack (ptab t p) = kstack (ptab s p)"
    "pgdir (ptab t p) = pgdir (ptab s p)" "budget (ptab t p) = budget (ptab s p)"
    "killed (ptab t p) = killed (ptab s p)" "pcontext (ptab t p) = pcontext (ptab s p)"
    "cpu_ticks_in (ptab t p) = cpu_ticks_in (ptab s p)" "home (ptab t p) = home (ptab s p)"
proof -
  have e: "(ptab t p)\<lparr>pnext := None\<rparr> = (ptab s p)\<lparr>pnext := None\<rparr>"
    using assms by (auto simp: relinked_def intro: forget_eqD)
  from arg_cong [OF e, of state] show "state (ptab t p) = state (ptab s p)" by simp
  from arg_cong [OF e, of prio] show "prio (ptab t p) = prio (ptab s p)" by simp
  from arg_cong [OF e, of pid] show "pid (ptab t p) = pid (ptab s p)" by simp
  from arg_cong [OF e, of pchan] show "pchan (ptab t p) = pchan (ptab s p)" by simp
  from arg_cong [OF e, of parent] show "parent (ptab t p) = parent (ptab s p)" by simp
  from arg_cong [OF e, of kstack] show "kstack (ptab t p) = kstack (ptab s p)" by simp
  from arg_cong [OF e, of pgdir] show "pgdir (ptab t p) = pgdir (ptab s p)" by simp
  from arg_cong [OF e, of budget] show "budget (ptab t p) = budget (ptab s p)" by simp
  from arg_cong [OF e, of killed] show "killed (ptab t p) = killed (ptab s p)" by simp
  from arg_cong [OF e, of pcontext] show "pcontext (ptab t p) = pcontext (ptab s p)" by simp
  from arg_cong [OF e, of cpu_ticks_in] show "cpu_ticks_in (ptab t p) = cpu_ticks_in (ptab s p)"
    by simp
  from arg_cong [OF e, of home] show "home (ptab t p) = home (ptab s p)" by simp
qed

lemma relinked_globals:
  assumes "relinked s t"
  shows "cpus t = cpus s" "curcpu t = curcpu s" "locks t = locks s" "ticks t = ticks s"
    "PromoteAtTime t = PromoteAtTime s" "nextpid t = nextpid s" "initproc t = initproc s"
    "freelist t = freelist s" "pmem t = pmem s" "use_lock t = use_lock s"
    "ptable.more t = ptable.more s"
proof -
  have e: "t = s\<lparr>ptab := ptab t, pLists := pLists t\<rparr>"
    using assms by (simp add: relinked_def)
  show "cpus t = cpus s" "curcpu t = curcpu s" "locks t = locks s" "ticks t = ticks s"
    "PromoteAtTime t = PromoteAtTime s" "nextpid t = nextpid s" "initproc t = initproc s"
    "freelist t = freelist s" "pmem t = pmem s" "use_lock t = use_lock s"
    "ptable.more t = ptable.more s"
    by (subst e, simp)+
qed

end
