(* ===== verification/ProcTable.thy ===== *)
theory ProcTable
  imports ProcList
begin

text \<open>
  The process operations of proc.c under \<open>ptable.lock\<close> (build with
  \<^verbatim>\<open>CS333_P3P4\<close>): allocation, wakeup, kill, priorities, promotion and the
  scheduler's choice, the context switch, yield, sleep, wait, and the part of exit
  and fork that changes the table.

  \<open>swtch\<close> splits a function in two: the part before it stores in \<open>pcontext\<close> where
  the process stands, the part after it (\<open>sched_resume\<close>, \<open>sleep_resume\<close>, \<open>yield_resume\<close>)
  runs when the scheduler has switched back.  The address-space functions of vm.c
  are the argument \<open>vm\<close>; \<open>kend\<close> is the linker symbol \<open>end\<close> that \<open>kfree\<close> compares
  with.
\<close>

section \<open>The address-space interface\<close>

record 's vmops =
  setupkvm :: "'s \<Rightarrow> (uint \<times> 's) res"
  inituvm :: "uint \<Rightarrow> 's \<Rightarrow> 's res"
  copyuvm :: "uint \<Rightarrow> uint \<Rightarrow> 's \<Rightarrow> (uint \<times> 's) res"
  freevm :: "uint \<Rightarrow> 's \<Rightarrow> 's res"
  allocuvm :: "uint \<Rightarrow> uint \<Rightarrow> uint \<Rightarrow> 's \<Rightarrow> (uint \<times> 's) res"
  deallocuvm :: "uint \<Rightarrow> uint \<Rightarrow> uint \<Rightarrow> 's \<Rightarrow> (uint \<times> 's) res"
  switchuvm :: "nat \<Rightarrow> 's \<Rightarrow> 's res"
  switchkvm :: "'s \<Rightarrow> 's res"

section \<open>The current process\<close>

text \<open>The per-CPU variable \<open>proc\<close>; using it while it is null is a fault.\<close>

definition set_proc :: "nat ptr \<Rightarrow> 'a machine_scheme \<Rightarrow> 'a machine_scheme" where
  "set_proc q s = upd_cpu (\<lambda>c. c\<lparr>cproc := q\<rparr>) s"

definition with_proc :: "(nat \<Rightarrow> 'a ptable_scheme \<Rightarrow> 'b res) \<Rightarrow> 'a ptable_scheme \<Rightarrow> 'b res" where
  "with_proc f s = (case cproc (mycpu s) of None \<Rightarrow> Inl Fault | Some p \<Rightarrow> f p s)"

definition set_state :: "nat \<Rightarrow> procstate \<Rightarrow> 'a ptable_scheme \<Rightarrow> 'a ptable_scheme" where
  "set_state p st s = upd_proc p (\<lambda>x. x\<lparr>state := st\<rparr>) s"

text \<open>The idiom \<^verbatim>\<open>assert(p, st); if(remove(&list, p)) panic(msg);\<close>.\<close>

definition unlink ::
  "nat \<Rightarrow> procstate \<Rightarrow> listhead \<Rightarrow> string \<Rightarrow> 'a ptable_scheme \<Rightarrow> 'a ptable_scheme res" where
  "unlink p st r msg s = Rbind (assert_state p st s) (remove_or_panic r p msg)"

section \<open>Allocation\<close>

definition pinit :: "'a ptable_scheme \<Rightarrow> 'a ptable_scheme" where
  "pinit s = initlock PtableLock ''ptable'' s"

text \<open>
  The list set-up at the start of \<open>userinit\<close>: every slot goes to the tail of the free
  list, in table order.
\<close>

fun addtail_all :: "listhead \<Rightarrow> nat list \<Rightarrow> 'a ptable_scheme \<Rightarrow> 'a ptable_scheme res" where
  "addtail_all r [] s = Inr s"
| "addtail_all r (p # ps) s = Rbind (addtail r p s) (addtail_all r ps)"

definition init_lists :: "'a ptable_scheme \<Rightarrow> 'a ptable_scheme res" where
  "init_lists s =
     Rbind (acquire PtableLock s) (\<lambda>s.
     let s = s\<lparr>PromoteAtTime := ticks s + TICKS_TO_PROMOTE\<rparr>;
         s = fold (\<lambda>r. set_head r None) ready_lists s;
         s = set_head PFree None s
     in Rbind (addtail_all PFree [0..<NPROC] s) (\<lambda>s.
        release PtableLock
          (set_head PEmbryo None (set_head PRunning None
            (set_head PZombie None (set_head PSleep None s))))))"

text \<open>Give an embryo's slot back: the failure path of \<open>allocproc\<close> and of \<open>fork\<close>.\<close>

definition free_embryo :: "nat \<Rightarrow> 'a ptable_scheme \<Rightarrow> 'a ptable_scheme res" where
  "free_embryo p s =
     Rbind (acquire PtableLock s) (\<lambda>s.
     Rbind (unlink p EMBRYO PEmbryo ''Error removing from embryo list'' s) (\<lambda>s.
     release PtableLock (addhead PFree p (set_state p UNUSED s))))"

text \<open>The first critical section of \<open>allocproc\<close>: claim a slot and a pid.\<close>

definition alloc_slot :: "'a ptable_scheme \<Rightarrow> (nat ptr \<times> 'a ptable_scheme) res" where
  "alloc_slot s =
     Rbind (acquire PtableLock s) (\<lambda>s.
     case pLists s PFree of
       None \<Rightarrow> Rbind (release PtableLock s) (\<lambda>s. Inr (None, s))
     | Some p \<Rightarrow>
         Rbind (unlink p UNUSED PFree ''Error removing from free list'' s) (\<lambda>s.
         let s = addhead PEmbryo p (set_state p EMBRYO s);
             s = upd_proc p (\<lambda>x. x\<lparr>pid := nextpid s\<rparr>) s;
             s = s\<lparr>nextpid := nextpid s + 1\<rparr>
         in Rbind (release PtableLock s) (\<lambda>s. Inr (Some p, s))))"

definition allocproc :: "'a ptable_scheme \<Rightarrow> (nat ptr \<times> 'a ptable_scheme) res" where
  "allocproc s =
     Rbind (alloc_slot s) (\<lambda>(q, s).
     case q of
       None \<Rightarrow> Inr (None, s)
     | Some p \<Rightarrow>
         Rbind (kalloc s) (\<lambda>(k, s).
         let s = upd_proc p (\<lambda>x. x\<lparr>kstack := k\<rparr>) s in
         if k = 0 then Rbind (free_embryo p s) (\<lambda>s. Inr (None, s))
         else Inr (Some p, upd_proc p (\<lambda>x. x\<lparr>pcontext := AtForkret, start_ticks := ticks s,
                cpu_ticks_total := 0, cpu_ticks_in := 0, budget := BUDGET, prio := 0\<rparr>) s)))"

section \<open>Wakeup\<close>

fun wakeup1_loop :: "nat \<Rightarrow> chan \<Rightarrow> nat ptr \<Rightarrow> 'a ptable_scheme \<Rightarrow> 'a ptable_scheme res" where
  "wakeup1_loop n ch None s = Inr s"
| "wakeup1_loop 0 ch (Some c) s = Inl Diverge"
| "wakeup1_loop (Suc n) ch (Some c) s =
     (let temp = pnext (ptab s c) in
      if pchan (ptab s c) = ch
      then Rbind (unlink c SLEEPING PSleep ''Error removing from sleep list'' s) (\<lambda>s.
           let s = set_state c RUNNABLE s in
           Rbind (addtail (PReady (prio (ptab s c))) c s) (wakeup1_loop n ch temp))
      else wakeup1_loop n ch temp s)"

definition wakeup1 :: "chan \<Rightarrow> 'a ptable_scheme \<Rightarrow> 'a ptable_scheme res" where
  "wakeup1 ch s = wakeup1_loop LISTFUEL ch (pLists s PSleep) s"

definition wakeup :: "chan \<Rightarrow> 'a ptable_scheme \<Rightarrow> 'a ptable_scheme res" where
  "wakeup ch s =
     Rbind (acquire PtableLock s) (\<lambda>s. Rbind (wakeup1 ch s) (release PtableLock))"

section \<open>Kill and priorities\<close>

definition kill :: "uint \<Rightarrow> 'a ptable_scheme \<Rightarrow> (int \<times> 'a ptable_scheme) res" where
  "kill n s =
     Rbind (acquire PtableLock s) (\<lambda>s.
     Rbind (find_list (\<lambda>x. pid x = n) PSleep s) (\<lambda>q.
     case q of
       Some p \<Rightarrow>
         let s = upd_proc p (\<lambda>x. x\<lparr>killed := True\<rparr>) s in
         Rbind (unlink p SLEEPING PSleep ''Error removing from sleep list'' s) (\<lambda>s.
         let s = set_state p RUNNABLE s in
         Rbind (addtail (PReady (prio (ptab s p))) p s) (\<lambda>s.
         Rbind (release PtableLock s) (\<lambda>s. Inr (0, s))))
     | None \<Rightarrow>
         Rbind (find_lists (\<lambda>x. pid x = n) ([PRunning, PEmbryo] @ ready_lists) s) (\<lambda>q.
         case q of
           Some p \<Rightarrow>
             Rbind (release PtableLock (upd_proc p (\<lambda>x. x\<lparr>killed := True\<rparr>) s)) (\<lambda>s. Inr (0, s))
         | None \<Rightarrow> Rbind (release PtableLock s) (\<lambda>s. Inr (-1, s)))))"

text \<open>
  \<open>setpriority\<close>: a sleeping or running process only changes its fields; a ready one
  also changes list.  The result of \<open>remove\<close> is ignored, as in the code.
\<close>

definition setpriority_ready :: "nat \<Rightarrow> int \<Rightarrow> 'a ptable_scheme \<Rightarrow> 'a ptable_scheme res" where
  "setpriority_ready p priority s =
     (if prio (ptab s p) = priority then Inr (upd_proc p (\<lambda>x. x\<lparr>budget := BUDGET\<rparr>) s)
      else
        Rbind (assert_state p RUNNABLE s) (\<lambda>s.
        Rbind (remove (PReady (prio (ptab s p))) p s) (\<lambda>(_, s).
        let s = upd_proc p (\<lambda>x. x\<lparr>prio := priority\<rparr>) s in
        Rbind (addtail (PReady (prio (ptab s p))) p s) (\<lambda>s.
        Inr (upd_proc p (\<lambda>x. x\<lparr>budget := BUDGET\<rparr>) s)))))"

definition setpriority :: "uint \<Rightarrow> int \<Rightarrow> 'a ptable_scheme \<Rightarrow> (int \<times> 'a ptable_scheme) res" where
  "setpriority n priority s =
     (if priority > MAXP \<or> priority < 0 \<or> sint n < 0 then Inr (-1, s)
      else
        Rbind (acquire PtableLock s) (\<lambda>s.
        Rbind (find_lists (\<lambda>x. pid x = n) [PSleep, PRunning] s) (\<lambda>q.
        case q of
          Some p \<Rightarrow>
            Rbind (release PtableLock (upd_proc p (\<lambda>x. x\<lparr>prio := priority, budget := BUDGET\<rparr>) s))
              (\<lambda>s. Inr (0, s))
        | None \<Rightarrow>
            Rbind (find_lists (\<lambda>x. pid x = n) ready_lists s) (\<lambda>q.
            case q of
              Some p \<Rightarrow>
                Rbind (setpriority_ready p priority s) (\<lambda>s.
                Rbind (release PtableLock s) (\<lambda>s. Inr (0, s)))
            | None \<Rightarrow> Rbind (release PtableLock s) (\<lambda>s. Inr (-1, s))))))"

section \<open>The scheduler\<close>

definition promote1 :: "proc \<Rightarrow> proc" where
  "promote1 x = (if prio x > 0 then x\<lparr>prio := prio x - 1\<rparr> else x)"

fun promote_ready_loop ::
  "nat \<Rightarrow> int \<Rightarrow> nat ptr \<Rightarrow> 'a ptable_scheme \<Rightarrow> 'a ptable_scheme res" where
  "promote_ready_loop n i None s = Inr s"
| "promote_ready_loop 0 i (Some c) s = Inl Diverge"
| "promote_ready_loop (Suc n) i (Some c) s =
     (let connect = pnext (ptab s c) in
      Rbind (unlink c RUNNABLE (PReady i) ''ERROR removing'' s) (\<lambda>s.
      let s = upd_proc c (\<lambda>x. x\<lparr>prio := prio x - 1\<rparr>) s in
      Rbind (addtail (PReady (prio (ptab s c))) c s) (promote_ready_loop n i connect)))"

fun promote_ready :: "int list \<Rightarrow> 'a ptable_scheme \<Rightarrow> 'a ptable_scheme res" where
  "promote_ready [] s = Inr s"
| "promote_ready (i # is) s =
     Rbind (promote_ready_loop LISTFUEL i (pLists s (PReady i)) s) (promote_ready is)"

definition promote :: "'a ptable_scheme \<Rightarrow> 'a ptable_scheme res" where
  "promote s =
     (if PromoteAtTime s \<le> ticks s
      then Rbind (each_lists promote1 [PSleep, PRunning] s) (\<lambda>s.
           Rbind (promote_ready [1, 2, 3, 4, 5] s) (\<lambda>s.
           Inr (s\<lparr>PromoteAtTime := ticks s + TICKS_TO_PROMOTE\<rparr>)))
      else Inr s)"

definition run_proc ::
  "'a ptable_scheme vmops \<Rightarrow> int \<Rightarrow> nat \<Rightarrow> 'a ptable_scheme \<Rightarrow> 'a ptable_scheme res" where
  "run_proc vm i p s =
     Rbind (switchuvm vm p (set_proc (Some p) s)) (\<lambda>s.
     Rbind (unlink p RUNNABLE (PReady i) ''Error removing from ready list'' s) (\<lambda>s.
     let s = addhead PRunning p (set_state p RUNNING s) in
     Inr (upd_proc p (\<lambda>x. x\<lparr>cpu_ticks_in := ticks s\<rparr>) s)))"

text \<open>The choice: the head of the first ready list that is not empty.\<close>

fun pick :: "'a ptable_scheme vmops \<Rightarrow> int list \<Rightarrow> 'a ptable_scheme \<Rightarrow>
    (nat ptr \<times> 'a ptable_scheme) res" where
  "pick vm [] s = Inr (None, s)"
| "pick vm (i # is) s =
     (case pLists s (PReady i) of
        None \<Rightarrow> pick vm is s
      | Some p \<Rightarrow> Rbind (run_proc vm i p s) (\<lambda>s. Inr (Some p, s)))"

text \<open>
  One iteration of \<open>scheduler\<close> up to the \<open>swtch\<close> to the chosen process (which then
  holds \<open>ptable.lock\<close>), or to the end when none is ready.
\<close>

definition scheduler_iter ::
  "'a ptable_scheme vmops \<Rightarrow> 'a ptable_scheme \<Rightarrow> (nat ptr \<times> 'a ptable_scheme) res" where
  "scheduler_iter vm s =
     Rbind (acquire PtableLock (upd_cpu (\<lambda>c. c\<lparr>eflags_IF := True\<rparr>) s)) (\<lambda>s.
     Rbind (promote s) (\<lambda>s.
     Rbind (pick vm [0, 1, 2, 3, 4, 5] s) (\<lambda>(q, s).
     case q of
       Some p \<Rightarrow> Inr (Some p, s)
     | None \<Rightarrow> Rbind (release PtableLock s) (\<lambda>s. Inr (None, s)))))"

text \<open>The rest of the iteration, after a process has switched back.\<close>

definition scheduler_back ::
  "'a ptable_scheme vmops \<Rightarrow> 'a ptable_scheme \<Rightarrow> 'a ptable_scheme res" where
  "scheduler_back vm s =
     Rbind (switchkvm vm s) (\<lambda>s. release PtableLock (set_proc None s))"

section \<open>Leaving and regaining the CPU\<close>

text \<open>
  \<open>sched\<close> up to its \<open>swtch\<close>; \<open>who\<close> is the function that called it.  After it the
  scheduler of this CPU continues with \<open>scheduler_back\<close>.
\<close>

definition sched :: "caller \<Rightarrow> 'a ptable_scheme \<Rightarrow> 'a ptable_scheme res" where
  "sched who s =
     (if \<not> holding PtableLock s then Inl (Panic ''sched ptable.lock'')
      else if ncli (mycpu s) \<noteq> 1 then Inl (Panic ''sched locks'')
      else with_proc (\<lambda>p s.
        if state (ptab s p) = RUNNING then Inl (Panic ''sched running'')
        else if eflags_IF (mycpu s) then Inl (Panic ''sched interruptible'')
        else Inr (upd_proc p (\<lambda>x. x\<lparr>
               cpu_ticks_total := cpu_ticks_total x + (ticks s - cpu_ticks_in x),
               pcontext := InSched (intena (mycpu s)) who\<rparr>) s)) s)"

definition sched_resume :: "bool \<Rightarrow> 'a machine_scheme \<Rightarrow> 'a machine_scheme" where
  "sched_resume ie s = upd_cpu (\<lambda>c. c\<lparr>intena := ie\<rparr>) s"

text \<open>The budget bookkeeping of \<open>yield\<close> and \<open>sleep\<close>; \<open>budget\<close> is a signed int.\<close>

definition charge :: "uint \<Rightarrow> proc \<Rightarrow> proc" where
  "charge now x =
     (let b = budget x - (now - cpu_ticks_in x) in
      if sint b \<le> 0
      then x\<lparr>budget := BUDGET, prio := (if prio x \<noteq> MAXP then prio x + 1 else prio x)\<rparr>
      else x\<lparr>budget := b\<rparr>)"

definition yield :: "'a ptable_scheme \<Rightarrow> 'a ptable_scheme res" where
  "yield s =
     Rbind (acquire PtableLock s) (with_proc (\<lambda>p s.
     Rbind (unlink p RUNNING PRunning ''Error removing from running list'' s) (\<lambda>s.
     let s = upd_proc p (charge (ticks s)) (set_state p RUNNABLE s) in
     Rbind (addtail (PReady (prio (ptab s p))) p s) (sched FromYield))))"

definition yield_resume :: "bool \<Rightarrow> 'a ptable_scheme \<Rightarrow> 'a ptable_scheme res" where
  "yield_resume ie s = release PtableLock (sched_resume ie s)"

text \<open>
  \<open>sleep\<close> as the sections between which another CPU can run: \<open>acquire(&ptable.lock)\<close>, the
  release of the caller's lock, and the rest, which holds \<open>ptable.lock\<close> up to the switch.
\<close>

fun in_order :: "('a \<Rightarrow> 'a res) list \<Rightarrow> 'a \<Rightarrow> 'a res" where
  "in_order [] s = Inr s"
| "in_order (f # fs) s = Rbind (f s) (in_order fs)"

definition sleep_off ::
  "nat \<Rightarrow> chan \<Rightarrow> lockname option \<Rightarrow> 'a ptable_scheme \<Rightarrow> 'a ptable_scheme res" where
  "sleep_off p ch lk s =
     (let s = upd_proc p (\<lambda>x. x\<lparr>pchan := ch\<rparr>) s in
      Rbind (unlink p RUNNING PRunning ''Error removing from running list'' s) (\<lambda>s.
      let s = upd_proc p (charge (ticks s)) (set_state p SLEEPING s) in
      sched (FromSleep ch lk) (addhead PSleep p s)))"

definition sleep_steps ::
  "nat \<Rightarrow> chan \<Rightarrow> lockname option \<Rightarrow> ('a ptable_scheme \<Rightarrow> 'a ptable_scheme res) list" where
  "sleep_steps p ch lk =
     (if lk \<noteq> Some PtableLock
      then acquire PtableLock # (case lk of None \<Rightarrow> [] | Some l \<Rightarrow> [release l])
      else []) @ [sleep_off p ch lk]"

definition sleep ::
  "chan \<Rightarrow> lockname option \<Rightarrow> 'a ptable_scheme \<Rightarrow> 'a ptable_scheme res" where
  "sleep ch lk s =
     (case cproc (mycpu s) of
        None \<Rightarrow> Inl (Panic ''sleep'')
      | Some p \<Rightarrow> in_order (sleep_steps p ch lk) s)"

definition sleep_resume ::
  "bool \<Rightarrow> lockname option \<Rightarrow> 'a ptable_scheme \<Rightarrow> 'a ptable_scheme res" where
  "sleep_resume ie lk s =
     with_proc (\<lambda>p s.
       let s = upd_proc p (\<lambda>x. x\<lparr>pchan := NoChan\<rparr>) s in
       if lk \<noteq> Some PtableLock
       then Rbind (release PtableLock s) (\<lambda>s.
            case lk of None \<Rightarrow> Inr s | Some l \<Rightarrow> acquire l s)
       else Inr s) (sched_resume ie s)"

section \<open>Exit and wait\<close>

definition chan_of :: "nat ptr \<Rightarrow> chan" where
  "chan_of q = (case q of None \<Rightarrow> NoChan | Some p \<Rightarrow> ProcAddr p)"

definition reparent :: "nat \<Rightarrow> nat ptr \<Rightarrow> proc \<Rightarrow> proc" where
  "reparent me ip x = (if parent x = Some me then x\<lparr>parent := ip\<rparr> else x)"

fun exit_zombies :: "nat \<Rightarrow> nat \<Rightarrow> nat ptr \<Rightarrow> 'a ptable_scheme \<Rightarrow> 'a ptable_scheme res" where
  "exit_zombies n me None s = Inr s"
| "exit_zombies 0 me (Some p) s = Inl Diverge"
| "exit_zombies (Suc n) me (Some p) s =
     (if parent (ptab s p) = Some me
      then Rbind (wakeup1 (chan_of (initproc s)) (upd_proc p (\<lambda>x. x\<lparr>parent := initproc s\<rparr>) s))
             (\<lambda>s. exit_zombies n me (pnext (ptab s p)) s)
      else exit_zombies n me (pnext (ptab s p)) s)"

text \<open>\<open>exit\<close> from the point where it takes \<open>ptable.lock\<close>; it never comes back from \<open>sched\<close>.\<close>

definition exit_locked :: "'a ptable_scheme \<Rightarrow> 'a ptable_scheme res" where
  "exit_locked s =
     Rbind (acquire PtableLock s) (with_proc (\<lambda>me s.
     Rbind (wakeup1 (chan_of (parent (ptab s me))) s) (\<lambda>s.
     Rbind (each_lists (reparent me (initproc s)) (ready_lists @ [PSleep]) s) (\<lambda>s.
     Rbind (exit_zombies LISTFUEL me (pLists s PZombie) s) (\<lambda>s.
     Rbind (each_lists (reparent me (initproc s)) [PRunning, PEmbryo] s) (\<lambda>s.
     Rbind (unlink me RUNNING PRunning ''Error removing from running list'' s) (\<lambda>s.
     sched FromExit (addhead PZombie me (set_state me ZOMBIE s)))))))))"

definition exit_resume :: "'a ptable_scheme \<Rightarrow> 'a ptable_scheme res" where
  "exit_resume s = Inl (Panic ''zombie exit'')"

text \<open>\<open>wait\<close> frees the zombie it found; the caller holds \<open>ptable.lock\<close>.\<close>

definition reap ::
  "uint \<Rightarrow> 'a ptable_scheme vmops \<Rightarrow> nat \<Rightarrow> 'a ptable_scheme \<Rightarrow> 'a ptable_scheme res" where
  "reap kend vm p s =
     Rbind (kfree kend (kstack (ptab s p)) s) (\<lambda>s.
     let s = upd_proc p (\<lambda>x. x\<lparr>kstack := 0\<rparr>) s in
     Rbind (freevm vm (pgdir (ptab s p)) s) (\<lambda>s.
     Rbind (unlink p ZOMBIE PZombie ''Error removing from zombie list'' s) (\<lambda>s.
     let s = addhead PFree p (set_state p UNUSED s) in
     Inr (upd_proc p (\<lambda>x. x\<lparr>pid := 0, parent := None, pname := [], killed := False\<rparr>) s))))"

text \<open>One pass of the loop of \<open>wait\<close>: it returns, or goes to sleep on its own slot.\<close>

datatype waitres = WaitRet int | WaitSlept

definition wait_iter ::
  "uint \<Rightarrow> 'a ptable_scheme vmops \<Rightarrow> 'a ptable_scheme \<Rightarrow> (waitres \<times> 'a ptable_scheme) res" where
  "wait_iter kend vm = with_proc (\<lambda>me s.
     Rbind (find_list (\<lambda>x. parent x = Some me) PZombie s) (\<lambda>q.
     case q of
       Some p \<Rightarrow>
         let n = sint (pid (ptab s p)) in
         Rbind (reap kend vm p s) (\<lambda>s.
         Rbind (release PtableLock s) (\<lambda>s. Inr (WaitRet n, s)))
     | None \<Rightarrow>
         Rbind (find_lists (\<lambda>x. parent x = Some me)
                  ([PSleep] @ ready_lists @ [PRunning, PEmbryo]) s) (\<lambda>kid.
         if kid = None \<or> killed (ptab s me)
         then Rbind (release PtableLock s) (\<lambda>s. Inr (WaitRet (-1), s))
         else Rbind (sleep (ProcAddr me) (Some PtableLock) s) (\<lambda>s. Inr (WaitSlept, s)))))"

definition wait ::
  "uint \<Rightarrow> 'a ptable_scheme vmops \<Rightarrow> 'a ptable_scheme \<Rightarrow> (waitres \<times> 'a ptable_scheme) res" where
  "wait kend vm s = Rbind (acquire PtableLock s) (wait_iter kend vm)"

definition wait_resume ::
  "uint \<Rightarrow> 'a ptable_scheme vmops \<Rightarrow> bool \<Rightarrow> 'a ptable_scheme \<Rightarrow>
     (waitres \<times> 'a ptable_scheme) res" where
  "wait_resume kend vm ie s =
     Rbind (sleep_resume ie (Some PtableLock) s) (wait_iter kend vm)"

section \<open>The end of fork, and growproc\<close>

definition fork_publish :: "nat \<Rightarrow> 'a ptable_scheme \<Rightarrow> 'a ptable_scheme res" where
  "fork_publish np s =
     Rbind (acquire PtableLock s) (\<lambda>s.
     Rbind (unlink np EMBRYO PEmbryo ''Error removing from embryo list'' s) (\<lambda>s.
     Rbind (addtail (PReady 0) np (set_state np RUNNABLE s)) (release PtableLock)))"

definition growproc ::
  "'a ptable_scheme vmops \<Rightarrow> int \<Rightarrow> 'a ptable_scheme \<Rightarrow> (int \<times> 'a ptable_scheme) res" where
  "growproc vm n = with_proc (\<lambda>p s.
     let z = sz (ptab s p); pd = pgdir (ptab s p) in
     Rbind (if n > 0 then allocuvm vm pd z (z + of_int n) s
            else if n < 0 then deallocuvm vm pd z (z + of_int n) s
            else Inr (z, s)) (\<lambda>(z, s).
     if n \<noteq> 0 \<and> z = 0 then Inr (-1, s)
     else Rbind (switchuvm vm p (upd_proc p (\<lambda>x. x\<lparr>sz := z\<rparr>) s)) (\<lambda>s. Inr (0, s))))"

end
