(* ===== verification/ProcInv.thy ===== *)
theory ProcInv
  imports ProcTable
begin

text \<open>
  The effect of the process operations on the state lists and the table.  For each
  loop and each critical section: it ends, meets no panic, keeps the lists in
  agreement with the table (\<open>pt_inv\<close>), and changes exactly the fields its closed
  form names.
\<close>

section \<open>Table-wide updates\<close>

definition map_tab :: "(nat \<Rightarrow> proc \<Rightarrow> proc) \<Rightarrow> 'a ptable_scheme \<Rightarrow> 'a ptable_scheme" where
  "map_tab g s = s\<lparr>ptab := \<lambda>p. g p (ptab s p)\<rparr>"

lemma map_tab_sel [simp]:
  "ptab (map_tab g s) p = g p (ptab s p)" "pLists (map_tab g s) = pLists s"
  "ticks (map_tab g s) = ticks s" "cpus (map_tab g s) = cpus s"
  "curcpu (map_tab g s) = curcpu s" "locks (map_tab g s) = locks s"
  "initproc (map_tab g s) = initproc s"
  by (simp_all add: map_tab_def)

lemma map_tab_upd: "upd_proc p f s = map_tab (\<lambda>q. if q = p then f else id) s"
  by (auto simp: map_tab_def upd_proc_def fun_eq_iff)

lemma map_tab_comp: "map_tab g (map_tab f s) = map_tab (\<lambda>p x. g p (f p x)) s"
  by (simp add: map_tab_def)

lemma map_tab_id [simp]: "map_tab (\<lambda>p x. x) s = s"
  by (simp add: map_tab_def)

lemma map_tab_cong:
  "(\<And>p. f p (ptab s p) = g p (ptab s p)) \<Longrightarrow> map_tab f s = map_tab g s"
  by (simp add: map_tab_def)

lemma map_tab_relinked:
  assumes "\<And>p. skips_next (g p)" "relinked s t"
  shows "relinked (map_tab g s) (map_tab g t)"
proof -
  obtain h k where t: "t = s\<lparr>ptab := h, pLists := k\<rparr>" and h: "forget h = forget (ptab s)"
    using assms(2) unfolding relinked_def by blast
  have "forget (\<lambda>p. g p (h p)) = forget (\<lambda>p. g p (ptab s p))"
  proof
    fix p
    have "(h p)\<lparr>pnext := None\<rparr> = (ptab s p)\<lparr>pnext := None\<rparr>"
      using forget_eqD [OF h] .
    moreover have "(g p x)\<lparr>pnext := None\<rparr> = g p (x\<lparr>pnext := None\<rparr>)" for x
      using assms(1) by (simp add: skips_next_def)
    ultimately show "forget (\<lambda>p. g p (h p)) p = forget (\<lambda>p. g p (ptab s p)) p"
      by (simp only: forget_def)
  qed
  then show ?thesis
    by (simp add: t relinked_def map_tab_def)
qed

lemma map_tab_linv:
  assumes "pt_inv L s" "\<And>p. skips_next (g p)"
    "\<And>p. p < NPROC \<Longrightarrow> home (g p (ptab s p)) = home (ptab s p)"
    "\<And>p. p < NPROC \<Longrightarrow> prio_ok (g p (ptab s p))"
  shows "pt_inv L (map_tab g s)"
proof -
  have "nexts (map_tab g s) = nexts s"
    using assms(2) by (simp add: nexts_def fun_eq_iff pnext_skips)
  then have "lists_ok (map_tab g s) L"
    using assms(1) by (simp add: pt_inv_def lists_ok_def)
  moreover have "placed L (ptab (map_tab g s))"
    using assms unfolding pt_inv_def placed_def by simp
  ultimately show ?thesis
    by (simp add: pt_inv_def)
qed

lemma skips_basic [simp]:
  "skips_next (state_update (\<lambda>_. st))" "skips_next (prio_update (\<lambda>_. i))"
  "skips_next (budget_update (\<lambda>_. b))" "skips_next (killed_update (\<lambda>_. k))"
  "skips_next (pchan_update (\<lambda>_. ch))" "skips_next (pid_update (\<lambda>_. n))"
  "skips_next (kstack_update (\<lambda>_. n))" "skips_next (parent_update (\<lambda>_. q))"
  "skips_next (cpu_ticks_in_update (\<lambda>_. n))" "skips_next id" "skips_next (\<lambda>x. x)"
  "skips_next (pgdir_update (\<lambda>_. n))" "skips_next (sz_update (\<lambda>_. n))"
  by (simp_all add: skips_next_def)

lemma skips_ops [simp]:
  "skips_next (\<lambda>x. x\<lparr>prio := prio x - 1\<rparr>)" "skips_next promote1" "skips_next (reparent me ip)"
  "skips_next (charge now)" "skips_next (\<lambda>x. x\<lparr>prio := i, budget := b\<rparr>)"
  "skips_next (\<lambda>x. x\<lparr>pid := n, parent := q, pname := nm, killed := k\<rparr>)"
  "skips_next (\<lambda>x. x\<lparr>cpu_ticks_total := cpu_ticks_total x + (now - cpu_ticks_in x), pcontext := c\<rparr>)"
  "skips_next (\<lambda>x. x\<lparr>pcontext := c, start_ticks := n, cpu_ticks_total := m, cpu_ticks_in := w,
     budget := b, prio := i\<rparr>)"
  by (simp_all add: skips_next_def promote1_def reparent_def charge_def Let_def)

lemma skips_comp: "skips_next f \<Longrightarrow> skips_next g \<Longrightarrow> skips_next (\<lambda>x. f (g x))"
  by (simp add: skips_next_def)

lemma skips_if: "skips_next f \<Longrightarrow> skips_next g \<Longrightarrow> skips_next (if b then f else g)"
  by simp

lemma upd_proc_comp [simp]: "upd_proc p f (upd_proc p g s) = upd_proc p (\<lambda>x. f (g x)) s"
  by (simp add: upd_proc_def)

lemma upd_proc_sel [simp]:
  "ticks (upd_proc p f s) = ticks s" "cpus (upd_proc p f s) = cpus s"
  "curcpu (upd_proc p f s) = curcpu s" "locks (upd_proc p f s) = locks s"
  "initproc (upd_proc p f s) = initproc s" "nextpid (upd_proc p f s) = nextpid s"
  by (simp_all add: upd_proc_def)

section \<open>Heads and successors\<close>

definition phead :: "nat list \<Rightarrow> nat ptr" where
  "phead xs = (case xs of [] \<Rightarrow> None | x # _ \<Rightarrow> Some x)"

lemma phead_simps [simp]: "phead [] = None" "phead (x # xs) = Some x"
  by (simp_all add: phead_def)

lemma chain_phead: "chain nx h xs \<Longrightarrow> h = phead xs"
  by (cases xs) auto

lemma head_of: "pt_inv L s \<Longrightarrow> pLists s r = phead (L r)"
  unfolding pt_inv_def lists_ok_def by (metis chain_phead)

lemma next_of:
  assumes "pt_inv L s" "L r = xs @ y # ys"
  shows "pnext (ptab s y) = phead ys"
proof -
  have "chain (nexts s) (pLists s r) (xs @ y # ys)"
    using assms by (metis pt_inv_def lists_ok_def)
  then have "chain (nexts s) (nexts s y) ys"
    by (auto simp: chain_append)
  then show ?thesis
    unfolding nexts_def by (rule chain_phead)
qed

lemma inv_distinct: "pt_inv L s \<Longrightarrow> distinct (L r)"
  unfolding pt_inv_def by (blast intro: lists_ok_distinct)

lemma inv_fuel: "pt_inv L s \<Longrightarrow> length (L r) \<le> LISTFUEL"
  unfolding pt_inv_def by (blast intro: lists_ok_fuel)

lemma inv_member:
  assumes "pt_inv L s" "p \<in> set (L r)"
  shows "p < NPROC" "home (ptab s p) = r" "prio_ok (ptab s p)"
proof -
  show lt: "p < NPROC"
    using assms by (auto simp: pt_inv_def lists_ok_def)
  then show "home (ptab s p) = r"
    using assms by (simp add: sl.home_mem)
  show "prio_ok (ptab s p)"
    using assms lt by (simp add: pt_inv_def placed_def)
qed

lemma home_state [simp]:
  "home x = PSleep \<longleftrightarrow> state x = SLEEPING" "home x = PFree \<longleftrightarrow> state x = UNUSED"
  "home x = PRunning \<longleftrightarrow> state x = RUNNING" "home x = PZombie \<longleftrightarrow> state x = ZOMBIE"
  "home x = PEmbryo \<longleftrightarrow> state x = EMBRYO" "home x = PReady i \<longleftrightarrow> state x = RUNNABLE \<and> prio x = i"
  by (auto simp: home_def split: procstate.splits)

lemma home_cong:
  "state y = state x \<Longrightarrow> (state x = RUNNABLE \<Longrightarrow> prio y = prio x) \<Longrightarrow> home y = home x"
  by (simp add: home_def split: procstate.splits)

lemma mem_iff:
  "pt_inv L s \<Longrightarrow> p \<in> set (L r) \<longleftrightarrow> p < NPROC \<and> home (ptab s p) = r"
  using inv_member sl.home_mem by blast

section \<open>Moving one process\<close>

lemma unlink_eq:
  "state (ptab s p) = st \<Longrightarrow> remove r p s = Inr (0, s1) \<Longrightarrow> unlink p st r msg s = Inr s1"
  by (simp add: unlink_def assert_state_def remove_or_panic_def)

lemma to_head:
  assumes "pt_inv L s" "p < NPROC" "state (ptab s p) = st" "home (ptab s p) = r"
    "skips_next f" "prio_ok (f (ptab s p))" "home (f (ptab s p)) = r'"
  obtains s1 where "unlink p st r msg s = Inr s1" "relinked s s1"
    "pt_inv (moved_head r r' p L) (addhead r' p (upd_proc p f s1))"
    "relinked (upd_proc p f s) (addhead r' p (upd_proc p f s1))"
  using sl.move_head [OF assms(1,2,5,6)] unlink_eq [OF assms(3)] assms(4,7) by metis

lemma to_tail:
  assumes "pt_inv L s" "p < NPROC" "state (ptab s p) = st" "home (ptab s p) = r"
    "skips_next f" "prio_ok (f (ptab s p))" "home (f (ptab s p)) = r'"
  obtains s1 t where "unlink p st r msg s = Inr s1" "relinked s s1"
    "addtail r' p (upd_proc p f s1) = Inr t"
    "pt_inv (moved_tail r r' p L) t" "relinked (upd_proc p f s) t"
  using sl.move_tail [OF assms(1,2,5,6)] unlink_eq [OF assms(3)] assms(4,7) by metis

section \<open>Wakeup\<close>

text \<open>
  What \<open>wakeup1\<close> does: every process that sleeps on the channel becomes runnable;
  the sleep list keeps the others in order, and each ready list gets its woken
  processes at its tail, in the order of the sleep list.
\<close>

definition wake :: "chan \<Rightarrow> proc \<Rightarrow> proc" where
  "wake ch x = (if state x = SLEEPING \<and> pchan x = ch then x\<lparr>state := RUNNABLE\<rparr> else x)"

definition woken :: "chan \<Rightarrow> 'a ptable_scheme \<Rightarrow> 'a ptable_scheme" where
  "woken ch s = map_tab (\<lambda>p. if p < NPROC then wake ch else id) s"

definition woken_on :: "chan \<Rightarrow> (nat \<Rightarrow> proc) \<Rightarrow> (listhead \<Rightarrow> nat list) \<Rightarrow>
    nat list \<Rightarrow> nat list \<Rightarrow> listhead \<Rightarrow> nat list" where
  "woken_on ch h L xs ys r =
     (case r of
        PSleep \<Rightarrow> xs @ filter (\<lambda>p. pchan (h p) \<noteq> ch) ys
      | PReady i \<Rightarrow> L (PReady i) @ filter (\<lambda>p. pchan (h p) = ch \<and> prio (h p) = i) ys
      | _ \<Rightarrow> L r)"

definition woken_lists ::
  "chan \<Rightarrow> (nat \<Rightarrow> proc) \<Rightarrow> (listhead \<Rightarrow> nat list) \<Rightarrow> listhead \<Rightarrow> nat list" where
  "woken_lists ch h L = woken_on ch h L [] (L PSleep)"

lemma woken_on_Nil: "L PSleep = xs \<Longrightarrow> woken_on ch h L xs [] = L"
  by (auto simp: woken_on_def fun_eq_iff split: listhead.splits)

lemma woken_on_keep:
  "pchan (h c) \<noteq> ch \<Longrightarrow> woken_on ch h L xs (c # ys) = woken_on ch h L (xs @ [c]) ys"
  by (auto simp: woken_on_def fun_eq_iff split: listhead.splits)

lemma woken_on_cong:
  "(\<And>p. pchan (g p) = pchan (h p)) \<Longrightarrow> (\<And>p. prio (g p) = prio (h p)) \<Longrightarrow>
   woken_on ch g L xs ys = woken_on ch h L xs ys"
  by (simp add: woken_on_def fun_eq_iff split: listhead.splits)

lemma wake_skips [simp]: "skips_next (wake ch)"
  by (simp add: skips_next_def wake_def)

lemma moved_tail_sleep:
  assumes "L PSleep = xs @ c # ys" "c \<notin> set xs"
  shows "moved_tail PSleep (PReady i) c L =
    L(PSleep := xs @ ys, PReady i := L (PReady i) @ [c])"
  using assms by (auto simp: moved_tail_def Let_def remove1_append fun_eq_iff)

lemma woken_on_wake:
  assumes "L PSleep = xs @ c # ys" "c \<notin> set xs" "pchan (h c) = ch"
  shows "woken_on ch h (moved_tail PSleep (PReady (prio (h c))) c L) xs ys =
    woken_on ch h L xs (c # ys)"
  using assms(3) unfolding moved_tail_sleep [where L = L, OF assms(1,2)]
  by (auto simp: woken_on_def fun_eq_iff split: listhead.splits)

text \<open>One turn of the loop that wakes \<open>c\<close>.\<close>

lemma wakeup1_turn:
  assumes "pt_inv L s" "c \<in> set (L PSleep)"
  obtains s1 t1 where
    "unlink c SLEEPING PSleep ''Error removing from sleep list'' s = Inr s1"
    "addtail (PReady (prio (ptab (set_state c RUNNABLE s1) c))) c (set_state c RUNNABLE s1) = Inr t1"
    "pt_inv (moved_tail PSleep (PReady (prio (ptab s c))) c L) t1"
    "relinked (set_state c RUNNABLE s) t1"
proof -
  have c: "c < NPROC" "state (ptab s c) = SLEEPING" "prio_ok (ptab s c)"
    using inv_member [OF assms] by auto
  obtain s1 t1 where s1:
    "unlink c SLEEPING PSleep ''Error removing from sleep list'' s = Inr s1" "relinked s s1"
    "addtail (PReady (prio (ptab s c))) c (set_state c RUNNABLE s1) = Inr t1"
    "pt_inv (moved_tail PSleep (PReady (prio (ptab s c))) c L) t1"
    "relinked (set_state c RUNNABLE s) t1"
    using to_tail [OF assms(1) c(1,2), of PSleep "state_update (\<lambda>_. RUNNABLE)"
        "PReady (prio (ptab s c))"] c(2,3)
    unfolding set_state_def by (auto simp: prio_ok_def)
  moreover have "prio (ptab (set_state c RUNNABLE s1) c) = prio (ptab s c)"
    using relinked_fields(2) [OF s1(2)] by (simp add: set_state_def)
  ultimately show ?thesis
    using that by metis
qed

lemma wakeup1_loop_ok:
  assumes "pt_inv L s" "L PSleep = xs @ ys" "length ys \<le> n"
  shows "\<exists>t. wakeup1_loop n ch (phead ys) s = Inr t \<and> pt_inv (woken_on ch (ptab s) L xs ys) t \<and>
    relinked (map_tab (\<lambda>p. if p \<in> set ys then wake ch else id) s) t"
  using assms
proof (induction ys arbitrary: n L s xs)
  case Nil
  then show ?case by (simp add: id_def woken_on_Nil)
next
  case (Cons c ys)
  obtain m where n: "n = Suc m" and m: "length ys \<le> m"
    using Cons.prems(3) by (cases n) auto
  have d: "distinct (xs @ c # ys)"
    using inv_distinct [OF Cons.prems(1), of PSleep] Cons.prems(2) by simp
  have c: "c \<in> set (L PSleep)" "state (ptab s c) = SLEEPING"
    using inv_member(2) [OF Cons.prems(1), of c PSleep] Cons.prems(2) by auto
  have nxt: "pnext (ptab s c) = phead ys"
    by (rule next_of [OF Cons.prems(1,2)])
  show ?case
  proof (cases "pchan (ptab s c) = ch")
    case False
    have "map_tab (\<lambda>p. if p \<in> set (c # ys) then wake ch else id) s =
      map_tab (\<lambda>p. if p \<in> set ys then wake ch else id) s"
      using False by (intro map_tab_cong) (simp add: wake_def)
    then show ?thesis
      using Cons.IH [of L s "xs @ [c]" m] Cons.prems m n False nxt
      by (simp add: Let_def woken_on_keep)
  next
    case True
    let ?L1 = "moved_tail PSleep (PReady (prio (ptab s c))) c L"
    let ?g = "\<lambda>ys p. if p \<in> set ys then wake ch else id"
    obtain s1 t1 where s1:
      "unlink c SLEEPING PSleep ''Error removing from sleep list'' s = Inr s1"
      "addtail (PReady (prio (ptab (set_state c RUNNABLE s1) c))) c (set_state c RUNNABLE s1) = Inr t1"
      "pt_inv ?L1 t1" "relinked (set_state c RUNNABLE s) t1"
      using wakeup1_turn [OF Cons.prems(1) c(1)] by metis
    have L1: "?L1 PSleep = xs @ ys"
      using moved_tail_sleep [where L = L, OF Cons.prems(2)] d by simp
    have lists: "woken_on ch (ptab t1) ?L1 xs ys = woken_on ch (ptab s) L xs (c # ys)"
      using woken_on_wake [where L = L and h = "ptab s" and c = c, OF Cons.prems(2) _ True] d relinked_fields [OF s1(4)]
        woken_on_cong [of "ptab t1" "ptab s"] by (simp add: set_state_def)
    obtain t where t: "wakeup1_loop m ch (phead ys) t1 = Inr t"
      "pt_inv (woken_on ch (ptab s) L xs (c # ys)) t" "relinked (map_tab (?g ys) t1) t"
      using Cons.IH [OF s1(3) L1 m] unfolding lists by blast
    have tab: "map_tab (?g ys) (set_state c RUNNABLE s) = map_tab (?g (c # ys)) s"
      using True c(2) d unfolding set_state_def map_tab_upd map_tab_comp
      by (intro map_tab_cong) (auto simp: wake_def)
    have "relinked (map_tab (?g ys) (set_state c RUNNABLE s)) (map_tab (?g ys) t1)"
      by (rule map_tab_relinked [OF _ s1(4)]) simp
    then have "relinked (map_tab (?g (c # ys)) s) t"
      unfolding tab using t(3) by (rule relinked_trans)
    moreover have "wakeup1_loop n ch (phead (c # ys)) s = Inr t"
      using n True nxt s1(1,2) t(1) by (simp add: Let_def)
    ultimately show ?thesis
      using t(2) by blast
  qed
qed

lemma wakeup1_ok:
  assumes "pt_inv L s"
  obtains t where "wakeup1 ch s = Inr t" "pt_inv (woken_lists ch (ptab s) L) t"
    "relinked (woken ch s) t"
proof -
  have "map_tab (\<lambda>p. if p \<in> set (L PSleep) then wake ch else id) s = woken ch s"
    unfolding woken_def by (rule map_tab_cong) (auto simp: mem_iff [OF assms] wake_def)
  then show ?thesis
    using that wakeup1_loop_ok [OF assms _ inv_fuel [OF assms], of "[]" PSleep ch]
    by (auto simp: wakeup1_def head_of [OF assms] woken_lists_def)
qed

section \<open>Loops that update every member of a list\<close>

lemma each_loop_ok:
  assumes "pt_inv L s" "L r = xs @ ys" "length ys \<le> n" "skips_next f"
    "\<And>p. p \<in> set ys \<Longrightarrow> home (f (ptab s p)) = r \<and> prio_ok (f (ptab s p))"
  shows "each_loop n f (phead ys) s = Inr (map_tab (\<lambda>p. if p \<in> set ys then f else id) s) \<and>
    pt_inv L (map_tab (\<lambda>p. if p \<in> set ys then f else id) s)"
  using assms
proof (induction ys arbitrary: n s xs)
  case Nil
  then show ?case by (simp add: id_def)
next
  case (Cons c ys)
  obtain m where n: "n = Suc m" and m: "length ys \<le> m"
    using Cons.prems(3) by (cases n) auto
  have d: "distinct (xs @ c # ys)"
    using inv_distinct [OF Cons.prems(1), of r] Cons.prems(2) by simp
  have c: "c < NPROC" "home (ptab s c) = r"
    using inv_member [OF Cons.prems(1), of c r] Cons.prems(2) by auto
  let ?s = "upd_proc c f s"
  have inv: "pt_inv L ?s"
    using Cons.prems(5) [of c] c by (intro sl.linv_upd [OF Cons.prems(1,4)]) auto
  have "pnext (ptab ?s c) = phead ys"
    by (rule next_of [OF inv Cons.prems(2)])
  then have step: "each_loop n f (phead (c # ys)) s = each_loop m f (phead ys) ?s"
    using n by (simp add: Let_def)
  have tab: "map_tab (\<lambda>p. if p \<in> set ys then f else id) ?s =
      map_tab (\<lambda>p. if p \<in> set (c # ys) then f else id) s"
    using d unfolding map_tab_upd map_tab_comp by (intro map_tab_cong) auto
  have "each_loop m f (phead ys) ?s = Inr (map_tab (\<lambda>p. if p \<in> set ys then f else id) ?s) \<and>
    pt_inv L (map_tab (\<lambda>p. if p \<in> set ys then f else id) ?s)"
  proof (rule Cons.IH [OF inv _ m Cons.prems(4)])
    show "L r = (xs @ [c]) @ ys"
      using Cons.prems(2) by simp
    show "home (f (ptab ?s p)) = r \<and> prio_ok (f (ptab ?s p))" if "p \<in> set ys" for p
      using Cons.prems(5) [of p] that d by auto
  qed
  then show ?case
    unfolding step tab .
qed

lemma each_list_ok:
  assumes "pt_inv L s" "skips_next f"
    "\<And>p. p \<in> set (L r) \<Longrightarrow> home (f (ptab s p)) = r \<and> prio_ok (f (ptab s p))"
  shows "each_list f r s = Inr (map_tab (\<lambda>p. if p \<in> set (L r) then f else id) s)"
    "pt_inv L (map_tab (\<lambda>p. if p \<in> set (L r) then f else id) s)"
  using each_loop_ok [OF assms(1) _ inv_fuel [OF assms(1)] assms(2), of r "[]"] assms(3)
  by (simp_all add: each_list_def head_of [OF assms(1)])

lemma each_lists_ok:
  assumes "pt_inv L s" "skips_next f" "distinct rs"
    "\<And>p r. r \<in> set rs \<Longrightarrow> p \<in> set (L r) \<Longrightarrow> home (f (ptab s p)) = r \<and> prio_ok (f (ptab s p))"
  shows "each_lists f rs s =
      Inr (map_tab (\<lambda>p. if \<exists>r\<in>set rs. p \<in> set (L r) then f else id) s) \<and>
    pt_inv L (map_tab (\<lambda>p. if \<exists>r\<in>set rs. p \<in> set (L r) then f else id) s)"
  using assms
proof (induction rs arbitrary: s)
  case Nil
  then show ?case by (simp add: id_def)
next
  case (Cons r rs)
  let ?s = "map_tab (\<lambda>p. if p \<in> set (L r) then f else id) s"
  have one: "each_list f r s = Inr ?s" "pt_inv L ?s"
    using each_list_ok [OF Cons.prems(1,2), of r] Cons.prems(4) [of r] by auto
  have disj: "p \<notin> set (L r)" if "p \<in> set (L r')" "r' \<in> set rs" for p r'
    using inv_member(2) [OF Cons.prems(1), of p] that Cons.prems(3) by auto
  have tab: "map_tab (\<lambda>p. if \<exists>r\<in>set rs. p \<in> set (L r) then f else id) ?s =
      map_tab (\<lambda>p. if \<exists>r\<in>set (r # rs). p \<in> set (L r) then f else id) s"
    unfolding map_tab_comp using disj by (intro map_tab_cong) auto
  have "each_lists f rs ?s =
      Inr (map_tab (\<lambda>p. if \<exists>r\<in>set rs. p \<in> set (L r) then f else id) ?s) \<and>
    pt_inv L (map_tab (\<lambda>p. if \<exists>r\<in>set rs. p \<in> set (L r) then f else id) ?s)"
  proof (rule Cons.IH [OF one(2) Cons.prems(2)])
    show "home (f (ptab ?s p)) = r' \<and> prio_ok (f (ptab ?s p))"
      if "r' \<in> set rs" "p \<in> set (L r')" for p r'
      using Cons.prems(4) [of r' p] that disj by auto
  qed (use Cons.prems(3) in simp)
  then show ?case
    unfolding tab by (simp add: one(1))
qed

section \<open>Searches\<close>

lemma find_loop_ok:
  assumes "chain (\<lambda>p. pnext (h p)) c xs" "length xs \<le> n"
  shows "find_loop n P h c = Inr (find (\<lambda>p. P (h p)) xs)"
  using assms
proof (induction xs arbitrary: n c)
  case Nil
  then show ?case by simp
next
  case (Cons x xs)
  then show ?case by (cases n) auto
qed

lemma find_list_ok:
  assumes "pt_inv L s"
  shows "find_list P r s = Inr (find (\<lambda>p. P (ptab s p)) (L r))"
proof -
  have "chain (\<lambda>p. pnext (ptab s p)) (pLists s r) (L r)"
    using assms by (simp add: pt_inv_def lists_ok_def nexts_def)
  then show ?thesis
    unfolding find_list_def by (rule find_loop_ok [OF _ inv_fuel [OF assms]])
qed

lemma find_append: "find P (xs @ ys) = (case find P xs of None \<Rightarrow> find P ys | Some x \<Rightarrow> Some x)"
  by (induction xs) auto

lemma find_lists_ok:
  assumes "pt_inv L s"
  shows "find_lists P rs s = Inr (find (\<lambda>p. P (ptab s p)) (concat (map L rs)))"
  by (induction rs) (auto simp: find_list_ok [OF assms] find_append split: option.splits)

lemma find_mem: "find P xs = Some x \<Longrightarrow> x \<in> set xs \<and> P x"
  by (induction xs) (auto split: if_splits)

section \<open>Promotion\<close>

definition dec_prio :: "proc \<Rightarrow> proc" where
  "dec_prio x = x\<lparr>prio := prio x - 1\<rparr>"

lemma dec_prio_eq: "(\<lambda>x. x\<lparr>prio := prio x - 1\<rparr>) = dec_prio"
  by (simp add: fun_eq_iff dec_prio_def)

lemma dec_prio_skips [simp]: "skips_next dec_prio"
  by (simp add: skips_next_def dec_prio_def)

definition shift_list :: "int \<Rightarrow> (listhead \<Rightarrow> nat list) \<Rightarrow> listhead \<Rightarrow> nat list" where
  "shift_list i L = L(PReady i := [], PReady (i - 1) := L (PReady (i - 1)) @ L (PReady i))"

lemma promote_turn:
  assumes "pt_inv L s" "L (PReady i) = c # ys" "0 < i"
  obtains s1 t1 where
    "unlink c RUNNABLE (PReady i) ''ERROR removing'' s = Inr s1"
    "addtail (PReady (prio (ptab (upd_proc c dec_prio s1) c))) c (upd_proc c dec_prio s1) = Inr t1"
    "pt_inv (L(PReady i := ys, PReady (i - 1) := L (PReady (i - 1)) @ [c])) t1"
    "relinked (upd_proc c dec_prio s) t1"
proof -
  have c: "c < NPROC" "state (ptab s c) = RUNNABLE" "prio (ptab s c) = i" "prio_ok (ptab s c)"
    using inv_member [OF assms(1), of c "PReady i"] assms(2) by auto
  obtain s1 t1 where s1:
    "unlink c RUNNABLE (PReady i) ''ERROR removing'' s = Inr s1" "relinked s s1"
    "addtail (PReady (i - 1)) c (upd_proc c dec_prio s1) = Inr t1"
    "pt_inv (moved_tail (PReady i) (PReady (i - 1)) c L) t1"
    "relinked (upd_proc c dec_prio s) t1"
    using to_tail [OF assms(1) c(1,2), of "PReady i" dec_prio "PReady (i - 1)"] c assms(3)
    by (auto simp: prio_ok_def dec_prio_def)
  moreover have "prio (ptab (upd_proc c dec_prio s1) c) = i - 1"
    using relinked_fields(2) [OF s1(2)] c(3) by (simp add: dec_prio_def)
  moreover have "moved_tail (PReady i) (PReady (i - 1)) c L =
      L(PReady i := ys, PReady (i - 1) := L (PReady (i - 1)) @ [c])"
    using assms(2) by (auto simp: moved_tail_def Let_def fun_eq_iff)
  ultimately show ?thesis
    using that by metis
qed

lemma promote_ready_loop_ok:
  assumes "pt_inv L s" "L (PReady i) = ys" "0 < i" "length ys \<le> n"
  shows "\<exists>t. promote_ready_loop n i (phead ys) s = Inr t \<and> pt_inv (shift_list i L) t \<and>
    relinked (map_tab (\<lambda>p. if p \<in> set ys then dec_prio else id) s) t"
  using assms
proof (induction ys arbitrary: n L s)
  case Nil
  then have "shift_list i L = L"
    by (auto simp: shift_list_def fun_eq_iff)
  with Nil show ?case by (simp add: id_def)
next
  case (Cons c ys)
  let ?g = "\<lambda>ys p. if p \<in> set ys then dec_prio else id"
  let ?L1 = "L(PReady i := ys, PReady (i - 1) := L (PReady (i - 1)) @ [c])"
  obtain m where n: "n = Suc m" and m: "length ys \<le> m"
    using Cons.prems(4) by (cases n) auto
  have d: "c \<notin> set ys"
    using inv_distinct [OF Cons.prems(1), of "PReady i"] Cons.prems(2) by simp
  have nxt: "pnext (ptab s c) = phead ys"
    using next_of [OF Cons.prems(1), of "PReady i" "[]"] Cons.prems(2) by simp
  obtain s1 t1 where s1:
    "unlink c RUNNABLE (PReady i) ''ERROR removing'' s = Inr s1"
    "addtail (PReady (prio (ptab (upd_proc c dec_prio s1) c))) c (upd_proc c dec_prio s1) = Inr t1"
    "pt_inv ?L1 t1" "relinked (upd_proc c dec_prio s) t1"
    using promote_turn [OF Cons.prems(1-3)] by metis
  have lists: "shift_list i ?L1 = shift_list i L"
    using Cons.prems(2) by (auto simp: shift_list_def fun_eq_iff)
  obtain t where t: "promote_ready_loop m i (phead ys) t1 = Inr t" "pt_inv (shift_list i L) t"
    "relinked (map_tab (?g ys) t1) t"
    using Cons.IH [OF s1(3) _ Cons.prems(3) m] unfolding lists by auto
  have tab: "map_tab (?g ys) (upd_proc c dec_prio s) = map_tab (?g (c # ys)) s"
    using d unfolding map_tab_upd map_tab_comp by (intro map_tab_cong) auto
  have "relinked (map_tab (?g ys) (upd_proc c dec_prio s)) (map_tab (?g ys) t1)"
    by (rule map_tab_relinked [OF _ s1(4)]) simp
  then have "relinked (map_tab (?g (c # ys)) s) t"
    unfolding tab using t(3) by (rule relinked_trans)
  moreover have "promote_ready_loop n i (phead (c # ys)) s = Inr t"
    using n nxt s1(1,2) t(1) by (simp add: Let_def dec_prio_eq)
  ultimately show ?case
    using t(2) by blast
qed

lemma promote_ready_ok:
  assumes "pt_inv L s" "sorted_wrt (<) is" "\<forall>i\<in>set is. 0 < i"
  shows "\<exists>t. promote_ready is s = Inr t \<and> pt_inv (fold shift_list is L) t \<and>
    relinked (map_tab (\<lambda>p. if \<exists>i\<in>set is. p \<in> set (L (PReady i)) then dec_prio else id) s) t"
  using assms
proof (induction "is" arbitrary: L s)
  case Nil
  then show ?case by (simp add: id_def)
next
  case (Cons i "is")
  let ?g = "\<lambda>is L p. if \<exists>i\<in>set is. p \<in> set (L (PReady i)) then dec_prio else id"
  let ?f = "\<lambda>p. if p \<in> set (L (PReady i)) then dec_prio else id"
  obtain t1 where t1: "promote_ready_loop LISTFUEL i (pLists s (PReady i)) s = Inr t1"
    "pt_inv (shift_list i L) t1" "relinked (map_tab ?f s) t1"
    using promote_ready_loop_ok [OF Cons.prems(1) refl _ inv_fuel [OF Cons.prems(1)]] Cons.prems(3)
    unfolding head_of [OF Cons.prems(1)] by auto
  obtain t where t: "promote_ready is t1 = Inr t" "pt_inv (fold shift_list is (shift_list i L)) t"
    "relinked (map_tab (?g is (shift_list i L)) t1) t"
    using Cons.IH [OF t1(2)] Cons.prems(2,3) by auto
  have later: "shift_list i L (PReady j) = L (PReady j)" if "j \<in> set is" for j
    using Cons.prems(2) that by (auto simp: shift_list_def)
  have disj: "\<not> (\<exists>j\<in>set is. p \<in> set (L (PReady j)))" if "p \<in> set (L (PReady i))" for p
    using inv_member(2) [OF Cons.prems(1), of p] that Cons.prems(2)
    by (metis home_state(6) less_irrefl sorted_wrt.simps(2))
  have tab: "map_tab (?g is (shift_list i L)) (map_tab ?f s) = map_tab (?g (i # is) L) s"
    unfolding map_tab_comp using later disj by (intro map_tab_cong) auto
  have "relinked (map_tab (?g is (shift_list i L)) (map_tab ?f s))
      (map_tab (?g is (shift_list i L)) t1)"
    by (rule map_tab_relinked [OF _ t1(3)]) simp
  then have "relinked (map_tab (?g (i # is) L) s) t"
    unfolding tab using t(3) by (rule relinked_trans)
  then show ?case
    using t1(1) t(1,2) by auto
qed

definition promoted :: "'a ptable_scheme \<Rightarrow> 'a ptable_scheme" where
  "promoted s = map_tab (\<lambda>p x.
     if p < NPROC \<and> state x \<in> {SLEEPING, RUNNING, RUNNABLE} then promote1 x else x) s"

definition promoted_lists :: "(listhead \<Rightarrow> nat list) \<Rightarrow> listhead \<Rightarrow> nat list" where
  "promoted_lists L r =
     (case r of
        PReady i \<Rightarrow>
          if i = 0 then L (PReady 0) @ L (PReady 1)
          else if 0 < i \<and> i < MAXP then L (PReady (i + 1))
          else []
      | _ \<Rightarrow> L r)"

lemma ready_outside:
  assumes "pt_inv L s" "i < 0 \<or> MAXP < i"
  shows "L (PReady i) = []"
proof (rule ccontr)
  assume "L (PReady i) \<noteq> []"
  then obtain p where "p \<in> set (L (PReady i))"
    by (cases "L (PReady i)") auto
  from inv_member [OF assms(1) this] assms(2) show False
    by (auto simp: prio_ok_def)
qed

lemma shift_all:
  assumes "pt_inv L s"
  shows "fold shift_list [1, 2, 3, 4, 5] L = promoted_lists L"
proof
  fix r
  show "fold shift_list [1, 2, 3, 4, 5] L r = promoted_lists L r"
  proof (cases r)
    case (PReady i)
    consider "i < 0" | "i = 0" | "i = 1" | "i = 2" | "i = 3" | "i = 4" | "i = 5" | "i > 5"
      by linarith
    then show ?thesis
      using PReady ready_outside [OF assms, of i]
      by cases (simp_all add: shift_list_def promoted_lists_def MAXP_def)
  qed (simp_all add: shift_list_def promoted_lists_def)
qed

lemma promote1_ok:
  "prio_ok x \<Longrightarrow> prio_ok (promote1 x)" "state x \<noteq> RUNNABLE \<Longrightarrow> home (promote1 x) = home x"
  by (auto simp: promote1_def prio_ok_def intro!: home_cong)

lemma ready_positive:
  assumes "pt_inv L s"
  shows "(\<exists>i\<in>set [1, 2, 3, 4, 5]. p \<in> set (L (PReady i))) \<longleftrightarrow>
    p < NPROC \<and> state (ptab s p) = RUNNABLE \<and> 0 < prio (ptab s p)"
proof (cases "p < NPROC")
  case True
  then have "0 \<le> prio (ptab s p)" "prio (ptab s p) \<le> 5"
    using assms by (auto simp: pt_inv_def placed_def prio_ok_def MAXP_def)
  then have "prio (ptab s p) \<in> {1, 2, 3, 4, 5} \<longleftrightarrow> 0 < prio (ptab s p)"
    by auto
  then show ?thesis
    by (simp add: mem_iff [OF assms])
qed (simp add: mem_iff [OF assms])

lemma promote_ok:
  assumes "pt_inv L s" "PromoteAtTime s \<le> ticks s"
  obtains t where "promote s = Inr (t\<lparr>PromoteAtTime := ticks s + TICKS_TO_PROMOTE\<rparr>)"
    "pt_inv (promoted_lists L) t" "relinked (promoted s) t"
proof -
  let ?f = "\<lambda>p. if \<exists>r\<in>set [PSleep, PRunning]. p \<in> set (L r) then promote1 else id"
  let ?g = "\<lambda>p. if \<exists>i\<in>set [1, 2, 3, 4, 5]. p \<in> set (L (PReady i)) then dec_prio else id"
  have one: "each_lists promote1 [PSleep, PRunning] s = Inr (map_tab ?f s) \<and>
      pt_inv L (map_tab ?f s)"
  proof (rule each_lists_ok [OF assms(1)])
    show "home (promote1 (ptab s p)) = r \<and> prio_ok (promote1 (ptab s p))"
      if "r \<in> set [PSleep, PRunning]" "p \<in> set (L r)" for r p
      using inv_member [OF assms(1) that(2)] that(1) by (auto simp: promote1_ok)
  qed simp_all
  obtain t where t: "promote_ready [1, 2, 3, 4, 5] (map_tab ?f s) = Inr t"
    "pt_inv (promoted_lists L) t" "relinked (map_tab ?g (map_tab ?f s)) t"
    using promote_ready_ok [OF conjunct2 [OF one], of "[1, 2, 3, 4, 5]"]
    unfolding shift_all [OF assms(1)] by auto
  have tab: "map_tab ?g (map_tab ?f s) = promoted s"
    unfolding map_tab_comp promoted_def
  proof (rule map_tab_cong)
    fix p
    have "(\<exists>r\<in>set [PSleep, PRunning]. p \<in> set (L r)) \<longleftrightarrow>
        p < NPROC \<and> state (ptab s p) \<in> {SLEEPING, RUNNING}"
      by (simp add: mem_iff [OF assms(1)])
    moreover have "(\<exists>i\<in>set [1, 2, 3, 4, 5]. p \<in> set (L (PReady i))) \<longleftrightarrow>
        p < NPROC \<and> state (ptab s p) = RUNNABLE \<and> 0 < prio (ptab s p)"
      using ready_positive [OF assms(1)] .
    ultimately show "?g p (?f p (ptab s p)) =
      (if p < NPROC \<and> state (ptab s p) \<in> {SLEEPING, RUNNING, RUNNABLE}
        then promote1 (ptab s p) else ptab s p)"
      by (simp add: promote1_def dec_prio_def)
  qed
  have "ticks t = ticks s"
    using relinked_globals(4) [OF t(3)] by simp
  then show ?thesis
    using that t one unfolding tab by (simp add: promote_def assms(2))
qed

end
