(* ===== verification/ProcOps.thy ===== *)
theory ProcOps
  imports ProcInv
begin

text \<open>
  The critical sections of proc.c: each takes \<open>ptable.lock\<close>, runs, and gives the
  lock back (or hands it to the scheduler).  For each operation its result on
  every branch, with the lists and the table it leaves.
\<close>

declare find_lists.simps [simp del]

section \<open>Sections under ptable.lock\<close>

definition pt_ready :: "'a ptable_scheme \<Rightarrow> bool" where
  "pt_ready s \<longleftrightarrow> lock_free PtableLock s \<and> cpu_ok s"

definition pt_done :: "'a ptable_scheme \<Rightarrow> 'a ptable_scheme \<Rightarrow> 'a ptable_scheme" where
  "pt_done s t = t\<lparr>cpus := cpus (settled s), locks := locks s\<rparr>"

abbreviation acq :: "'a ptable_scheme \<Rightarrow> 'a ptable_scheme" where
  "acq s \<equiv> acquired PtableLock s"

lemma ptable_of_machine [simp]:
  "ptab (acquired l s) = ptab s" "pLists (acquired l s) = pLists s"
  "ticks (acquired l s) = ticks s" "nextpid (acquired l s) = nextpid s"
  "PromoteAtTime (acquired l s) = PromoteAtTime s" "initproc (acquired l s) = initproc s"
  "ptab (settled s) = ptab s" "pLists (settled s) = pLists s"
  "ticks (settled s) = ticks s" "initproc (settled s) = initproc s"
  "PromoteAtTime (settled s) = PromoteAtTime s" "nextpid (settled s) = nextpid s"
  "ptab (upd_cpu f s) = ptab s" "pLists (upd_cpu f s) = pLists s"
  "ptab (set_proc q s) = ptab s" "pLists (set_proc q s) = pLists s" "ticks (set_proc q s) = ticks s"
  by (simp_all add: acquired_def settled_def machine_defs set_proc_def)

lemma pt_done_sel [simp]:
  "ptab (pt_done s t) = ptab t" "pLists (pt_done s t) = pLists t" "ticks (pt_done s t) = ticks t"
  "locks (pt_done s t) = locks s" "cpus (pt_done s t) = cpus (settled s)"
  "curcpu (pt_done s t) = curcpu t" "initproc (pt_done s t) = initproc t"
  "nextpid (pt_done s t) = nextpid t"
  by (simp_all add: pt_done_def)

lemma pt_inv_cong: "ptab t = ptab s \<Longrightarrow> pLists t = pLists s \<Longrightarrow> pt_inv L t = pt_inv L s"
  by (simp add: pt_inv_def lists_ok_def nexts_def)

lemma pt_inv_machine [simp]:
  "pt_inv L (acquired l s) = pt_inv L s" "pt_inv L (settled s) = pt_inv L s"
  "pt_inv L (pt_done u s) = pt_inv L s" "pt_inv L (set_proc q s) = pt_inv L s"
  "pt_inv L (upd_cpu f s) = pt_inv L s"
  by (rule pt_inv_cong, simp_all)+

lemma pt_acquire [simp]: "pt_ready s \<Longrightarrow> acquire PtableLock s = Inr (acq s)"
  by (simp add: pt_ready_def)

lemma pt_release:
  assumes "pt_ready s" "same_machine (acq s) t"
  shows "release PtableLock t = Inr (pt_done s t)"
  using release_section [of PtableLock s t] assms by (simp add: pt_ready_def pt_done_def)

lemma pt_done_acq [simp]: "pt_done s (acq s) = settled s"
  by (simp add: pt_done_def acquired_def settled_def machine_defs)

lemma pt_done_map_tab [simp]: "pt_done s (map_tab g t) = map_tab g (pt_done s t)"
  by (simp add: pt_done_def map_tab_def)

lemma pt_done_upd [simp]: "pt_done s (upd_proc p f t) = upd_proc p f (pt_done s t)"
  by (simp add: pt_done_def upd_proc_def)

lemma pt_done_relinked: "relinked t u \<Longrightarrow> relinked (pt_done s t) (pt_done s u)"
proof -
  assume r: "relinked t u"
  obtain h k where u: "u = t\<lparr>ptab := h, pLists := k\<rparr>" and h: "forget h = forget (ptab t)"
    using r unfolding relinked_def by blast
  then show ?thesis
    by (simp add: u relinked_def pt_done_def)
qed

lemma relinked_machine: "relinked s t \<Longrightarrow> same_machine s t"
  using relinked_globals(1-3) [of s t] by (simp add: same_machine_def)

text \<open>Leave the section when its body changed table fields and links only.\<close>

lemma pt_section:
  assumes "pt_ready s" "relinked (map_tab g (acq s)) t"
  shows "release PtableLock t = Inr (pt_done s t)" "relinked (map_tab g (settled s)) (pt_done s t)"
proof -
  have "same_machine (acq s) t"
    using relinked_machine [OF assms(2)] by (simp add: same_machine_def)
  then show "release PtableLock t = Inr (pt_done s t)"
    by (rule pt_release [OF assms(1)])
  show "relinked (map_tab g (settled s)) (pt_done s t)"
    using pt_done_relinked [OF assms(2), of s] by simp
qed

lemma pt_section_upd:
  assumes "pt_ready s" "relinked (upd_proc p f (acq s)) t"
  shows "release PtableLock t = Inr (pt_done s t)" "relinked (upd_proc p f (settled s)) (pt_done s t)"
  using pt_section [OF assms(1)] assms(2) unfolding map_tab_upd by blast+

lemma pt_release_acq [simp]: "pt_ready s \<Longrightarrow> release PtableLock (acq s) = Inr (settled s)"
  using pt_release [of s "acq s"] by simp

section \<open>Wakeup, kill and priorities\<close>

lemma wakeup_ok:
  assumes "pt_inv L s" "pt_ready s"
  obtains t where "wakeup ch s = Inr t" "pt_inv (woken_lists ch (ptab s) L) t"
    "relinked (woken ch (settled s)) t"
proof -
  have "pt_inv L (acq s)"
    using assms(1) by simp
  then obtain t where t: "wakeup1 ch (acq s) = Inr t" "pt_inv (woken_lists ch (ptab (acq s)) L) t"
    "relinked (woken ch (acq s)) t"
    by (rule wakeup1_ok)
  note fin = pt_section [OF assms(2) t(3) [unfolded woken_def]]
  show ?thesis
  proof (rule that)
    show "wakeup ch s = Inr (pt_done s t)"
      using assms(2) t(1) fin(1) by (simp add: wakeup_def)
    show "relinked (woken ch (settled s)) (pt_done s t)"
      using fin(2) by (simp add: woken_def)
  qed (use t(2) in simp)
qed

definition killed_wake :: "proc \<Rightarrow> proc" where
  "killed_wake x = (if state x = SLEEPING then x\<lparr>killed := True, state := RUNNABLE\<rparr>
     else x\<lparr>killed := True\<rparr>)"

lemma kill_sleeping:
  assumes "pt_inv L s" "p \<in> set (L PSleep)"
  obtains s1 t where
    "unlink p SLEEPING PSleep ''Error removing from sleep list''
       (upd_proc p (\<lambda>x. x\<lparr>killed := True\<rparr>) s) = Inr s1"
    "addtail (PReady (prio (ptab (set_state p RUNNABLE s1) p))) p (set_state p RUNNABLE s1) = Inr t"
    "pt_inv (moved_tail PSleep (PReady (prio (ptab s p))) p L) t"
    "relinked (upd_proc p killed_wake s) t"
proof -
  let ?k = "upd_proc p (\<lambda>x. x\<lparr>killed := True\<rparr>) s"
  have p: "p < NPROC" "state (ptab s p) = SLEEPING" "prio_ok (ptab s p)"
    using inv_member [OF assms] by auto
  have "pt_inv L ?k"
    using p by (intro sl.linv_upd [OF assms(1)]) (auto simp: prio_ok_def intro: home_cong)
  then obtain s1 t where t:
    "unlink p SLEEPING PSleep ''Error removing from sleep list'' ?k = Inr s1"
    "addtail (PReady (prio (ptab (set_state p RUNNABLE s1) p))) p (set_state p RUNNABLE s1) = Inr t"
    "pt_inv (moved_tail PSleep (PReady (prio (ptab ?k p))) p L) t"
    "relinked (set_state p RUNNABLE ?k) t"
    using assms(2) by (rule wakeup1_turn)
  have "set_state p RUNNABLE ?k = upd_proc p killed_wake s"
    using p(2) unfolding set_state_def upd_proc_comp
    by (auto simp: upd_proc_def killed_wake_def fun_eq_iff)
  with t that show ?thesis by simp
qed

definition kill_order :: "(listhead \<Rightarrow> nat list) \<Rightarrow> nat list" where
  "kill_order L = concat (map L ([PSleep, PRunning, PEmbryo] @ ready_lists))"

lemma kill_ok:
  assumes "pt_inv L s" "pt_ready s"
  shows "case find (\<lambda>p. pid (ptab s p) = n) (kill_order L) of
      None \<Rightarrow> kill n s = Inr (-1, settled s)
    | Some p \<Rightarrow> \<exists>t. kill n s = Inr (0, t) \<and> relinked (upd_proc p killed_wake (settled s)) t \<and>
        pt_inv (if state (ptab s p) = SLEEPING
                then moved_tail PSleep (PReady (prio (ptab s p))) p L else L) t"
proof -
  let ?P = "\<lambda>p. pid (ptab s p) = n"
  let ?rest = "concat (map L ([PRunning, PEmbryo] @ ready_lists))"
  have inv: "pt_inv L (acq s)"
    using assms(1) by simp
  have order: "find ?P (kill_order L) =
      (case find ?P (L PSleep) of None \<Rightarrow> find ?P ?rest | Some x \<Rightarrow> Some x)"
    unfolding kill_order_def by (subst find_append [symmetric]) simp
  note searches = find_list_ok [OF inv] find_lists_ok [OF inv]
  show ?thesis
  proof (cases "find ?P (L PSleep)")
    case (Some p)
    then have p: "p \<in> set (L PSleep)" "state (ptab s p) = SLEEPING"
      using find_mem inv_member(2) [OF assms(1), of p PSleep] by fastforce+
    obtain s1 t where t:
      "unlink p SLEEPING PSleep ''Error removing from sleep list''
         (upd_proc p (\<lambda>x. x\<lparr>killed := True\<rparr>) (acq s)) = Inr s1"
      "addtail (PReady (prio (ptab (set_state p RUNNABLE s1) p))) p (set_state p RUNNABLE s1) = Inr t"
      "pt_inv (moved_tail PSleep (PReady (prio (ptab (acq s) p))) p L) t"
      "relinked (upd_proc p killed_wake (acq s)) t"
      using kill_sleeping [OF inv p(1)] by metis
    show ?thesis
      using Some p(2) t pt_section_upd [OF assms(2) t(4)] assms(2)
      by (simp add: order kill_def searches Let_def)
  next
    case None
    show ?thesis
    proof (cases "find ?P ?rest")
      case None
      then show ?thesis
        using \<open>find ?P (L PSleep) = None\<close> assms(2) by (simp add: order kill_def searches)
    next
      case (Some p)
      let ?f = "\<lambda>x. x\<lparr>killed := True\<rparr>"
      obtain r where r: "p \<in> set (L r)" "r \<noteq> PSleep"
        using find_mem [OF Some] by (auto simp: ready_lists_def)
      have p: "p < NPROC" "state (ptab s p) \<noteq> SLEEPING" "prio_ok (ptab s p)"
        using inv_member [OF assms(1) r(1)] r(2) by auto
      have k: "upd_proc p killed_wake (settled s) = upd_proc p ?f (settled s)"
        using p(2) by (simp add: upd_proc_def killed_wake_def)
      have "pt_inv L (upd_proc p ?f (settled s))"
        using p assms(1) by (intro sl.linv_upd) (auto simp: prio_ok_def intro: home_cong)
      then show ?thesis
        using Some None p(2) assms(2) pt_section_upd [OF assms(2) relinked_refl, of p ?f] k
        by (simp add: order kill_def searches)
    qed
  qed
qed

definition set_prio :: "int \<Rightarrow> proc \<Rightarrow> proc" where
  "set_prio i x = x\<lparr>prio := i, budget := BUDGET\<rparr>"

lemma set_prio_skips [simp]: "skips_next (set_prio i)"
  by (simp add: skips_next_def set_prio_def)

lemma setpriority_ready_ok:
  assumes "pt_inv L s" "p \<in> set (L (PReady i))" "0 \<le> j" "j \<le> MAXP"
  obtains t where "setpriority_ready p j s = Inr t" "relinked (upd_proc p (set_prio j) s) t"
    "pt_inv (if i = j then L else moved_tail (PReady i) (PReady j) p L) t"
proof -
  have p: "p < NPROC" "state (ptab s p) = RUNNABLE" "prio (ptab s p) = i" "prio_ok (ptab s p)"
    using inv_member [OF assms(1,2)] by auto
  show ?thesis
  proof (cases "i = j")
    case True
    have "set_prio j (ptab s p) = (ptab s p)\<lparr>budget := BUDGET\<rparr>"
      using p(3) True by (cases "ptab s p") (simp add: set_prio_def)
    then have "upd_proc p (set_prio j) s = upd_proc p (\<lambda>x. x\<lparr>budget := BUDGET\<rparr>) s"
      by (simp add: upd_proc_def)
    moreover have "pt_inv L (upd_proc p (set_prio j) s)"
      using p True
      by (intro sl.linv_upd [OF assms(1)]) (auto simp: set_prio_def prio_ok_def intro: home_cong)
    ultimately show ?thesis
      using that p(3) True by (simp add: setpriority_ready_def)
  next
    case False
    obtain s1 t1 where m: "remove (PReady i) p s = Inr (0, s1)" "relinked s s1"
      "addtail (PReady j) p (upd_proc p (prio_update (\<lambda>_. j)) s1) = Inr t1"
      "pt_inv (moved_tail (PReady i) (PReady j) p L) t1"
      "relinked (upd_proc p (prio_update (\<lambda>_. j)) s) t1"
      using sl.move_tail [OF assms(1) p(1), of "prio_update (\<lambda>_. j)"] p(2,3) assms(3,4)
      by (auto simp: home_def prio_ok_def)
    let ?b = "upd_proc p (\<lambda>x. x\<lparr>budget := BUDGET\<rparr>)"
    have f: "prio (ptab t1 p) = j" "state (ptab t1 p) = RUNNABLE"
      using relinked_fields [OF m(5), of p] p(2) by simp_all
    have "pt_inv (moved_tail (PReady i) (PReady j) p L) (?b t1)"
      using f assms(3,4)
      by (intro sl.linv_upd [OF m(4)]) (auto simp: prio_ok_def intro: home_cong)
    moreover have "relinked (upd_proc p (set_prio j) s) (?b t1)"
      using upd_relinked [OF _ m(5), of "\<lambda>x. x\<lparr>budget := BUDGET\<rparr>" p]
      by (simp add: set_prio_def [abs_def])
    moreover have "setpriority_ready p j s = Inr (?b t1)"
      using m(1,3) p(2,3) False by (simp add: setpriority_ready_def assert_state_def Let_def)
    ultimately show ?thesis
      using that False by simp
  qed
qed

definition setprio_order :: "(listhead \<Rightarrow> nat list) \<Rightarrow> nat list" where
  "setprio_order L = concat (map L ([PSleep, PRunning] @ ready_lists))"

lemma setpriority_ok:
  assumes "pt_inv L s" "pt_ready s" "0 \<le> j" "j \<le> MAXP" "0 \<le> sint n"
  shows "case find (\<lambda>p. pid (ptab s p) = n) (setprio_order L) of
      None \<Rightarrow> setpriority n j s = Inr (-1, settled s)
    | Some p \<Rightarrow> \<exists>t. setpriority n j s = Inr (0, t) \<and>
        relinked (upd_proc p (set_prio j) (settled s)) t \<and>
        pt_inv (if state (ptab s p) = RUNNABLE \<and> prio (ptab s p) \<noteq> j
                then moved_tail (PReady (prio (ptab s p))) (PReady j) p L else L) t"
proof -
  let ?P = "\<lambda>p. pid (ptab s p) = n"
  let ?a = "concat (map L [PSleep, PRunning])" and ?b = "concat (map L ready_lists)"
  have inv: "pt_inv L (acq s)"
    using assms(1) by simp
  have order: "find ?P (setprio_order L) =
      (case find ?P ?a of None \<Rightarrow> find ?P ?b | Some x \<Rightarrow> Some x)"
    unfolding setprio_order_def by (subst find_append [symmetric]) simp
  note searches = find_lists_ok [OF inv]
  have guard: "\<not> (MAXP < j \<or> j < 0 \<or> sint n < 0)"
    using assms(3-5) by simp
  show ?thesis
  proof (cases "find ?P ?a")
    case (Some p)
    obtain r where r: "p \<in> set (L r)" "r = PSleep \<or> r = PRunning"
      using find_mem [OF Some] by auto
    have p: "p < NPROC" "state (ptab s p) \<noteq> RUNNABLE"
      using inv_member [OF assms(1) r(1)] r(2) by auto
    have "pt_inv L (upd_proc p (set_prio j) (settled s))"
      using p assms(1,3,4)
      by (intro sl.linv_upd) (auto simp: prio_ok_def set_prio_def intro: home_cong)
    then show ?thesis
      using Some p(2) assms(2) guard pt_section_upd [OF assms(2) relinked_refl, of p "set_prio j"]
      by (simp add: order setpriority_def searches set_prio_def [abs_def])
  next
    case None
    show ?thesis
    proof (cases "find ?P ?b")
      case None
      then show ?thesis
        using \<open>find ?P ?a = None\<close> assms(2) guard by (simp add: order setpriority_def searches)
    next
      case (Some p)
      obtain i where i: "p \<in> set (L (PReady i))"
        using find_mem [OF Some] by (auto simp: ready_lists_def)
      have p: "state (ptab s p) = RUNNABLE" "prio (ptab s p) = i"
        using inv_member(2) [OF assms(1) i] by simp_all
      obtain t where t: "setpriority_ready p j (acq s) = Inr t"
        "relinked (upd_proc p (set_prio j) (acq s)) t"
        "pt_inv (if i = j then L else moved_tail (PReady i) (PReady j) p L) t"
        using setpriority_ready_ok [OF inv i assms(3,4)] by blast
      show ?thesis
        using Some None p t assms(2) guard pt_section_upd [OF assms(2) t(2)]
        by (auto simp: order setpriority_def searches)
    qed
  qed
qed

lemma setpriority_rejects:
  "MAXP < j \<or> j < 0 \<or> sint n < 0 \<Longrightarrow> setpriority n j s = Inr (-1, s)"
  by (simp add: setpriority_def)

end
