(* ===== verification/ProcAlloc.thy ===== *)
theory ProcAlloc
  imports ProcOps
begin

text \<open>
  The allocation of process slots: \<open>alloc_slot\<close>, \<open>free_embryo\<close>, \<open>allocproc\<close> and the
  publication of a fork's child.
\<close>

section \<open>Other fields\<close>

lemma relinked_nextpid: "relinked s t \<Longrightarrow> relinked (s\<lparr>nextpid := n\<rparr>) (t\<lparr>nextpid := n\<rparr>)"
proof -
  assume r: "relinked s t"
  obtain h k where t: "t = s\<lparr>ptab := h, pLists := k\<rparr>" and h: "forget h = forget (ptab s)"
    using r unfolding relinked_def by blast
  then show ?thesis
    by (simp add: t relinked_def)
qed

lemma pt_ready_settled [simp]: "pt_ready (settled s) = pt_ready s"
  by (simp add: pt_ready_def lock_free_def cpu_ok_def mycpu_def)

lemma settled_settled [simp]: "settled (settled s) = settled s"
  by (simp add: settled_def machine_defs cpu_settled_def fun_upd_idem)

lemma pt_ready_cong:
  "locks t = locks s \<Longrightarrow> cpus t = cpus s \<Longrightarrow> curcpu t = curcpu s \<Longrightarrow> pt_ready t = pt_ready s"
  by (simp add: pt_ready_def lock_free_def cpu_ok_def mycpu_def)

lemma relinked_ready: "relinked s t \<Longrightarrow> pt_ready t = pt_ready s"
  by (rule pt_ready_cong) (simp_all add: relinked_globals)

section \<open>Claiming and returning a slot\<close>

definition claimed :: "uint \<Rightarrow> proc \<Rightarrow> proc" where
  "claimed n x = x\<lparr>state := EMBRYO, pid := n\<rparr>"

lemma claimed_skips [simp]: "skips_next (claimed n)"
  by (simp add: skips_next_def claimed_def)

lemma alloc_slot_none:
  assumes "pt_inv L s" "pt_ready s" "L PFree = []"
  shows "alloc_slot s = Inr (None, settled s)"
  using assms head_of [OF assms(1), of PFree] by (simp add: alloc_slot_def)

lemma alloc_slot_some:
  assumes "pt_inv L s" "pt_ready s" "L PFree = p # ps"
  obtains t where "alloc_slot s = Inr (Some p, t)"
    "pt_inv (L(PFree := ps, PEmbryo := p # L PEmbryo)) t"
    "relinked ((upd_proc p (claimed (nextpid s)) (settled s))\<lparr>nextpid := nextpid s + 1\<rparr>) t"
proof -
  have inv: "pt_inv L (acq s)"
    using assms(1) by simp
  have p: "p < NPROC" "state (ptab s p) = UNUSED" "prio_ok (ptab s p)"
    using inv_member [OF assms(1), of p PFree] assms(3) by auto
  obtain s1 where m: "unlink p UNUSED PFree ''Error removing from free list'' (acq s) = Inr s1"
    "relinked (acq s) s1"
    "pt_inv (moved_head PFree PEmbryo p L) (addhead PEmbryo p (set_state p EMBRYO s1))"
    "relinked (set_state p EMBRYO (acq s)) (addhead PEmbryo p (set_state p EMBRYO s1))"
    using to_head [OF inv p(1), of UNUSED PFree "state_update (\<lambda>_. EMBRYO)" PEmbryo] p
    unfolding set_state_def by (auto simp: prio_ok_def)
  let ?a = "addhead PEmbryo p (set_state p EMBRYO s1)"
  let ?f = "\<lambda>x. x\<lparr>pid := nextpid s\<rparr>"
  have np: "nextpid ?a = nextpid s"
    using relinked_globals(6) [OF m(4)] by (simp add: set_state_def)
  have sp: "state (ptab ?a p) = EMBRYO" "prio (ptab ?a p) = prio (ptab s p)"
    using relinked_fields [OF m(4), of p] by (simp_all add: set_state_def)
  have u: "relinked (upd_proc p (claimed (nextpid s)) (acq s)) (upd_proc p ?f ?a)"
    using upd_relinked [OF _ m(4), of ?f p] by (simp add: set_state_def claimed_def [abs_def])
  have iu: "pt_inv (moved_head PFree PEmbryo p L) (upd_proc p ?f ?a)"
    using sp p(3) by (intro sl.linv_upd [OF m(3)]) (auto simp: prio_ok_def intro: home_cong)
  let ?b = "(upd_proc p ?f ?a)\<lparr>nextpid := nextpid s + 1\<rparr>"
  have rb: "relinked ((upd_proc p (claimed (nextpid s)) (acq s))\<lparr>nextpid := nextpid s + 1\<rparr>) ?b"
    by (rule relinked_nextpid [OF u])
  have "same_machine (acq s) ?b"
    using relinked_machine [OF rb] by (simp add: same_machine_def)
  then have rel: "release PtableLock ?b = Inr (pt_done s ?b)"
    by (rule pt_release [OF assms(2)])
  have "pt_done s ((upd_proc p (claimed (nextpid s)) (acq s))\<lparr>nextpid := nextpid s + 1\<rparr>) =
      (upd_proc p (claimed (nextpid s)) (settled s))\<lparr>nextpid := nextpid s + 1\<rparr>"
    by (simp add: pt_done_def upd_proc_def acquired_def settled_def machine_defs)
  then have "relinked ((upd_proc p (claimed (nextpid s)) (settled s))\<lparr>nextpid := nextpid s + 1\<rparr>)
      (pt_done s ?b)"
    using pt_done_relinked [OF rb, of s] by simp
  moreover have "alloc_slot s = Inr (Some p, pt_done s ?b)"
    using assms(2) m(1) rel np head_of [OF inv, of PFree] assms(3)
    by (simp add: alloc_slot_def Let_def)
  moreover have "moved_head PFree PEmbryo p L = L(PFree := ps, PEmbryo := p # L PEmbryo)"
    using assms(3) by (simp add: moved_head_def Let_def)
  moreover have "pt_inv (moved_head PFree PEmbryo p L) (pt_done s ?b)"
    using iu pt_inv_cong [of ?b "upd_proc p ?f ?a"] by simp
  ultimately show ?thesis
    using that by metis
qed

lemma free_embryo_ok:
  assumes "pt_inv L s" "pt_ready s" "p \<in> set (L PEmbryo)"
  obtains t where "free_embryo p s = Inr t" "pt_inv (moved_head PEmbryo PFree p L) t"
    "relinked (set_state p UNUSED (settled s)) t"
proof -
  have inv: "pt_inv L (acq s)"
    using assms(1) by simp
  have p: "p < NPROC" "state (ptab s p) = EMBRYO" "prio_ok (ptab s p)"
    using inv_member [OF assms(1,3)] by auto
  obtain s1 where m: "unlink p EMBRYO PEmbryo ''Error removing from embryo list'' (acq s) = Inr s1"
    "pt_inv (moved_head PEmbryo PFree p L) (addhead PFree p (set_state p UNUSED s1))"
    "relinked (set_state p UNUSED (acq s)) (addhead PFree p (set_state p UNUSED s1))"
    using to_head [OF inv p(1), of EMBRYO PEmbryo "state_update (\<lambda>_. UNUSED)" PFree] p
    unfolding set_state_def by (auto simp: prio_ok_def)
  note fin = pt_section_upd [OF assms(2) m(3) [unfolded set_state_def]]
  show ?thesis
    using that fin m(1,2) assms(2) by (simp add: free_embryo_def set_state_def)
qed

lemma fork_publish_ok:
  assumes "pt_inv L s" "pt_ready s" "p \<in> set (L PEmbryo)" "prio (ptab s p) = 0"
  obtains t where "fork_publish p s = Inr t" "pt_inv (moved_tail PEmbryo (PReady 0) p L) t"
    "relinked (set_state p RUNNABLE (settled s)) t"
proof -
  have inv: "pt_inv L (acq s)"
    using assms(1) by simp
  have p: "p < NPROC" "state (ptab s p) = EMBRYO" "prio_ok (ptab s p)"
    using inv_member [OF assms(1,3)] by auto
  obtain s1 t where m: "unlink p EMBRYO PEmbryo ''Error removing from embryo list'' (acq s) = Inr s1"
    "addtail (PReady 0) p (set_state p RUNNABLE s1) = Inr t"
    "pt_inv (moved_tail PEmbryo (PReady 0) p L) t"
    "relinked (set_state p RUNNABLE (acq s)) t"
    using to_tail [OF inv p(1), of EMBRYO PEmbryo "state_update (\<lambda>_. RUNNABLE)" "PReady 0"] p assms(4)
    unfolding set_state_def by (simp add: prio_ok_def) blast
  note fin = pt_section_upd [OF assms(2) m(4) [unfolded set_state_def]]
  show ?thesis
    using that fin m(1-3) assms(2) by (simp add: fork_publish_def set_state_def)
qed

section \<open>allocproc\<close>

text \<open>
  \<open>allocproc\<close> gives either no process, with the lists as before, or a fresh embryo
  at the head of the embryo list that has a kernel stack, a new pid, full budget
  and priority 0.
\<close>

definition born :: "uint \<Rightarrow> uint \<Rightarrow> uint \<Rightarrow> proc \<Rightarrow> proc" where
  "born n k now x = x\<lparr>state := EMBRYO, pid := n, kstack := k, pcontext := AtForkret,
     start_ticks := now, cpu_ticks_total := 0, cpu_ticks_in := 0, budget := BUDGET, prio := 0\<rparr>"

lemma kalloc_frame:
  assumes "kmem_ready s"
  obtains t where "kalloc s = Inr (freelist s, t)" "ptab t = ptab s" "pLists t = pLists s"
    "ticks t = ticks s" "nextpid t = nextpid s" "locks t = locks s" "curcpu t = curcpu s"
    "cpus t = (if use_lock s then cpus (settled s) else cpus s)" "initproc t = initproc s"
    "PromoteAtTime t = PromoteAtTime s"
proof -
  let ?t = "kfin s (if freelist s \<noteq> 0 then s\<lparr>freelist := pmem s (freelist s)\<rparr> else s)"
  show ?thesis
    by (rule that [of ?t, OF kalloc_eq [OF assms]]) (simp_all add: kfin_def)
qed

text \<open>The CPUs run the same processes, in no \<open>pushcli\<close> section that was not there before.\<close>

definition same_procs :: "'a machine_scheme \<Rightarrow> 'a machine_scheme \<Rightarrow> bool" where
  "same_procs s t \<longleftrightarrow> locks t = locks s \<and> (\<forall>c. ncli (cpus t c) = ncli (cpus s c)) \<and>
     (\<forall>c. cproc (cpus t c) = cproc (cpus s c))"

lemma same_procs_relinked: "relinked s t \<Longrightarrow> same_procs s t"
  by (simp add: same_procs_def relinked_globals)

lemma kalloc_same_procs:
  assumes "kmem_ready s" "kalloc s = Inr (k, t)"
  shows "same_procs s t"
  using kalloc_eq [OF assms(1)] assms(2) by (auto simp: same_procs_def kfin_def)

lemma relinked_kmem_ready: "relinked s t \<Longrightarrow> kmem_ready t = kmem_ready s"
  using relinked_globals [of s t]
  by (simp add: kmem_ready_def lock_free_def cpu_ok_def mycpu_def)

lemma kmem_ready_settled [simp]: "kmem_ready (settled s) = kmem_ready s"
proof -
  have "use_lock (settled s) = use_lock s"
    by (simp add: settled_def machine_defs)
  then show ?thesis
    by (simp add: kmem_ready_def lock_free_def cpu_ok_def mycpu_def)
qed

lemma kmem_ready_upd [simp]:
  "kmem_ready (upd_proc p f s) = kmem_ready s" "kmem_ready (s\<lparr>nextpid := n\<rparr>) = kmem_ready s"
  by (simp_all add: kmem_ready_def lock_free_def cpu_ok_def mycpu_def upd_proc_def)

lemma frame_misc [simp]:
  "freelist (upd_proc p f s) = freelist s" "freelist (settled s) = freelist s"
  "use_lock (upd_proc p f s) = use_lock s" "use_lock (settled s) = use_lock s"
  "pt_ready (upd_proc p f s) = pt_ready s" "pt_ready (s\<lparr>nextpid := n\<rparr>) = pt_ready s"
  by (simp_all add: upd_proc_def settled_def machine_defs pt_ready_def lock_free_def cpu_ok_def)

lemma allocproc_none:
  assumes "pt_inv L s" "pt_ready s" "L PFree = []"
  shows "allocproc s = Inr (None, settled s)"
  by (simp add: allocproc_def alloc_slot_none [OF assms])

lemma allocproc_some:
  assumes "pt_inv L s" "pt_ready s" "kmem_ready s" "L PFree = p # ps" "freelist s \<noteq> 0"
  obtains t where "allocproc s = Inr (Some p, t)"
    "pt_inv (L(PFree := ps, PEmbryo := p # L PEmbryo)) t"
    "forget (ptab t) =
       forget ((ptab s)(p := born (nextpid s) (freelist s) (ticks s) (ptab s p)))"
    "nextpid t = nextpid s + 1" "same_procs s t"
proof -
  let ?L = "L(PFree := ps, PEmbryo := p # L PEmbryo)"
  let ?k = "freelist s"
  obtain a where a: "alloc_slot s = Inr (Some p, a)" "pt_inv ?L a"
    "relinked ((upd_proc p (claimed (nextpid s)) (settled s))\<lparr>nextpid := nextpid s + 1\<rparr>) a"
    using alloc_slot_some [OF assms(1,2,4)] by blast
  have g: "freelist a = ?k" "nextpid a = nextpid s + 1" "ticks a = ticks s" "kmem_ready a"
    using relinked_globals [OF a(3)] relinked_kmem_ready [OF a(3)] assms(3)
    by simp_all
  obtain b where b: "kalloc a = Inr (?k, b)" "ptab b = ptab a" "pLists b = pLists a"
    "ticks b = ticks s" "nextpid b = nextpid s + 1" "same_procs a b"
    using kalloc_frame [OF g(4)] g kalloc_same_procs [OF g(4)] by metis
  have "same_procs s b"
    using same_procs_relinked [OF a(3)] b(6) by (simp add: same_procs_def)
  let ?f = "\<lambda>x. x\<lparr>kstack := ?k, pcontext := AtForkret, start_ticks := ticks s,
    cpu_ticks_total := 0, cpu_ticks_in := 0, budget := BUDGET, prio := 0\<rparr>"
  have f: "skips_next ?f"
    by (simp add: skips_next_def)
  have ib: "pt_inv ?L b"
    using a(2) pt_inv_cong [OF b(2,3)] by simp
  have emb: "state (ptab b p) = EMBRYO"
    using inv_member(2) [OF a(2), of p PEmbryo] b(2) by simp
  have it: "pt_inv ?L (upd_proc p ?f b)"
    using emb by (intro sl.linv_upd [OF ib f]) (auto simp: prio_ok_def MAXP_def intro: home_cong)
  have "forget (ptab a) = forget ((ptab s)(p := claimed (nextpid s) (ptab s p)))"
    using relinked_forget [OF a(3)] by simp
  from forget_upd [OF f this, of p]
  have "forget (ptab (upd_proc p ?f b)) =
      forget ((ptab s)(p := born (nextpid s) ?k (ticks s) (ptab s p)))"
    by (simp add: b(2) born_def claimed_def)
  moreover have "allocproc s = Inr (Some p, upd_proc p ?f b)"
    using assms(5) b by (simp add: allocproc_def a(1) Let_def)
  ultimately show ?thesis
    using that it b(5) \<open>same_procs s b\<close> by (simp add: same_procs_def)
qed

lemma allocproc_no_stack:
  assumes "pt_inv L s" "pt_ready s" "kmem_ready s" "L PFree = p # ps" "freelist s = 0"
  obtains t where "allocproc s = Inr (None, t)" "pt_inv L t"
    "forget (ptab t) = forget ((ptab s)(p := (ptab s p)\<lparr>pid := nextpid s, kstack := 0\<rparr>))"
    "nextpid t = nextpid s + 1" "same_procs s t"
proof -
  let ?L = "L(PFree := ps, PEmbryo := p # L PEmbryo)"
  obtain a where a: "alloc_slot s = Inr (Some p, a)" "pt_inv ?L a"
    "relinked ((upd_proc p (claimed (nextpid s)) (settled s))\<lparr>nextpid := nextpid s + 1\<rparr>) a"
    using alloc_slot_some [OF assms(1,2,4)] by blast
  have g: "freelist a = 0" "nextpid a = nextpid s + 1" "kmem_ready a" "pt_ready a"
    using relinked_globals [OF a(3)] relinked_kmem_ready [OF a(3)] relinked_ready [OF a(3)]
      assms(2,3,5) by simp_all
  obtain b where b: "kalloc a = Inr (0, b)" "ptab b = ptab a" "pLists b = pLists a"
    "nextpid b = nextpid s + 1" "locks b = locks a" "curcpu b = curcpu a"
    "cpus b = (if use_lock a then cpus (settled a) else cpus a)" "same_procs a b"
    using kalloc_frame [OF g(3)] g kalloc_same_procs [OF g(3)] by metis
  let ?c = "upd_proc p (\<lambda>x. x\<lparr>kstack := 0\<rparr>) b"
  have rc: "pt_ready ?c"
    using g(4) b(5-7) by (simp add: pt_ready_def lock_free_def cpu_ok_def mycpu_def)
  have ib: "pt_inv ?L b"
    using a(2) pt_inv_cong [OF b(2,3)] by simp
  have ic: "pt_inv ?L ?c"
    using inv_member(3) [OF ib, of p PEmbryo]
    by (intro sl.linv_upd [OF ib]) (auto simp: prio_ok_def intro: home_cong)
  obtain t where t: "free_embryo p ?c = Inr t" "pt_inv (moved_head PEmbryo PFree p ?L) t"
    "relinked (set_state p UNUSED (settled ?c)) t"
    using free_embryo_ok [OF ic rc] by auto
  have undo: "moved_head PEmbryo PFree p ?L = L"
    using assms(4) by (auto simp: moved_head_def Let_def fun_eq_iff)
  have unused: "state (ptab s p) = UNUSED"
    using inv_member(2) [OF assms(1), of p PFree] assms(4) by simp
  let ?f = "\<lambda>x. x\<lparr>kstack := 0, state := UNUSED\<rparr>"
  have f: "skips_next ?f"
    by (simp add: skips_next_def)
  have "forget (ptab a) = forget ((ptab s)(p := claimed (nextpid s) (ptab s p)))"
    using relinked_forget [OF a(3)] by simp
  from forget_upd [OF f this, of p]
  have "forget ((ptab a)(p := ?f (ptab a p))) =
      forget ((ptab s)(p := (ptab s p)\<lparr>pid := nextpid s, kstack := 0\<rparr>))"
    using unused by (cases "ptab s p") (simp add: claimed_def)
  then have "forget (ptab t) =
      forget ((ptab s)(p := (ptab s p)\<lparr>pid := nextpid s, kstack := 0\<rparr>))"
    using relinked_forget [OF t(3)] by (simp add: set_state_def b(2))
  moreover have "nextpid t = nextpid s + 1"
    using relinked_globals(6) [OF t(3)] b(4) by (simp add: set_state_def)
  moreover have "allocproc s = Inr (None, t)"
    using b(1) t(1) by (simp add: allocproc_def a(1) Let_def)
  moreover have "same_procs s t"
    using same_procs_relinked [OF a(3)] same_procs_relinked [OF t(3)] b(8)
    by (simp add: same_procs_def set_state_def)
  ultimately show ?thesis
    using that t(2) unfolding undo by metis
qed

end
