(* ===== verification/ProcSwitch.thy ===== *)
theory ProcSwitch
  imports ProcAlloc
begin

text \<open>
  The operations that give the CPU away or take it: the scheduler's choice, \<open>sched\<close>,
  \<open>yield\<close>, \<open>sleep\<close>, \<open>exit\<close> and \<open>wait\<close>.
\<close>

section \<open>What the switch functions of vm.c are relied on for\<close>

text \<open>
  \<open>switchuvm\<close> and \<open>switchkvm\<close> load hardware registers and return; \<open>switchuvm\<close> needs a
  page table.  \<open>freevm\<close> gives pages back to the allocator: called with interrupts
  off it changes only the free list and the memory.
\<close>

definition vm_switches :: "'a ptable_scheme vmops \<Rightarrow> bool" where
  "vm_switches vm \<longleftrightarrow>
     (\<forall>p s. pgdir (ptab s p) \<noteq> 0 \<longrightarrow> switchuvm vm p s = Inr s) \<and> (\<forall>s. switchkvm vm s = Inr s)"

definition kmem_only :: "'a kmem_scheme \<Rightarrow> 'a kmem_scheme \<Rightarrow> bool" where
  "kmem_only s t \<longleftrightarrow> t = s\<lparr>freelist := freelist t, pmem := pmem t\<rparr>"

definition vm_frees :: "'a ptable_scheme vmops \<Rightarrow> bool" where
  "vm_frees vm \<longleftrightarrow>
     (\<forall>pd s t. 0 < ncli (mycpu s) \<longrightarrow> freevm vm pd s = Inr t \<longrightarrow> kmem_only s t)"

section \<open>The scheduler's choice\<close>

definition dispatched :: "uint \<Rightarrow> proc \<Rightarrow> proc" where
  "dispatched now x = x\<lparr>state := RUNNING, cpu_ticks_in := now\<rparr>"

lemma dispatched_skips [simp]: "skips_next (dispatched now)"
  by (simp add: skips_next_def dispatched_def)

lemma run_proc_ok:
  assumes "pt_inv L s" "p \<in> set (L (PReady i))" "vm_switches vm" "pgdir (ptab s p) \<noteq> 0"
  obtains t where "run_proc vm i p s = Inr t" "pt_inv (moved_head (PReady i) PRunning p L) t"
    "relinked (upd_proc p (dispatched (ticks s)) (set_proc (Some p) s)) t"
proof -
  let ?s = "set_proc (Some p) s"
  have inv: "pt_inv L ?s"
    using assms(1) by simp
  have p: "p < NPROC" "state (ptab s p) = RUNNABLE" "prio (ptab s p) = i" "prio_ok (ptab s p)"
    using inv_member [OF assms(1,2)] by auto
  obtain s1 where m: "unlink p RUNNABLE (PReady i) ''Error removing from ready list'' ?s = Inr s1"
    "pt_inv (moved_head (PReady i) PRunning p L) (addhead PRunning p (set_state p RUNNING s1))"
    "relinked (set_state p RUNNING ?s) (addhead PRunning p (set_state p RUNNING s1))"
    using to_head [OF inv p(1), of RUNNABLE "PReady i" "state_update (\<lambda>_. RUNNING)" PRunning] p
    unfolding set_state_def by (auto simp: prio_ok_def)
  let ?a = "addhead PRunning p (set_state p RUNNING s1)"
  let ?f = "\<lambda>x. x\<lparr>cpu_ticks_in := ticks s\<rparr>"
  have a: "ticks ?a = ticks s" "state (ptab ?a p) = RUNNING" "prio (ptab ?a p) = i"
    using relinked_globals(4) [OF m(3)] relinked_fields [OF m(3), of p] p(3)
    by (simp_all add: set_state_def)
  have "relinked (upd_proc p (dispatched (ticks s)) ?s) (upd_proc p ?f ?a)"
    using upd_relinked [OF _ m(3), of ?f p] by (simp add: set_state_def dispatched_def [abs_def])
  moreover have "pt_inv (moved_head (PReady i) PRunning p L) (upd_proc p ?f ?a)"
    using a p(3,4) by (intro sl.linv_upd [OF m(2)]) (auto simp: prio_ok_def intro: home_cong)
  moreover have "run_proc vm i p s = Inr (upd_proc p ?f ?a)"
    using assms(3,4) m(1) a(1) by (simp add: run_proc_def vm_switches_def Let_def)
  ultimately show ?thesis
    using that by blast
qed

text \<open>The first ready process in priority order.\<close>

fun choice :: "int list \<Rightarrow> (listhead \<Rightarrow> nat list) \<Rightarrow> (int \<times> nat) option" where
  "choice [] L = None"
| "choice (i # is) L = (case L (PReady i) of [] \<Rightarrow> choice is L | p # _ \<Rightarrow> Some (i, p))"

lemma choice_mem: "choice is L = Some (i, p) \<Longrightarrow> i \<in> set is \<and> p \<in> set (L (PReady i))"
  by (induction "is") (auto split: list.splits)

lemma pick_ok:
  assumes "pt_inv L s" "vm_switches vm"
    "\<And>p. p < NPROC \<Longrightarrow> state (ptab s p) = RUNNABLE \<Longrightarrow> pgdir (ptab s p) \<noteq> 0"
  shows "case choice is L of
      None \<Rightarrow> pick vm is s = Inr (None, s)
    | Some (i, p) \<Rightarrow> \<exists>t. pick vm is s = Inr (Some p, t) \<and>
        pt_inv (moved_head (PReady i) PRunning p L) t \<and>
        relinked (upd_proc p (dispatched (ticks s)) (set_proc (Some p) s)) t"
proof (induction "is")
  case Nil
  then show ?case by simp
next
  case (Cons i "is")
  show ?case
  proof (cases "L (PReady i)")
    case Nil
    then have "pick vm (i # is) s = pick vm is s" "choice (i # is) L = choice is L"
      using head_of [OF assms(1), of "PReady i"] by simp_all
    then show ?thesis
      using Cons.IH by (simp only:)
  next
    case (Cons p ps)
    have p: "p \<in> set (L (PReady i))"
      using Cons by simp
    have "pgdir (ptab s p) \<noteq> 0"
      using inv_member [OF assms(1) p] assms(3) by simp
    from run_proc_ok [OF assms(1) p assms(2) this] show ?thesis
      using Cons head_of [OF assms(1), of "PReady i"] by simp (metis Rbind_Inr)
  qed
qed

section \<open>Switching out\<close>

definition switch_out :: "uint \<Rightarrow> bool \<Rightarrow> caller \<Rightarrow> proc \<Rightarrow> proc" where
  "switch_out now ie who x = x\<lparr>
     cpu_ticks_total := cpu_ticks_total x + (now - cpu_ticks_in x), pcontext := InSched ie who\<rparr>"

lemma switch_out_skips [simp]: "skips_next (switch_out now ie who)"
  by (simp add: skips_next_def switch_out_def)

lemma switch_out_home [simp]:
  "home (switch_out now ie who x) = home x" "prio_ok (switch_out now ie who x) = prio_ok x"
  by (auto simp: switch_out_def prio_ok_def intro: home_cong)

text \<open>
  \<open>held p b t\<close>: in \<open>t\<close> the CPU runs \<open>p\<close> and holds exactly \<open>ptable.lock\<close>, which it
  took in a machine state like that of \<open>b\<close>.
\<close>

definition held :: "nat \<Rightarrow> 'a ptable_scheme \<Rightarrow> 'a ptable_scheme \<Rightarrow> bool" where
  "held p b t \<longleftrightarrow> same_machine (acq b) t \<and> pt_ready b \<and> ncli (mycpu b) = 0 \<and>
     cproc (mycpu b) = Some p"

lemma held_cong: "held p b t \<Longrightarrow> same_machine t u \<Longrightarrow> held p b u"
  unfolding held_def by (blast intro: same_machine_trans)

lemma held_upd [simp]: "held p b (upd_proc q f t) = held p b t"
  by (simp add: held_def same_machine_def)

lemma held_relinked: "held p b t \<Longrightarrow> relinked t u \<Longrightarrow> held p b u"
  by (blast intro: held_cong relinked_machine)

lemma held_release: "held p b t \<Longrightarrow> release PtableLock t = Inr (pt_done b t)"
  by (simp add: held_def pt_release)

lemma held_proc: "held p b t \<Longrightarrow> cproc (mycpu t) = Some p"
  by (simp add: held_def same_machine_def mycpu_def)

lemma held_with_proc [simp]: "held p b t \<Longrightarrow> with_proc f t = f p t"
  by (simp add: with_proc_def held_proc)

lemma intena_acquired: "ncli (mycpu s) = 0 \<Longrightarrow> intena (mycpu (acquired l s)) = eflags_IF (mycpu s)"
  by (simp add: acquired_def machine_defs cpu_push_def)

lemma sched_ok:
  assumes "held p b t" "state (ptab t p) \<noteq> RUNNING"
  shows "sched who t = Inr (upd_proc p (switch_out (ticks t) (eflags_IF (mycpu b)) who) t)"
proof -
  have b: "same_machine (acq b) t" "ncli (mycpu b) = 0"
    using assms(1) by (simp_all add: held_def)
  have m: "mycpu t = mycpu (acq b)" "holding PtableLock t"
    using b(1) holding_acquired [of PtableLock b]
    by (simp_all add: same_machine_def mycpu_def holding_def)
  have "ncli (mycpu t) = 1" "\<not> eflags_IF (mycpu t)" "intena (mycpu t) = eflags_IF (mycpu b)"
    using b(2) intena_acquired [of b PtableLock] unfolding m(1) by (simp_all add: mycpu_def)
  then show ?thesis
    using m(2) assms by (simp add: sched_def switch_out_def [abs_def])
qed

text \<open>\<open>sched\<close> after the process has been moved to its new list.\<close>

lemma sched_after:
  assumes "held p b s" "relinked (upd_proc p f s) t" "pt_inv L t" "state (f (ptab s p)) \<noteq> RUNNING"
  obtains u where "sched who t = Inr u" "pt_inv L u"
    "relinked (upd_proc p (\<lambda>x. switch_out (ticks s) (eflags_IF (mycpu b)) who (f x)) s) u"
proof -
  let ?o = "switch_out (ticks s) (eflags_IF (mycpu b)) who"
  have "held p b t" "ticks t = ticks s" "state (ptab t p) \<noteq> RUNNING"
    using held_relinked [OF _ assms(2), of p b] relinked_globals(4) [OF assms(2)]
      relinked_fields(1) [OF assms(2), of p] assms(1,4) by simp_all
  then have "sched who t = Inr (upd_proc p ?o t)"
    using sched_ok [of p b t who] by simp
  moreover have "pt_inv L (upd_proc p ?o t)"
    using assms(3) by (intro sl.linv_upd) (auto simp: pt_inv_def placed_def)
  moreover have "relinked (upd_proc p (\<lambda>x. ?o (f x)) s) (upd_proc p ?o t)"
    using upd_relinked [OF _ assms(2), of ?o p] by simp
  ultimately show ?thesis
    using that by blast
qed

lemma charge_sel [simp]:
  "state (charge now x) = state x" "pcontext (charge now x) = pcontext x"
  "pchan (charge now x) = pchan x" "pgdir (charge now x) = pgdir x" "parent (charge now x) = parent x"
  by (simp_all add: charge_def Let_def)

lemma charge_prio: "prio_ok x \<Longrightarrow> prio_ok (charge now x)"
  by (auto simp: charge_def Let_def prio_ok_def)

section \<open>yield and sleep\<close>

text \<open>A CPU that runs \<open>p\<close> outside any \<open>pushcli\<close> section.\<close>

definition runs :: "nat \<Rightarrow> 'a ptable_scheme \<Rightarrow> bool" where
  "runs p s \<longleftrightarrow> pt_ready s \<and> ncli (mycpu s) = 0 \<and> cproc (mycpu s) = Some p \<and> p < NPROC \<and>
     state (ptab s p) = RUNNING"

lemma runs_held: "runs p s \<Longrightarrow> held p s (acq s)"
  by (simp add: runs_def held_def)

definition yielded :: "uint \<Rightarrow> bool \<Rightarrow> proc \<Rightarrow> proc" where
  "yielded now ie x = switch_out now ie FromYield (charge now (x\<lparr>state := RUNNABLE\<rparr>))"

lemma yield_ok:
  assumes "pt_inv L s" "runs p s"
  obtains t where "yield s = Inr t"
    "pt_inv (moved_tail PRunning (PReady (prio (charge (ticks s) (ptab s p)))) p L) t"
    "relinked (upd_proc p (yielded (ticks s) (eflags_IF (mycpu s))) (acq s)) t"
proof -
  have inv: "pt_inv L (acq s)" and rdy: "pt_ready s"
    using assms by (simp_all add: runs_def)
  have p: "p < NPROC" "state (ptab s p) = RUNNING" "prio_ok (ptab s p)"
    using assms by (simp_all add: runs_def pt_inv_def placed_def)
  let ?f = "\<lambda>x. charge (ticks s) (x\<lparr>state := RUNNABLE\<rparr>)"
  let ?i = "prio (charge (ticks s) (ptab s p))"
  have pr: "prio (?f x) = prio (charge (ticks s) x)" for x
    by (simp add: charge_def Let_def)
  obtain s1 t where m: "unlink p RUNNING PRunning ''Error removing from running list'' (acq s) = Inr s1"
    "relinked (acq s) s1" "addtail (PReady ?i) p (upd_proc p ?f s1) = Inr t"
    "pt_inv (moved_tail PRunning (PReady ?i) p L) t" "relinked (upd_proc p ?f (acq s)) t"
  proof (rule to_tail [OF inv p(1), of RUNNING PRunning ?f "PReady ?i"])
    show "skips_next ?f"
      by (rule skips_comp) simp_all
    show "prio_ok (?f (ptab (acq s) p))"
      using p(3) by (intro charge_prio) (simp add: prio_ok_def)
    show "home (?f (ptab (acq s) p)) = PReady ?i"
      using pr by simp
  qed (use p(2) in simp_all)
  obtain u where u: "sched FromYield t = Inr u" "pt_inv (moved_tail PRunning (PReady ?i) p L) u"
    "relinked (upd_proc p (yielded (ticks s) (eflags_IF (mycpu s))) (acq s)) u"
    using sched_after [OF runs_held [OF assms(2)] m(5,4)] by (auto simp: yielded_def [abs_def])
  have "ticks s1 = ticks s" "prio (?f (ptab s1 p)) = ?i"
    using relinked_globals(4) [OF m(2)] relinked_fields [OF m(2), of p]
    by (simp_all add: charge_def Let_def)
  then have "yield s = Inr u"
    using rdy m(1,3) u(1) held_proc [OF runs_held [OF assms(2)]]
    by (simp add: yield_def with_proc_def set_state_def Let_def)
  then show ?thesis
    using that u by blast
qed

definition slept :: "uint \<Rightarrow> bool \<Rightarrow> chan \<Rightarrow> lockname option \<Rightarrow> proc \<Rightarrow> proc" where
  "slept now ie ch lk x =
     switch_out now ie (FromSleep ch lk) (charge now (x\<lparr>pchan := ch, state := SLEEPING\<rparr>))"

text \<open>\<open>sleep\<close> from the point where only \<open>ptable.lock\<close> is held.\<close>

lemma sleep_held:
  assumes "pt_inv L s" "held p b s" "p < NPROC" "state (ptab s p) = RUNNING"
  obtains t where "sleep_off p ch lk s = Inr t"
    "pt_inv (moved_head PRunning PSleep p L) t"
    "relinked (upd_proc p (slept (ticks s) (eflags_IF (mycpu b)) ch lk) s) t"
proof -
  let ?c = "\<lambda>x. x\<lparr>pchan := ch\<rparr>" and ?f = "\<lambda>x. charge (ticks s) (x\<lparr>state := SLEEPING\<rparr>)"
  let ?s = "upd_proc p ?c s"
  have ok: "prio_ok (ptab s p)"
    using assms(1,3) by (simp add: pt_inv_def placed_def)
  have inv: "pt_inv L ?s"
    using ok by (intro sl.linv_upd [OF assms(1)]) (auto simp: prio_ok_def intro: home_cong)
  obtain s1 where m: "unlink p RUNNING PRunning ''Error removing from running list'' ?s = Inr s1"
    "relinked ?s s1" "pt_inv (moved_head PRunning PSleep p L) (addhead PSleep p (upd_proc p ?f s1))"
    "relinked (upd_proc p ?f ?s) (addhead PSleep p (upd_proc p ?f s1))"
  proof (rule to_head [OF inv assms(3), of RUNNING PRunning ?f PSleep])
    show "skips_next ?f"
      by (rule skips_comp) simp_all
    show "prio_ok (?f (ptab ?s p))"
      using ok by (intro charge_prio) (simp add: prio_ok_def)
  qed (use assms(4) in simp_all)
  have r: "relinked (upd_proc p (\<lambda>x. ?f (?c x)) s) (addhead PSleep p (upd_proc p ?f s1))"
    using m(4) by simp
  obtain t where t: "sched (FromSleep ch lk) (addhead PSleep p (upd_proc p ?f s1)) = Inr t"
    "pt_inv (moved_head PRunning PSleep p L) t"
    "relinked (upd_proc p (\<lambda>x. switch_out (ticks s) (eflags_IF (mycpu b)) (FromSleep ch lk)
       (?f (?c x))) s) t"
    using sched_after [OF assms(2) r m(3)] by auto
  have "ticks s1 = ticks s"
    using relinked_globals(4) [OF m(2)] by simp
  moreover have "(\<lambda>x. switch_out (ticks s) (eflags_IF (mycpu b)) (FromSleep ch lk) (?f (?c x))) =
      slept (ticks s) (eflags_IF (mycpu b)) ch lk"
    by (simp add: slept_def fun_eq_iff)
  ultimately show ?thesis
    using that m(1) t by (simp add: sleep_off_def set_state_def Let_def)
qed

lemma sleep_no_lock:
  assumes "pt_inv L s" "runs p s"
  obtains t where "sleep ch None s = Inr t" "pt_inv (moved_head PRunning PSleep p L) t"
    "relinked (upd_proc p (slept (ticks s) (eflags_IF (mycpu s)) ch None) (acq s)) t"
proof -
  have inv: "pt_inv L (acq s)" "p < NPROC" "state (ptab (acq s) p) = RUNNING"
    and r: "pt_ready s" "cproc (mycpu s) = Some p"
    using assms by (simp_all add: runs_def)
  show ?thesis
    by (rule sleep_held [OF inv(1) runs_held [OF assms(2)] inv(2,3), of ch None])
       (use r that in \<open>simp add: sleep_def sleep_steps_def\<close>)
qed

lemma sleep_ptable_lock:
  assumes "pt_inv L s" "held p b s" "p < NPROC" "state (ptab s p) = RUNNING"
  obtains t where "sleep ch (Some PtableLock) s = Inr t" "pt_inv (moved_head PRunning PSleep p L) t"
    "relinked (upd_proc p (slept (ticks s) (eflags_IF (mycpu b)) ch (Some PtableLock)) s) t"
  by (rule sleep_held [OF assms, of ch "Some PtableLock"])
     (use held_proc [OF assms(2)] that in \<open>simp add: sleep_def sleep_steps_def\<close>)

text \<open>
  \<open>sleep\<close> with another lock: \<open>ptable.lock\<close> is taken before the caller's lock is given
  up, so no wakeup of the channel falls in between, and the CPU is left in the state of
  a lone \<open>acquire(&ptable.lock)\<close>.
\<close>

lemma release_inner:
  assumes "lock_free l b" "lock_free PtableLock b" "l \<noteq> PtableLock" "ncli (mycpu b) = 0"
    "same_machine (acquired l b) s"
  shows "release l (acq s) = Inr ((acq s)\<lparr>cpus := cpus (acq b), locks := locks (acq b)\<rparr>)"
proof -
  let ?c = "curcpu b"
  have s: "cpus s = (cpus b)(?c := cpu_push (cpus b ?c))" "curcpu s = ?c"
    "locks s = (locks b)(l := (locks b l)\<lparr>locked := True, lcpu := Some ?c\<rparr>)"
    using assms(5) by (auto simp: same_machine_def acquired_def machine_defs)
  have pop: "cpu_pop (cpu_push (cpu_push c)) = cpu_push c" if "ncli c = 0" for c
    using that by (cases c) (simp add: cpu_push_def cpu_pop_def)
  have lk: "(locks b l)\<lparr>lcpu := None, locked := False\<rparr> = locks b l"
    using assms(1) by (cases "locks b l") (simp add: lock_free_def)
  show ?thesis
    using assms(3,4) pop [of "cpus b ?c"] lk
    by (simp add: release_def acquired_def machine_defs s fun_upd_twist)
qed

lemma sleep_lock:
  fixes s b :: "'a ptable_scheme"
  assumes "pt_inv L s" "runs p b" "lock_free l b" "l \<noteq> PtableLock" "same_machine (acquired l b) s"
    "state (ptab s p) = RUNNING"
  obtains t where "sleep ch (Some l) s = Inr t" "pt_inv (moved_head PRunning PSleep p L) t"
    "relinked (upd_proc p (slept (ticks s) (eflags_IF (mycpu b)) ch (Some l))
       ((acq s)\<lparr>cpus := cpus (acq b), locks := locks (acq b)\<rparr>)) t"
proof -
  let ?u = "(acq s)\<lparr>cpus := cpus (acq b), locks := locks (acq b)\<rparr>"
  have b: "pt_ready b" "ncli (mycpu b) = 0" "cproc (mycpu b) = Some p" "p < NPROC"
    using assms(2) by (simp_all add: runs_def)
  have fr: "lock_free PtableLock s"
    using assms(3-5) b(1) by (simp add: same_machine_def lock_free_def pt_ready_def)
  have rel: "release l (acq s) = Inr ?u"
    using release_inner [OF assms(3) _ assms(4) b(2) assms(5)] b(1) by (simp add: pt_ready_def)
  have cur: "curcpu s = curcpu b" "cproc (mycpu s) = Some p"
    using assms(5) b(3) by (simp_all add: same_machine_def mycpu_def)
  have hu: "held p b ?u"
    using b cur(1) by (simp add: held_def same_machine_def)
  have iu: "pt_inv L ?u"
    using assms(1) pt_inv_cong [of ?u s] by simp
  show ?thesis
    by (rule sleep_held [OF iu hu b(4), of ch "Some l"])
       (use assms(4,6) fr rel cur(2) that in \<open>simp_all add: sleep_def sleep_steps_def\<close>)
qed

section \<open>The scheduler around a switch\<close>

definition with_if :: "bool \<Rightarrow> 'a machine_scheme \<Rightarrow> 'a machine_scheme" where
  "with_if ie s = upd_cpu (\<lambda>c. c\<lparr>eflags_IF := ie\<rparr>) s"

lemma with_if_sel [simp]:
  "ptab (with_if ie s) = ptab s" "pLists (with_if ie s) = pLists s" "ticks (with_if ie s) = ticks s"
  "PromoteAtTime (with_if ie s) = PromoteAtTime s" "curcpu (with_if ie s) = curcpu s"
  "locks (with_if ie s) = locks s" "ncli (cpus (with_if ie s) c) = ncli (cpus s c)"
  "cproc (cpus (with_if ie s) c) = cproc (cpus s c)"
  by (simp_all add: with_if_def machine_defs)

lemma set_proc_sel [simp]:
  "curcpu (set_proc q s) = curcpu s" "locks (set_proc q s) = locks s"
  "ncli (cpus (set_proc q s) c) = ncli (cpus s c)"
  "eflags_IF (cpus (set_proc q s) c) = eflags_IF (cpus s c)"
  "cproc (cpus (set_proc q s) c) = (if c = curcpu s then q else cproc (cpus s c))"
  by (simp_all add: set_proc_def machine_defs)

lemma cpu_push_upd:
  "cpu_push (c\<lparr>cproc := q\<rparr>) = (cpu_push c)\<lparr>cproc := q\<rparr>"
  "ncli c = 0 \<Longrightarrow> cpu_push (c\<lparr>eflags_IF := ie\<rparr>) = (cpu_push c)\<lparr>intena := ie\<rparr>"
  by (cases c, simp add: cpu_push_def)+

lemma acq_set_proc: "acquired l (set_proc q s) = set_proc q (acquired l s)"
  by (cases s) (simp add: acquired_def set_proc_def machine_defs cpu_push_upd)

lemma acq_with_if: "ncli (mycpu s) = 0 \<Longrightarrow> acquired l (with_if ie s) = sched_resume ie (acquired l s)"
  by (cases s) (simp add: acquired_def with_if_def sched_resume_def machine_defs cpu_push_upd)

text \<open>The process side after a switch back: the CPU is as if it had just locked with \<open>IF = ie\<close>.\<close>

lemma held_resume:
  assumes "held p b t"
  shows "held p (with_if ie b) (sched_resume ie t)"
proof -
  have "same_machine (acq (with_if ie b)) (sched_resume ie t)"
    using assms acq_with_if [of b PtableLock ie]
    by (simp add: held_def same_machine_def sched_resume_def machine_defs)
  moreover have "pt_ready (with_if ie b)"
    using assms by (simp add: held_def pt_ready_def lock_free_def cpu_ok_def mycpu_def)
  ultimately show ?thesis
    using assms by (simp add: held_def mycpu_def)
qed

lemma scheduler_back_ok:
  assumes "held p b t" "vm_switches vm"
  shows "scheduler_back vm t = Inr (pt_done (set_proc None b) (set_proc None t))"
proof -
  have "same_machine (acq (set_proc None b)) (set_proc None t)"
    using assms(1) unfolding acq_set_proc
    by (simp add: held_def same_machine_def set_proc_def machine_defs)
  moreover have "pt_ready (set_proc None b)"
    using assms(1) by (simp add: held_def pt_ready_def lock_free_def cpu_ok_def mycpu_def)
  ultimately show ?thesis
    using assms(2) by (simp add: scheduler_back_def vm_switches_def pt_release)
qed

lemma yield_resume_ok:
  "held p b t \<Longrightarrow> yield_resume ie t = Inr (pt_done (with_if ie b) (sched_resume ie t))"
  unfolding yield_resume_def by (rule held_release [OF held_resume])

lemma sleep_resume_no_lock:
  assumes "held p b t"
  shows "sleep_resume ie None t =
    Inr (pt_done (with_if ie b) (upd_proc p (\<lambda>x. x\<lparr>pchan := NoChan\<rparr>) (sched_resume ie t)))"
  using held_resume [OF assms, of ie] held_release [of p "with_if ie b"]
  by (simp add: sleep_resume_def Let_def)

lemma sleep_resume_ptable:
  assumes "held p b t"
  shows "sleep_resume ie (Some PtableLock) t =
    Inr (upd_proc p (\<lambda>x. x\<lparr>pchan := NoChan\<rparr>) (sched_resume ie t))"
  using held_resume [OF assms, of ie] by (simp add: sleep_resume_def Let_def)

end
