(* ===== verification/ProcExit.thy ===== *)
theory ProcExit
  imports ProcSwitch
begin

text \<open>
  One iteration of the scheduler as a whole, and the two ends of a process' life:
  \<open>exit\<close> under \<open>ptable.lock\<close>, and \<open>wait\<close> with the reaping of a zombie.
\<close>

section \<open>A scheduler iteration\<close>

definition after_promo :: "'a ptable_scheme \<Rightarrow> 'a ptable_scheme" where
  "after_promo s = (if PromoteAtTime s \<le> ticks s
     then (promoted s)\<lparr>PromoteAtTime := ticks s + TICKS_TO_PROMOTE\<rparr> else s)"

definition promo_lists ::
  "'a ptable_scheme \<Rightarrow> (listhead \<Rightarrow> nat list) \<Rightarrow> listhead \<Rightarrow> nat list" where
  "promo_lists s L = (if PromoteAtTime s \<le> ticks s then promoted_lists L else L)"

lemma relinked_promo:
  "relinked s t \<Longrightarrow> relinked (s\<lparr>PromoteAtTime := n\<rparr>) (t\<lparr>PromoteAtTime := n\<rparr>)"
proof -
  assume r: "relinked s t"
  obtain h k where t: "t = s\<lparr>ptab := h, pLists := k\<rparr>" and h: "forget h = forget (ptab s)"
    using r unfolding relinked_def by blast
  then show ?thesis
    by (simp add: t relinked_def)
qed

lemma relinked_set_proc: "relinked s t \<Longrightarrow> relinked (set_proc q s) (set_proc q t)"
proof -
  assume r: "relinked s t"
  obtain h k where t: "t = s\<lparr>ptab := h, pLists := k\<rparr>" and h: "forget h = forget (ptab s)"
    using r unfolding relinked_def by blast
  then show ?thesis
    by (simp add: t relinked_def set_proc_def machine_defs)
qed

lemma promote_all:
  assumes "pt_inv L s"
  obtains t where "promote s = Inr t" "pt_inv (promo_lists s L) t" "relinked (after_promo s) t"
proof (cases "PromoteAtTime s \<le> ticks s")
  case True
  obtain t where t: "promote s = Inr (t\<lparr>PromoteAtTime := ticks s + TICKS_TO_PROMOTE\<rparr>)"
    "pt_inv (promoted_lists L) t" "relinked (promoted s) t"
    using promote_ok [OF assms True] by blast
  have "pt_inv (promo_lists s L) (t\<lparr>PromoteAtTime := ticks s + TICKS_TO_PROMOTE\<rparr>)"
    using t(2) True pt_inv_cong [of "t\<lparr>PromoteAtTime := ticks s + TICKS_TO_PROMOTE\<rparr>" t]
    by (simp add: promo_lists_def)
  then show ?thesis
    using that t(1) relinked_promo [OF t(3)] True by (simp add: after_promo_def)
next
  case False
  then show ?thesis
    using that [of s] assms by (simp add: promote_def promo_lists_def after_promo_def)
qed

lemma promoted_sel [simp]:
  "state (ptab (promoted s) p) = state (ptab s p)" "pgdir (ptab (promoted s) p) = pgdir (ptab s p)"
  "pcontext (ptab (promoted s) p) = pcontext (ptab s p)"
  "cpus (promoted s) = cpus s" "locks (promoted s) = locks s" "curcpu (promoted s) = curcpu s"
  "ticks (promoted s) = ticks s"
  by (simp_all add: promoted_def promote1_def)

lemma after_promo_sel [simp]:
  "state (ptab (after_promo s) p) = state (ptab s p)"
  "pgdir (ptab (after_promo s) p) = pgdir (ptab s p)"
  "pcontext (ptab (after_promo s) p) = pcontext (ptab s p)"
  "cpus (after_promo s) = cpus s" "locks (after_promo s) = locks s"
  "curcpu (after_promo s) = curcpu s" "ticks (after_promo s) = ticks s"
  by (simp_all add: after_promo_def)

lemma scheduler_iter_ok:
  assumes "pt_inv L s" "pt_ready s" "ncli (mycpu s) = 0" "vm_switches vm"
    "\<And>p. p < NPROC \<Longrightarrow> state (ptab s p) = RUNNABLE \<Longrightarrow> pgdir (ptab s p) \<noteq> 0"
  shows "case choice [0, 1, 2, 3, 4, 5] (promo_lists s L) of
      None \<Rightarrow> \<exists>t. scheduler_iter vm s = Inr (None, t) \<and> pt_inv (promo_lists s L) t \<and>
        relinked (pt_done (with_if True s) (after_promo (acq (with_if True s)))) t
    | Some (i, p) \<Rightarrow> \<exists>t. scheduler_iter vm s = Inr (Some p, t) \<and>
        pt_inv (moved_head (PReady i) PRunning p (promo_lists s L)) t \<and>
        held p (set_proc (Some p) (with_if True s)) t \<and>
        relinked (upd_proc p (dispatched (ticks s))
          (set_proc (Some p) (after_promo (acq (with_if True s))))) t"
proof -
  let ?b = "with_if True s"
  have b: "pt_ready ?b" "ncli (mycpu ?b) = 0"
    using assms(2,3) by (simp_all add: pt_ready_def lock_free_def cpu_ok_def mycpu_def)
  obtain t1 where t1: "promote (acq ?b) = Inr t1" "pt_inv (promo_lists (acq ?b) L) t1"
    "relinked (after_promo (acq ?b)) t1"
    using promote_all [of L "acq ?b"] assms(1) pt_inv_cong [of ?b s L] by auto
  have lists: "promo_lists (acq ?b) L = promo_lists s L"
    by (simp add: promo_lists_def)
  have ticks: "ticks t1 = ticks s" and sm: "same_machine (acq ?b) t1"
    using relinked_globals(4) [OF t1(3)] relinked_machine [OF t1(3)]
    by (simp_all add: same_machine_def)
  have pg: "pgdir (ptab t1 p) \<noteq> 0" if "p < NPROC" "state (ptab t1 p) = RUNNABLE" for p
    using relinked_fields [OF t1(3), of p] assms(5) [of p] that by simp
  have it: "scheduler_iter vm s = Rbind (pick vm [0, 1, 2, 3, 4, 5] t1) (\<lambda>(q, s).
     case q of Some p \<Rightarrow> Inr (Some p, s)
     | None \<Rightarrow> Rbind (release PtableLock s) (\<lambda>s. Inr (None, s)))"
    using b(1) t1(1) by (simp add: scheduler_iter_def with_if_def [symmetric])
  note pk = pick_ok [OF t1(2) assms(4) pg, of "[0, 1, 2, 3, 4, 5]", unfolded lists]
  show ?thesis
  proof (cases "choice [0, 1, 2, 3, 4, 5] (promo_lists s L)")
    case None
    then have "scheduler_iter vm s = Inr (None, pt_done ?b t1)"
      using pk pt_release [OF b(1) sm] unfolding it by simp
    then show ?thesis
      using None t1(2) pt_done_relinked [OF t1(3), of ?b] by (simp add: lists)
  next
    case (Some ip)
    then obtain i p where c: "choice [0, 1, 2, 3, 4, 5] (promo_lists s L) = Some (i, p)"
      by (cases ip) auto
    then obtain t where t: "pick vm [0, 1, 2, 3, 4, 5] t1 = Inr (Some p, t)"
      "pt_inv (moved_head (PReady i) PRunning p (promo_lists s L)) t"
      "relinked (upd_proc p (dispatched (ticks t1)) (set_proc (Some p) t1)) t"
      using pk by auto
    have "relinked (upd_proc p (dispatched (ticks s)) (set_proc (Some p) (after_promo (acq ?b)))) t"
      using upd_relinked [OF dispatched_skips relinked_set_proc [OF t1(3)]] t(3) ticks
      by (metis relinked_trans)
    moreover have "held p (set_proc (Some p) ?b) t"
    proof -
      have "same_machine (acq (set_proc (Some p) ?b)) t"
        using relinked_machine [OF t(3)] sm unfolding acq_set_proc
        by (simp add: same_machine_def set_proc_def machine_defs)
      then show ?thesis
        using b by (simp add: held_def pt_ready_def lock_free_def cpu_ok_def mycpu_def)
    qed
    ultimately show ?thesis
      using c t(1,2) unfolding it by auto
  qed
qed

section \<open>exit\<close>

lemma wake_reparent: "reparent me ip (wake ch x) = wake ch (reparent me ip x)"
  by (simp add: reparent_def wake_def)

lemma reparent_kid: "parent x = Some me \<Longrightarrow> x\<lparr>parent := ip\<rparr> = reparent me ip x"
  by (simp add: reparent_def)

lemma wake_other: "state x \<noteq> SLEEPING \<Longrightarrow> wake ch x = x"
  by (simp add: wake_def)

lemma wake_state: "state x = SLEEPING \<Longrightarrow> state (wake ch x) \<in> {RUNNABLE, SLEEPING}"
  by (simp add: wake_def)

lemma wake_twice [simp]: "wake ch (wake ch x) = wake ch x"
  by (simp add: wake_def)

lemma reparent_sel [simp]:
  "state (reparent me ip x) = state x" "prio (reparent me ip x) = prio x"
  "pchan (reparent me ip x) = pchan x"
  by (simp_all add: reparent_def)

lemma reparent_home [simp]: "home (reparent me ip x) = home x" "prio_ok (reparent me ip x) = prio_ok x"
  by (auto simp: prio_ok_def intro: home_cong)

lemma wake_parent [simp]: "parent (wake ch x) = parent x"
  by (simp add: wake_def)

text \<open>The pass over the zombies: they change parent, and init is woken if there was one.\<close>

definition zombie_pass :: "nat \<Rightarrow> nat ptr \<Rightarrow> bool \<Rightarrow> nat list \<Rightarrow> nat \<Rightarrow> proc \<Rightarrow> proc" where
  "zombie_pass me ip w ys p x =
     (let x = (if p \<in> set ys then reparent me ip x else x) in
      if w \<and> p < NPROC then wake (chan_of ip) x else x)"

lemma zombie_pass_skips [simp]: "skips_next (zombie_pass me ip w ys p)"
  by (simp add: skips_next_def zombie_pass_def reparent_def wake_def Let_def)

definition kid_in :: "nat \<Rightarrow> (nat \<Rightarrow> proc) \<Rightarrow> nat list \<Rightarrow> bool" where
  "kid_in me h ys \<longleftrightarrow> (\<exists>z\<in>set ys. parent (h z) = Some me)"

lemma exit_zombies_ok:
  assumes "pt_inv L s" "L PZombie = xs @ ys" "length ys \<le> n"
  shows "\<exists>t L'. exit_zombies n me (phead ys) s = Inr t \<and> pt_inv L' t \<and>
    relinked (map_tab (zombie_pass me (initproc s) (kid_in me (ptab s) ys) ys) s) t"
  using assms
proof (induction ys arbitrary: n L s xs)
  case Nil
  have "map_tab (zombie_pass me (initproc s) (kid_in me (ptab s) []) []) s = map_tab (\<lambda>p x. x) s"
    by (intro map_tab_cong) (simp add: zombie_pass_def kid_in_def)
  then show ?case using Nil by auto
next
  case (Cons c ys)
  obtain m where n: "n = Suc m" and m: "length ys \<le> m"
    using Cons.prems(3) by (cases n) auto
  have d: "distinct (xs @ c # ys)"
    using inv_distinct [OF Cons.prems(1), of PZombie] Cons.prems(2) by simp
  have c: "c < NPROC" "state (ptab s c) = ZOMBIE" "prio_ok (ptab s c)"
    using inv_member [OF Cons.prems(1), of c PZombie] Cons.prems(2) by auto
  let ?ip = "initproc s"
  show ?case
  proof (cases "parent (ptab s c) = Some me")
    case False
    have "pnext (ptab s c) = phead ys"
      by (rule next_of [OF Cons.prems(1,2)])
    moreover have "map_tab (zombie_pass me ?ip (kid_in me (ptab s) (c # ys)) (c # ys)) s =
        map_tab (zombie_pass me ?ip (kid_in me (ptab s) ys) ys) s"
      using False by (intro map_tab_cong) (auto simp: zombie_pass_def kid_in_def reparent_def)
    ultimately show ?thesis
      using Cons.IH [of L s "xs @ [c]" m] Cons.prems m n False by simp
  next
    case True
    let ?f = "\<lambda>x. x\<lparr>parent := ?ip\<rparr>"
    let ?s = "upd_proc c ?f s" and ?ch = "chan_of (initproc s)"
    have inv: "pt_inv L ?s"
      using c(3) by (intro sl.linv_upd [OF Cons.prems(1)]) (auto simp: prio_ok_def intro: home_cong)
    obtain t1 where t1: "wakeup1 ?ch ?s = Inr t1" "pt_inv (woken_lists ?ch (ptab ?s) L) t1"
      "relinked (woken ?ch ?s) t1"
      using wakeup1_ok [OF inv] by blast
    let ?L1 = "woken_lists ?ch (ptab ?s) L"
    have L1: "?L1 PZombie = xs @ c # ys"
      using Cons.prems(2) by (simp add: woken_lists_def woken_on_def)
    have ip1: "initproc t1 = ?ip"
      using relinked_globals(7) [OF t1(3)] by (simp add: woken_def)
    have "parent (ptab t1 z) = parent (ptab s z)" if "z \<noteq> c" for z
      using relinked_fields(5) [OF t1(3), of z] that by (simp add: woken_def)
    then have "\<forall>z\<in>set ys. parent (ptab t1 z) = parent (ptab s z)"
      using d by (metis distinct.simps(2) distinct_append)
    then have kid: "kid_in me (ptab t1) ys = kid_in me (ptab s) ys"
      by (simp add: kid_in_def)
    obtain t L' where t: "exit_zombies m me (phead ys) t1 = Inr t" "pt_inv L' t"
      "relinked (map_tab (zombie_pass me ?ip (kid_in me (ptab s) ys) ys) t1) t"
      using Cons.IH [OF t1(2), of "xs @ [c]" m] L1 m unfolding ip1 kid by auto
    have "map_tab (zombie_pass me ?ip (kid_in me (ptab s) ys) ys) (woken ?ch ?s) =
        map_tab (zombie_pass me ?ip (kid_in me (ptab s) (c # ys)) (c # ys)) s"
      unfolding woken_def map_tab_upd map_tab_comp
    proof (rule map_tab_cong)
      fix p
      show "zombie_pass me ?ip (kid_in me (ptab s) ys) ys p
          ((if p < NPROC then wake ?ch else id) ((if p = c then ?f else id) (ptab s p))) =
        zombie_pass me ?ip (kid_in me (ptab s) (c # ys)) (c # ys) p (ptab s p)"
        using d True c(1) reparent_kid [OF True, of ?ip]
        by (cases "p = c") (auto simp: zombie_pass_def kid_in_def wake_reparent Let_def)
    qed
    moreover have "relinked (map_tab (zombie_pass me ?ip (kid_in me (ptab s) ys) ys) (woken ?ch ?s))
        (map_tab (zombie_pass me ?ip (kid_in me (ptab s) ys) ys) t1)"
      by (rule map_tab_relinked [OF _ t1(3)]) simp
    ultimately have "relinked (map_tab
        (zombie_pass me ?ip (kid_in me (ptab s) (c # ys)) (c # ys)) s) t"
      using t(3) relinked_trans by metis
    moreover have "pnext (ptab t1 c) = phead ys"
      by (rule next_of [OF t1(2) L1])
    ultimately show ?thesis
      using n True t1(1) t(1,2) by auto
  qed
qed

text \<open>The passes over the other lists.\<close>

definition state_pass ::
  "procstate set \<Rightarrow> nat \<Rightarrow> nat ptr \<Rightarrow> nat \<Rightarrow> proc \<Rightarrow> proc" where
  "state_pass S me ip p x = (if p < NPROC \<and> state x \<in> S then reparent me ip x else x)"

lemma state_pass_skips [simp]: "skips_next (state_pass S me ip p)"
  by (simp add: skips_next_def state_pass_def reparent_def)

lemma in_ready:
  assumes "pt_inv L s" "p < NPROC"
  shows "(\<exists>r\<in>set ready_lists. p \<in> set (L r)) \<longleftrightarrow> state (ptab s p) = RUNNABLE"
proof -
  have "0 \<le> prio (ptab s p)" "prio (ptab s p) \<le> 5"
    using assms by (auto simp: pt_inv_def placed_def prio_ok_def MAXP_def)
  then have "prio (ptab s p) \<in> {0, 1, 2, 3, 4, 5}"
    by auto
  then show ?thesis
    using assms(2) by (auto simp: mem_iff [OF assms(1)] ready_lists_def)
qed

lemma reparent_pass_ok:
  assumes "pt_inv L s" "distinct rs"
    "\<And>p. p < NPROC \<Longrightarrow> (\<exists>r\<in>set rs. p \<in> set (L r)) \<longleftrightarrow> state (ptab s p) \<in> S"
  shows "each_lists (reparent me ip) rs s = Inr (map_tab (state_pass S me ip) s)"
    "pt_inv L (map_tab (state_pass S me ip) s)"
proof -
  have "each_lists (reparent me ip) rs s =
      Inr (map_tab (\<lambda>p. if \<exists>r\<in>set rs. p \<in> set (L r) then reparent me ip else id) s) \<and>
    pt_inv L (map_tab (\<lambda>p. if \<exists>r\<in>set rs. p \<in> set (L r) then reparent me ip else id) s)"
    using inv_member [OF assms(1)] by (intro each_lists_ok [OF assms(1) _ assms(2)]) auto
  moreover have "map_tab (\<lambda>p. if \<exists>r\<in>set rs. p \<in> set (L r) then reparent me ip else id) s =
      map_tab (state_pass S me ip) s"
  proof (rule map_tab_cong)
    fix p
    show "(if \<exists>r\<in>set rs. p \<in> set (L r) then reparent me ip else id) (ptab s p) =
        state_pass S me ip p (ptab s p)"
      using assms(3) [of p] inv_member(1) [OF assms(1), of p] by (auto simp: state_pass_def)
  qed
  ultimately show "each_lists (reparent me ip) rs s = Inr (map_tab (state_pass S me ip) s)"
    "pt_inv L (map_tab (state_pass S me ip) s)"
    by simp_all
qed

text \<open>
  What \<open>exit\<close> does to the table: the parent is woken, all children go to init, init is
  woken if one of them is a zombie, and the caller becomes a zombie.
\<close>

definition zombie_kid :: "nat \<Rightarrow> 'a ptable_scheme \<Rightarrow> bool" where
  "zombie_kid me s \<longleftrightarrow>
     (\<exists>z<NPROC. state (ptab s z) = ZOMBIE \<and> parent (ptab s z) = Some me)"

definition orphaned :: "nat \<Rightarrow> 'a ptable_scheme \<Rightarrow> nat \<Rightarrow> proc \<Rightarrow> proc" where
  "orphaned me s p x =
     (if p < NPROC \<and> state x \<noteq> UNUSED
      then let x = wake (chan_of (parent (ptab s me))) x;
               x = (if zombie_kid me s then wake (chan_of (initproc s)) x else x)
           in reparent me (initproc s) x
      else x)"

definition exited :: "uint \<Rightarrow> bool \<Rightarrow> proc \<Rightarrow> proc" where
  "exited now ie x = switch_out now ie FromExit (x\<lparr>state := ZOMBIE\<rparr>)"

lemma orphaned_skips [simp]: "skips_next (orphaned me s p)"
  by (simp add: skips_next_def orphaned_def wake_def reparent_def Let_def)

lemma orphaned_self:
  "state x = RUNNING \<Longrightarrow> state (orphaned me s p x) = RUNNING \<and> prio (orphaned me s p x) = prio x"
  by (simp add: orphaned_def wake_def reparent_def Let_def)

text \<open>The four passes on one process, by its state.\<close>

lemma orphan_passes:
  "state_pass {RUNNING, EMBRYO} me ip p
     (let x = (if p < NPROC \<and> state x0 = ZOMBIE then reparent me ip
                 (state_pass {RUNNABLE, SLEEPING} me ip p ((if p < NPROC then wake c0 else id) x0))
               else state_pass {RUNNABLE, SLEEPING} me ip p ((if p < NPROC then wake c0 else id) x0))
      in if w \<and> p < NPROC then wake c1 x else x) =
   (if p < NPROC \<and> state x0 \<noteq> UNUSED
    then let x = wake c0 x0; x = (if w then wake c1 x else x) in reparent me ip x else x0)"
proof (cases "p < NPROC \<and> state x0 = SLEEPING")
  case True
  have s0: "state (wake c0 x0) \<in> {RUNNABLE, SLEEPING}"
    using True by (intro wake_state) simp
  then have g1: "state_pass {RUNNABLE, SLEEPING} me ip p (wake c0 x0) = reparent me ip (wake c0 x0)"
    using True by (simp add: state_pass_def)
  have s1: "state (reparent me ip (wake c0 x0)) \<in> {RUNNABLE, SLEEPING}"
    using s0 by simp
  then have s2: "state (wake c1 (reparent me ip (wake c0 x0))) \<in> {RUNNABLE, SLEEPING}"
    by (auto simp: wake_def)
  show ?thesis
    using True s0 s1 s2 by (cases w) (simp_all add: g1 state_pass_def wake_reparent Let_def, auto)
next
  case False
  show ?thesis
  proof (cases "p < NPROC")
    case True
    then show ?thesis
      using False by (cases "state x0") (simp_all add: wake_other state_pass_def Let_def)
  qed (simp add: state_pass_def)
qed

text \<open>The four passes together.\<close>

lemma exit_passes:
  assumes "pt_inv L s"
  obtains t1 t2 t3 t4 L4 where
    "wakeup1 (chan_of (parent (ptab s me))) s = Inr t1"
    "each_lists (reparent me (initproc t1)) (ready_lists @ [PSleep]) t1 = Inr t2"
    "exit_zombies LISTFUEL me (pLists t2 PZombie) t2 = Inr t3"
    "each_lists (reparent me (initproc t3)) [PRunning, PEmbryo] t3 = Inr t4"
    "pt_inv L4 t4" "relinked (map_tab (orphaned me s) s) t4"
proof -
  let ?c0 = "chan_of (parent (ptab s me))" and ?ip = "initproc s"
  obtain t1 where t1: "wakeup1 ?c0 s = Inr t1" "pt_inv (woken_lists ?c0 (ptab s) L) t1"
    "relinked (woken ?c0 s) t1"
    using wakeup1_ok [OF assms] by blast
  let ?L1 = "woken_lists ?c0 (ptab s) L"
  let ?g1 = "state_pass {RUNNABLE, SLEEPING} me ?ip"
  let ?t2 = "map_tab ?g1 t1"
  have ip1: "initproc t1 = ?ip"
    using relinked_globals(7) [OF t1(3)] by (simp add: woken_def)
  have mem1: "(\<exists>r\<in>set (ready_lists @ [PSleep]). p \<in> set (?L1 r)) \<longleftrightarrow>
      state (ptab t1 p) \<in> {RUNNABLE, SLEEPING}" if "p < NPROC" for p
    using in_ready [OF t1(2) that] mem_iff [OF t1(2), of p PSleep] that
    by (simp add: bex_Un disj_commute)
  have t2: "each_lists (reparent me ?ip) (ready_lists @ [PSleep]) t1 = Inr ?t2" "pt_inv ?L1 ?t2"
    by (rule reparent_pass_ok [OF t1(2) _ mem1]; simp add: ready_lists_def)+
  have r2: "relinked (map_tab ?g1 (woken ?c0 s)) ?t2"
    by (rule map_tab_relinked [OF _ t1(3)]) simp
  have ip2: "initproc ?t2 = ?ip"
    using ip1 by simp
  let ?ys = "?L1 PZombie"
  let ?k = "kid_in me (ptab ?t2) ?ys"
  obtain t3 L3 where t3: "exit_zombies LISTFUEL me (pLists ?t2 PZombie) ?t2 = Inr t3" "pt_inv L3 t3"
    "relinked (map_tab (zombie_pass me ?ip ?k ?ys) ?t2) t3"
    using exit_zombies_ok [OF t2(2), of "[]" ?ys LISTFUEL me] inv_fuel [OF t2(2)]
    unfolding head_of [OF t2(2)] ip2 by auto
  have r3: "relinked (map_tab (zombie_pass me ?ip ?k ?ys) (map_tab ?g1 (woken ?c0 s))) t3"
    by (rule relinked_trans [OF map_tab_relinked [OF _ r2] t3(3)]) simp
  let ?g3 = "state_pass {RUNNING, EMBRYO} me ?ip"
  have ip3: "initproc t3 = ?ip"
    using relinked_globals(7) [OF t3(3)] ip2 by simp
  have mem3: "(\<exists>r\<in>set [PRunning, PEmbryo]. p \<in> set (L3 r)) \<longleftrightarrow>
      state (ptab t3 p) \<in> {RUNNING, EMBRYO}" if "p < NPROC" for p
    using mem_iff [OF t3(2), of p] that by simp
  have t4: "each_lists (reparent me ?ip) [PRunning, PEmbryo] t3 = Inr (map_tab ?g3 t3)"
    "pt_inv L3 (map_tab ?g3 t3)"
    by (rule reparent_pass_ok [OF t3(2) _ mem3]; simp)+
  have "relinked (map_tab ?g3 (map_tab (zombie_pass me ?ip ?k ?ys) (map_tab ?g1 (woken ?c0 s))))
      (map_tab ?g3 t3)"
    by (rule map_tab_relinked [OF _ r3]) simp
  moreover have "map_tab ?g3 (map_tab (zombie_pass me ?ip ?k ?ys) (map_tab ?g1 (woken ?c0 s))) =
      map_tab (orphaned me s) s"
  proof -
    have zs: "z \<in> set ?ys \<longleftrightarrow> z < NPROC \<and> state (ptab s z) = ZOMBIE" for z
      using mem_iff [OF assms, of z PZombie] by (simp add: woken_lists_def woken_on_def)
    have par: "parent (ptab ?t2 z) = parent (ptab s z)" if "z \<in> set ?ys" for z
      using zs [of z] that relinked_fields(1,5) [OF r2, of z]
      by (simp add: woken_def state_pass_def wake_def)
    have k: "?k = zombie_kid me s"
      unfolding kid_in_def zombie_kid_def using zs par by metis
    show ?thesis
      unfolding woken_def map_tab_comp k
    proof (rule map_tab_cong)
      fix p
      show "?g3 p (zombie_pass me ?ip (zombie_kid me s) ?ys p
          (?g1 p ((if p < NPROC then wake ?c0 else id) (ptab s p)))) = orphaned me s p (ptab s p)"
        unfolding zombie_pass_def zs orphaned_def by (rule orphan_passes)
    qed
  qed
  ultimately show ?thesis
    using that [OF t1(1) _ t3(1) _ t4(2)] t2(1) t4(1) ip1 ip3 by simp
qed

lemma zombie_kid_acq [simp]: "zombie_kid me (acq s) = zombie_kid me s"
  by (simp add: zombie_kid_def)

lemma orphaned_acq [simp]: "orphaned me (acq s) = orphaned me s"
  by (simp add: orphaned_def fun_eq_iff Let_def)

lemma exit_locked_ok:
  assumes "pt_inv L s" "runs me s"
  obtains t L' where "exit_locked s = Inr t" "pt_inv L' t"
    "relinked (upd_proc me (exited (ticks s) (eflags_IF (mycpu s)))
       (map_tab (orphaned me s) (acq s))) t"
proof -
  have inv: "pt_inv L (acq s)" and rdy: "pt_ready s" "me < NPROC" "state (ptab s me) = RUNNING"
    using assms by (simp_all add: runs_def)
  have h: "held me s (acq s)"
    by (rule runs_held [OF assms(2)])
  obtain t1 t2 t3 t4 L4 where t:
    "wakeup1 (chan_of (parent (ptab (acq s) me))) (acq s) = Inr t1"
    "each_lists (reparent me (initproc t1)) (ready_lists @ [PSleep]) t1 = Inr t2"
    "exit_zombies LISTFUEL me (pLists t2 PZombie) t2 = Inr t3"
    "each_lists (reparent me (initproc t3)) [PRunning, PEmbryo] t3 = Inr t4"
    "pt_inv L4 t4" "relinked (map_tab (orphaned me s) (acq s)) t4"
    using exit_passes [OF inv, of me] unfolding orphaned_acq by metis
  let ?z = "state_update (\<lambda>_. ZOMBIE)"
  have me: "state (ptab t4 me) = RUNNING" "prio_ok (ptab t4 me)"
    using relinked_fields(1) [OF t(6), of me] orphaned_self [OF rdy(3), of me s me] rdy t(5)
    by (simp_all add: pt_inv_def placed_def)
  obtain s1 where m: "unlink me RUNNING PRunning ''Error removing from running list'' t4 = Inr s1"
    "pt_inv (moved_head PRunning PZombie me L4) (addhead PZombie me (set_state me ZOMBIE s1))"
    "relinked (set_state me ZOMBIE t4) (addhead PZombie me (set_state me ZOMBIE s1))"
    using to_head [OF t(5) rdy(2), of RUNNING PRunning ?z PZombie] me
    unfolding set_state_def by (auto simp: prio_ok_def)
  have h4: "held me s t4"
    using h relinked_machine [OF t(6)] by (auto intro: held_cong simp: same_machine_def)
  have g: "ticks t4 = ticks s"
    using relinked_globals(4) [OF t(6)] by simp
  obtain u where u: "sched FromExit (addhead PZombie me (set_state me ZOMBIE s1)) = Inr u"
    "pt_inv (moved_head PRunning PZombie me L4) u"
    "relinked (upd_proc me (exited (ticks s) (eflags_IF (mycpu s))) t4) u"
    using sched_after [OF h4 m(3) [unfolded set_state_def] m(2) [unfolded set_state_def], of FromExit] g
    by (auto simp: exited_def [abs_def] set_state_def)
  have "skips_next (exited (ticks s) (eflags_IF (mycpu s)))"
    by (simp add: skips_next_def exited_def switch_out_def)
  then have "relinked (upd_proc me (exited (ticks s) (eflags_IF (mycpu s)))
      (map_tab (orphaned me s) (acq s))) u"
    using upd_relinked [OF _ t(6)] u(3) relinked_trans by blast
  moreover have "exit_locked s = Inr u"
    using rdy(1) t(1-4) m(1) u(1) held_proc [OF h]
    by (simp add: exit_locked_def with_proc_def)
  ultimately show ?thesis
    using that u(2) by blast
qed

section \<open>wait\<close>

lemma kmem_only_sel:
  assumes "kmem_only s (t :: 'a ptable_scheme)"
  shows "ptab t = ptab s" "pLists t = pLists s" "cpus t = cpus s" "locks t = locks s"
    "curcpu t = curcpu s" "ticks t = ticks s" "use_lock t = use_lock s" "initproc t = initproc s"
proof -
  have e: "t = s\<lparr>freelist := freelist t, pmem := pmem t\<rparr>"
    using assms by (simp add: kmem_only_def)
  show "ptab t = ptab s" "pLists t = pLists s" "cpus t = cpus s" "locks t = locks s"
    "curcpu t = curcpu s" "ticks t = ticks s" "use_lock t = use_lock s" "initproc t = initproc s"
    by (subst e, simp)+
qed

lemma kfree_frame:
  assumes "kmem_ready s" "0 < ncli (mycpu s)" "kfree kend v s = Inr t"
  shows "kmem_only s t"
proof -
  have ok: "page_ok kend v"
    using kfree_InrD [OF assms(3)] by (simp add: page_ok_def)
  have "cpus (settled s) = cpus s"
    using assms(2) by (simp add: settled_def machine_defs cpu_settled_def fun_upd_idem)
  then have "kfin s t' = t'" if "cpus t' = cpus s" for t'
    using that by (simp add: kfin_def)
  then show ?thesis
    using kfree_eq [OF assms(1) ok] assms(3) by (auto simp: kmem_only_def)
qed

definition reaped :: "proc \<Rightarrow> proc" where
  "reaped x = x\<lparr>kstack := 0, state := UNUSED, pid := 0, parent := None, pname := [],
     killed := False\<rparr>"

lemma reap_ok:
  assumes "pt_inv L s" "p \<in> set (L PZombie)"
    "kfree kend (kstack (ptab s p)) s = Inr s1" "kmem_only s s1"
    "freevm vm (pgdir (ptab s p)) (upd_proc p (\<lambda>x. x\<lparr>kstack := 0\<rparr>) s1) = Inr s2"
    "kmem_only (upd_proc p (\<lambda>x. x\<lparr>kstack := 0\<rparr>) s1) s2"
  obtains t where "reap kend vm p s = Inr t" "pt_inv (moved_head PZombie PFree p L) t"
    "relinked (upd_proc p reaped (s\<lparr>freelist := freelist s2, pmem := pmem s2\<rparr>)) t"
proof -
  have p: "p < NPROC" "state (ptab s p) = ZOMBIE" "prio_ok (ptab s p)"
    using inv_member [OF assms(1,2)] by auto
  let ?k = "\<lambda>x. x\<lparr>kstack := 0\<rparr>" and ?u = "state_update (\<lambda>_. UNUSED)"
  let ?e = "\<lambda>x. x\<lparr>pid := 0, parent := None, pname := [], killed := False\<rparr>"
  obtain a b c d where ab: "s1 = s\<lparr>freelist := a, pmem := b\<rparr>"
    "s2 = (upd_proc p ?k s1)\<lparr>freelist := c, pmem := d\<rparr>"
    using assms(4,6) unfolding kmem_only_def by blast
  let ?s0 = "s\<lparr>freelist := c, pmem := d\<rparr>"
  have s2: "s2 = upd_proc p ?k ?s0" and cd: "freelist s2 = c" "pmem s2 = d"
    using ab by (simp_all add: upd_proc_def)
  have inv: "pt_inv L s2"
    unfolding s2 using p assms(1) pt_inv_cong [of ?s0 s]
    by (intro sl.linv_upd) (auto simp: prio_ok_def intro: home_cong)
  have sp: "state (ptab s2 p) = ZOMBIE" "prio_ok (ptab s2 p)"
    using p unfolding s2 by (simp_all add: prio_ok_def)
  obtain s3 where m: "unlink p ZOMBIE PZombie ''Error removing from zombie list'' s2 = Inr s3"
    "pt_inv (moved_head PZombie PFree p L) (addhead PFree p (set_state p UNUSED s3))"
    "relinked (set_state p UNUSED s2) (addhead PFree p (set_state p UNUSED s3))"
    using to_head [OF inv p(1), of ZOMBIE PZombie ?u PFree] sp
    unfolding set_state_def by (auto simp: prio_ok_def)
  let ?a = "addhead PFree p (set_state p UNUSED s3)"
  have a: "state (ptab ?a p) = UNUSED" "prio (ptab ?a p) = prio (ptab s2 p)"
    using relinked_fields [OF m(3), of p] by (simp_all add: set_state_def)
  have "pt_inv (moved_head PZombie PFree p L) (upd_proc p ?e ?a)"
    using a sp(2) by (intro sl.linv_upd [OF m(2)]) (auto simp: prio_ok_def intro: home_cong)
  moreover have "relinked (upd_proc p reaped ?s0) (upd_proc p ?e ?a)"
    using upd_relinked [OF _ m(3), of ?e p] unfolding s2
    by (simp add: set_state_def reaped_def [abs_def])
  moreover have "reap kend vm p s = Inr (upd_proc p ?e ?a)"
    using assms(3,5) m(1) kmem_only_sel(1) [OF assms(4)]
    by (simp add: reap_def Let_def)
  ultimately show ?thesis
    using that unfolding cd by blast
qed

end
