(* ===== verification/ProcSys.thy ===== *)
theory ProcSys
  imports ProcExit
begin

text \<open>
  The process system as a whole: any number of CPUs, each in its scheduler loop or
  running a process, take turns.  A step is one critical section of \<open>ptable.lock\<close> on
  one CPU, which for a switch reaches from the process that gives up the CPU to the
  scheduler, or from the scheduler to the process it resumes.  Between steps the lock is
  free; the spinlock theory shows that interleaving inside a section adds nothing.

  The invariant \<open>sys_inv\<close> says that the lists partition the table by state and
  priority, that the CPUs run distinct processes, exactly those marked \<open>RUNNING\<close>, and that
  every switched-out process has a context it can be resumed from.
\<close>

section \<open>Steps\<close>

text \<open>
  The process' side after the scheduler switched to it: \<open>forkret\<close>, the end of \<open>yield\<close>, the
  end of \<open>sleep\<close>, or the next pass of \<open>wait\<close>.  A caller of \<open>sleep\<close> with a lock of its own
  gives it up again here.
\<close>

definition resume ::
  "uint \<Rightarrow> 'a ptable_scheme vmops \<Rightarrow> nat \<Rightarrow> 'a ptable_scheme \<Rightarrow> 'a ptable_scheme res" where
  "resume kend vm p t =
     (case pcontext (ptab t p) of
        NoCtx \<Rightarrow> Inl Fault
      | AtForkret \<Rightarrow> release PtableLock t
      | InSched ie FromYield \<Rightarrow> yield_resume ie t
      | InSched ie FromExit \<Rightarrow> exit_resume (sched_resume ie t)
      | InSched ie (FromSleep ch None) \<Rightarrow> sleep_resume ie None t
      | InSched ie (FromSleep ch (Some l)) \<Rightarrow>
          if l = PtableLock
          then Rbind (wait_resume kend vm ie t) (\<lambda>(r, t).
               case r of WaitRet n \<Rightarrow> Inr t | WaitSlept \<Rightarrow> scheduler_back vm t)
          else Rbind (sleep_resume ie (Some l) t) (release l))"

text \<open>
  What \<open>fork\<close> and \<open>userinit\<close> write into an embryo, and \<open>exec\<close> and \<open>growproc\<close> into the
  running process: neither state nor scheduling fields, and a page table.
\<close>

definition fills :: "(proc \<Rightarrow> proc) \<Rightarrow> bool" where
  "fills f \<longleftrightarrow> skips_next f \<and> (\<forall>x. state (f x) = state x \<and> prio (f x) = prio x \<and>
     pcontext (f x) = pcontext x \<and> pchan (f x) = pchan x \<and> pgdir (f x) \<noteq> 0)"

inductive step :: "uint \<Rightarrow> 'a ptable_scheme vmops \<Rightarrow> 'a ptable_scheme \<Rightarrow> 'a ptable_scheme \<Rightarrow> bool"
  for kend vm where
  dispatch: "cproc (cpus s c) = None \<Longrightarrow> scheduler_iter vm (on_cpu c s) = Inr (Some p, t) \<Longrightarrow>
    resume kend vm p t = Inr u \<Longrightarrow> step kend vm s u"
| idle: "cproc (cpus s c) = None \<Longrightarrow> scheduler_iter vm (on_cpu c s) = Inr (None, t) \<Longrightarrow>
    step kend vm s t"
| give_up: "cproc (cpus s c) = Some p \<Longrightarrow> yield (on_cpu c s) = Inr t \<Longrightarrow>
    scheduler_back vm t = Inr u \<Longrightarrow> step kend vm s u"
| block: "cproc (cpus s c) = Some p \<Longrightarrow> sleep ch None (on_cpu c s) = Inr t \<Longrightarrow>
    scheduler_back vm t = Inr u \<Longrightarrow> step kend vm s u"
| block_lock: "cproc (cpus s c) = Some p \<Longrightarrow> l \<noteq> PtableLock \<Longrightarrow>
    acquire l (on_cpu c s) = Inr r \<Longrightarrow> sleep ch (Some l) r = Inr t \<Longrightarrow>
    scheduler_back vm t = Inr u \<Longrightarrow> step kend vm s u"
| leave: "cproc (cpus s c) = Some p \<Longrightarrow> exit_locked (on_cpu c s) = Inr t \<Longrightarrow>
    scheduler_back vm t = Inr u \<Longrightarrow> step kend vm s u"
| await_done: "cproc (cpus s c) = Some p \<Longrightarrow> wait kend vm (on_cpu c s) = Inr (WaitRet n, t) \<Longrightarrow>
    step kend vm s t"
| await_block: "cproc (cpus s c) = Some p \<Longrightarrow> wait kend vm (on_cpu c s) = Inr (WaitSlept, t) \<Longrightarrow>
    scheduler_back vm t = Inr u \<Longrightarrow> step kend vm s u"
| wake: "wakeup ch (on_cpu c s) = Inr t \<Longrightarrow> step kend vm s t"
| kill: "ProcTable.kill n (on_cpu c s) = Inr (r, t) \<Longrightarrow> step kend vm s t"
| reprio: "setpriority n j (on_cpu c s) = Inr (r, t) \<Longrightarrow> step kend vm s t"
| alloc: "allocproc (on_cpu c s) = Inr (q, t) \<Longrightarrow> step kend vm s t"
| fill: "p < NPROC \<Longrightarrow> state (ptab s p) \<in> {EMBRYO, RUNNING} \<Longrightarrow> fills f \<Longrightarrow>
    step kend vm s (upd_proc p f s)"
| unalloc: "p < NPROC \<Longrightarrow> state (ptab s p) = EMBRYO \<Longrightarrow> free_embryo p (on_cpu c s) = Inr t \<Longrightarrow>
    step kend vm s t"
| publish: "p < NPROC \<Longrightarrow> state (ptab s p) = EMBRYO \<Longrightarrow> pgdir (ptab s p) \<noteq> 0 \<Longrightarrow>
    fork_publish p (on_cpu c s) = Inr t \<Longrightarrow> step kend vm s t"
| tick: "step kend vm s (s\<lparr>ticks := ticks s + 1\<rparr>)"

section \<open>The invariant\<close>

text \<open>A process in each state has a context to match.\<close>

definition ctx_ok :: "proc \<Rightarrow> bool" where
  "ctx_ok x \<longleftrightarrow>
     (case state x of
        UNUSED \<Rightarrow> True
      | EMBRYO \<Rightarrow> pcontext x = AtForkret \<and> prio x = 0
      | SLEEPING \<Rightarrow> pgdir x \<noteq> 0 \<and> (\<exists>ie lk. pcontext x = InSched ie (FromSleep (pchan x) lk))
      | RUNNABLE \<Rightarrow> pgdir x \<noteq> 0 \<and> (pcontext x = AtForkret \<or>
          (\<exists>ie w. pcontext x = InSched ie w \<and> w \<noteq> FromExit))
      | RUNNING \<Rightarrow> pgdir x \<noteq> 0
      | ZOMBIE \<Rightarrow> pgdir x \<noteq> 0 \<and> (\<exists>ie. pcontext x = InSched ie FromExit))"

definition calm :: "'a machine_scheme \<Rightarrow> bool" where
  "calm s \<longleftrightarrow> (\<forall>l. lock_free l s) \<and> (\<forall>c. ncli (cpus s c) = 0)"

definition runs_right :: "(nat \<Rightarrow> nat ptr) \<Rightarrow> (nat \<Rightarrow> proc) \<Rightarrow> bool" where
  "runs_right cp h \<longleftrightarrow>
     (\<forall>c p. cp c = Some p \<longrightarrow> p < NPROC \<and> state (h p) = RUNNING) \<and>
     (\<forall>c d p. cp c = Some p \<longrightarrow> cp d = Some p \<longrightarrow> c = d) \<and>
     (\<forall>p<NPROC. state (h p) = RUNNING \<longrightarrow> (\<exists>c. cp c = Some p))"

abbreviation procs_on :: "'a machine_scheme \<Rightarrow> nat \<Rightarrow> nat ptr" where
  "procs_on s \<equiv> \<lambda>c. cproc (cpus s c)"

definition sys_inv :: "'a ptable_scheme \<Rightarrow> bool" where
  "sys_inv s \<longleftrightarrow> (\<exists>L. pt_inv L s) \<and> calm s \<and> runs_right (procs_on s) (ptab s) \<and>
     (\<forall>p<NPROC. ctx_ok (ptab s p))"

lemma sys_invI:
  "pt_inv L s \<Longrightarrow> calm s \<Longrightarrow> runs_right (procs_on s) (ptab s) \<Longrightarrow>
   (\<And>p. p < NPROC \<Longrightarrow> ctx_ok (ptab s p)) \<Longrightarrow> sys_inv s"
  by (auto simp: sys_inv_def)

lemma sys_invE:
  assumes "sys_inv s"
  obtains L where "pt_inv L s" "calm s" "runs_right (procs_on s) (ptab s)"
    "\<And>p. p < NPROC \<Longrightarrow> ctx_ok (ptab s p)"
  using assms by (auto simp: sys_inv_def)

lemma on_cpu_ptable [simp]:
  "ptab (on_cpu c s) = ptab s" "pLists (on_cpu c s) = pLists s" "ticks (on_cpu c s) = ticks s"
  "mycpu (on_cpu c s) = cpus s c"
  by (simp_all add: on_cpu_def mycpu_def)

lemma calm_ready: "calm s \<Longrightarrow> pt_ready s" "calm s \<Longrightarrow> kmem_ready s" "calm s \<Longrightarrow> cpu_ok s"
  by (simp_all add: calm_def pt_ready_def kmem_ready_def cpu_ok_def mycpu_def)

lemma calm_settled [simp]: "calm (settled s) = calm s"
  by (simp add: calm_def lock_free_def)

lemma sys_inv_cong:
  "ptab t = ptab s \<Longrightarrow> pLists t = pLists s \<Longrightarrow> locks t = locks s \<Longrightarrow>
   (\<And>c. ncli (cpus t c) = ncli (cpus s c)) \<Longrightarrow> (\<And>c. cproc (cpus t c) = cproc (cpus s c)) \<Longrightarrow>
   sys_inv t = sys_inv s"
  using pt_inv_cong [of t s] by (simp add: sys_inv_def calm_def lock_free_def)

lemma sys_inv_on [simp]: "sys_inv (on_cpu c s) = sys_inv s"
  by (rule sys_inv_cong) simp_all

lemma sys_inv_settled [simp]: "sys_inv (settled s) = sys_inv s"
  by (rule sys_inv_cong) simp_all

lemma runs_right_runs:
  "calm s \<Longrightarrow> runs_right (procs_on s) (ptab s) \<Longrightarrow> cproc (mycpu s) = Some p \<Longrightarrow> runs p s"
  by (auto simp: runs_def runs_right_def calm_ready) (simp_all add: calm_def mycpu_def)

text \<open>A change that moves no process onto or off a CPU.\<close>

lemma quiet_step:
  assumes "sys_inv s" "pt_inv L t" "locks t = locks s" "\<And>c. ncli (cpus t c) = 0"
    "\<And>c. cproc (cpus t c) = cproc (cpus s c)"
    "\<And>p. p < NPROC \<Longrightarrow> (state (ptab t p) = RUNNING) = (state (ptab s p) = RUNNING)"
    "\<And>p. p < NPROC \<Longrightarrow> ctx_ok (ptab s p) \<Longrightarrow> ctx_ok (ptab t p)"
  shows "sys_inv t"
proof (rule sys_invI [OF assms(2)])
  show "calm t"
    using assms(1,3,4) by (simp add: sys_inv_def calm_def lock_free_def)
  show "runs_right (procs_on t) (ptab t)"
    using assms(1,5,6) unfolding sys_inv_def runs_right_def by simp
  show "ctx_ok (ptab t p)" if "p < NPROC" for p
    using assms(1,7) that by (simp add: sys_inv_def)
qed

text \<open>Only the fields the invariant reads matter.\<close>

lemma ctx_ok_cong:
  "state y = state x \<Longrightarrow> pcontext y = pcontext x \<Longrightarrow> pgdir y = pgdir x \<Longrightarrow> pchan y = pchan x \<Longrightarrow>
   prio y = prio x \<Longrightarrow> ctx_ok y = ctx_ok x"
  by (simp add: ctx_ok_def split: procstate.splits)

lemma ctx_ok_relinked: "relinked s t \<Longrightarrow> ctx_ok (ptab t p) = ctx_ok (ptab s p)"
  by (rule ctx_ok_cong) (simp_all add: relinked_fields)

lemma quiet_relinked:
  assumes "sys_inv s" "pt_inv L t" "relinked (map_tab g (settled s)) t"
    "\<And>p. p < NPROC \<Longrightarrow> (state (g p (ptab s p)) = RUNNING) = (state (ptab s p) = RUNNING)"
    "\<And>p. p < NPROC \<Longrightarrow> ctx_ok (ptab s p) \<Longrightarrow> ctx_ok (g p (ptab s p))"
  shows "sys_inv t"
proof (rule quiet_step [OF assms(1,2)])
  show "ncli (cpus t c) = 0" for c
    using relinked_globals(1) [OF assms(3)] assms(1) by (simp add: sys_inv_def calm_def)
  show "ctx_ok (ptab t p)" if "p < NPROC" "ctx_ok (ptab s p)" for p
    using ctx_ok_relinked [OF assms(3), of p] assms(5) [OF that] by simp
qed (simp_all add: relinked_globals [OF assms(3)] relinked_fields [OF assms(3)] assms(4))

section \<open>Steps that switch nothing\<close>

lemma ctx_ok_wakes:
  assumes "ctx_ok x" "state x = SLEEPING" "state y = RUNNABLE" "pcontext y = pcontext x"
    "pgdir y = pgdir x"
  shows "ctx_ok y"
proof -
  obtain ie lk where "pcontext x = InSched ie (FromSleep (pchan x) lk)" "pgdir x \<noteq> 0"
    using assms(1,2) by (auto simp: ctx_ok_def)
  then show ?thesis
    using assms(3-5) by (simp add: ctx_ok_def)
qed

lemma ctx_ok_wake: "ctx_ok x \<Longrightarrow> ctx_ok (wake ch x)"
  using ctx_ok_wakes [of x "x\<lparr>state := RUNNABLE\<rparr>"] by (auto simp: wake_def)

lemma ctx_ok_killed: "ctx_ok x \<Longrightarrow> ctx_ok (killed_wake x)"
  using ctx_ok_wakes [of x "x\<lparr>killed := True, state := RUNNABLE\<rparr>"]
    ctx_ok_cong [of "x\<lparr>killed := True\<rparr>" x] by (auto simp: killed_wake_def)

lemma wakeup_inv:
  assumes "sys_inv s"
  shows "\<exists>t. wakeup ch s = Inr t \<and> sys_inv t"
proof -
  obtain L where L: "pt_inv L s" "calm s"
    using assms by (rule sys_invE)
  obtain t where t: "wakeup ch s = Inr t" "pt_inv (woken_lists ch (ptab s) L) t"
    "relinked (woken ch (settled s)) t"
    using wakeup_ok [OF L(1) calm_ready(1) [OF L(2)]] by blast
  have "sys_inv t"
    by (rule quiet_relinked [OF assms t(2) t(3) [unfolded woken_def]])
       (simp_all add: ctx_ok_wake, simp add: wake_def)
  with t(1) show ?thesis by blast
qed

lemma quiet_upd:
  assumes "sys_inv s" "pt_inv L t" "relinked (upd_proc p f (settled s)) t"
    "p < NPROC \<Longrightarrow> (state (f (ptab s p)) = RUNNING) = (state (ptab s p) = RUNNING)"
    "p < NPROC \<Longrightarrow> ctx_ok (ptab s p) \<Longrightarrow> ctx_ok (f (ptab s p))"
  shows "sys_inv t"
  by (rule quiet_relinked [OF assms(1,2) assms(3) [unfolded map_tab_upd]]) (use assms(4,5) in auto)

lemma kill_inv:
  assumes "sys_inv s"
  shows "\<exists>r t. kill n s = Inr (r, t) \<and> sys_inv t"
proof -
  obtain L where L: "pt_inv L s" "calm s"
    using assms by (rule sys_invE)
  note k = kill_ok [OF L(1) calm_ready(1) [OF L(2)], of n]
  show ?thesis
  proof (cases "find (\<lambda>p. pid (ptab s p) = n) (kill_order L)")
    case None
    then show ?thesis
      using k assms by auto
  next
    case (Some p)
    then obtain t where t: "kill n s = Inr (0, t)" "relinked (upd_proc p killed_wake (settled s)) t"
      "pt_inv (if state (ptab s p) = SLEEPING
         then moved_tail PSleep (PReady (prio (ptab s p))) p L else L) t"
      using k by auto
    have "sys_inv t"
      by (rule quiet_upd [OF assms t(3,2)]) (simp_all add: ctx_ok_killed, simp add: killed_wake_def)
    with t(1) show ?thesis by blast
  qed
qed

lemma setpriority_inv:
  assumes "sys_inv s"
  shows "\<exists>r t. setpriority n j s = Inr (r, t) \<and> sys_inv t"
proof (cases "MAXP < j \<or> j < 0 \<or> sint n < 0")
  case True
  then show ?thesis
    using setpriority_rejects assms by blast
next
  case False
  obtain L where L: "pt_inv L s" "calm s"
    using assms by (rule sys_invE)
  have k: "case find (\<lambda>p. pid (ptab s p) = n) (setprio_order L) of
      None \<Rightarrow> setpriority n j s = Inr (-1, settled s)
    | Some p \<Rightarrow> \<exists>t. setpriority n j s = Inr (0, t) \<and>
        relinked (upd_proc p (set_prio j) (settled s)) t \<and>
        pt_inv (if state (ptab s p) = RUNNABLE \<and> prio (ptab s p) \<noteq> j
                then moved_tail (PReady (prio (ptab s p))) (PReady j) p L else L) t"
    using False by (intro setpriority_ok [OF L(1) calm_ready(1) [OF L(2)]]) auto
  show ?thesis
  proof (cases "find (\<lambda>p. pid (ptab s p) = n) (setprio_order L)")
    case None
    then show ?thesis
      using k assms by auto
  next
    case (Some p)
    then obtain t where t: "setpriority n j s = Inr (0, t)"
      "relinked (upd_proc p (set_prio j) (settled s)) t"
      "pt_inv (if state (ptab s p) = RUNNABLE \<and> prio (ptab s p) \<noteq> j
         then moved_tail (PReady (prio (ptab s p))) (PReady j) p L else L) t"
      using k by auto
    obtain r where r: "p \<in> set (L r)" "r \<noteq> PEmbryo"
      using find_mem [OF Some] by (auto simp: setprio_order_def ready_lists_def)
    have "state (ptab s p) \<noteq> EMBRYO"
      using inv_member(2) [OF L(1) r(1)] r(2) by auto
    then have "sys_inv t"
      by (intro quiet_upd [OF assms t(3,2)])
         (auto simp: set_prio_def ctx_ok_def split: procstate.splits)
    with t(1) show ?thesis by blast
  qed
qed

lemma forget_fields:
  assumes "forget h = forget g"
  shows "state (h p) = state (g p)" "pcontext (h p) = pcontext (g p)" "pgdir (h p) = pgdir (g p)"
    "pchan (h p) = pchan (g p)" "prio (h p) = prio (g p)" "ctx_ok (h p) = ctx_ok (g p)"
proof -
  have e: "(h p)\<lparr>pnext := None\<rparr> = (g p)\<lparr>pnext := None\<rparr>"
    using forget_eqD [OF assms] .
  from arg_cong [OF e, of state] show 1: "state (h p) = state (g p)" by simp
  from arg_cong [OF e, of pcontext] show 2: "pcontext (h p) = pcontext (g p)" by simp
  from arg_cong [OF e, of pgdir] show 3: "pgdir (h p) = pgdir (g p)" by simp
  from arg_cong [OF e, of pchan] show 4: "pchan (h p) = pchan (g p)" by simp
  from arg_cong [OF e, of prio] show 5: "prio (h p) = prio (g p)" by simp
  show "ctx_ok (h p) = ctx_ok (g p)"
    using 1 2 3 4 5 by (intro ctx_ok_cong)
qed

lemma quiet_forget:
  assumes "sys_inv s" "pt_inv L t" "same_procs s t" "forget (ptab t) = forget ((ptab s)(p := x))"
    "state (ptab s p) \<noteq> RUNNING" "state x \<noteq> RUNNING" "ctx_ok x"
  shows "sys_inv t"
proof (rule quiet_step [OF assms(1,2)])
  show "ncli (cpus t c) = 0" for c
    using assms(1,3) by (simp add: sys_inv_def calm_def same_procs_def)
  show "(state (ptab t q) = RUNNING) = (state (ptab s q) = RUNNING)" for q
    using forget_fields(1) [OF assms(4), of q] assms(5,6) by simp
  show "ctx_ok (ptab t q)" if "ctx_ok (ptab s q)" for q
    using forget_fields(6) [OF assms(4), of q] that assms(7) by simp
qed (use assms(3) in \<open>simp_all add: same_procs_def\<close>)

lemma allocproc_inv:
  assumes "sys_inv s"
  shows "\<exists>q t. allocproc s = Inr (q, t) \<and> sys_inv t \<and>
    (\<forall>p. q = Some p \<longrightarrow> state (ptab s p) = UNUSED \<and> state (ptab t p) = EMBRYO)"
proof -
  obtain L where L: "pt_inv L s" "calm s"
    using assms by (rule sys_invE)
  note rdy = calm_ready(1,2) [OF L(2)]
  show ?thesis
  proof (cases "L PFree")
    case Nil
    then show ?thesis
      using allocproc_none [OF L(1) rdy(1)] assms by auto
  next
    case (Cons p ps)
    have p: "state (ptab s p) = UNUSED"
      using inv_member(2) [OF L(1), of p PFree] Cons by simp
    show ?thesis
    proof (cases "freelist s = 0")
      case True
      obtain t where t: "allocproc s = Inr (None, t)" "pt_inv L t" "same_procs s t"
        "forget (ptab t) = forget ((ptab s)(p := (ptab s p)\<lparr>pid := nextpid s, kstack := 0\<rparr>))"
        using allocproc_no_stack [OF L(1) rdy Cons True] by metis
      have "sys_inv t"
        by (rule quiet_forget [OF assms t(2-4)]) (use p in \<open>simp_all add: ctx_ok_def\<close>)
      with t(1) show ?thesis by simp
    next
      case False
      obtain t where t: "allocproc s = Inr (Some p, t)"
        "pt_inv (L(PFree := ps, PEmbryo := p # L PEmbryo)) t" "same_procs s t"
        "forget (ptab t) =
          forget ((ptab s)(p := born (nextpid s) (freelist s) (ticks s) (ptab s p)))"
        using allocproc_some [OF L(1) rdy Cons False] by metis
      have "sys_inv t"
        by (rule quiet_forget [OF assms t(2-4)]) (use p in \<open>simp_all add: ctx_ok_def born_def\<close>)
      moreover have "state (ptab t p) = EMBRYO"
        using forget_fields(1) [OF t(4), of p] by (simp add: born_def)
      ultimately show ?thesis
        using t(1) p by simp
    qed
  qed
qed

lemma embryo_member: "pt_inv L s \<Longrightarrow> p < NPROC \<Longrightarrow> state (ptab s p) = EMBRYO \<Longrightarrow> p \<in> set (L PEmbryo)"
  by (simp add: mem_iff)

lemma free_embryo_inv:
  assumes "sys_inv s" "p < NPROC" "state (ptab s p) = EMBRYO"
  shows "\<exists>t. free_embryo p s = Inr t \<and> sys_inv t"
proof -
  obtain L where L: "pt_inv L s" "calm s"
    using assms(1) by (rule sys_invE)
  obtain t where t: "free_embryo p s = Inr t" "pt_inv (moved_head PEmbryo PFree p L) t"
    "relinked (set_state p UNUSED (settled s)) t"
    using free_embryo_ok [OF L(1) calm_ready(1) [OF L(2)] embryo_member [OF L(1) assms(2,3)]]
    by blast
  have "sys_inv t"
    by (rule quiet_upd [OF assms(1) t(2) t(3) [unfolded set_state_def]])
       (use assms(3) in \<open>auto simp: ctx_ok_def\<close>)
  with t(1) show ?thesis by blast
qed

lemma fork_publish_inv:
  assumes "sys_inv s" "p < NPROC" "state (ptab s p) = EMBRYO" "pgdir (ptab s p) \<noteq> 0"
  shows "\<exists>t. fork_publish p s = Inr t \<and> sys_inv t"
proof -
  obtain L where L: "pt_inv L s" "calm s" "ctx_ok (ptab s p)"
    using assms(1,2) by (metis sys_invE)
  have e: "pcontext (ptab s p) = AtForkret" "prio (ptab s p) = 0"
    using L(3) assms(3) by (simp_all add: ctx_ok_def)
  obtain t where t: "fork_publish p s = Inr t" "pt_inv (moved_tail PEmbryo (PReady 0) p L) t"
    "relinked (set_state p RUNNABLE (settled s)) t"
    using fork_publish_ok [OF L(1) calm_ready(1) [OF L(2)] embryo_member [OF L(1) assms(2,3)] e(2)]
    by blast
  have "sys_inv t"
    by (rule quiet_upd [OF assms(1) t(2) t(3) [unfolded set_state_def]])
       (use assms(3,4) e in \<open>auto simp: ctx_ok_def\<close>)
  with t(1) show ?thesis by blast
qed

lemma fill_inv:
  assumes "sys_inv s" "p < NPROC" "fills f"
  shows "sys_inv (upd_proc p f s)"
proof -
  obtain L where L: "pt_inv L s"
    using assms(1) by (rule sys_invE)
  have f: "state (f x) = state x" "prio (f x) = prio x" "pcontext (f x) = pcontext x"
    "pchan (f x) = pchan x" "pgdir (f x) \<noteq> 0" for x
    using assms(3) by (simp_all add: fills_def)
  have "pt_inv L (upd_proc p f s)"
    using L f assms(2,3)
    by (intro sl.linv_upd) (auto simp: fills_def prio_ok_def pt_inv_def placed_def intro: home_cong)
  then show ?thesis
    by (rule quiet_step [OF assms(1)])
       (use assms(1) f in \<open>auto simp: sys_inv_def calm_def ctx_ok_def split: procstate.splits\<close>)
qed

section \<open>Steps that give up the CPU\<close>

lemma runs_right_out:
  assumes "runs_right cp h" "cp c = Some p" "state (k p) \<noteq> RUNNING"
    "\<And>q. q < NPROC \<Longrightarrow> q \<noteq> p \<Longrightarrow> (state (k q) = RUNNING) = (state (h q) = RUNNING)"
  shows "runs_right (cp(c := None)) k"
proof -
  have a: "\<And>c p. cp c = Some p \<Longrightarrow> p < NPROC \<and> state (h p) = RUNNING"
    and u: "\<And>c d p. cp c = Some p \<Longrightarrow> cp d = Some p \<Longrightarrow> c = d"
    and e: "\<And>p. p < NPROC \<Longrightarrow> state (h p) = RUNNING \<Longrightarrow> \<exists>c. cp c = Some p"
    using assms(1) unfolding runs_right_def by blast+
  have "q < NPROC \<and> state (k q) = RUNNING" if "(cp(c := None)) d = Some q" for d q
  proof -
    have d: "d \<noteq> c" "cp d = Some q"
      using that by (auto split: if_splits)
    then have "q \<noteq> p"
      using u assms(2) by blast
    then show ?thesis
      using a [OF d(2)] assms(4) by blast
  qed
  moreover have "d = d'" if "(cp(c := None)) d = Some q" "(cp(c := None)) d' = Some q" for d d' q
    using that u by (simp split: if_splits)
  moreover have "\<exists>d. (cp(c := None)) d = Some q" if q1: "q < NPROC" "state (k q) = RUNNING" for q
  proof -
    have q: "q \<noteq> p"
      using q1 assms(3) by blast
    then have "state (h q) = RUNNING"
      using q1 assms(4) by blast
    then obtain d where "cp d = Some q"
      using e [OF q1(1)] by blast
    then show ?thesis
      using q assms(2) by (intro exI [of _ d]) auto
  qed
  ultimately show ?thesis
    unfolding runs_right_def by blast
qed

lemma runs_right_in:
  assumes "runs_right cp h" "cp c = None" "p < NPROC" "state (h p) \<noteq> RUNNING"
    "state (k p) = RUNNING"
    "\<And>q. q < NPROC \<Longrightarrow> q \<noteq> p \<Longrightarrow> (state (k q) = RUNNING) = (state (h q) = RUNNING)"
  shows "runs_right (cp(c := Some p)) k"
proof -
  have a: "\<And>c p. cp c = Some p \<Longrightarrow> p < NPROC \<and> state (h p) = RUNNING"
    and u: "\<And>c d p. cp c = Some p \<Longrightarrow> cp d = Some p \<Longrightarrow> c = d"
    and e: "\<And>p. p < NPROC \<Longrightarrow> state (h p) = RUNNING \<Longrightarrow> \<exists>c. cp c = Some p"
    using assms(1) unfolding runs_right_def by blast+
  have n: "cp d \<noteq> Some p" for d
    using a [of d p] assms(4) by blast
  have "q < NPROC \<and> state (k q) = RUNNING" if "(cp(c := Some p)) d = Some q" for d q
  proof (cases "q = p")
    case False
    then have "cp d = Some q"
      using that by (auto split: if_splits)
    then show ?thesis
      using a [of d q] False assms(6) by blast
  qed (use assms(3,5) in simp)
  moreover have "d = d'" if "(cp(c := Some p)) d = Some q" "(cp(c := Some p)) d' = Some q" for d d' q
    using that u n by (auto split: if_splits)
  moreover have "\<exists>d. (cp(c := Some p)) d = Some q" if q1: "q < NPROC" "state (k q) = RUNNING" for q
  proof (cases "q = p")
    case True
    then show ?thesis by (intro exI [of _ c]) simp
  next
    case False
    then have "state (h q) = RUNNING"
      using q1 assms(6) by blast
    then obtain d where "cp d = Some q"
      using e [OF q1(1)] by blast
    then show ?thesis
      using assms(2) by (intro exI [of _ d]) auto
  qed
  ultimately show ?thesis
    unfolding runs_right_def by blast
qed

lemma held_facts:
  assumes "held p b m" "sys_inv (pt_done b m)"
  shows "p < NPROC" "state (ptab m p) = RUNNING" "cproc (cpus b (curcpu b)) = Some p"
    "curcpu m = curcpu b" "kmem_ready m" "0 < ncli (mycpu m)" "\<exists>L. pt_inv L m"
proof -
  have h: "same_machine (acq b) m" "ncli (mycpu b) = 0" "cproc (mycpu b) = Some p"
    using assms(1) by (simp_all add: held_def)
  show c: "cproc (cpus b (curcpu b)) = Some p" "curcpu m = curcpu b"
    using h by (simp_all add: mycpu_def same_machine_def)
  have "runs_right (procs_on b) (ptab m)" and inv: "\<exists>L. pt_inv L m" and cl: "calm (pt_done b m)"
    using assms(2) by (simp_all add: sys_inv_def)
  then show "p < NPROC" "state (ptab m p) = RUNNING" "\<exists>L. pt_inv L m"
    using c(1) by (auto simp: runs_right_def)
  have "ncli (mycpu m) = 1" "\<not> eflags_IF (mycpu m)" "lock_free KmemLock m"
    using h cl by (simp_all add: same_machine_def mycpu_def calm_def lock_free_def)
  then show "kmem_ready m" "0 < ncli (mycpu m)"
    by (simp_all add: kmem_ready_def cpu_ok_def)
qed

lemma out_inv:
  assumes "held p b m" "sys_inv (pt_done b m)" "pt_inv L t" "relinked (map_tab g m) t"
    "vm_switches vm" "state (g p (ptab m p)) \<noteq> RUNNING"
    "\<And>q. q < NPROC \<Longrightarrow> q \<noteq> p \<Longrightarrow> (state (g q (ptab m q)) = RUNNING) = (state (ptab m q) = RUNNING)"
    "\<And>q. q < NPROC \<Longrightarrow> ctx_ok (ptab m q) \<Longrightarrow> ctx_ok (g q (ptab m q))"
  shows "\<exists>u. scheduler_back vm t = Inr u \<and> sys_inv u"
proof -
  note f = held_facts [OF assms(1,2)]
  let ?u = "pt_done (set_proc None b) (set_proc None t)"
  have "same_machine m t"
    using relinked_machine [OF assms(4)] by (simp add: same_machine_def)
  then have "held p b t"
    using assms(1) held_cong by blast
  then have ret: "scheduler_back vm t = Inr ?u"
    by (rule scheduler_back_ok [OF _ assms(5)])
  have rr: "runs_right (procs_on b) (ptab m)" and cl: "calm (pt_done b m)"
    and cx: "\<And>q. q < NPROC \<Longrightarrow> ctx_ok (ptab m q)"
    using assms(2) by (simp_all add: sys_inv_def)
  have tab: "state (ptab t q) = state (g q (ptab m q))" for q
    using relinked_fields(1) [OF assms(4)] by simp
  have "sys_inv ?u"
  proof (rule sys_invI)
    show "pt_inv L ?u"
      using assms(3) by simp
    show "calm ?u"
      using cl by (simp add: calm_def lock_free_def)
    have "procs_on ?u = (procs_on b)(curcpu b := None)"
      by (simp add: fun_eq_iff)
    then show "runs_right (procs_on ?u) (ptab ?u)"
      using runs_right_out [OF rr f(3), of "ptab t"] assms(6,7) by (simp add: tab)
    show "ctx_ok (ptab ?u q)" if "q < NPROC" for q
      using ctx_ok_relinked [OF assms(4), of q] assms(8) [OF that cx [OF that]] by simp
  qed
  with ret show ?thesis by blast
qed

lemma out_upd:
  assumes "held p b m" "sys_inv (pt_done b m)" "pt_inv L t" "relinked (upd_proc p f m) t"
    "vm_switches vm" "state (f (ptab m p)) \<noteq> RUNNING" "ctx_ok (f (ptab m p))"
  shows "\<exists>u. scheduler_back vm t = Inr u \<and> sys_inv u"
  by (rule out_inv [OF assms(1-3) assms(4) [unfolded map_tab_upd] assms(5)]) (use assms(6,7) in auto)

text \<open>A CPU between steps that runs \<open>p\<close>.\<close>

lemma sys_runs:
  assumes "sys_inv s" "cproc (mycpu s) = Some p"
  shows "runs p s" "held p s (acq s)" "sys_inv (pt_done s (acq s))" "pgdir (ptab s p) \<noteq> 0"
proof -
  obtain L where L: "pt_inv L s" "calm s" "runs_right (procs_on s) (ptab s)"
    "\<forall>q<NPROC. ctx_ok (ptab s q)"
    using assms(1) by (auto simp: sys_inv_def)
  show r: "runs p s"
    using runs_right_runs [OF L(2,3) assms(2)] .
  show "held p s (acq s)"
    by (rule runs_held [OF r])
  show "sys_inv (pt_done s (acq s))"
    using assms(1) by simp
  show "pgdir (ptab s p) \<noteq> 0"
    using L(4) r by (auto simp: runs_def ctx_ok_def)
qed

lemma yield_inv:
  assumes "sys_inv s" "cproc (mycpu s) = Some p" "vm_switches vm"
  shows "\<exists>t u. yield s = Inr t \<and> scheduler_back vm t = Inr u \<and> sys_inv u"
proof -
  obtain L where L: "pt_inv L s"
    using assms(1) by (rule sys_invE)
  note r = sys_runs [OF assms(1,2)]
  obtain t where t: "yield s = Inr t"
    "pt_inv (moved_tail PRunning (PReady (prio (charge (ticks s) (ptab s p)))) p L) t"
    "relinked (upd_proc p (yielded (ticks s) (eflags_IF (mycpu s))) (acq s)) t"
    using yield_ok [OF L r(1)] by blast
  have "\<exists>u. scheduler_back vm t = Inr u \<and> sys_inv u"
    by (rule out_upd [OF r(2,3) t(2,3) assms(3)])
       (use r(4) in \<open>simp_all add: yielded_def switch_out_def ctx_ok_def\<close>)
  with t(1) show ?thesis by blast
qed

lemma slept_ctx:
  "state (slept now ie ch lk x) = SLEEPING" "pgdir x \<noteq> 0 \<Longrightarrow> ctx_ok (slept now ie ch lk x)"
  by (simp_all add: slept_def switch_out_def ctx_ok_def)

lemma sleep_inv:
  assumes "sys_inv s" "cproc (mycpu s) = Some p" "vm_switches vm"
  shows "\<exists>t u. sleep ch None s = Inr t \<and> scheduler_back vm t = Inr u \<and> sys_inv u"
proof -
  obtain L where L: "pt_inv L s"
    using assms(1) by (rule sys_invE)
  note r = sys_runs [OF assms(1,2)]
  obtain t where t: "sleep ch None s = Inr t" "pt_inv (moved_head PRunning PSleep p L) t"
    "relinked (upd_proc p (slept (ticks s) (eflags_IF (mycpu s)) ch None) (acq s)) t"
    using sleep_no_lock [OF L r(1)] by blast
  have "\<exists>u. scheduler_back vm t = Inr u \<and> sys_inv u"
    by (rule out_upd [OF r(2,3) t(2,3) assms(3)]) (use r(4) in \<open>simp_all add: slept_ctx\<close>)
  with t(1) show ?thesis by blast
qed

lemma sleep_lock_inv:
  assumes "sys_inv s" "cproc (mycpu s) = Some p" "vm_switches vm" "l \<noteq> PtableLock"
  shows "\<exists>r t u. acquire l s = Inr r \<and> sleep ch (Some l) r = Inr t \<and>
    scheduler_back vm t = Inr u \<and> sys_inv u"
proof -
  obtain L where L: "pt_inv L s" "calm s"
    using assms(1) by (rule sys_invE)
  note r = sys_runs [OF assms(1,2)]
  let ?r = "acquired l s"
  let ?m = "(acq ?r)\<lparr>cpus := cpus (acq s), locks := locks (acq s)\<rparr>"
  have fr: "lock_free l s"
    using L(2) by (simp add: calm_def)
  have iv: "pt_inv L ?r" "state (ptab ?r p) = RUNNING"
    using L(1) r(1) by (simp_all add: runs_def)
  obtain t where t: "sleep ch (Some l) ?r = Inr t" "pt_inv (moved_head PRunning PSleep p L) t"
    "relinked (upd_proc p (slept (ticks ?r) (eflags_IF (mycpu s)) ch (Some l)) ?m) t"
    using sleep_lock [OF iv(1) r(1) fr assms(4) same_machine_refl iv(2), of ch] by blast
  have hm: "held p s ?m"
    using r(2) by (simp add: held_def same_machine_def)
  have im: "sys_inv (pt_done s ?m)"
    using assms(1) sys_inv_cong [of "pt_done s ?m" s] by simp
  have "\<exists>u. scheduler_back vm t = Inr u \<and> sys_inv u"
    by (rule out_upd [OF hm im t(2,3) assms(3)]) (use r(4) in \<open>simp_all add: slept_ctx\<close>)
  with t(1) fr show ?thesis by simp
qed

lemma ctx_ok_orphaned: "ctx_ok x \<Longrightarrow> ctx_ok (orphaned me s p x)"
proof -
  assume x: "ctx_ok x"
  have r: "ctx_ok (reparent me ip y) = ctx_ok y" for ip y
    by (rule ctx_ok_cong) (simp_all add: reparent_def)
  show ?thesis
    using x by (simp add: orphaned_def r ctx_ok_wake Let_def)
qed

lemma orphaned_running: "(state (orphaned me s p x) = RUNNING) = (state x = RUNNING)"
  by (simp add: orphaned_def wake_def Let_def)

lemma exited_ctx:
  "state (exited now ie x) = ZOMBIE" "pgdir x \<noteq> 0 \<Longrightarrow> ctx_ok (exited now ie x)"
  by (simp_all add: exited_def switch_out_def ctx_ok_def)

lemma exit_inv:
  assumes "sys_inv s" "cproc (mycpu s) = Some p" "vm_switches vm"
  shows "\<exists>t u. exit_locked s = Inr t \<and> scheduler_back vm t = Inr u \<and> sys_inv u"
proof -
  obtain L where L: "pt_inv L s"
    using assms(1) by (rule sys_invE)
  note r = sys_runs [OF assms(1,2)]
  let ?e = "exited (ticks s) (eflags_IF (mycpu s))"
  obtain t L' where t: "exit_locked s = Inr t" "pt_inv L' t"
    "relinked (upd_proc p ?e (map_tab (orphaned p s) (acq s))) t"
    using exit_locked_ok [OF L r(1)] by blast
  have pg: "pgdir (orphaned p s p (ptab s p)) \<noteq> 0"
    using r(4) by (simp add: orphaned_def wake_def reparent_def Let_def)
  have "\<exists>u. scheduler_back vm t = Inr u \<and> sys_inv u"
  proof (rule out_inv [OF r(2,3) t(2) t(3) [unfolded map_tab_upd map_tab_comp] assms(3)])
    show "ctx_ok ((if q = p then ?e else id) (orphaned p s q (ptab (acq s) q)))"
      if "ctx_ok (ptab (acq s) q)" for q
      using that pg by (simp add: ctx_ok_orphaned exited_ctx)
  qed (simp_all add: exited_ctx orphaned_running)
  with t(1) show ?thesis by blast
qed

end
