(* ===== verification/ProcReach.thy ===== *)
theory ProcReach
  imports ProcSys
begin

text \<open>
  Reachable states of the process system: \<open>wait\<close> and the scheduler keep the invariant
  of \<open>ProcSys\<close>, hence every step does, and no operation of a reachable state meets one
  of the panics of proc.c.
\<close>

section \<open>wait\<close>

lemma in_section_upd:
  assumes "held p b m" "sys_inv (pt_done b m)" "pt_inv L t"
    "relinked (upd_proc q f m') t" "ptab m' = ptab m" "same_machine m m'"
    "(state (f (ptab m q)) = RUNNING) = (state (ptab m q) = RUNNING)"
    "ctx_ok (ptab m q) \<Longrightarrow> ctx_ok (f (ptab m q))"
  shows "release PtableLock t = Inr (pt_done b t)" "sys_inv (pt_done b t)"
proof -
  have sm: "same_machine m t"
    using relinked_machine [OF assms(4)] assms(6) by (simp add: same_machine_def)
  show "release PtableLock t = Inr (pt_done b t)"
    by (rule held_release [OF held_cong [OF assms(1) sm]])
  show "sys_inv (pt_done b t)"
  proof (rule quiet_step [OF assms(2)])
    show "pt_inv L (pt_done b t)"
      using assms(3) by simp
    show "ncli (cpus (pt_done b t) c) = 0" for c
      using assms(2) by (simp add: sys_inv_def calm_def)
    show "(state (ptab (pt_done b t) r) = RUNNING) = (state (ptab (pt_done b m) r) = RUNNING)" for r
      using relinked_fields(1) [OF assms(4), of r] assms(5,7) by simp
    show "ctx_ok (ptab (pt_done b t) r)" if "ctx_ok (ptab (pt_done b m) r)" for r
      using ctx_ok_relinked [OF assms(4), of r] that assms(5,8) by auto
  qed simp_all
qed

lemma reaped_ctx: "state x = ZOMBIE \<Longrightarrow> state (reaped x) = UNUSED" "ctx_ok (reaped x)"
  by (simp_all add: reaped_def ctx_ok_def)

lemma wait_iter_inv:
  assumes "held p b m" "sys_inv (pt_done b m)" "vm_switches vm" "vm_frees vm"
    "wait_iter kend vm m = Inr (r, t)"
  shows "case r of WaitRet n \<Rightarrow> sys_inv t
    | WaitSlept \<Rightarrow> \<exists>u. scheduler_back vm t = Inr u \<and> sys_inv u"
proof -
  note f = held_facts [OF assms(1,2)]
  obtain L where L: "pt_inv L m"
    using f(7) by blast
  note searches = find_list_ok [OF L] find_lists_ok [OF L]
  let ?kid = "\<lambda>q. parent (ptab m q) = Some p"
  show ?thesis
  proof (cases "find ?kid (L PZombie)")
    case (Some q)
    let ?k = "\<lambda>x. x\<lparr>kstack := 0\<rparr>"
    have q: "q \<in> set (L PZombie)"
      using find_mem [OF Some] by simp
    obtain v where v: "reap kend vm q m = Inr v" "r = WaitRet (sint (pid (ptab m q)))"
      "release PtableLock v = Inr t"
      using assms(5) Some
      by (auto simp: wait_iter_def held_with_proc [OF assms(1)] searches Let_def Rbind_eq_Inr_iff)
    obtain s1 s2 where fr: "kfree kend (kstack (ptab m q)) m = Inr s1"
      "freevm vm (pgdir (ptab (upd_proc q ?k s1) q)) (upd_proc q ?k s1) = Inr s2"
      using v(1) by (auto simp: reap_def Let_def Rbind_eq_Inr_iff)
    have k1: "kmem_only m s1"
      by (rule kfree_frame [OF f(5,6) fr(1)])
    note e1 = kmem_only_sel [OF k1]
    have n1: "0 < ncli (mycpu (upd_proc q ?k s1))"
      using f(6) e1 by (simp add: mycpu_def)
    have k2: "kmem_only (upd_proc q ?k s1) s2"
      using assms(4) n1 fr(2) by (simp add: vm_frees_def)
    obtain t' where t': "reap kend vm q m = Inr t'" "pt_inv (moved_head PZombie PFree q L) t'"
      "relinked (upd_proc q reaped (m\<lparr>freelist := freelist s2, pmem := pmem s2\<rparr>)) t'"
      using reap_ok [OF L q fr(1) k1 _ k2, of vm] fr(2) e1(1) by auto
    have z: "state (ptab m q) = ZOMBIE"
      using inv_member(2) [OF L q] by simp
    have "release PtableLock t' = Inr (pt_done b t')" "sys_inv (pt_done b t')"
      by (rule in_section_upd [OF assms(1,2) t'(2,3)];
          use z in \<open>simp add: same_machine_def reaped_ctx\<close>)+
    then show ?thesis
      using v t'(1) by simp
  next
    case None
    show ?thesis
    proof (cases "find ?kid (concat (map L ([PSleep] @ ready_lists @ [PRunning, PEmbryo]))) = None \<or>
        killed (ptab m p)")
      case True
      then have "r = WaitRet (-1)" "t = pt_done b m"
        using assms(5) None held_release [OF assms(1)]
        by (auto simp: wait_iter_def held_with_proc [OF assms(1)] searches)
      then show ?thesis
        using assms(2) by simp
    next
      case False
      obtain v where v: "sleep (ProcAddr p) (Some PtableLock) m = Inr v"
        "pt_inv (moved_head PRunning PSleep p L) v"
        "relinked (upd_proc p (slept (ticks m) (eflags_IF (mycpu b)) (ProcAddr p)
           (Some PtableLock)) m) v"
        using sleep_ptable_lock [OF L assms(1) f(1,2)] by blast
      have r: "r = WaitSlept" "t = v"
        using assms(5) None False v(1)
        by (auto simp: wait_iter_def held_with_proc [OF assms(1)] searches)
      have "pgdir (ptab m p) \<noteq> 0"
        using assms(2) f(1,2) by (auto simp: sys_inv_def ctx_ok_def)
      then have "\<exists>u. scheduler_back vm v = Inr u \<and> sys_inv u"
        by (intro out_upd [OF assms(1,2) v(2,3) assms(3)]) (simp_all add: slept_ctx)
      then show ?thesis
        using r by simp
    qed
  qed
qed

lemma wait_inv:
  assumes "sys_inv s" "cproc (mycpu s) = Some p" "vm_switches vm" "vm_frees vm"
    "wait kend vm s = Inr (r, t)"
  shows "case r of WaitRet n \<Rightarrow> sys_inv t
    | WaitSlept \<Rightarrow> \<exists>u. scheduler_back vm t = Inr u \<and> sys_inv u"
proof -
  note r = sys_runs [OF assms(1,2)]
  have "pt_ready s"
    using r(1) by (simp add: runs_def)
  then have "wait_iter kend vm (acq s) = Inr (r, t)"
    using assms(5) by (simp add: wait_def)
  then show ?thesis
    by (rule wait_iter_inv [OF r(2,3) assms(3,4)])
qed

section \<open>The scheduler\<close>

lemma after_promo_ctx: "ctx_ok (ptab s p) \<Longrightarrow> ctx_ok (ptab (after_promo s) p)"
proof -
  assume c: "ctx_ok (ptab s p)"
  have "ctx_ok (promote1 x)" if "ctx_ok x" "state x \<in> {SLEEPING, RUNNING, RUNNABLE}" for x
    using that by (auto simp: ctx_ok_def promote1_def)
  then show ?thesis
    using c by (simp add: after_promo_def promoted_def)
qed

lemma scheduler_inv:
  assumes "sys_inv s" "cproc (mycpu s) = None" "vm_switches vm"
  obtains (nothing) t where "scheduler_iter vm s = Inr (None, t)" "sys_inv t"
  | (chosen) p t b where "scheduler_iter vm s = Inr (Some p, t)" "held p b t" "sys_inv (pt_done b t)"
      "p < NPROC" "state (ptab s p) = RUNNABLE" "pcontext (ptab t p) = pcontext (ptab s p)"
proof -
  obtain L where L: "pt_inv L s" "calm s" "runs_right (procs_on s) (ptab s)"
    and cx: "\<forall>q<NPROC. ctx_ok (ptab s q)"
    using assms(1) by (auto simp: sys_inv_def)
  have rdy: "pt_ready s" "ncli (mycpu s) = 0"
    using L(2) calm_ready(1) by (auto simp: calm_def mycpu_def)
  have pg: "pgdir (ptab s p) \<noteq> 0" if "p < NPROC" "state (ptab s p) = RUNNABLE" for p
    using cx that by (auto simp: ctx_ok_def)
  let ?L = "promo_lists s L" and ?b = "with_if True s"
  note it = scheduler_iter_ok [OF L(1) rdy assms(3) pg]
  show ?thesis
  proof (cases "choice [0, 1, 2, 3, 4, 5] ?L")
    case None
    then obtain t where t: "scheduler_iter vm s = Inr (None, t)" "pt_inv ?L t"
      "relinked (pt_done ?b (after_promo (acq ?b))) t"
      using it by auto
    have "sys_inv t"
    proof (rule quiet_step [OF assms(1) t(2)])
      show "ncli (cpus t c) = 0" for c
        using relinked_globals(1) [OF t(3)] L(2) by (simp add: calm_def)
      show "ctx_ok (ptab t q)" if "ctx_ok (ptab s q)" for q
        using ctx_ok_relinked [OF t(3), of q] after_promo_ctx [of "acq ?b" q] that by simp
    qed (simp_all add: relinked_globals [OF t(3)] relinked_fields [OF t(3)])
    with t(1) show ?thesis
      by (rule nothing)
  next
    case (Some ip)
    then obtain i p where c: "choice [0, 1, 2, 3, 4, 5] ?L = Some (i, p)"
      by (cases ip) auto
    let ?B = "set_proc (Some p) ?b"
    let ?m = "set_proc (Some p) (after_promo (acq ?b))"
    obtain t where t: "scheduler_iter vm s = Inr (Some p, t)"
      "pt_inv (moved_head (PReady i) PRunning p ?L) t" "held p ?B t"
      "relinked (upd_proc p (dispatched (ticks s)) ?m) t"
      using it c by auto
    obtain t1 where t1: "pt_inv ?L t1" "relinked (after_promo s) t1"
      using promote_all [OF L(1)] by blast
    have p: "p < NPROC" "state (ptab s p) = RUNNABLE"
      using inv_member(1,2) [OF t1(1), of p "PReady i"] choice_mem [OF c]
        relinked_fields(1) [OF t1(2), of p] by auto
    have st: "state (ptab t q) = (if q = p then RUNNING else state (ptab s q))" for q
      using relinked_fields(1) [OF t(4), of q] by (simp add: dispatched_def)
    have "sys_inv (pt_done ?B t)"
    proof (rule sys_invI)
      show "pt_inv (moved_head (PReady i) PRunning p ?L) (pt_done ?B t)"
        using t(2) by simp
      show "calm (pt_done ?B t)"
        using L(2) by (simp add: calm_def lock_free_def)
      have "procs_on (pt_done ?B t) = (procs_on s)(curcpu s := Some p)"
        by (simp add: fun_eq_iff)
      then show "runs_right (procs_on (pt_done ?B t)) (ptab (pt_done ?B t))"
        using runs_right_in [OF L(3), of "curcpu s" p "ptab t"] assms(2) p
        by (simp add: mycpu_def st)
      show "ctx_ok (ptab (pt_done ?B t) q)" if "q < NPROC" for q
      proof (cases "q = p")
        case True
        have "pgdir (ptab t p) = pgdir (ptab s p)"
          using relinked_fields(7) [OF t(4), of p] by (simp add: dispatched_def)
        then show ?thesis
          using True st [of p] pg [OF p] by (simp add: ctx_ok_def)
      next
        case False
        then show ?thesis
          using ctx_ok_relinked [OF t(4), of q] after_promo_ctx [of "acq ?b" q] cx that by simp
      qed
    qed
    moreover have "pcontext (ptab t p) = pcontext (ptab s p)"
      using relinked_fields(10) [OF t(4), of p] by (simp add: dispatched_def)
    ultimately show ?thesis
      using chosen [OF t(1,3)] p by simp
  qed
qed

section \<open>Resuming a process\<close>

lemma sys_inv_resumed:
  assumes "sys_inv (pt_done b t)"
  shows "sys_inv (pt_done (with_if ie b) (sched_resume ie t))"
  using assms sys_inv_cong [of "pt_done (with_if ie b) (sched_resume ie t)" "pt_done b t"]
  by (simp add: sched_resume_def)

lemma sys_inv_chan:
  assumes "sys_inv (pt_done b t)" "p < NPROC" "state (ptab t p) = RUNNING"
  shows "sys_inv (pt_done b (upd_proc p (\<lambda>x. x\<lparr>pchan := NoChan\<rparr>) t))"
proof -
  obtain L where L: "pt_inv L (pt_done b t)"
    using assms(1) by (rule sys_invE)
  then have "pt_inv L (pt_done b (upd_proc p (\<lambda>x. x\<lparr>pchan := NoChan\<rparr>) t))"
    using assms(2) by (simp, intro sl.linv_upd)
      (auto simp: prio_ok_def pt_inv_def placed_def intro: home_cong)
  then show ?thesis
    by (rule quiet_step [OF assms(1)])
       (use assms in \<open>auto simp: sys_inv_def calm_def ctx_ok_def\<close>)
qed

lemma sched_resume_sel [simp]: "ptab (sched_resume ie t) = ptab t"
  by (simp add: sched_resume_def)

lemma resume_inv:
  assumes "held p b t" "sys_inv (pt_done b t)" "vm_switches vm" "vm_frees vm"
    "resume kend vm p t = Inr u"
  shows "sys_inv u"
proof -
  note f = held_facts [OF assms(1,2)]
  show ?thesis
  proof (cases "pcontext (ptab t p)")
    case NoCtx
    then show ?thesis
      using assms(5) by (simp add: resume_def)
  next
    case AtForkret
    then show ?thesis
      using assms(2,5) held_release [OF assms(1)] by (simp add: resume_def)
  next
    case (InSched ie w)
    let ?b = "with_if ie b" and ?t = "sched_resume ie t"
    let ?m = "upd_proc p (\<lambda>x. x\<lparr>pchan := NoChan\<rparr>) ?t"
    have h: "held p ?b ?m" and i: "sys_inv (pt_done ?b ?m)"
      using held_resume [OF assms(1)] sys_inv_resumed [OF assms(2)] f(1,2)
        sys_inv_chan [of ?b ?t p] by simp_all
    show ?thesis
    proof (cases w)
      case FromYield
      then show ?thesis
        using assms(5) InSched sys_inv_resumed [OF assms(2), of ie] yield_resume_ok [OF assms(1)]
        by (simp add: resume_def)
    next
      case FromExit
      then show ?thesis
        using assms(5) InSched by (simp add: resume_def exit_resume_def)
    next
      case (FromSleep ch lk)
      consider "lk = None" | "lk = Some PtableLock" | l where "lk = Some l" "l \<noteq> PtableLock"
        by (cases lk) auto
      then show ?thesis
      proof cases
        case 1
        then show ?thesis
          using assms(5) InSched FromSleep i sleep_resume_no_lock [OF assms(1), of ie]
          by (simp add: resume_def)
      next
        case 2
        then obtain r v where v: "wait_iter kend vm ?m = Inr (r, v)"
          "(case r of WaitRet n \<Rightarrow> Inr v | WaitSlept \<Rightarrow> scheduler_back vm v) = Inr u"
          using assms(5) InSched FromSleep sleep_resume_ptable [OF assms(1), of ie]
          by (auto simp: resume_def wait_resume_def Rbind_eq_Inr_iff)
        from wait_iter_inv [OF h i assms(3,4) v(1)] v(2) show ?thesis
          by (auto split: waitres.splits)
      next
        case 3
        let ?x = "pt_done ?b ?m"
        have cl: "calm ?x"
          using i by (simp only: sys_inv_def)
        have x: "lock_free l ?x" "cpu_ok ?x"
          using cl calm_ready(3) [OF cl] unfolding calm_def by blast+
        have "sleep_resume ie (Some l) t = Inr (acquired l ?x)"
          using 3 h held_release [OF h] held_proc [OF held_resume [OF assms(1), of ie]]
            acquire_free [OF x(1)]
          by (simp add: sleep_resume_def with_proc_def Let_def)
        then have "u = settled ?x"
          using assms(5) InSched FromSleep 3 release_acquired [OF x] by (simp add: resume_def)
        then show ?thesis
          using i by (simp only: sys_inv_settled)
      qed
    qed
  qed
qed

section \<open>Reachable states\<close>

lemma step_inv:
  assumes "step kend vm s t" "sys_inv s" "vm_switches vm" "vm_frees vm"
  shows "sys_inv t"
  using assms(1,2)
proof cases
  case (dispatch c p t')
  have s: "sys_inv (on_cpu c s)" "cproc (mycpu (on_cpu c s)) = None"
    using assms(2) dispatch(1) by simp_all
  show ?thesis
    by (rule scheduler_inv [OF s assms(3)])
       (use dispatch(2,3) resume_inv [OF _ _ assms(3,4)] in auto)
next
  case (idle c)
  have s: "sys_inv (on_cpu c s)" "cproc (mycpu (on_cpu c s)) = None"
    using assms(2) idle(1) by simp_all
  show ?thesis
    by (rule scheduler_inv [OF s assms(3)]) (use idle(2) in auto)
next
  case (give_up c p t')
  then show ?thesis
    using yield_inv [of "on_cpu c s" p vm] assms(2,3) by auto
next
  case (block c p ch t')
  then show ?thesis
    using sleep_inv [of "on_cpu c s" p vm ch] assms(2,3) by auto
next
  case (block_lock c p l r ch t')
  then show ?thesis
    using sleep_lock_inv [of "on_cpu c s" p vm l ch] assms(2,3) by auto
next
  case (leave c p t')
  then show ?thesis
    using exit_inv [of "on_cpu c s" p vm] assms(2,3) by auto
next
  case (await_done c p n)
  then show ?thesis
    using wait_inv [of "on_cpu c s" p vm kend "WaitRet n" t] assms(2-4) by auto
next
  case (await_block c p t')
  then show ?thesis
    using wait_inv [of "on_cpu c s" p vm kend WaitSlept t'] assms(2-4) by auto
next
  case (wake ch c)
  then show ?thesis
    using wakeup_inv [of "on_cpu c s" ch] assms(2) by auto
next
  case (kill n c r)
  then show ?thesis
    using kill_inv [of "on_cpu c s" n] assms(2) by auto
next
  case (reprio n j c r)
  then show ?thesis
    using setpriority_inv [of "on_cpu c s" n j] assms(2) by auto
next
  case (alloc c q)
  then show ?thesis
    using allocproc_inv [of "on_cpu c s"] assms(2) by auto
next
  case (fill p f)
  then show ?thesis
    using fill_inv assms(2) by blast
next
  case (unalloc p c)
  then show ?thesis
    using free_embryo_inv [of "on_cpu c s" p] assms(2) by auto
next
  case (publish p c)
  then show ?thesis
    using fork_publish_inv [of "on_cpu c s" p] assms(2) by auto
next
  case tick
  then show ?thesis
    using sys_inv_cong [of t s] assms(2) by simp
qed

text \<open>The machine before \<open>userinit\<close> has filled the lists: a zeroed process table.\<close>

definition zeroed :: "'a ptable_scheme \<Rightarrow> bool" where
  "zeroed s \<longleftrightarrow> calm s \<and> (\<forall>c. cproc (cpus s c) = None) \<and> (\<forall>r. pLists s r = None) \<and>
     (\<forall>p. state (ptab s p) = UNUSED \<and> prio (ptab s p) = 0 \<and> pnext (ptab s p) = None)"

inductive reach :: "uint \<Rightarrow> 'a ptable_scheme vmops \<Rightarrow> 'a ptable_scheme \<Rightarrow> bool" for kend vm where
  boot: "zeroed s \<Longrightarrow> init_lists s = Inr t \<Longrightarrow> reach kend vm t"
| step: "reach kend vm s \<Longrightarrow> step kend vm s t \<Longrightarrow> reach kend vm t"

lemma addtail_all_ok:
  assumes "lists_ok s L" "distinct ps" "\<forall>p\<in>set ps. p < NPROC \<and> unlinked p L"
  shows "\<exists>t. addtail_all r ps s = Inr t \<and> lists_ok t (L(r := L r @ ps)) \<and> relinked s t"
  using assms
proof (induction ps arbitrary: s L)
  case Nil
  then show ?case by simp
next
  case (Cons p ps)
  obtain t1 where t1: "addtail r p s = Inr t1" "lists_ok t1 (L(r := L r @ [p]))" "relinked s t1"
    using addtail_lists [OF Cons.prems(1), of p r] Cons.prems(3) by auto
  have q: "\<forall>q\<in>set ps. q < NPROC \<and> unlinked q (L(r := L r @ [p]))"
    using Cons.prems(2,3) by (auto simp: unlinked_def)
  have "distinct ps"
    using Cons.prems(2) by simp
  from Cons.IH [OF t1(2) this q] obtain t where t: "addtail_all r ps t1 = Inr t"
    "lists_ok t ((L(r := L r @ [p]))(r := (L(r := L r @ [p])) r @ ps))" "relinked t1 t"
    by blast
  moreover have "addtail_all r (p # ps) s = Inr t"
    using t1(1) t(1) by simp
  moreover have "lists_ok t (L(r := L r @ p # ps))"
    using t(2) by simp
  ultimately show ?case
    using relinked_trans [OF t1(3) t(3)] by blast
qed

definition boot_lists :: "listhead \<Rightarrow> nat list" where
  "boot_lists r = (if r = PFree then [0..<NPROC] else [])"

lemma clear_heads: "(\<And>r. pLists s r = None) \<Longrightarrow> set_head r None s = s"
  by (simp add: set_head_def fun_upd_idem)

lemma init_lists_ok:
  assumes "zeroed s"
  obtains t where "init_lists s = Inr t" "pt_inv boot_lists t"
    "relinked ((settled s)\<lparr>PromoteAtTime := ticks s + TICKS_TO_PROMOTE\<rparr>) t"
proof -
  have z: "calm s" "\<And>r. pLists s r = None"
    "\<And>p. state (ptab s p) = UNUSED" "\<And>p. prio (ptab s p) = 0"
    using assms by (simp_all add: zeroed_def)
  have rdy: "pt_ready s"
    by (rule calm_ready(1) [OF z(1)])
  let ?s = "(acq s)\<lparr>PromoteAtTime := ticks s + TICKS_TO_PROMOTE\<rparr>"
  have "lists_ok ?s (\<lambda>r. [])"
    using z(2) by (simp add: lists_ok_def)
  then obtain t where t: "addtail_all PFree [0..<NPROC] ?s = Inr t"
    "lists_ok t ((\<lambda>r. [])(PFree := [0..<NPROC]))" "relinked ?s t"
    using addtail_all_ok [of ?s "\<lambda>r. []" "[0..<NPROC]" PFree] by (auto simp: unlinked_def)
  have L: "(\<lambda>r. [])(PFree := [0..<NPROC]) = boot_lists"
    by (auto simp: boot_lists_def fun_eq_iff)
  have heads: "pLists t r = None" if "r \<noteq> PFree" for r
    using t(2) that by (auto simp: lists_ok_def dest!: spec [of _ r])
  then have nop: "set_head r None t = t" if "r \<noteq> PFree" for r
    using that by (simp add: set_head_def fun_upd_idem)
  have "placed boot_lists (ptab t)"
    using relinked_fields [OF t(3)] z(3,4)
    by (simp add: placed_def boot_lists_def prio_ok_def home_def MAXP_def)
  then have inv: "pt_inv boot_lists t"
    using t(2) unfolding L by (simp add: pt_inv_def)
  have sm: "same_machine (acq s) t"
    using relinked_machine [OF t(3)] by (simp add: same_machine_def)
  have "relinked (pt_done s ?s) (pt_done s t)"
    by (rule pt_done_relinked [OF t(3)])
  moreover have "pt_done s ?s = (settled s)\<lparr>PromoteAtTime := ticks s + TICKS_TO_PROMOTE\<rparr>"
    by (simp add: pt_done_def acquired_def settled_def machine_defs)
  moreover have "init_lists s = Inr (pt_done s t)"
    using rdy t(1) pt_release [OF rdy sm]
    by (simp add: init_lists_def clear_heads z(2) nop ready_lists_def)
  ultimately show ?thesis
    using that inv by simp
qed

lemma reach_inv:
  assumes "reach kend vm s" "vm_switches vm" "vm_frees vm"
  shows "sys_inv s"
  using assms(1)
proof induction
  case (boot s t)
  obtain t' where t: "init_lists s = Inr t'" "pt_inv boot_lists t'"
    "relinked ((settled s)\<lparr>PromoteAtTime := ticks s + TICKS_TO_PROMOTE\<rparr>) t'"
    using init_lists_ok [OF boot(1)] by blast
  have z: "calm s" "\<And>c. cproc (cpus s c) = None" "\<And>p. state (ptab s p) = UNUSED"
    using boot(1) by (simp_all add: zeroed_def)
  have "sys_inv t'"
  proof (rule sys_invI [OF t(2)])
    show "calm t'"
      using z(1) relinked_globals(1,3) [OF t(3)] by (simp add: calm_def lock_free_def)
    show "runs_right (procs_on t') (ptab t')"
      using z relinked_globals(1) [OF t(3)] relinked_fields(1) [OF t(3)] by (simp add: runs_right_def)
    show "ctx_ok (ptab t' p)" for p
      using z(3) relinked_fields(1) [OF t(3), of p] by (simp add: ctx_ok_def)
  qed
  then show ?case
    using boot(2) t(1) by simp
next
  case (step s t)
  then show ?case
    using step_inv assms(2,3) by blast
qed

end
