(* ===== verification/ProcDemo.thy ===== *)
theory ProcDemo
  imports ProcReach
begin

text \<open>
  A concrete process system for the witnesses: CPU 0 runs process 0 (init); process 1
  sleeps on channel \<open>ProcAddr 0\<close>, process 2 is ready at priority 1, process 3 is a zombie;
  all three are children of 0.  The other slots are free and CPU 1 is idle.  The address-space
  functions do nothing.
\<close>

definition zero_tf :: trapframe where
  "zero_tf = \<lparr>tf_eax = 0, tf_esp = 0, tf_eip = 0, tf_cs = 0, tf_ds = 0, tf_es = 0, tf_ss = 0,
     tf_eflags = 0, tf_trapno = 0, tf_err = 0\<rparr>"

definition zero_proc :: proc where
  "zero_proc = \<lparr>sz = 0, pgdir = 0, kstack = 0, state = UNUSED, pid = 0, parent = None, tf = zero_tf,
     pcontext = NoCtx, pchan = NoChan, killed = False, ofile = (\<lambda>_. None), cwd = None, pname = [],
     start_ticks = 0, uid = 0, gid = 0, cpu_ticks_total = 0, cpu_ticks_in = 0, pnext = None,
     budget = 0, prio = 0\<rparr>"

definition demo_procs :: "nat \<Rightarrow> proc" where
  "demo_procs p =
     (if p = 0 then zero_proc\<lparr>state := RUNNING, pid := 1, pgdir := 0x80500000, budget := 5\<rparr>
      else if p = 1 then zero_proc\<lparr>state := SLEEPING, pid := 2, pgdir := 0x80501000,
        parent := Some 0, pchan := ProcAddr 0,
        pcontext := InSched True (FromSleep (ProcAddr 0) None), budget := 7\<rparr>
      else if p = 2 then zero_proc\<lparr>state := RUNNABLE, pid := 3, pgdir := 0x80502000,
        parent := Some 0, pcontext := AtForkret, prio := 1, budget := 7\<rparr>
      else if p = 3 then zero_proc\<lparr>state := ZOMBIE, pid := 4, pgdir := 0x80503000,
        kstack := 0x80504000, parent := Some 0, pcontext := InSched True FromExit\<rparr>
      else zero_proc\<lparr>pnext := (if p + 1 < NPROC then Some (p + 1) else None)\<rparr>)"

definition demo_cpus :: "nat \<Rightarrow> cpu" where
  "demo_cpus c = \<lparr>eflags_IF = True, ncli = 0, intena = False,
     cproc = (if c = 0 then Some 0 else None)\<rparr>"

definition demo_pt :: ptable where
  "demo_pt = \<lparr>cpus = demo_cpus, curcpu = 0,
     locks = (\<lambda>_. \<lparr>locked = False, lname = [], lcpu = None\<rparr>), use_lock = True, freelist = 0x80401000,
     pmem = (\<lambda>_. 0), ptab = demo_procs,
     pLists = (\<lambda>r. case r of PRunning \<Rightarrow> Some 0 | PSleep \<Rightarrow> Some 1
       | PReady i \<Rightarrow> if i = 1 then Some 2 else None | PZombie \<Rightarrow> Some 3 | PFree \<Rightarrow> Some 4
       | PEmbryo \<Rightarrow> None),
     PromoteAtTime = 100, initproc = Some 0, nextpid = 5, ticks = 100\<rparr>"

definition demo_lists :: "listhead \<Rightarrow> nat list" where
  "demo_lists r = (case r of PRunning \<Rightarrow> [0] | PSleep \<Rightarrow> [1]
     | PReady i \<Rightarrow> if i = 1 then [2] else [] | PZombie \<Rightarrow> [3] | PFree \<Rightarrow> [4..<NPROC]
     | PEmbryo \<Rightarrow> [])"

definition demo_vm :: "'s vmops" where
  "demo_vm = \<lparr>setupkvm = (\<lambda>s. Inr (0x80600000, s)), inituvm = (\<lambda>pd s. Inr s),
     copyuvm = (\<lambda>pd n s. Inr (0x80600000, s)), freevm = (\<lambda>pd s. Inr s),
     allocuvm = (\<lambda>pd a b s. Inr (b, s)), deallocuvm = (\<lambda>pd a b s. Inr (b, s)),
     switchuvm = (\<lambda>p s. Inr s), switchkvm = Inr\<rparr>"

lemma demo_vm_ok [simp]: "vm_switches demo_vm" "vm_frees demo_vm"
  by (simp_all add: vm_switches_def vm_frees_def demo_vm_def kmem_only_def)

lemma chain_upt:
  assumes "\<And>i. m \<le> i \<Longrightarrow> i < n \<Longrightarrow> f i = (if i + 1 < n then Some (i + 1) else None)" "m \<le> n"
  shows "chain f (if m < n then Some m else None) [m..<n]"
  using assms
proof (induction "n - m" arbitrary: m)
  case 0
  then show ?case by simp
next
  case (Suc k)
  then have m: "m < n" by simp
  have "chain f (if Suc m < n then Some (Suc m) else None) [Suc m..<n]"
    using Suc m by (intro Suc(1)) auto
  moreover have "f m = (if Suc m < n then Some (Suc m) else None)"
    using Suc(3) [of m] m by simp
  ultimately have "chain f (f m) [Suc m..<n]"
    by (simp only:)
  then show ?case
    using m by (simp add: upt_conv_Cons [of m n])
qed

lemma demo_free_chain: "chain (nexts demo_pt) (Some 4) [4..<NPROC]"
  using chain_upt [of 4 NPROC "nexts demo_pt"]
  by (auto simp: nexts_def demo_pt_def demo_procs_def NPROC_def)

lemma demo_inv: "pt_inv demo_lists demo_pt"
proof -
  have small: "pnext (demo_procs p) = None" if "p < 4" for p
    using that by (simp add: demo_procs_def zero_proc_def)
  have "chain (nexts demo_pt) (pLists demo_pt r) (demo_lists r)" for r
    using demo_free_chain small
    by (cases r) (simp_all add: demo_lists_def demo_pt_def nexts_def)
  moreover have "set (demo_lists r) \<inter> set (demo_lists r') = {}" if "r \<noteq> r'" for r r'
    using that by (cases r; cases r') (auto simp: demo_lists_def)
  moreover have "set (demo_lists r) \<subseteq> {..<NPROC}" for r
    by (cases r) (auto simp: demo_lists_def NPROC_def)
  ultimately have "lists_ok demo_pt demo_lists"
    by (simp add: lists_ok_def)
  moreover have "placed demo_lists (ptab demo_pt)"
  proof -
    have "prio_ok (demo_procs p) \<and> (\<forall>r. p \<in> set (demo_lists r) \<longleftrightarrow> r = home (demo_procs p))"
      if "p < NPROC" for p
    proof -
      consider "p = 0" | "p = 1" | "p = 2" | "p = 3" | "p \<ge> 4" by linarith
      then show ?thesis
        using that
        by cases (auto simp: demo_procs_def zero_proc_def prio_ok_def home_def demo_lists_def MAXP_def
          split: listhead.splits if_splits)
    qed
    then show ?thesis
      by (simp add: placed_def demo_pt_def)
  qed
  ultimately show ?thesis
    by (simp add: pt_inv_def)
qed

lemma demo_calm: "calm demo_pt"
  by (simp add: calm_def demo_pt_def lock_free_def demo_cpus_def)

lemma demo_ready: "pt_ready demo_pt" "kmem_ready demo_pt"
  by (rule calm_ready [OF demo_calm])+

lemma demo_sys: "sys_inv demo_pt"
proof (rule sys_invI [OF demo_inv demo_calm])
  show "runs_right (procs_on demo_pt) (ptab demo_pt)"
    by (auto simp: runs_right_def demo_pt_def demo_cpus_def demo_procs_def zero_proc_def NPROC_def
        split: if_splits)
  show "ctx_ok (ptab demo_pt p)" for p
    by (auto simp: demo_pt_def demo_procs_def zero_proc_def ctx_ok_def)
qed

lemma demo_runs: "runs 0 demo_pt"
  by (rule runs_right_runs [OF demo_calm])
     (use demo_sys in \<open>simp_all add: sys_inv_def demo_pt_def demo_cpus_def mycpu_def\<close>)

text \<open>The zeroed machine at boot, and what \<open>userinit\<close> makes of it.\<close>

definition demo_zero :: ptable where
  "demo_zero = demo_pt\<lparr>cpus := \<lambda>_. \<lparr>eflags_IF = False, ncli = 0, intena = False, cproc = None\<rparr>,
     ptab := \<lambda>_. zero_proc, pLists := \<lambda>_. None\<rparr>"

definition demo_boot :: ptable where
  "demo_boot = (case init_lists demo_zero of Inr t \<Rightarrow> t | Inl _ \<Rightarrow> demo_zero)"

lemma demo_zeroed: "zeroed demo_zero"
  by (simp add: zeroed_def demo_zero_def demo_pt_def calm_def lock_free_def zero_proc_def)

lemma demo_reach: "reach 0 demo_vm demo_boot"
proof -
  obtain t where t: "init_lists demo_zero = Inr t"
    using init_lists_ok [OF demo_zeroed] by blast
  then show ?thesis
    using reach.boot [OF demo_zeroed t] by (simp add: demo_boot_def)
qed

end
