(* ===== verification/ProcProps.thy ===== *)
theory ProcProps
  imports ProcDemo
begin

text \<open>
  The properties of the process system: what holds in every reachable state, and the
  result of the operations of proc.c on their branches.
\<close>

section \<open>Reachable states\<close>

text \<open>
  C1. In every reachable state the list heads and \<open>next\<close> pointers of \<open>ptable\<close> form
  acyclic lists, and every slot of the table is on exactly one of them: the one that its
  state names and, when it is ready, its priority, which is within 0 and MAX.
\<close>

theorem reach_lists_partition:
  assumes "reach kend vm s" "vm_switches vm" "vm_frees vm"
  shows "\<exists>L. (\<forall>r. chain (\<lambda>p. pnext (ptab s p)) (pLists s r) (L r)) \<and>
    (\<forall>p<NPROC. (\<forall>r. p \<in> set (L r) \<longleftrightarrow> r = home (ptab s p)) \<and>
       0 \<le> prio (ptab s p) \<and> prio (ptab s p) \<le> MAXP)"
proof -
  obtain L where "pt_inv L s"
    using reach_inv [OF assms] by (rule sys_invE)
  then show ?thesis
    by (intro exI [of _ L])
       (simp add: pt_inv_def lists_ok_def nexts_def placed_def prio_ok_def)
qed

theorem reach_lists_partition_witness:
  "reach 0 demo_vm demo_boot \<and>
   (\<exists>L. (\<forall>r. chain (\<lambda>p. pnext (ptab demo_boot p)) (pLists demo_boot r) (L r)) \<and>
    (\<forall>p<NPROC. (\<forall>r. p \<in> set (L r) \<longleftrightarrow> r = home (ptab demo_boot p)) \<and>
       0 \<le> prio (ptab demo_boot p) \<and> prio (ptab demo_boot p) \<le> MAXP))"
  using reach_lists_partition [OF demo_reach demo_vm_ok] demo_reach by blast

text \<open>
  C4. No process runs on two CPUs at once, and the processes marked \<open>RUNNING\<close> are exactly
  those that some CPU runs.
\<close>

theorem reach_one_cpu_each:
  assumes "reach kend vm s" "vm_switches vm" "vm_frees vm"
  shows "(\<forall>c d p. cproc (cpus s c) = Some p \<and> cproc (cpus s d) = Some p \<longrightarrow> c = d) \<and>
    (\<forall>p<NPROC. state (ptab s p) = RUNNING \<longleftrightarrow> (\<exists>c. cproc (cpus s c) = Some p))"
  using reach_inv [OF assms] unfolding sys_inv_def runs_right_def by blast

text \<open>
  C2. In a reachable state the operations that a running process asks for on its CPU run to
  their end and meet none of the panics of proc.c under \<open>ptable.lock\<close>: \<open>yield\<close>, \<open>sleep\<close>
  without a lock and with any lock the process took, and \<open>exit\<close> from the point where it takes
  \<open>ptable.lock\<close>, reach the scheduler, which gives the lock back; \<open>wakeup\<close>, \<open>kill\<close>,
  \<open>setpriority\<close> and \<open>allocproc\<close> return.  The check at the start of \<open>exit\<close>, which panics when
  init exits, comes before that point and is not part of the claim.
\<close>

theorem reach_operations_return:
  assumes "reach kend vm s" "vm_switches vm" "vm_frees vm" "cproc (cpus s c) = Some p"
  shows "(\<exists>t u. yield (on_cpu c s) = Inr t \<and> scheduler_back vm t = Inr u) \<and>
    (\<exists>t u. sleep ch None (on_cpu c s) = Inr t \<and> scheduler_back vm t = Inr u) \<and>
    (\<forall>l. l \<noteq> PtableLock \<longrightarrow> (\<exists>r t u. acquire l (on_cpu c s) = Inr r \<and>
       sleep ch (Some l) r = Inr t \<and> scheduler_back vm t = Inr u)) \<and>
    (\<exists>t u. exit_locked (on_cpu c s) = Inr t \<and> scheduler_back vm t = Inr u) \<and>
    (\<exists>t. wakeup ch (on_cpu c s) = Inr t) \<and>
    (\<exists>r t. kill n (on_cpu c s) = Inr (r, t)) \<and>
    (\<exists>r t. setpriority n j (on_cpu c s) = Inr (r, t)) \<and>
    (\<exists>q t. allocproc (on_cpu c s) = Inr (q, t))"
proof -
  have s: "sys_inv (on_cpu c s)" "cproc (mycpu (on_cpu c s)) = Some p"
    using reach_inv [OF assms(1-3)] assms(4) by simp_all
  show ?thesis
    using yield_inv [OF s assms(2)] sleep_inv [OF s assms(2), of ch]
      sleep_lock_inv [OF s assms(2), of _ ch] exit_inv [OF s assms(2)] wakeup_inv [OF s(1), of ch] kill_inv [OF s(1), of n]
      setpriority_inv [OF s(1), of n j] allocproc_inv [OF s(1)] by blast
qed

text \<open>
  A reachable state in which a process runs: after boot, slot 0 is allocated, given a page
  table, published, and dispatched.
\<close>

lemma demo_reach_inv: "reach 0 demo_vm (s :: ptable) \<Longrightarrow> sys_inv s"
  by (rule reach_inv [OF _ demo_vm_ok])

lemma demo_reach_alloc:
  "\<exists>s L. reach 0 demo_vm (s :: ptable) \<and> pt_inv L s \<and> 0 \<in> set (L PEmbryo) \<and>
     L PRunning = [] \<and> (\<forall>i. L (PReady i) = [])"
proof -
  obtain t0 where t0: "init_lists demo_zero = Inr t0" "pt_inv boot_lists t0"
    "relinked ((settled demo_zero)\<lparr>PromoteAtTime := ticks demo_zero + TICKS_TO_PROMOTE\<rparr>) t0"
    using init_lists_ok [OF demo_zeroed] by blast
  have r0: "reach 0 demo_vm t0"
    by (rule reach.boot [OF demo_zeroed t0(1)])
  let ?s0 = "on_cpu 0 t0"
  have i0: "pt_inv boot_lists ?s0" "calm ?s0"
    using t0(2) pt_inv_cong [of ?s0 t0] demo_reach_inv [OF r0]
    by (simp_all add: sys_inv_def calm_def lock_free_def)
  have fl: "freelist ?s0 \<noteq> 0"
    using relinked_globals(8) [OF t0(3)]
    by (simp add: on_cpu_def demo_zero_def demo_pt_def settled_def machine_defs)
  have free: "boot_lists PFree = 0 # [1..<NPROC]"
    by (simp add: boot_lists_def NPROC_def upt_rec)
  let ?L = "boot_lists(PFree := [1..<NPROC], PEmbryo := 0 # boot_lists PEmbryo)"
  obtain t1 where t1: "allocproc ?s0 = Inr (Some 0, t1)" "pt_inv ?L t1"
    using allocproc_some [OF i0(1) calm_ready(1,2) [OF i0(2)] free fl] by blast
  have "reach 0 demo_vm t1"
    by (rule reach.step [OF r0 step.alloc [OF t1(1)]])
  moreover have "0 \<in> set (?L PEmbryo)" "?L PRunning = []" "\<forall>i. ?L (PReady i) = []"
    by (simp_all add: boot_lists_def)
  ultimately show ?thesis
    using t1(2) by blast
qed

lemma demo_reach_ready:
  "\<exists>s L. reach 0 demo_vm (s :: ptable) \<and> pt_inv L s \<and> L (PReady 0) = [0] \<and>
     L PRunning = [] \<and> (\<forall>i. i \<noteq> 0 \<longrightarrow> L (PReady i) = []) \<and> pcontext (ptab s 0) = AtForkret"
proof -
  obtain t1 :: ptable and L where t1: "reach 0 demo_vm t1" "pt_inv L t1" "0 \<in> set (L PEmbryo)"
    "L PRunning = []" "\<forall>i. L (PReady i) = []"
    using demo_reach_alloc by blast
  have e1: "state (ptab t1 0) = EMBRYO"
    using inv_member(2) [OF t1(2,3)] by simp
  let ?f = "\<lambda>x :: proc. x\<lparr>pgdir := 0x80600000\<rparr>"
  let ?t2 = "upd_proc 0 ?f t1"
  have f: "fills ?f"
    by (simp add: fills_def)
  have r2: "reach 0 demo_vm ?t2"
    by (rule reach.step [OF t1(1) step.fill [OF _ _ f]]) (use e1 in \<open>simp_all add: NPROC_def\<close>)
  have i2: "pt_inv L ?t2"
    using inv_member(3) [OF t1(2,3)]
    by (intro sl.linv_upd [OF t1(2)]) (auto simp: prio_ok_def intro: home_cong)
  have e2: "state (ptab ?t2 0) = EMBRYO" "pgdir (ptab ?t2 0) \<noteq> 0"
    using e1 by simp_all
  have c2: "pcontext (ptab ?t2 0) = AtForkret" "prio (ptab ?t2 0) = 0" "calm ?t2"
    using demo_reach_inv [OF r2] e1 by (auto simp: sys_inv_def ctx_ok_def NPROC_def dest!: spec [of _ 0])
  let ?s2 = "on_cpu 0 ?t2"
  have s2: "pt_inv L ?s2" "pt_ready ?s2"
    using i2 pt_inv_cong [of ?s2 ?t2] c2(3) calm_ready(1) [of ?s2]
    by (simp_all add: calm_def lock_free_def)
  obtain t3 where t3: "fork_publish 0 ?s2 = Inr t3" "pt_inv (moved_tail PEmbryo (PReady 0) 0 L) t3"
    "relinked (set_state 0 RUNNABLE (settled ?s2)) t3"
    using fork_publish_ok [OF s2 t1(3)] c2(2) by auto
  have "reach 0 demo_vm t3"
    by (rule reach.step [OF r2 step.publish [OF _ e2 t3(1)]]) (simp add: NPROC_def)
  moreover have "pcontext (ptab t3 0) = AtForkret"
    using relinked_fields(10) [OF t3(3), of 0] c2(1) by (simp add: set_state_def)
  moreover have "moved_tail PEmbryo (PReady 0) 0 L (PReady 0) = [0]"
    "moved_tail PEmbryo (PReady 0) 0 L PRunning = []"
    "\<forall>i. i \<noteq> 0 \<longrightarrow> moved_tail PEmbryo (PReady 0) 0 L (PReady i) = []"
    using t1(4,5) by (simp_all add: moved_tail_def Let_def)
  ultimately show ?thesis
    using t3(2) by blast
qed

lemma demo_reach_running: "\<exists>s. reach 0 demo_vm (s :: ptable) \<and> cproc (cpus s 0) = Some 0"
proof -
  obtain s :: ptable and L where s: "reach 0 demo_vm s" "pt_inv L s" "L (PReady 0) = [0]"
    "L PRunning = []" "\<forall>i. i \<noteq> 0 \<longrightarrow> L (PReady i) = []" "pcontext (ptab s 0) = AtForkret"
    using demo_reach_ready by blast
  note inv = demo_reach_inv [OF s(1)]
  have cl: "calm s" and idle: "cproc (cpus s 0) = None"
    and pg: "\<And>p. p < NPROC \<Longrightarrow> state (ptab s p) = RUNNABLE \<Longrightarrow> pgdir (ptab s p) \<noteq> 0"
    using inv s(4) mem_iff [OF s(2), of _ PRunning]
    by (auto simp: sys_inv_def ctx_ok_def runs_right_def intro: ccontr)
  let ?s = "on_cpu 0 s"
  have rdy: "pt_ready ?s" "ncli (mycpu ?s) = 0" and i: "pt_inv L ?s"
    using cl calm_ready(1) [of ?s] s(2) pt_inv_cong [of ?s s]
    by (simp_all add: calm_def lock_free_def)
  have "promo_lists ?s L (PReady 0) = [0]"
    using s(3,5) by (simp add: promo_lists_def promoted_lists_def)
  then have c: "choice [0, 1, 2, 3, 4, 5] (promo_lists ?s L) = Some (0, 0)"
    by simp
  let ?B = "set_proc (Some 0) (with_if True ?s)"
  obtain t where t: "scheduler_iter demo_vm ?s = Inr (Some 0, t)" "held 0 ?B t"
    "relinked (upd_proc 0 (dispatched (ticks ?s))
       (set_proc (Some 0) (after_promo (acq (with_if True ?s))))) t"
    using scheduler_iter_ok [OF i rdy demo_vm_ok(1)] pg c by auto
  have "pcontext (ptab t 0) = AtForkret"
    using relinked_fields(10) [OF t(3), of 0] s(6) by (simp add: dispatched_def)
  then have "resume 0 demo_vm 0 t = Inr (pt_done ?B t)"
    using held_release [OF t(2)] by (simp add: resume_def)
  then have "reach 0 demo_vm (pt_done ?B t)"
    by (rule reach.step [OF s(1) step.dispatch [where c = 0, OF idle t(1)]])
  moreover have "cproc (cpus (pt_done ?B t) 0) = Some 0"
    by simp
  ultimately show ?thesis by blast
qed

theorem reach_one_cpu_each_witness:
  "\<exists>s :: ptable. reach 0 demo_vm s \<and> cproc (cpus s 0) = Some 0 \<and> cproc (cpus s 1) \<noteq> Some 0 \<and>
    state (ptab s 0) = RUNNING"
proof -
  obtain s :: ptable where s: "reach 0 demo_vm s" "cproc (cpus s 0) = Some 0"
    using demo_reach_running by blast
  note o = reach_one_cpu_each [OF s(1) demo_vm_ok]
  have "cproc (cpus s 1) \<noteq> Some 0"
    using conjunct1 [OF o, rule_format, of 0 0 1] s(2) by auto
  moreover have "state (ptab s 0) = RUNNING"
    using conjunct2 [OF o, rule_format, of 0] s(2) by (auto simp: NPROC_def)
  ultimately show ?thesis
    using s by blast
qed

theorem reach_operations_return_witness:
  "\<exists>s :: ptable. reach 0 demo_vm s \<and>
    (\<exists>t u. yield (on_cpu 0 s) = Inr t \<and> scheduler_back demo_vm t = Inr u) \<and>
    (\<exists>t u. sleep TicksAddr None (on_cpu 0 s) = Inr t \<and> scheduler_back demo_vm t = Inr u) \<and>
    (\<exists>r t u. acquire ConsLock (on_cpu 0 s) = Inr r \<and> sleep TicksAddr (Some ConsLock) r = Inr t \<and>
       scheduler_back demo_vm t = Inr u) \<and>
    (\<exists>t u. exit_locked (on_cpu 0 s) = Inr t \<and> scheduler_back demo_vm t = Inr u)"
proof -
  obtain s :: ptable where s: "reach 0 demo_vm s" "cproc (cpus s 0) = Some 0"
    using demo_reach_running by blast
  show ?thesis
    using reach_operations_return [OF s(1) demo_vm_ok s(2), of TicksAddr] s(1) by blast
qed

text \<open>
  C3. In a reachable state the scheduler iteration of an idle CPU returns.  The process it
  switches to was ready before, and stands at \<open>forkret\<close>, in \<open>yield\<close> or in \<open>sleep\<close>: never in
  \<open>exit\<close>, whose \<open>panic("zombie exit")\<close> is therefore unreachable.
\<close>

theorem reach_dispatch_safe:
  assumes "reach kend vm s" "vm_switches vm" "vm_frees vm" "cproc (cpus s c) = None"
  shows "\<exists>q t. scheduler_iter vm (on_cpu c s) = Inr (q, t) \<and>
    (\<forall>p. q = Some p \<longrightarrow> p < NPROC \<and> state (ptab s p) = RUNNABLE \<and> state (ptab t p) = RUNNING \<and>
       (pcontext (ptab t p) = AtForkret \<or>
        (\<exists>ie w. pcontext (ptab t p) = InSched ie w \<and> w \<noteq> FromExit)))"
proof -
  have s: "sys_inv (on_cpu c s)" "cproc (mycpu (on_cpu c s)) = None"
    using reach_inv [OF assms(1-3)] assms(4) by simp_all
  show ?thesis
  proof (rule scheduler_inv [OF s assms(2)])
    fix p t b
    assume t: "scheduler_iter vm (on_cpu c s) = Inr (Some p, t)" "held p b t" "sys_inv (pt_done b t)"
      "p < NPROC" "state (ptab (on_cpu c s) p) = RUNNABLE"
      "pcontext (ptab t p) = pcontext (ptab (on_cpu c s) p)"
    have "ctx_ok (ptab s p)"
      using s(1) t(4) by (simp add: sys_inv_def)
    then show ?thesis
      using t held_facts(2) [OF t(2,3)] by (auto simp: ctx_ok_def)
  qed auto
qed

theorem reach_dispatch_safe_witness:
  "\<exists>s :: ptable. reach 0 demo_vm s \<and> state (ptab s 0) = RUNNABLE \<and>
    (\<exists>q t. scheduler_iter demo_vm (on_cpu 1 s) = Inr (q, t) \<and>
      (\<forall>p. q = Some p \<longrightarrow> p < NPROC \<and> state (ptab s p) = RUNNABLE \<and> state (ptab t p) = RUNNING \<and>
         (pcontext (ptab t p) = AtForkret \<or>
          (\<exists>ie w. pcontext (ptab t p) = InSched ie w \<and> w \<noteq> FromExit))))"
proof -
  obtain s :: ptable and L where s: "reach 0 demo_vm s" "pt_inv L s" "L (PReady 0) = [0]" "L PRunning = []"
    using demo_reach_ready by blast
  have "state (ptab s 0) = RUNNABLE"
    using inv_member(2) [OF s(2), of 0 "PReady 0"] s(3) by simp
  moreover have "cproc (cpus s 1) = None"
    using demo_reach_inv [OF s(1)] s(4) mem_iff [OF s(2), of _ PRunning]
    by (auto simp: sys_inv_def runs_right_def intro: ccontr)
  ultimately show ?thesis
    using reach_dispatch_safe [OF s(1) demo_vm_ok, of 1] s(1) by blast
qed

end
