(* ===== verification/ProcResults.thy ===== *)
theory ProcResults
  imports ProcDemo
begin

text \<open>
  The results of single operations of proc.c on every branch: the scheduler's choice,
  promotion, \<open>yield\<close> and the budget, \<open>sleep\<close> with a lock, \<open>exit\<close>, \<open>wait\<close>, \<open>allocproc\<close>,
  \<open>kill\<close> and \<open>setpriority\<close>.
\<close>

text \<open>
  C8. When promotion is due, every sleeping, running and ready process above priority 0
  moves up exactly one level, the ready lists shift down by one with list 1 appended to
  list 0, no other list and no other field changes, and the next promotion is set.
\<close>

theorem promote_shifts_all:
  assumes "pt_inv L s" "PromoteAtTime s \<le> ticks s"
  shows "\<exists>t. promote s = Inr t \<and> pt_inv (promoted_lists L) t \<and>
    PromoteAtTime t = ticks s + TICKS_TO_PROMOTE \<and>
    (\<forall>p<NPROC. state (ptab t p) = state (ptab s p) \<and> budget (ptab t p) = budget (ptab s p) \<and>
       prio (ptab t p) =
         (if state (ptab s p) \<in> {SLEEPING, RUNNING, RUNNABLE} \<and> 0 < prio (ptab s p)
          then prio (ptab s p) - 1 else prio (ptab s p)))"
proof -
  obtain t where t: "promote s = Inr (t\<lparr>PromoteAtTime := ticks s + TICKS_TO_PROMOTE\<rparr>)"
    "pt_inv (promoted_lists L) t" "relinked (promoted s) t"
    using promote_ok [OF assms] by blast
  let ?t = "t\<lparr>PromoteAtTime := ticks s + TICKS_TO_PROMOTE\<rparr>"
  have "pt_inv (promoted_lists L) ?t"
    using t(2) pt_inv_cong [of ?t t] by simp
  then show ?thesis
    using t(1) relinked_fields [OF t(3)] by (auto simp: promoted_def promote1_def)
qed

theorem promote_shifts_all_witness:
  "\<exists>t. promote demo_pt = Inr t \<and> pt_inv (promoted_lists demo_lists) t \<and>
    promoted_lists demo_lists (PReady 0) = [2] \<and> prio (ptab t 2) = 0 \<and> prio (ptab t 1) = 0"
proof -
  have "PromoteAtTime demo_pt \<le> ticks demo_pt"
    by (simp add: demo_pt_def)
  from promote_shifts_all [OF demo_inv this] obtain t where
    t: "promote demo_pt = Inr t" "pt_inv (promoted_lists demo_lists) t"
      "\<forall>p<NPROC. prio (ptab t p) =
         (if state (ptab demo_pt p) \<in> {SLEEPING, RUNNING, RUNNABLE} \<and> 0 < prio (ptab demo_pt p)
          then prio (ptab demo_pt p) - 1 else prio (ptab demo_pt p))"
    by blast
  have "prio (ptab t 2) = 0" "prio (ptab t 1) = 0"
    using t(3) by (simp_all add: NPROC_def demo_pt_def demo_procs_def zero_proc_def)
  with t show ?thesis
    by (simp add: promoted_lists_def demo_lists_def)
qed

text \<open>
  C7. One scheduler iteration first promotes if that is due, and then runs the head of the
  lowest-numbered ready list that is not empty; only when all are empty does it run nothing.
\<close>

theorem scheduler_runs_best:
  assumes "pt_inv L s" "pt_ready s" "ncli (mycpu s) = 0" "vm_switches vm"
    "\<And>p. p < NPROC \<Longrightarrow> state (ptab s p) = RUNNABLE \<Longrightarrow> pgdir (ptab s p) \<noteq> 0"
    "0 \<le> i" "i \<le> MAXP" "\<forall>j. 0 \<le> j \<and> j < i \<longrightarrow> promo_lists s L (PReady j) = []"
    "promo_lists s L (PReady i) = p # ps"
  shows "\<exists>t. scheduler_iter vm s = Inr (Some p, t) \<and>
    pt_inv ((promo_lists s L)(PReady i := ps, PRunning := p # L PRunning)) t \<and>
    state (ptab t p) = RUNNING \<and> cpu_ticks_in (ptab t p) = ticks s \<and> cproc (mycpu t) = Some p"
proof -
  let ?L = "promo_lists s L"
  have "i \<in> {0, 1, 2, 3, 4, 5}"
    using assms(6,7) by (auto simp: MAXP_def)
  then have "choice [0, 1, 2, 3, 4, 5] ?L = Some (i, p)"
    using assms(8,9) by (elim insertE emptyE) simp_all
  then obtain t where t: "scheduler_iter vm s = Inr (Some p, t)"
    "pt_inv (moved_head (PReady i) PRunning p ?L) t"
    "held p (set_proc (Some p) (with_if True s)) t"
    "relinked (upd_proc p (dispatched (ticks s))
       (set_proc (Some p) (after_promo (acq (with_if True s))))) t"
    using scheduler_iter_ok [OF assms(1-5)] by auto
  have "moved_head (PReady i) PRunning p ?L = ?L(PReady i := ps, PRunning := p # L PRunning)"
    using assms(9) by (auto simp: moved_head_def Let_def promo_lists_def promoted_lists_def)
  then show ?thesis
    using t relinked_fields(1,11) [OF t(4), of p] held_proc [OF t(3)] by (auto simp: dispatched_def)
qed

theorem scheduler_runs_best_witness:
  "\<exists>t. scheduler_iter demo_vm (on_cpu 1 demo_pt) = Inr (Some 2, t) \<and> state (ptab t 2) = RUNNING \<and>
    cproc (mycpu t) = Some 2"
proof -
  let ?s = "on_cpu 1 demo_pt"
  have s: "pt_inv demo_lists ?s" "pt_ready ?s" "ncli (mycpu ?s) = 0"
    using demo_inv pt_inv_cong [of ?s demo_pt] calm_ready(1) [of ?s] demo_calm
    by (simp_all add: calm_def lock_free_def)
  have pg: "pgdir (ptab ?s p) \<noteq> 0" if "state (ptab ?s p) = RUNNABLE" for p
    using that by (simp add: demo_pt_def demo_procs_def zero_proc_def split: if_splits)
  have "promo_lists ?s demo_lists (PReady 0) = 2 # []"
    by (simp add: promo_lists_def promoted_lists_def demo_lists_def)
       (simp add: on_cpu_def demo_pt_def)
  then have "\<exists>t. scheduler_iter demo_vm ?s = Inr (Some 2, t) \<and>
    pt_inv ((promo_lists ?s demo_lists)(PReady 0 := [], PRunning := 2 # demo_lists PRunning)) t \<and>
    state (ptab t 2) = RUNNING \<and> cpu_ticks_in (ptab t 2) = ticks ?s \<and> cproc (mycpu t) = Some 2"
    by (intro scheduler_runs_best [OF s demo_vm_ok(1) pg]) (auto simp: MAXP_def)
  then show ?thesis by blast
qed

lemma charged:
  "prio x \<le> MAXP \<Longrightarrow> prio (charge now x) =
     (if sint (budget x - (now - cpu_ticks_in x)) \<le> 0 \<and> prio x < MAXP then prio x + 1 else prio x)"
  "budget (charge now x) = (if sint (budget x - (now - cpu_ticks_in x)) \<le> 0 then BUDGET
     else budget x - (now - cpu_ticks_in x))"
  by (simp_all add: charge_def Let_def)

text \<open>
  C9. \<open>yield\<close> charges the process for the ticks it ran (as a signed 32-bit budget).  While
  budget remains it goes to the tail of the ready list of its priority; once it is used
  up, one level down (but not below MAX), with a full budget.  The CPU time since its
  dispatch is added to its total.
\<close>

theorem yield_charges_budget:
  assumes "pt_inv L s" "runs p s"
  shows "\<exists>t. yield s = Inr t \<and>
    (let x = ptab s p; used = ticks s - cpu_ticks_in x;
         spent = (sint (budget x - used) \<le> 0);
         i = (if spent \<and> prio x < MAXP then prio x + 1 else prio x)
     in pt_inv ((L(PRunning := remove1 p (L PRunning)))(PReady i := L (PReady i) @ [p])) t \<and>
        state (ptab t p) = RUNNABLE \<and> prio (ptab t p) = i \<and>
        budget (ptab t p) = (if spent then BUDGET else budget x - used))"
proof -
  obtain t where t: "yield s = Inr t"
    "pt_inv (moved_tail PRunning (PReady (prio (charge (ticks s) (ptab s p)))) p L) t"
    "relinked (upd_proc p (yielded (ticks s) (eflags_IF (mycpu s))) (acq s)) t"
    using yield_ok [OF assms] by blast
  have m: "prio (ptab s p) \<le> MAXP"
    using assms by (simp add: pt_inv_def placed_def prio_ok_def runs_def)
  note f = relinked_fields(1,2,8) [OF t(3), of p]
  show ?thesis
    using t(1,2) f m by (simp add: yielded_def switch_out_def charged moved_tail_def Let_def)
qed

theorem yield_charges_budget_witness:
  "\<exists>t. yield demo_pt = Inr t \<and> state (ptab t 0) = RUNNABLE \<and> prio (ptab t 0) = 1 \<and>
    budget (ptab t 0) = BUDGET"
proof -
  have x: "budget (ptab demo_pt 0) - (ticks demo_pt - cpu_ticks_in (ptab demo_pt 0)) = -95"
    "prio (ptab demo_pt 0) = 0"
    by (simp_all add: demo_pt_def demo_procs_def zero_proc_def)
  have neg: "sint (-95 :: uint) \<le> 0"
    by simp
  show ?thesis
    using yield_charges_budget [OF demo_inv demo_runs] x neg by (auto simp: Let_def MAXP_def)
qed

section \<open>exit and wait\<close>

lemma orphaned_sel:
  "p < NPROC \<Longrightarrow> parent (orphaned me s p x) =
     (if state x \<noteq> UNUSED \<and> parent x = Some me then initproc s else parent x)"
  "p < NPROC \<Longrightarrow> state (orphaned me s p x) =
     (if state x = SLEEPING \<and> (pchan x = chan_of (parent (ptab s me)) \<or>
         zombie_kid me s \<and> pchan x = chan_of (initproc s)) then RUNNABLE else state x)"
  by (auto simp: orphaned_def reparent_def wake_def Let_def)

text \<open>
  C11. \<open>exit\<close> makes the caller a zombie, hands all its children to init and changes no other
  parent; it makes ready exactly the processes that sleep on the caller's parent and, when a
  child is already a zombie, those that sleep on init.
\<close>

theorem exit_hands_over_children:
  assumes "pt_inv L s" "runs me s"
  shows "\<exists>t L'. exit_locked s = Inr t \<and> pt_inv L' t \<and> state (ptab t me) = ZOMBIE \<and>
    (\<forall>p<NPROC. parent (ptab t p) =
       (if state (ptab s p) \<noteq> UNUSED \<and> parent (ptab s p) = Some me then initproc s
        else parent (ptab s p))) \<and>
    (\<forall>p<NPROC. p \<noteq> me \<longrightarrow> state (ptab t p) =
       (if state (ptab s p) = SLEEPING \<and> (pchan (ptab s p) = chan_of (parent (ptab s me)) \<or>
          zombie_kid me s \<and> pchan (ptab s p) = chan_of (initproc s))
        then RUNNABLE else state (ptab s p)))"
proof -
  obtain t L' where t: "exit_locked s = Inr t" "pt_inv L' t"
    "relinked (upd_proc me (exited (ticks s) (eflags_IF (mycpu s)))
       (map_tab (orphaned me s) (acq s))) t"
    using exit_locked_ok [OF assms] by blast
  note f = relinked_fields(1,5) [OF t(3)]
  have e: "state (exited now ie x) = ZOMBIE" "parent (exited now ie x) = parent x" for now ie x
    by (simp_all add: exited_def switch_out_def)
  have "parent (ptab t p) =
       (if state (ptab s p) \<noteq> UNUSED \<and> parent (ptab s p) = Some me then initproc s
        else parent (ptab s p))" if "p < NPROC" for p
    using f(2) [of p] that by (auto simp: e orphaned_sel(1))
  moreover have "state (ptab t p) =
       (if state (ptab s p) = SLEEPING \<and> (pchan (ptab s p) = chan_of (parent (ptab s me)) \<or>
          zombie_kid me s \<and> pchan (ptab s p) = chan_of (initproc s))
        then RUNNABLE else state (ptab s p))" if "p < NPROC" "p \<noteq> me" for p
    using f(1) [of p] that by (simp add: orphaned_sel(2))
  moreover have "state (ptab t me) = ZOMBIE"
    using f(1) [of me] by (simp add: e)
  ultimately show ?thesis
    using t(1,2) by blast
qed

definition demo_exit :: ptable where
  "demo_exit = (upd_proc 1 (\<lambda>x. x\<lparr>pchan := ProcAddr 1\<rparr>) demo_pt)\<lparr>initproc := Some 1\<rparr>"

lemma demo_exit_ok: "pt_inv demo_lists demo_exit" "runs 0 demo_exit"
proof -
  have "prio_ok (demo_procs 1)"
    by (simp add: demo_procs_def zero_proc_def prio_ok_def MAXP_def)
  then have "pt_inv demo_lists (upd_proc 1 (\<lambda>x. x\<lparr>pchan := ProcAddr 1\<rparr>) demo_pt)"
    by (intro sl.linv_upd [OF demo_inv]) (auto simp: prio_ok_def demo_pt_def intro: home_cong)
  then show "pt_inv demo_lists demo_exit"
    unfolding demo_exit_def by (subst pt_inv_cong) auto
  show "runs 0 demo_exit"
    using demo_runs by (simp add: runs_def demo_exit_def pt_ready_def lock_free_def cpu_ok_def mycpu_def)
qed

theorem exit_hands_over_children_witness:
  "\<exists>t. exit_locked demo_exit = Inr t \<and> state (ptab t 0) = ZOMBIE \<and> state (ptab demo_exit 1) = SLEEPING \<and>
    state (ptab t 1) = RUNNABLE \<and> parent (ptab demo_exit 2) = Some 0 \<and> parent (ptab t 2) = Some 1"
proof -
  let ?s = demo_exit
  have d: "initproc ?s = Some 1" "state (ptab ?s 1) = SLEEPING"
    "pchan (ptab ?s 1) = ProcAddr 1" "state (ptab ?s 2) = RUNNABLE" "parent (ptab ?s 2) = Some 0"
    "state (ptab ?s 3) = ZOMBIE" "parent (ptab ?s 3) = Some 0"
    by (simp_all add: demo_exit_def demo_pt_def demo_procs_def zero_proc_def)
  have z: "zombie_kid 0 ?s"
    unfolding zombie_kid_def using d(6,7) by (intro exI [of _ 3]) (simp add: NPROC_def)
  obtain t where t: "exit_locked ?s = Inr t" "state (ptab t 0) = ZOMBIE"
    "\<forall>p<NPROC. parent (ptab t p) =
       (if state (ptab ?s p) \<noteq> UNUSED \<and> parent (ptab ?s p) = Some 0 then initproc ?s else parent (ptab ?s p))"
    "\<forall>p<NPROC. p \<noteq> 0 \<longrightarrow> state (ptab t p) =
       (if state (ptab ?s p) = SLEEPING \<and> (pchan (ptab ?s p) = chan_of (parent (ptab ?s 0)) \<or>
           zombie_kid 0 ?s \<and> pchan (ptab ?s p) = chan_of (initproc ?s))
        then RUNNABLE else state (ptab ?s p))"
    using exit_hands_over_children [OF demo_exit_ok] by blast
  have "state (ptab t 1) = RUNNABLE"
    using t(4) [rule_format, of 1] d z by (simp add: NPROC_def chan_of_def)
  moreover have "parent (ptab t 2) = Some 1"
    using t(3) [rule_format, of 2] d by (simp add: NPROC_def)
  ultimately show ?thesis
    using t(1,2) d by blast
qed




section \<open>allocproc, kill and setpriority\<close>

text \<open>
  C13. \<open>allocproc\<close> on its three branches.  No free slot: it returns 0 and nothing changes.  No
  page for the kernel stack: it returns 0 and the slot is back at the head of the free list.
  Otherwise it returns the first free slot as an embryo with the next pid, the page as kernel
  stack, a full budget and priority 0.
\<close>

theorem allocproc_result:
  assumes "pt_inv L s" "pt_ready s" "kmem_ready s"
  shows "case L PFree of
      [] \<Rightarrow> allocproc s = Inr (None, settled s)
    | p # ps \<Rightarrow>
        if freelist s = 0
        then \<exists>t. allocproc s = Inr (None, t) \<and> pt_inv L t \<and> nextpid t = nextpid s + 1
        else \<exists>t. allocproc s = Inr (Some p, t) \<and>
          pt_inv (L(PFree := ps, PEmbryo := p # L PEmbryo)) t \<and> nextpid t = nextpid s + 1 \<and>
          forget (ptab t) =
            forget ((ptab s)(p := born (nextpid s) (freelist s) (ticks s) (ptab s p)))"
proof (cases "L PFree")
  case Nil
  then show ?thesis
    using allocproc_none [OF assms(1,2)] by simp
next
  case (Cons p ps)
  show ?thesis
  proof (cases "freelist s = 0")
    case True
    obtain t where "allocproc s = Inr (None, t)" "pt_inv L t" "nextpid t = nextpid s + 1"
      using allocproc_no_stack [OF assms Cons True] by blast
    then show ?thesis
      using True Cons by simp
  next
    case False
    obtain t where "allocproc s = Inr (Some p, t)"
      "pt_inv (L(PFree := ps, PEmbryo := p # L PEmbryo)) t" "nextpid t = nextpid s + 1"
      "forget (ptab t) =
        forget ((ptab s)(p := born (nextpid s) (freelist s) (ticks s) (ptab s p)))"
      using allocproc_some [OF assms Cons False] by blast
    then show ?thesis
      using False Cons by (simp del: fun_upd_apply)
  qed
qed

theorem allocproc_result_witness:
  "\<exists>t. allocproc demo_pt = Inr (Some 4, t) \<and> nextpid t = 6 \<and> state (ptab t 4) = EMBRYO"
proof -
  have d: "demo_lists PFree = 4 # [5..<NPROC]" "freelist demo_pt \<noteq> 0" "nextpid demo_pt = 5"
    by (simp_all add: demo_lists_def NPROC_def upt_rec demo_pt_def)
  obtain t where t: "allocproc demo_pt = Inr (Some 4, t)" "nextpid t = nextpid demo_pt + 1"
    "forget (ptab t) = forget ((ptab demo_pt)(4 := born (nextpid demo_pt) (freelist demo_pt)
       (ticks demo_pt) (ptab demo_pt 4)))"
    using allocproc_result [OF demo_inv demo_ready] d(1,2) by auto
  have "state (ptab t 4) = EMBRYO"
    using forget_fields(1) [OF t(3), of 4] by (simp add: born_def)
  with t(1,2) d(3) show ?thesis by simp
qed

text \<open>
  C14. \<open>kill(pid)\<close> looks through the sleep, running, embryo and ready lists, in this order.
  If no process there has the pid it returns -1 and changes nothing; otherwise it returns 0,
  sets \<open>killed\<close> of the first one found and, if that slept, makes it ready at the tail of the
  list of its priority.
\<close>

theorem kill_result:
  assumes "pt_inv L s" "pt_ready s"
  shows "case find (\<lambda>p. pid (ptab s p) = n) (kill_order L) of
      None \<Rightarrow> kill n s = Inr (-1, settled s)
    | Some p \<Rightarrow> \<exists>t. kill n s = Inr (0, t) \<and> killed (ptab t p) \<and>
        state (ptab t p) = (if state (ptab s p) = SLEEPING then RUNNABLE else state (ptab s p)) \<and>
        (\<forall>q. q \<noteq> p \<longrightarrow> killed (ptab t q) = killed (ptab s q) \<and>
           state (ptab t q) = state (ptab s q)) \<and>
        pt_inv (if state (ptab s p) = SLEEPING
                then moved_tail PSleep (PReady (prio (ptab s p))) p L else L) t"
proof -
  note k = kill_ok [OF assms, of n]
  show ?thesis
  proof (cases "find (\<lambda>p. pid (ptab s p) = n) (kill_order L)")
    case None
    then show ?thesis
      using k by simp
  next
    case (Some p)
    then obtain t where t: "kill n s = Inr (0, t)" "relinked (upd_proc p killed_wake (settled s)) t"
      "pt_inv (if state (ptab s p) = SLEEPING
         then moved_tail PSleep (PReady (prio (ptab s p))) p L else L) t"
      using k by auto
    have "killed (ptab t q) = (if q = p then True else killed (ptab s q))"
      "state (ptab t q) = (if q = p \<and> state (ptab s p) = SLEEPING then RUNNABLE
         else state (ptab s q))" for q
      using relinked_fields(1,9) [OF t(2), of q] by (auto simp: killed_wake_def)
    then show ?thesis
      using t(1,3) Some by simp
  qed
qed

theorem kill_result_witness:
  "(\<exists>t. kill 2 demo_pt = Inr (0, t) \<and> killed (ptab t 1) \<and> state (ptab t 1) = RUNNABLE) \<and>
   kill 9 demo_pt = Inr (-1, settled demo_pt)"
proof -
  have o2: "find (\<lambda>p. pid (ptab demo_pt p) = 2) (kill_order demo_lists) = Some 1"
    "find (\<lambda>p. pid (ptab demo_pt p) = 9) (kill_order demo_lists) = None"
    "state (ptab demo_pt 1) = SLEEPING"
    by (simp_all add: kill_order_def demo_lists_def ready_lists_def demo_pt_def demo_procs_def
        zero_proc_def)
  show ?thesis
    using kill_result [OF demo_inv demo_ready(1), of 2] kill_result [OF demo_inv demo_ready(1), of 9] o2
    by auto
qed

text \<open>
  C15. \<open>setpriority(pid, priority)\<close> returns -1 for a priority outside 0..MAX, a negative pid,
  or a pid that no sleeping, running or ready process has (embryos and zombies are not
  searched).  Otherwise it returns 0 and the first such process has the priority, a full budget
  and, if it is ready and its priority changed, the tail of the new list.
\<close>

theorem setpriority_result:
  assumes "pt_inv L s" "pt_ready s"
  shows "if j > MAXP \<or> j < 0 \<or> sint n < 0 then setpriority n j s = Inr (-1, s)
    else case find (\<lambda>p. pid (ptab s p) = n) (setprio_order L) of
      None \<Rightarrow> setpriority n j s = Inr (-1, settled s)
    | Some p \<Rightarrow> \<exists>t. setpriority n j s = Inr (0, t) \<and> prio (ptab t p) = j \<and>
        budget (ptab t p) = BUDGET \<and> state (ptab t p) = state (ptab s p) \<and>
        pt_inv (if state (ptab s p) = RUNNABLE \<and> prio (ptab s p) \<noteq> j
                then moved_tail (PReady (prio (ptab s p))) (PReady j) p L else L) t"
proof (cases "j > MAXP \<or> j < 0 \<or> sint n < 0")
  case True
  then show ?thesis
    using setpriority_rejects by simp
next
  case False
  have k: "case find (\<lambda>p. pid (ptab s p) = n) (setprio_order L) of
      None \<Rightarrow> setpriority n j s = Inr (-1, settled s)
    | Some p \<Rightarrow> \<exists>t. setpriority n j s = Inr (0, t) \<and>
        relinked (upd_proc p (set_prio j) (settled s)) t \<and>
        pt_inv (if state (ptab s p) = RUNNABLE \<and> prio (ptab s p) \<noteq> j
                then moved_tail (PReady (prio (ptab s p))) (PReady j) p L else L) t"
    using False by (intro setpriority_ok [OF assms]) auto
  show ?thesis
  proof (cases "find (\<lambda>p. pid (ptab s p) = n) (setprio_order L)")
    case None
    then show ?thesis
      using k False by simp
  next
    case (Some p)
    then obtain t where t: "setpriority n j s = Inr (0, t)"
      "relinked (upd_proc p (set_prio j) (settled s)) t"
      "pt_inv (if state (ptab s p) = RUNNABLE \<and> prio (ptab s p) \<noteq> j
         then moved_tail (PReady (prio (ptab s p))) (PReady j) p L else L) t"
      using k by auto
    then show ?thesis
      using Some False relinked_fields(1,2,8) [OF t(2), of p] by (simp add: set_prio_def)
  qed
qed

theorem setpriority_result_witness:
  "setpriority 3 6 demo_pt = Inr (-1, demo_pt) \<and>
   (\<exists>t. setpriority 3 4 demo_pt = Inr (0, t) \<and> prio (ptab t 2) = 4 \<and>
      pt_inv (moved_tail (PReady 1) (PReady 4) 2 demo_lists) t)"
proof -
  have o3: "find (\<lambda>p. pid (ptab demo_pt p) = 3) (setprio_order demo_lists) = Some 2"
    "state (ptab demo_pt 2) = RUNNABLE" "prio (ptab demo_pt 2) = 1"
    by (simp_all add: setprio_order_def demo_lists_def ready_lists_def demo_pt_def demo_procs_def
        zero_proc_def)
  show ?thesis
    using setpriority_result [OF demo_inv demo_ready(1), of 6 3]
      setpriority_result [OF demo_inv demo_ready(1), of 4 3] o3
    by (auto simp: MAXP_def)
qed

end
