(* ===== verification/SleepWake.thy ===== *)
theory SleepWake
  imports ProcProps
begin

text \<open>
  \<open>sleep\<close> against \<open>wakeup\<close> on another CPU.  The sections of \<open>sleep\<close>, with the scheduler's side of
  the switch after them, run on one CPU; on another runs a process that takes the sleeper's lock,
  calls \<open>wakeup\<close> on its channel and gives the lock back.  The two are interleaved at every
  boundary between sections, a CPU that finds a lock taken waiting for it.
\<close>

section \<open>The two sides\<close>

type_synonym 'a prog = "('a ptable_scheme \<Rightarrow> 'a ptable_scheme res) list"

definition wakeup_steps :: "chan \<Rightarrow> 'a prog" where
  "wakeup_steps ch = [acquire PtableLock, wakeup1 ch, release PtableLock]"

lemma wakeup_in_order: "wakeup ch s = in_order (wakeup_steps ch) s"
  by (simp add: wakeup_def wakeup_steps_def Rbind_def split: sum.split)

definition sleeper :: "'a ptable_scheme vmops \<Rightarrow> nat \<Rightarrow> chan \<Rightarrow> lockname \<Rightarrow> 'a prog" where
  "sleeper vm p ch l = sleep_steps p ch (Some l) @ [scheduler_back vm]"

definition waker :: "chan \<Rightarrow> lockname \<Rightarrow> 'a prog" where
  "waker ch l = acquire l # wakeup_steps ch @ [release l]"

inductive race :: "nat \<Rightarrow> nat \<Rightarrow> 'a ptable_scheme \<times> 'a prog \<times> 'a prog \<Rightarrow>
    'a ptable_scheme \<times> 'a prog \<times> 'a prog \<Rightarrow> bool" for c d where
  left: "f (on_cpu c s) = Inr t \<Longrightarrow> race c d (s, f # fs, gs) (t, fs, gs)"
| right: "g (on_cpu d s) = Inr t \<Longrightarrow> race c d (s, fs, g # gs) (t, fs, gs)"

section \<open>Locks of two CPUs\<close>

lemma acquire_spins:
  "locked (locks s l) \<Longrightarrow> lcpu (locks s l) \<noteq> Some (curcpu s) \<Longrightarrow> acquire l s = Inl (Spin l)"
  by (simp add: acquire_def machine_defs Let_def)

definition let_go :: "lockname \<Rightarrow> 'a machine_scheme \<Rightarrow> 'a machine_scheme" where
  "let_go l s = upd_cpu cpu_pop (upd_lock l (\<lambda>k. k\<lparr>lcpu := None, locked := False\<rparr>) s)"

lemma release_holding:
  "holding l s \<Longrightarrow> \<not> eflags_IF (mycpu s) \<Longrightarrow> 0 < ncli (mycpu s) \<Longrightarrow> release l s = Inr (let_go l s)"
  by (simp add: release_def let_go_def machine_defs)

lemma let_go_sel [simp]:
  "locks (let_go l s) = (locks s)(l := (locks s l)\<lparr>lcpu := None, locked := False\<rparr>)"
  "cpus (let_go l s) = (cpus s)(curcpu s := cpu_pop (cpus s (curcpu s)))"
  by (simp_all add: let_go_def machine_defs)

lemma let_go_ptable [simp]:
  "ptab (let_go l s) = ptab s" "pLists (let_go l s) = pLists s"
  by (simp_all add: let_go_def machine_defs)

lemma cpu_pop_sel [simp]:
  "ncli (cpu_pop x) = ncli x - 1" "cproc (cpu_pop x) = cproc x"
  "ncli x \<noteq> 1 \<Longrightarrow> eflags_IF (cpu_pop x) = eflags_IF x"
  by (simp_all add: cpu_pop_def)

text \<open>Another CPU's \<open>acquire\<close> of another lock does not touch what this CPU holds.\<close>

lemma held_other:
  assumes "held p b (on_cpu c t)" "c \<noteq> d" "l \<noteq> PtableLock"
  shows "held p (on_cpu c (acquired l (on_cpu d b))) (on_cpu c (acquired l (on_cpu d t)))"
  using assms
  by (auto simp: held_def same_machine_def pt_ready_def lock_free_def cpu_ok_def acquired_def on_cpu_def
      machine_defs fun_upd_twist)

section \<open>The stages of the race\<close>

text \<open>What each side has done: the waker has not started, has the lock, has both locks.\<close>

definition before :: "nat \<Rightarrow> lockname \<Rightarrow> 'a ptable_scheme \<Rightarrow> bool" where
  "before d l t \<longleftrightarrow> lock_free l t \<and> ncli (cpus t d) = 0"

definition has_lock :: "nat \<Rightarrow> lockname \<Rightarrow> 'a ptable_scheme \<Rightarrow> bool" where
  "has_lock d l t \<longleftrightarrow> locked (locks t l) \<and> lcpu (locks t l) = Some d \<and> ncli (cpus t d) = 1 \<and>
     \<not> eflags_IF (cpus t d)"

definition has_both :: "nat \<Rightarrow> lockname \<Rightarrow> 'a ptable_scheme \<Rightarrow> bool" where
  "has_both d l t \<longleftrightarrow> locked (locks t l) \<and> lcpu (locks t l) = Some d \<and>
     locked (locks t PtableLock) \<and> lcpu (locks t PtableLock) = Some d \<and> ncli (cpus t d) = 2 \<and>
     \<not> eflags_IF (cpus t d)"

text \<open>Where the process is.\<close>

definition in_state :: "procstate \<Rightarrow> nat \<Rightarrow> 'a ptable_scheme \<Rightarrow> bool" where
  "in_state st p t \<longleftrightarrow> (\<exists>L. pt_inv L t) \<and> p < NPROC \<and> state (ptab t p) = st"

definition asleep :: "nat \<Rightarrow> chan \<Rightarrow> 'a ptable_scheme \<Rightarrow> bool" where
  "asleep p ch t \<longleftrightarrow> in_state SLEEPING p t \<and> pchan (ptab t p) = ch"

definition swapped :: "nat \<Rightarrow> nat \<Rightarrow> 'a ptable_scheme \<Rightarrow> bool" where
  "swapped c p t \<longleftrightarrow> (\<exists>b. held p b (on_cpu c t))"

inductive stage :: "nat \<Rightarrow> nat \<Rightarrow> nat \<Rightarrow> chan \<Rightarrow> lockname \<Rightarrow> 'a ptable_scheme vmops \<Rightarrow>
    'a ptable_scheme \<Rightarrow> 'a prog \<Rightarrow> 'a prog \<Rightarrow> bool" for c d p ch l vm where
  start: "on_cpu c t = acquired l b \<Longrightarrow> runs p b \<Longrightarrow> lock_free l b \<Longrightarrow> ncli (cpus b d) = 0 \<Longrightarrow>
    in_state RUNNING p b \<Longrightarrow> stage c d p ch l vm t (sleeper vm p ch l) (waker ch l)"
| locked: "on_cpu c t = acq (acquired l b) \<Longrightarrow> runs p b \<Longrightarrow> lock_free l b \<Longrightarrow> ncli (cpus b d) = 0 \<Longrightarrow>
    in_state RUNNING p b \<Longrightarrow> stage c d p ch l vm t (tl (sleeper vm p ch l)) (waker ch l)"
| swap: "swapped c p t \<Longrightarrow> in_state RUNNING p t \<Longrightarrow>
    gs = waker ch l \<and> before d l t \<or> gs = tl (waker ch l) \<and> has_lock d l t \<Longrightarrow>
    stage c d p ch l vm t [sleep_off p ch (Some l), scheduler_back vm] gs"
| switch: "swapped c p t \<Longrightarrow> asleep p ch t \<Longrightarrow>
    gs = waker ch l \<and> before d l t \<or> gs = tl (waker ch l) \<and> has_lock d l t \<Longrightarrow>
    stage c d p ch l vm t [scheduler_back vm] gs"
| gone: "lock_free PtableLock t \<Longrightarrow> asleep p ch t \<Longrightarrow>
    gs = waker ch l \<and> before d l t \<or> gs = tl (waker ch l) \<and> has_lock d l t \<Longrightarrow>
    stage c d p ch l vm t [] gs"
| waking: "asleep p ch t \<Longrightarrow> has_both d l t \<Longrightarrow>
    stage c d p ch l vm t [] [wakeup1 ch, release PtableLock, release l]"
| woke: "in_state RUNNABLE p t \<Longrightarrow> has_both d l t \<Longrightarrow>
    stage c d p ch l vm t [] [release PtableLock, release l]"
| unlocked: "in_state RUNNABLE p t \<Longrightarrow> lock_free PtableLock t \<Longrightarrow> has_lock d l t \<Longrightarrow>
    stage c d p ch l vm t [] [release l]"
| finish: "in_state RUNNABLE p t \<Longrightarrow> lock_free PtableLock t \<Longrightarrow> lock_free l t \<Longrightarrow>
    stage c d p ch l vm t [] []"

text \<open>
  One section on a CPU: it waits for a lock, or it returns and the rest satisfies \<open>I\<close>.
\<close>

definition turn :: "('a ptable_scheme \<Rightarrow> 'a prog \<Rightarrow> bool) \<Rightarrow> nat \<Rightarrow> 'a ptable_scheme \<Rightarrow> 'a prog \<Rightarrow> bool" where
  "turn I c t fs = (case fs of [] \<Rightarrow> True
     | f # fs' \<Rightarrow> (case f (on_cpu c t) of Inl e \<Rightarrow> (\<exists>k. e = Spin k) | Inr t' \<Rightarrow> I t' fs'))"

definition moves :: "nat \<Rightarrow> 'a ptable_scheme \<Rightarrow> 'a prog \<Rightarrow> bool" where
  "moves c t fs = (case fs of [] \<Rightarrow> False | f # fs' \<Rightarrow> (\<exists>t'. f (on_cpu c t) = Inr t'))"

lemma turn_simps [simp]:
  "turn I c t []" "f (on_cpu c t) = Inr u \<Longrightarrow> turn I c t (f # fs) = I u fs"
  "f (on_cpu c t) = Inl (Spin k) \<Longrightarrow> turn I c t (f # fs)"
  "f (on_cpu c t) = Inr u \<Longrightarrow> moves c t (f # fs)" "\<not> moves c t []"
  by (simp_all add: turn_def moves_def)

lemma in_state_cong:
  "ptab t = ptab s \<Longrightarrow> pLists t = pLists s \<Longrightarrow> in_state st p t = in_state st p s"
  "ptab t = ptab s \<Longrightarrow> pLists t = pLists s \<Longrightarrow> asleep p ch t = asleep p ch s"
  using pt_inv_cong [of t s] by (simp_all add: in_state_def asleep_def)

lemma in_state_machine [simp]:
  "in_state st p (on_cpu c t) = in_state st p t" "in_state st p (acquired l t) = in_state st p t"
  "in_state st p (let_go l t) = in_state st p t" "asleep p ch (on_cpu c t) = asleep p ch t"
  "asleep p ch (acquired l t) = asleep p ch t" "asleep p ch (let_go l t) = asleep p ch t"
  by (rule in_state_cong, simp_all)+

text \<open>The waker's first section, while the sleeper has given the lock up.\<close>

lemma waker_takes_lock:
  assumes "before d l t"
  shows "acquire l (on_cpu d t) = Inr (acquired l (on_cpu d t))" "has_lock d l (acquired l (on_cpu d t))"
  using assms by (simp_all add: before_def has_lock_def lock_free_def acquired_def machine_defs cpu_push_def on_cpu_def)

lemma swapped_lock:
  assumes "swapped c p t"
  shows "locked (locks t PtableLock)" "lcpu (locks t PtableLock) = Some c"
  using assms by (auto simp: swapped_def held_def same_machine_def acquired_def machine_defs on_cpu_def)

lemma swapped_other:
  "swapped c p t \<Longrightarrow> c \<noteq> d \<Longrightarrow> l \<noteq> PtableLock \<Longrightarrow> swapped c p (acquired l (on_cpu d t))"
  unfolding swapped_def using held_other by blast

lemma waker_early:
  assumes "swapped c p t" "c \<noteq> d" "l \<noteq> PtableLock"
    "gs = waker ch l \<and> before d l t \<or> gs = tl (waker ch l) \<and> has_lock d l t"
    "\<And>u. swapped c p u \<Longrightarrow> ptab u = ptab t \<Longrightarrow> pLists u = pLists t \<Longrightarrow> has_lock d l u \<Longrightarrow> I u (tl (waker ch l))"
  shows "turn I d t gs"
  using assms(4)
proof
  assume g: "gs = waker ch l \<and> before d l t"
  have "I (acquired l (on_cpu d t)) (tl (waker ch l))"
    using g by (intro assms(5) swapped_other assms(1-3) waker_takes_lock) simp_all
  then show ?thesis
    using g waker_takes_lock(1) [of d l t] by (simp add: waker_def)
next
  assume g: "gs = tl (waker ch l) \<and> has_lock d l t"
  have "acquire PtableLock (on_cpu d t) = Inl (Spin PtableLock)"
    using swapped_lock [OF assms(1)] assms(2) by (intro acquire_spins) simp_all
  then show ?thesis
    using g by (simp add: waker_def wakeup_steps_def)
qed

lemma on_cpu_same: "curcpu s = c \<Longrightarrow> on_cpu c s = s"
  by (simp add: on_cpu_def)

lemma on_cpu_eq: "on_cpu c t = s \<Longrightarrow> locks t = locks s \<and> cpus t = cpus s \<and> curcpu s = c"
  by auto

lemma relinked_parts:
  assumes "relinked (upd_proc p f s) t"
  shows "held q b s \<Longrightarrow> held q b t" "before d l t = before d l s" "has_lock d l t = has_lock d l s"
    "has_both d l t = has_both d l s"
proof -
  note r = relinked_globals(1-3) [OF assms]
  show "held q b s \<Longrightarrow> held q b t"
    by (rule held_relinked [OF _ assms]) simp
  show "before d l t = before d l s" "has_lock d l t = has_lock d l s" "has_both d l t = has_both d l s"
    using r by (simp_all add: before_def lock_free_def has_lock_def has_both_def)
qed

text \<open>The sleeper's sections.\<close>

lemma sleeper_acquires:
  assumes "on_cpu c t = acquired l b" "runs p b" "lock_free l b" "l \<noteq> PtableLock"
  shows "acquire PtableLock (on_cpu c t) = Inr (acq (acquired l b))"
    "on_cpu c (acq (acquired l b)) = acq (acquired l b)"
  using assms on_cpu_eq [OF assms(1)]
  by (simp_all add: runs_def pt_ready_def lock_free_def on_cpu_same)

lemma sleeper_releases:
  assumes "on_cpu c t = acq (acquired l b)" "runs p b" "lock_free l b" "l \<noteq> PtableLock"
    "ncli (cpus b d) = 0" "c \<noteq> d" "in_state RUNNING p b"
  obtains u where "release l (on_cpu c t) = Inr u" "swapped c p u" "in_state RUNNING p u" "before d l u"
proof -
  let ?u = "(acq (acquired l b))\<lparr>cpus := cpus (acq b), locks := locks (acq b)\<rparr>"
  have b: "pt_ready b" "ncli (mycpu b) = 0" "cproc (mycpu b) = Some p" "lock_free PtableLock b"
    using assms(2) by (simp_all add: runs_def pt_ready_def)
  have c: "curcpu b = c"
    using on_cpu_eq [OF assms(1)] by simp
  have "release l (on_cpu c t) = Inr ?u"
    unfolding assms(1) by (rule release_inner [OF assms(3) b(4) assms(4) b(2) same_machine_refl])
  moreover have "held p b ?u" "on_cpu c ?u = ?u"
    using b c by (simp_all add: held_def same_machine_def on_cpu_same)
  then have "swapped c p ?u"
    unfolding swapped_def by metis
  moreover have "in_state RUNNING p ?u"
    using assms(7) by (subst in_state_cong(1) [of _ b]) simp_all
  moreover have "before d l ?u"
    using assms(3-6) c by (simp add: before_def lock_free_def)
  ultimately show ?thesis ..
qed

lemma sleeper_goes_off:
  assumes "swapped c p t" "in_state RUNNING p t"
  obtains u where "sleep_off p ch (Some l) (on_cpu c t) = Inr u" "swapped c p u" "asleep p ch u"
    "before d l u = before d l t" "has_lock d l u = has_lock d l t"
proof -
  obtain b where b: "held p b (on_cpu c t)"
    using assms(1) by (auto simp: swapped_def)
  obtain L where L: "pt_inv L (on_cpu c t)" "p < NPROC" "state (ptab (on_cpu c t) p) = RUNNING"
    using assms(2) pt_inv_cong [of "on_cpu c t" t] by (auto simp: in_state_def)
  obtain u where u: "sleep_off p ch (Some l) (on_cpu c t) = Inr u"
    "pt_inv (moved_head PRunning PSleep p L) u"
    "relinked (upd_proc p (slept (ticks (on_cpu c t)) (eflags_IF (mycpu b)) ch (Some l)) (on_cpu c t)) u"
    by (rule sleep_held [OF L(1) b L(2,3)])
  note r = relinked_parts [OF u(3)]
  have "curcpu u = c"
    using relinked_globals(2) [OF u(3)] by simp
  then have "swapped c p u"
    using r(1) [OF b] by (auto simp: swapped_def on_cpu_same)
  moreover have "asleep p ch u"
    using u(2) L(2) relinked_fields(1,4) [OF u(3), of p]
    by (auto simp: asleep_def in_state_def slept_def switch_out_def)
  moreover have "before d l u = before d l t" "has_lock d l u = has_lock d l t"
    using r(2,3) by (simp_all add: before_def lock_free_def has_lock_def)
  ultimately show ?thesis
    using that u(1) by blast
qed

lemma sleeper_switches:
  assumes "swapped c p t" "vm_switches vm" "c \<noteq> d" "l \<noteq> PtableLock"
  obtains u where "scheduler_back vm (on_cpu c t) = Inr u" "lock_free PtableLock u"
    "ptab u = ptab t" "pLists u = pLists t" "before d l u = before d l t" "has_lock d l u = has_lock d l t"
proof -
  obtain b where b: "held p b (on_cpu c t)"
    using assms(1) by (auto simp: swapped_def)
  let ?u = "pt_done (set_proc None b) (set_proc None (on_cpu c t))"
  have m: "curcpu b = c" "cpus t = cpus (acq b)" "locks t = locks (acq b)" "lock_free PtableLock b"
    using b by (auto simp: held_def same_machine_def pt_ready_def)
  have "scheduler_back vm (on_cpu c t) = Inr ?u"
    by (rule scheduler_back_ok [OF b assms(2)])
  moreover have "before d l ?u = before d l t" "has_lock d l ?u = has_lock d l t" "lock_free PtableLock ?u"
    using assms(3,4) m by (simp_all add: before_def lock_free_def has_lock_def)
  ultimately show ?thesis
    by (intro that [of ?u]) simp_all
qed

text \<open>The waker's sections once the sleeper is gone.\<close>

lemma waker_locks_table:
  assumes "lock_free PtableLock t" "has_lock d l t" "l \<noteq> PtableLock"
  shows "acquire PtableLock (on_cpu d t) = Inr (acq (on_cpu d t))" "has_both d l (acq (on_cpu d t))"
  using assms by (simp_all add: lock_free_def has_lock_def has_both_def)

lemma waker_wakes:
  assumes "asleep p ch t" "has_both d l t"
  obtains u where "wakeup1 ch (on_cpu d t) = Inr u" "in_state RUNNABLE p u" "has_both d l u"
proof -
  obtain L where L: "pt_inv L (on_cpu d t)" "p < NPROC" "state (ptab t p) = SLEEPING" "pchan (ptab t p) = ch"
    using assms(1) pt_inv_cong [of "on_cpu d t" t] by (auto simp: asleep_def in_state_def)
  obtain u where u: "wakeup1 ch (on_cpu d t) = Inr u"
    "pt_inv (woken_lists ch (ptab (on_cpu d t)) L) u" "relinked (woken ch (on_cpu d t)) u"
    by (rule wakeup1_ok [OF L(1)])
  have "in_state RUNNABLE p u"
    using u(2) L relinked_fields(1) [OF u(3), of p] by (auto simp: in_state_def woken_def wake_def)
  moreover have "has_both d l u"
    using assms(2) relinked_globals(1,3) [OF u(3)] by (simp add: has_both_def woken_def)
  ultimately show ?thesis
    using that u(1) by blast
qed

lemma waker_unlocks_table:
  assumes "has_both d l t" "l \<noteq> PtableLock"
  shows "release PtableLock (on_cpu d t) = Inr (let_go PtableLock (on_cpu d t))"
    "lock_free PtableLock (let_go PtableLock (on_cpu d t))" "has_lock d l (let_go PtableLock (on_cpu d t))"
  using assms by (simp_all add: has_both_def has_lock_def lock_free_def release_holding holding_def)

lemma waker_unlocks:
  assumes "has_lock d l t" "lock_free PtableLock t" "l \<noteq> PtableLock"
  shows "release l (on_cpu d t) = Inr (let_go l (on_cpu d t))"
    "lock_free PtableLock (let_go l (on_cpu d t))" "lock_free l (let_go l (on_cpu d t))"
  using assms by (simp_all add: has_lock_def lock_free_def release_holding holding_def)

section \<open>Every stage goes on to a stage\<close>

lemmas side_defs = sleeper_def sleep_steps_def waker_def wakeup_steps_def

lemma stage_ok:
  assumes "stage c d p ch l vm t fs gs" "c \<noteq> d" "l \<noteq> PtableLock" "vm_switches vm"
  shows "turn (\<lambda>u fs. stage c d p ch l vm u fs gs) c t fs \<and>
    turn (\<lambda>u gs. stage c d p ch l vm u fs gs) d t gs \<and>
    (fs = [] \<and> gs = [] \<or> moves c t fs \<or> moves d t gs)"
  using assms(1)
proof cases
  case (start b)
  note a = sleeper_acquires [OF start(3,4,5) assms(3)]
  have "stage c d p ch l vm (acq (acquired l b)) (tl (sleeper vm p ch l)) (waker ch l)"
    by (rule stage.locked [OF a(2) start(4-7)])
  moreover have "acquire l (on_cpu d t) = Inl (Spin l)"
    using on_cpu_eq [OF start(3)] assms(2) by (intro acquire_spins) auto
  ultimately show ?thesis
    using a(1) assms(3) start(1,2) by (simp add: side_defs)
next
  case (locked b)
  obtain u where u: "release l (on_cpu c t) = Inr u" "swapped c p u" "in_state RUNNING p u" "before d l u"
    by (rule sleeper_releases [OF locked(3,4,5) assms(3) locked(6) assms(2) locked(7)])
  have "stage c d p ch l vm u [sleep_off p ch (Some l), scheduler_back vm] (waker ch l)"
    by (rule stage.swap [OF u(2,3)]) (simp add: u(4))
  moreover have "acquire l (on_cpu d t) = Inl (Spin l)"
    using on_cpu_eq [OF locked(3)] assms(2,3) by (intro acquire_spins) auto
  ultimately show ?thesis
    using u(1) assms(3) locked(1,2) by (simp add: side_defs)
next
  case swap
  obtain u where u: "sleep_off p ch (Some l) (on_cpu c t) = Inr u" "swapped c p u" "asleep p ch u"
    "before d l u = before d l t" "has_lock d l u = has_lock d l t"
    by (rule sleeper_goes_off [OF swap(2,3)])
  have "stage c d p ch l vm u [scheduler_back vm] gs"
    by (rule stage.switch [OF u(2,3)]) (use swap(4) u(4,5) in simp)
  moreover have "turn (\<lambda>u gs. stage c d p ch l vm u fs gs) d t gs"
    unfolding swap(1)
    by (rule waker_early [OF swap(2) assms(2,3) swap(4)], rule stage.swap)
       (use swap(3) in_state_cong(1) in auto)
  ultimately show ?thesis
    using u(1) swap(1) by simp
next
  case switch
  obtain u where u: "scheduler_back vm (on_cpu c t) = Inr u" "lock_free PtableLock u"
    "ptab u = ptab t" "pLists u = pLists t" "before d l u = before d l t" "has_lock d l u = has_lock d l t"
    by (rule sleeper_switches [OF switch(2) assms(4,2,3)])
  have "stage c d p ch l vm u [] gs"
    by (rule stage.gone [OF u(2)]) (use switch(3,4) u in_state_cong(2) [OF u(3,4)] in simp_all)
  moreover have "turn (\<lambda>u gs. stage c d p ch l vm u fs gs) d t gs"
    unfolding switch(1)
    by (rule waker_early [OF switch(2) assms(2,3) switch(4)], rule stage.switch)
       (use switch(3) in_state_cong(2) in auto)
  ultimately show ?thesis
    using u(1) switch(1) by simp
next
  case gone
  from gone(4) show ?thesis
  proof
    assume g: "gs = waker ch l \<and> before d l t"
    then have w: "before d l t" by simp
    have "stage c d p ch l vm (acquired l (on_cpu d t)) [] (tl (waker ch l))"
      by (rule stage.gone) (use gone(2,3) waker_takes_lock(2) [OF w] assms(3) in \<open>simp_all add: lock_free_def\<close>)
    then show ?thesis
      using g gone(1) waker_takes_lock(1) [OF w] by (simp add: side_defs)
  next
    assume g: "gs = tl (waker ch l) \<and> has_lock d l t"
    note w = waker_locks_table [OF gone(2) conjunct2 [OF g] assms(3)]
    have "stage c d p ch l vm (acq (on_cpu d t)) [] [wakeup1 ch, release PtableLock, release l]"
      by (rule stage.waking [OF _ w(2)]) (simp add: gone(3))
    then show ?thesis
      using g gone(1) w(1) by (simp add: side_defs)
  qed
next
  case waking
  obtain u where "wakeup1 ch (on_cpu d t) = Inr u" "in_state RUNNABLE p u" "has_both d l u"
    by (rule waker_wakes [OF waking(3,4)])
  then show ?thesis
    using waking(1,2) by (simp add: stage.woke)
next
  case woke
  note w = waker_unlocks_table [OF woke(4) assms(3)]
  show ?thesis
    using w(1) woke(1-3) by (simp add: stage.unlocked [OF _ w(2,3)])
next
  case unlocked
  note w = waker_unlocks [OF unlocked(5,4) assms(3)]
  show ?thesis
    using w(1) unlocked(1-3) by (simp add: stage.finish [OF _ w(2,3)])
qed simp

lemma stage_race:
  assumes "race c d (t, fs, gs) (u, fs', gs')" "stage c d p ch l vm t fs gs" "c \<noteq> d" "l \<noteq> PtableLock"
    "vm_switches vm"
  shows "stage c d p ch l vm u fs' gs'"
  using assms(1) stage_ok [OF assms(2-5)] by cases simp_all

lemma stage_races:
  assumes "(race c d)\<^sup>*\<^sup>* (s, fs0, gs0) (t, fs, gs)" "stage c d p ch l vm s fs0 gs0" "c \<noteq> d" "l \<noteq> PtableLock"
    "vm_switches vm"
  shows "stage c d p ch l vm t fs gs"
  using assms(1)
proof (induction "(t, fs, gs)" arbitrary: t fs gs rule: rtranclp_induct)
  case base
  then show ?case using assms(2) by simp
next
  case (step y)
  obtain u fs' gs' where y: "y = (u, fs', gs')" by (cases y)
  show ?case
    using step(3) [OF y] step(2) assms(3-5) unfolding y by (blast intro: stage_race)
qed

lemma moves_race:
  "moves c t fs \<or> moves d t gs \<Longrightarrow> \<exists>x. race c d (t, fs, gs) x"
  unfolding moves_def by (auto split: list.splits intro: race.intros)

lemma stage_length:
  assumes "stage c d p ch l vm t fs gs" "l \<noteq> PtableLock"
  shows "fs = [] \<Longrightarrow> gs = [] \<Longrightarrow> in_state RUNNABLE p t \<and> lock_free l t \<and> lock_free PtableLock t"
    "length fs = 1 \<Longrightarrow> asleep p ch t \<and> swapped c p t \<and> 4 \<le> length gs"
  using assms by (cases; force simp: side_defs)+

text \<open>Every step shortens one side, so from any stage both sides can come to their end.\<close>

lemma stage_ends:
  assumes "stage c d p ch l vm t fs gs" "c \<noteq> d" "l \<noteq> PtableLock" "vm_switches vm"
  shows "\<exists>u. (race c d)\<^sup>*\<^sup>* (t, fs, gs) (u, [], [])"
  using assms(1)
proof (induction "length fs + length gs" arbitrary: t fs gs rule: less_induct)
  case less
  show ?case
  proof (cases "fs = [] \<and> gs = []")
    case False
    then obtain u fs' gs' where x: "race c d (t, fs, gs) (u, fs', gs')"
      using moves_race [of c t fs d gs] stage_ok [OF less(2) assms(2-4)] by fastforce
    then have "length fs' + length gs' < length fs + length gs"
      by cases simp_all
    then obtain v where "(race c d)\<^sup>*\<^sup>* (u, fs', gs') (v, [], [])"
      using less(1) stage_race [OF x less(2) assms(2-4)] by blast
    then show ?thesis
      using x converse_rtranclp_into_rtranclp [of "race c d"] by blast
  qed auto
qed

lemma stage_begins:
  assumes "reach kend vm s" "vm_switches vm" "vm_frees vm" "cproc (cpus s c) = Some p"
  shows "stage c d p ch l vm (acquired l (on_cpu c s)) (sleeper vm p ch l) (waker ch l)"
proof -
  let ?b = "on_cpu c s"
  have s: "sys_inv ?b" "cproc (mycpu ?b) = Some p"
    using reach_inv [OF assms(1-3)] assms(4) by simp_all
  have r: "runs p ?b" "lock_free l ?b" "ncli (cpus ?b d) = 0" "\<exists>L. pt_inv L ?b"
    using sys_runs(1) [OF s] s(1) by (simp_all add: sys_inv_def calm_def)
  show ?thesis
    by (rule stage.start [OF on_cpu_same r(1-3)]) (use r in \<open>simp_all add: in_state_def runs_def\<close>)
qed

section \<open>No wakeup is lost\<close>

text \<open>
  C10. No wakeup is lost.  In a reachable state a process holds a lock \<open>lk\<close> other than
  \<open>ptable.lock\<close> and calls \<open>sleep(chan, lk)\<close>, while another CPU takes \<open>lk\<close>, calls \<open>wakeup(chan)\<close>
  and gives \<open>lk\<close> back.  However their sections interleave, no section meets a panic: it returns
  or waits for a lock; as long as one side is not done, one of them can go on; when only the
  switch to the scheduler is left of \<open>sleep\<close>, the process is on the sleep list with its channel set,
  this CPU holds \<open>ptable.lock\<close> at depth one, and the other has not come to \<open>wakeup1\<close>; and when both
  are done the process is ready to run again and both locks are free.
\<close>

theorem no_lost_wakeup:
  assumes "reach kend vm s" "vm_switches vm" "vm_frees vm" "cproc (cpus s c) = Some p" "c \<noteq> d"
    "l \<noteq> PtableLock"
    "(race c d)\<^sup>*\<^sup>* (acquired l (on_cpu c s), sleeper vm p ch l, waker ch l) (t, fs, gs)"
  shows "(\<forall>e. fs \<noteq> [] \<and> hd fs (on_cpu c t) = Inl e \<longrightarrow> (\<exists>k. e = Spin k)) \<and>
    (\<forall>e. gs \<noteq> [] \<and> hd gs (on_cpu d t) = Inl e \<longrightarrow> (\<exists>k. e = Spin k)) \<and>
    (fs \<noteq> [] \<or> gs \<noteq> [] \<longrightarrow> (\<exists>x. race c d (t, fs, gs) x)) \<and>
    (length fs = 1 \<longrightarrow> state (ptab t p) = SLEEPING \<and> pchan (ptab t p) = ch \<and>
       holding PtableLock (on_cpu c t) \<and> ncli (cpus t c) = 1 \<and> 4 \<le> length gs) \<and>
    (fs = [] \<and> gs = [] \<longrightarrow> state (ptab t p) = RUNNABLE \<and> lock_free l t \<and> lock_free PtableLock t)"
proof -
  have st: "stage c d p ch l vm t fs gs"
    by (rule stage_races [OF assms(7) stage_begins [OF assms(1-4)] assms(5,6,2)])
  note ok = stage_ok [OF st assms(5,6,2)] and len = stage_length [OF st assms(6)]
  have m: "holding PtableLock (on_cpu c t) \<and> ncli (cpus t c) = 1" if "swapped c p t"
    using that by (auto simp: swapped_def held_def same_machine_def holding_def mycpu_def)
  show ?thesis
    using ok len m moves_race [of c t fs d gs]
    by (auto simp: turn_def asleep_def in_state_def split: list.splits)
qed

theorem no_lost_wakeup_witness:
  "\<exists>(s :: ptable) t. reach 0 demo_vm s \<and> cproc (cpus s 0) = Some 0 \<and>
    (race 0 1)\<^sup>*\<^sup>* (acquired ConsLock (on_cpu 0 s), sleeper demo_vm 0 InputAddr ConsLock,
       waker InputAddr ConsLock) (t, [], []) \<and>
    state (ptab t 0) = RUNNABLE \<and> lock_free ConsLock t \<and> lock_free PtableLock t"
proof -
  obtain s :: ptable where s: "reach 0 demo_vm s" "cproc (cpus s 0) = Some 0"
    using demo_reach_running by blast
  note b = stage_begins [OF s(1) demo_vm_ok s(2), of 1 InputAddr ConsLock]
  obtain t where t: "(race 0 1)\<^sup>*\<^sup>* (acquired ConsLock (on_cpu 0 s), sleeper demo_vm 0 InputAddr ConsLock,
      waker InputAddr ConsLock) (t, [], [])"
    using stage_ends [OF b _ _ demo_vm_ok(1)] by auto
  show ?thesis
    using no_lost_wakeup [OF s(1) demo_vm_ok s(2) _ _ t] s t by auto
qed

end
