(* ===== verification/ProcScan.thy ===== *)
theory ProcScan
  imports ProcDemo
begin

text \<open>
  proc.c keeps, for a build without \<^verbatim>\<open>CS333_P3P4\<close>, the versions of \<open>wakeup1\<close>, \<open>kill\<close>, \<open>exit\<close> and
  \<open>wait\<close> that scan the whole process table.  They are the reference for the list
  versions: this theory models them and proves that the list versions do the same to the
  table, up to the links.
\<close>

section \<open>The table scans\<close>

fun wakeup1_scan_loop :: "nat list \<Rightarrow> chan \<Rightarrow> 'a ptable_scheme \<Rightarrow> 'a ptable_scheme" where
  "wakeup1_scan_loop [] ch s = s"
| "wakeup1_scan_loop (p # ps) ch s = wakeup1_scan_loop ps ch
     (if state (ptab s p) = SLEEPING \<and> pchan (ptab s p) = ch then set_state p RUNNABLE s else s)"

definition wakeup1_scan :: "chan \<Rightarrow> 'a ptable_scheme \<Rightarrow> 'a ptable_scheme" where
  "wakeup1_scan ch s = wakeup1_scan_loop [0..<NPROC] ch s"

fun kill_scan_loop :: "nat list \<Rightarrow> uint \<Rightarrow> 'a ptable_scheme \<Rightarrow> (int \<times> 'a ptable_scheme) res" where
  "kill_scan_loop [] n s = Rbind (release PtableLock s) (\<lambda>s. Inr (-1, s))"
| "kill_scan_loop (p # ps) n s =
     (if pid (ptab s p) = n
      then let s = upd_proc p (\<lambda>x. x\<lparr>killed := True\<rparr>) s;
               s = (if state (ptab s p) = SLEEPING then set_state p RUNNABLE s else s)
           in Rbind (release PtableLock s) (\<lambda>s. Inr (0, s))
      else kill_scan_loop ps n s)"

definition kill_scan :: "uint \<Rightarrow> 'a ptable_scheme \<Rightarrow> (int \<times> 'a ptable_scheme) res" where
  "kill_scan n s = Rbind (acquire PtableLock s) (kill_scan_loop [0..<NPROC] n)"

fun exit_scan_loop :: "nat list \<Rightarrow> nat \<Rightarrow> 'a ptable_scheme \<Rightarrow> 'a ptable_scheme" where
  "exit_scan_loop [] me s = s"
| "exit_scan_loop (p # ps) me s = exit_scan_loop ps me
     (if parent (ptab s p) = Some me
      then let s = upd_proc p (\<lambda>x. x\<lparr>parent := initproc s\<rparr>) s
           in if state (ptab s p) = ZOMBIE then wakeup1_scan (chan_of (initproc s)) s else s
      else s)"

text \<open>\<open>exit\<close> from the point where it takes \<open>ptable.lock\<close>.\<close>

definition exit_scan :: "'a ptable_scheme \<Rightarrow> 'a ptable_scheme res" where
  "exit_scan s =
     Rbind (acquire PtableLock s) (with_proc (\<lambda>me s.
       let s = wakeup1_scan (chan_of (parent (ptab s me))) s;
           s = exit_scan_loop [0..<NPROC] me s
       in sched FromExit (set_state me ZOMBIE s)))"

text \<open>
  One pass of \<open>wait\<close>: the first zombie child found is freed; \<open>havekids\<close> is the
  accumulator.
\<close>

fun wait_scan_loop ::
  "nat list \<Rightarrow> nat \<Rightarrow> bool \<Rightarrow> (nat \<Rightarrow> proc) \<Rightarrow> nat ptr \<times> bool" where
  "wait_scan_loop [] me havekids h = (None, havekids)"
| "wait_scan_loop (p # ps) me havekids h =
     (if parent (h p) \<noteq> Some me then wait_scan_loop ps me havekids h
      else if state (h p) = ZOMBIE then (Some p, True)
      else wait_scan_loop ps me True h)"

definition reap_scan ::
  "uint \<Rightarrow> 'a ptable_scheme vmops \<Rightarrow> nat \<Rightarrow> 'a ptable_scheme \<Rightarrow> 'a ptable_scheme res" where
  "reap_scan kend vm p s =
     Rbind (kfree kend (kstack (ptab s p)) s) (\<lambda>s.
     let s = upd_proc p (\<lambda>x. x\<lparr>kstack := 0\<rparr>) s in
     Rbind (freevm vm (pgdir (ptab s p)) s) (\<lambda>s.
     Inr (upd_proc p (\<lambda>x. x\<lparr>state := UNUSED, pid := 0, parent := None, pname := [],
       killed := False\<rparr>) s)))"

section \<open>What the scans do\<close>

lemma wakeup1_scan_loop_eq:
  "distinct ps \<Longrightarrow> wakeup1_scan_loop ps ch s = map_tab (\<lambda>p. if p \<in> set ps then wake ch else id) s"
proof (induction ps arbitrary: s)
  case Nil
  then show ?case by (simp add: id_def)
next
  case (Cons p ps)
  have step: "(if state (ptab s p) = SLEEPING \<and> pchan (ptab s p) = ch then set_state p RUNNABLE s else s) =
      upd_proc p (wake ch) s"
    by (auto simp: set_state_def upd_proc_def wake_def fun_upd_idem)
  have "map_tab (\<lambda>q. if q \<in> set ps then wake ch else id) (upd_proc p (wake ch) s) =
      map_tab (\<lambda>q. if q \<in> set (p # ps) then wake ch else id) s"
    using Cons.prems unfolding map_tab_upd map_tab_comp by (intro map_tab_cong) auto
  then show ?case
    using Cons by (simp only: wakeup1_scan_loop.simps step) simp
qed

lemma wakeup1_scan_eq: "wakeup1_scan ch s = woken ch s"
  unfolding wakeup1_scan_def woken_def wakeup1_scan_loop_eq [OF distinct_upt]
  by (rule map_tab_cong) simp

text \<open>
  C17. The list version of \<open>wakeup1\<close> is equivalent to the table scan: it ends, keeps the
  lists right, and leaves every process exactly as the scan does, apart from its link.
\<close>

theorem wakeup1_equals_scan:
  assumes "pt_inv L s"
  shows "\<exists>t L'. wakeup1 ch s = Inr t \<and> pt_inv L' t \<and> relinked (wakeup1_scan ch s) t"
  using wakeup1_ok [OF assms] wakeup1_scan_eq by metis

theorem wakeup1_equals_scan_witness:
  "\<exists>t L'. wakeup1 (ProcAddr 0) demo_pt = Inr t \<and> pt_inv L' t \<and>
     relinked (wakeup1_scan (ProcAddr 0) demo_pt) t"
  by (rule wakeup1_equals_scan [OF demo_inv])

section \<open>exit\<close>

definition scan_kid :: "nat \<Rightarrow> (nat \<Rightarrow> proc) \<Rightarrow> nat list \<Rightarrow> bool" where
  "scan_kid me h ps \<longleftrightarrow> (\<exists>z\<in>set ps. state (h z) = ZOMBIE \<and> parent (h z) = Some me)"

lemma exit_scan_loop_eq:
  assumes "distinct ps" "\<forall>p\<in>set ps. p < NPROC"
  shows "exit_scan_loop ps me s =
    map_tab (zombie_pass me (initproc s) (scan_kid me (ptab s) ps) ps) s"
  using assms
proof (induction ps arbitrary: s)
  case Nil
  have "map_tab (zombie_pass me (initproc s) (scan_kid me (ptab s) []) []) s = map_tab (\<lambda>p x. x) s"
    by (intro map_tab_cong) (simp add: zombie_pass_def scan_kid_def)
  then show ?case by simp
next
  case (Cons p ps)
  let ?ip = "initproc s"
  define z where "z \<longleftrightarrow> parent (ptab s p) = Some me \<and> state (ptab s p) = ZOMBIE"
  let ?t = "map_tab (\<lambda>q x. let x = (if q = p then reparent me ?ip x else x) in
      if z \<and> q < NPROC then wake (chan_of ?ip) x else x) s"
  have kid: "scan_kid me (ptab s) (p # ps) = (z \<or> scan_kid me (ptab s) ps)"
    by (auto simp: scan_kid_def z_def)
  have one: "exit_scan_loop (p # ps) me s = exit_scan_loop ps me ?t"
  proof (cases "parent (ptab s p) = Some me")
    case True
    have u: "upd_proc p (\<lambda>x. x\<lparr>parent := ?ip\<rparr>) s =
        map_tab (\<lambda>q x. if q = p then reparent me ?ip x else x) s"
      using True unfolding map_tab_upd by (intro map_tab_cong) (simp add: reparent_def)
    show ?thesis
    proof (cases "state (ptab s p) = ZOMBIE")
      case True
      then have "woken (chan_of ?ip) (upd_proc p (\<lambda>x. x\<lparr>parent := ?ip\<rparr>) s) = ?t"
        using \<open>parent (ptab s p) = Some me\<close> unfolding u woken_def map_tab_comp z_def
        by (intro map_tab_cong) simp
      then show ?thesis
        using True \<open>parent (ptab s p) = Some me\<close> by (simp add: Let_def wakeup1_scan_eq)
    next
      case False
      then have t: "?t = upd_proc p (\<lambda>x. x\<lparr>parent := ?ip\<rparr>) s"
        unfolding u by (intro map_tab_cong) (simp add: z_def)
      have "exit_scan_loop (p # ps) me s = exit_scan_loop ps me (upd_proc p (\<lambda>x. x\<lparr>parent := ?ip\<rparr>) s)"
        using True False by (simp add: Let_def)
      then show ?thesis
        unfolding t .
    qed
  next
    case False
    then have "?t = map_tab (\<lambda>q x. x) s"
      by (intro map_tab_cong) (simp add: z_def reparent_def)
    then show ?thesis
      using False by simp
  qed
  have ih: "exit_scan_loop ps me ?t =
      map_tab (zombie_pass me (initproc ?t) (scan_kid me (ptab ?t) ps) ps) ?t"
    using Cons.prems by (intro Cons.IH) auto
  have sk: "scan_kid me (ptab ?t) ps = scan_kid me (ptab s) ps"
  proof -
    have "state (ptab ?t q) = ZOMBIE \<and> parent (ptab ?t q) = Some me \<longleftrightarrow>
        state (ptab s q) = ZOMBIE \<and> parent (ptab s q) = Some me" if "q \<in> set ps" for q
    proof -
      have "q \<noteq> p"
        using that Cons.prems(1) by auto
      then show ?thesis
        by (simp add: wake_def Let_def)
    qed
    then show ?thesis
      unfolding scan_kid_def by blast
  qed
  have ip: "initproc ?t = ?ip"
    by simp
  have last: "map_tab (zombie_pass me ?ip (scan_kid me (ptab s) ps) ps) ?t =
      map_tab (zombie_pass me ?ip (scan_kid me (ptab s) (p # ps)) (p # ps)) s"
    unfolding map_tab_comp
  proof (rule map_tab_cong)
    fix q
    show "zombie_pass me ?ip (scan_kid me (ptab s) ps) ps q
        (let x = (if q = p then reparent me ?ip (ptab s q) else ptab s q)
         in if z \<and> q < NPROC then wake (chan_of ?ip) x else x) =
      zombie_pass me ?ip (scan_kid me (ptab s) (p # ps)) (p # ps) q (ptab s q)"
      using Cons.prems(1) kid by (cases "q = p") (simp_all add: zombie_pass_def wake_reparent Let_def)
  qed
  show ?case
    unfolding one ih sk ip by (rule last)
qed

lemma exit_scan_passes:
  assumes "\<forall>p<NPROC. state (ptab s p) = UNUSED \<longrightarrow> parent (ptab s p) \<noteq> Some me"
  shows "exit_scan_loop [0..<NPROC] me (wakeup1_scan (chan_of (parent (ptab s me))) s) =
    map_tab (orphaned me s) s"
proof -
  let ?c0 = "chan_of (parent (ptab s me))"
  have k: "scan_kid me (ptab (woken ?c0 s)) [0..<NPROC] = zombie_kid me s"
  proof -
    have "state (ptab (woken ?c0 s) q) = ZOMBIE \<and> parent (ptab (woken ?c0 s) q) = Some me \<longleftrightarrow>
        state (ptab s q) = ZOMBIE \<and> parent (ptab s q) = Some me" for q
      by (auto simp: woken_def wake_def)
    then show ?thesis
      by (auto simp: scan_kid_def zombie_kid_def)
  qed
  have "exit_scan_loop [0..<NPROC] me (woken ?c0 s) =
      map_tab (zombie_pass me (initproc s) (zombie_kid me s) [0..<NPROC]) (woken ?c0 s)"
    using exit_scan_loop_eq [of "[0..<NPROC]" me "woken ?c0 s"] unfolding k by (simp add: woken_def)
  also have "\<dots> = map_tab (orphaned me s) s"
    unfolding woken_def map_tab_comp
  proof (rule map_tab_cong)
    fix p
    show "zombie_pass me (initproc s) (zombie_kid me s) [0..<NPROC] p
        ((if p < NPROC then wake ?c0 else id) (ptab s p)) = orphaned me s p (ptab s p)"
    proof (cases "p < NPROC \<and> state (ptab s p) = UNUSED")
      case True
      then show ?thesis
        using assms by (simp add: zombie_pass_def orphaned_def wake_other reparent_def Let_def)
    next
      case False
      then show ?thesis
        by (auto simp: zombie_pass_def orphaned_def wake_reparent Let_def)
    qed
  qed
  finally show ?thesis
    unfolding wakeup1_scan_eq .
qed

text \<open>
  C16. The list version of \<open>exit\<close> is equivalent to the table scan, when no free slot names the
  caller as parent: both reach the scheduler, with the same process table up to the links and
  the same machine state.
\<close>

theorem exit_equals_scan:
  assumes "pt_inv L s" "runs me s"
    "\<forall>p<NPROC. state (ptab s p) = UNUSED \<longrightarrow> parent (ptab s p) \<noteq> Some me"
  shows "\<exists>t u. exit_locked s = Inr t \<and> exit_scan s = Inr u \<and> relinked u t"
proof -
  let ?e = "exited (ticks s) (eflags_IF (mycpu s))"
  let ?m = "map_tab (orphaned me s) (acq s)"
  obtain t where t: "exit_locked s = Inr t" "relinked (upd_proc me ?e ?m) t"
    using exit_locked_ok [OF assms(1,2)] by blast
  have h: "held me s (acq s)"
    by (rule runs_held [OF assms(2)])
  have passes: "exit_scan_loop [0..<NPROC] me
      (wakeup1_scan (chan_of (parent (ptab (acq s) me))) (acq s)) = ?m"
    using exit_scan_passes [of "acq s" me] assms(3) by simp
  have hz: "held me s (set_state me ZOMBIE ?m)"
    using h by (simp add: set_state_def held_def same_machine_def)
  have "sched FromExit (set_state me ZOMBIE ?m) = Inr (upd_proc me ?e ?m)"
    using sched_ok [OF hz, of FromExit] by (simp add: set_state_def exited_def [abs_def])
  then have "exit_scan s = Inr (upd_proc me ?e ?m)"
    using assms(2) held_proc [OF h] passes
    by (simp add: exit_scan_def with_proc_def Let_def runs_def)
  with t show ?thesis by blast
qed

theorem exit_equals_scan_witness:
  "\<exists>t u. exit_locked demo_pt = Inr t \<and> exit_scan demo_pt = Inr u \<and> relinked u t"
proof (rule exit_equals_scan [OF demo_inv demo_runs])
  show "\<forall>p<NPROC. state (ptab demo_pt p) = UNUSED \<longrightarrow> parent (ptab demo_pt p) \<noteq> Some 0"
    by (auto simp: demo_pt_def demo_procs_def zero_proc_def split: if_splits)
qed

section \<open>kill and wait\<close>

lemma kill_scan_loop_find:
  "kill_scan_loop ps n s = (case find (\<lambda>p. pid (ptab s p) = n) ps of
      None \<Rightarrow> Rbind (release PtableLock s) (\<lambda>s. Inr (-1, s))
    | Some p \<Rightarrow> Rbind (release PtableLock (upd_proc p killed_wake s)) (\<lambda>s. Inr (0, s)))"
proof (induction ps)
  case Nil
  then show ?case by simp
next
  case (Cons p ps)
  have "(if state (ptab (upd_proc p (\<lambda>x. x\<lparr>killed := True\<rparr>) s) p) = SLEEPING
      then set_state p RUNNABLE (upd_proc p (\<lambda>x. x\<lparr>killed := True\<rparr>) s)
      else upd_proc p (\<lambda>x. x\<lparr>killed := True\<rparr>) s) = upd_proc p killed_wake s"
    by (auto simp: set_state_def upd_proc_def killed_wake_def)
  then show ?case
    using Cons by (simp add: Let_def)
qed

lemma find_unique:
  "x \<in> set xs \<Longrightarrow> P x \<Longrightarrow> (\<And>y. y \<in> set xs \<Longrightarrow> P y \<Longrightarrow> y = x) \<Longrightarrow> find P xs = Some x"
proof (induction xs)
  case (Cons a xs)
  show ?case
  proof (cases "P a")
    case True
    then show ?thesis
      using Cons.prems(3) [of a] by simp
  next
    case False
    then have "x \<in> set xs"
      using Cons.prems(1,2) by auto
    then have "find P xs = Some x"
      using Cons.prems by (intro Cons.IH) simp_all
    then show ?thesis
      using False by simp
  qed
qed simp

lemma find_none: "(\<And>y. y \<in> set xs \<Longrightarrow> \<not> P y) \<Longrightarrow> find P xs = None"
  by (induction xs) auto

lemma kill_order_members:
  assumes "pt_inv L s"
  shows "p \<in> set (kill_order L) \<longleftrightarrow> p < NPROC \<and> state (ptab s p) \<notin> {UNUSED, ZOMBIE}"
proof -
  have "p \<in> set (kill_order L) \<longleftrightarrow> p \<in> set (L PSleep) \<or> p \<in> set (L PRunning) \<or>
      p \<in> set (L PEmbryo) \<or> (\<exists>r\<in>set ready_lists. p \<in> set (L r))"
    by (auto simp: kill_order_def)
  also have "\<dots> \<longleftrightarrow> p < NPROC \<and> state (ptab s p) \<in> {SLEEPING, RUNNING, EMBRYO, RUNNABLE}"
    using in_ready [OF assms, of p] inv_member(1) [OF assms, of p]
    by (auto simp: mem_iff [OF assms])
  also have "\<dots> \<longleftrightarrow> p < NPROC \<and> state (ptab s p) \<notin> {UNUSED, ZOMBIE}"
    by (cases "state (ptab s p)") auto
  finally show ?thesis .
qed

text \<open>
  C18. The list version of \<open>kill\<close> is equivalent to the table scan for a pid that at most one
  slot has and that belongs to no zombie and no free slot: the same return value, and the same
  table up to the links.
\<close>

theorem kill_equals_scan:
  assumes "pt_inv L s" "pt_ready s"
    "\<forall>p<NPROC. \<forall>q<NPROC. pid (ptab s p) = n \<and> pid (ptab s q) = n \<longrightarrow> p = q"
    "\<forall>p<NPROC. pid (ptab s p) = n \<longrightarrow> state (ptab s p) \<notin> {UNUSED, ZOMBIE}"
  shows "\<exists>r t u. kill n s = Inr (r, t) \<and> kill_scan n s = Inr (r, u) \<and> relinked u t"
proof -
  let ?P = "\<lambda>p. pid (ptab s p) = n"
  note k = kill_ok [OF assms(1,2), of n]
  note mem = kill_order_members [OF assms(1)]
  have scan: "kill_scan n s = (case find ?P [0..<NPROC] of
      None \<Rightarrow> Inr (-1, settled s) | Some p \<Rightarrow> Inr (0, upd_proc p killed_wake (settled s)))"
    using assms(2) pt_section_upd(1) [OF assms(2) relinked_refl, of _ killed_wake]
    by (simp add: kill_scan_def kill_scan_loop_find split: option.splits)
  show ?thesis
  proof (cases "\<exists>p<NPROC. ?P p")
    case True
    then obtain p where p: "p < NPROC" "?P p" by blast
    have f: "find ?P [0..<NPROC] = Some p" "find ?P (kill_order L) = Some p"
      using p assms(3,4) by (auto intro!: find_unique simp: mem)
    then show ?thesis
      using k scan by auto
  next
    case False
    have f: "find ?P [0..<NPROC] = None" "find ?P (kill_order L) = None"
      using False by (auto intro!: find_none simp: mem)
    then show ?thesis
      using k scan by auto
  qed
qed

theorem kill_equals_scan_witness:
  "\<exists>r t u. kill 2 demo_pt = Inr (r, t) \<and> kill_scan 2 demo_pt = Inr (r, u) \<and> relinked u t"
  by (rule kill_equals_scan [OF demo_inv demo_ready(1)])
     (auto simp: demo_pt_def demo_procs_def zero_proc_def split: if_splits)

text \<open>For a zombie the two differ: the scan marks it and returns 0, the lists do not hold it.\<close>

lemma kill_zombie_differs:
  "kill 4 demo_pt = Inr (-1, settled demo_pt) \<and>
   kill_scan 4 demo_pt = Inr (0, upd_proc 3 killed_wake (settled demo_pt))"
proof -
  have "find (\<lambda>p. pid (ptab demo_pt p) = 4) (kill_order demo_lists) = None"
    by (simp add: kill_order_def demo_lists_def ready_lists_def demo_pt_def demo_procs_def zero_proc_def)
  moreover have "find (\<lambda>p. pid (ptab demo_pt p) = 4) [0..<NPROC] = Some 3"
    by (rule find_unique)
       (auto simp: demo_pt_def demo_procs_def zero_proc_def NPROC_def split: if_splits)
  ultimately show ?thesis
    using kill_ok [OF demo_inv demo_ready(1), of 4] demo_ready(1)
      pt_section_upd(1) [OF demo_ready(1) relinked_refl, of 3 killed_wake]
    by (simp add: kill_scan_def kill_scan_loop_find)
qed

end
