(* ===== verification/CString.thy ===== *)
theory CString
  imports Prelude "HOL-Library.Signed_Division"
begin

text \<open>
  The string and memory routines of string.c and the C strings of the kernel.

  Memory is a map from 32-bit addresses to bytes.  \<open>memset\<close>, \<open>memmove\<close> and
  \<open>memcpy\<close> work on it directly, since their arguments may overlap; address
  arithmetic wraps as it does in C on this machine.  The functions that only
  read their arguments, or whose arguments are separate arrays, take each
  pointer as the function from offsets to bytes that it stands for.
  The wrappers \<open>stosl\<close> and \<open>stosb\<close> of the x86 string stores are parameters; what
  the instructions do is stated by \<open>stosl_fills\<close> and \<open>stosb_fills\<close>.
\<close>

type_synonym mem = "uint \<Rightarrow> uchar"
type_synonym cbuf = "nat \<Rightarrow> uchar"

definition at :: "mem \<Rightarrow> uint \<Rightarrow> cbuf" where
  "at m a i = m (a + of_nat i)"

definition tail :: "cbuf \<Rightarrow> cbuf" where
  "tail p i = p (Suc i)"

definition cstr :: "uchar list \<Rightarrow> cbuf" where
  "cstr xs i = (if i < length xs then xs ! i else 0)"

section \<open>Blocks of memory\<close>

type_synonym stos = "uint \<Rightarrow> uint \<Rightarrow> nat \<Rightarrow> mem \<Rightarrow> mem"

definition memset :: "stos \<Rightarrow> stos \<Rightarrow> uint \<Rightarrow> uint \<Rightarrow> uint \<Rightarrow> mem \<Rightarrow> mem" where
  "memset stosl stosb dst c n m =
     (if sint dst smod 4 = 0 \<and> n mod 4 = 0
      then let c = c AND 0xFF in
        stosl dst (push_bit 24 c OR push_bit 16 c OR push_bit 8 c OR c) (unat (n div 4)) m
      else stosb dst c (unat n) m)"

fun memcmp :: "cbuf \<Rightarrow> cbuf \<Rightarrow> nat \<Rightarrow> int" where
  "memcmp p q 0 = 0"
| "memcmp p q (Suc n) =
     (if p 0 \<noteq> q 0 then uint (p 0) - uint (q 0) else memcmp (tail p) (tail q) n)"

fun copy_down :: "uint \<Rightarrow> uint \<Rightarrow> nat \<Rightarrow> mem \<Rightarrow> mem" where
  "copy_down d s 0 m = m"
| "copy_down d s (Suc n) m = (let d = d - 1; s = s - 1 in copy_down d s n (m(d := m s)))"

fun copy_up :: "uint \<Rightarrow> uint \<Rightarrow> nat \<Rightarrow> mem \<Rightarrow> mem" where
  "copy_up d s 0 m = m"
| "copy_up d s (Suc n) m = copy_up (d + 1) (s + 1) n (m(d := m s))"

definition memmove :: "uint \<Rightarrow> uint \<Rightarrow> uint \<Rightarrow> mem \<Rightarrow> mem" where
  "memmove dst src n m =
     (if src < dst \<and> src + n > dst then copy_down (dst + n) (src + n) (unat n) m
      else copy_up dst src (unat n) m)"

definition memcpy :: "uint \<Rightarrow> uint \<Rightarrow> uint \<Rightarrow> mem \<Rightarrow> mem" where
  "memcpy dst src n m = memmove dst src n m"

section \<open>Strings\<close>

fun strncmp :: "cbuf \<Rightarrow> cbuf \<Rightarrow> nat \<Rightarrow> int" where
  "strncmp p q 0 = 0"
| "strncmp p q (Suc n) =
     (if p 0 \<noteq> 0 \<and> p 0 = q 0 then strncmp (tail p) (tail q) n else uint (p 0) - uint (q 0))"

fun strncpy_pad :: "nat \<Rightarrow> cbuf \<Rightarrow> nat \<Rightarrow> cbuf" where
  "strncpy_pad i s 0 = s"
| "strncpy_pad i s (Suc n) = strncpy_pad (Suc i) (s(i := 0)) n"

fun strncpy_copy :: "nat \<Rightarrow> cbuf \<Rightarrow> cbuf \<Rightarrow> nat \<Rightarrow> cbuf" where
  "strncpy_copy i s t 0 = s"
| "strncpy_copy i s t (Suc n) =
     (let s = s(i := t i) in
      if t i \<noteq> 0 then strncpy_copy (Suc i) s t n else strncpy_pad (Suc i) s n)"

definition strncpy :: "cbuf \<Rightarrow> cbuf \<Rightarrow> int \<Rightarrow> cbuf" where
  "strncpy s t n = strncpy_copy 0 s t (nat n)"

text \<open>
  The last argument counts the turns that \<^verbatim>\<open>--n > 0\<close> still allows.  When a turn copies the
  NUL the pointer has moved on, so the final store is one past it.
\<close>

fun safestrcpy_copy :: "nat \<Rightarrow> cbuf \<Rightarrow> cbuf \<Rightarrow> nat \<Rightarrow> cbuf" where
  "safestrcpy_copy i s t 0 = s(i := 0)"
| "safestrcpy_copy i s t (Suc n) =
     (let s = s(i := t i) in
      if t i \<noteq> 0 then safestrcpy_copy (Suc i) s t n else s(Suc i := 0))"

definition safestrcpy :: "cbuf \<Rightarrow> cbuf \<Rightarrow> int \<Rightarrow> cbuf" where
  "safestrcpy s t n = (if n \<le> 0 then s else safestrcpy_copy 0 s t (nat (n - 1)))"

partial_function (option) strlen_from :: "cbuf \<Rightarrow> nat \<Rightarrow> nat option" where
  "strlen_from s n = (if s n = 0 then Some n else strlen_from s (Suc n))"

definition strlen :: "cbuf \<Rightarrow> nat option" where
  "strlen s = strlen_from s 0"

section \<open>Memory routines\<close>

definition stosb_fills :: "stos \<Rightarrow> bool" where
  "stosb_fills f \<longleftrightarrow> (\<forall>dst c n m a. f dst c n m a = (if unat (a - dst) < n then ucast c else m a))"

definition stosl_fills :: "stos \<Rightarrow> bool" where
  "stosl_fills f \<longleftrightarrow> (\<forall>dst v n m a. f dst v n m a =
     (if unat (a - dst) < 4 * n then ucast (drop_bit (8 * (unat (a - dst) mod 4)) v) else m a))"

lemma unat_add_small: "unat (a :: uint) + i < 2 ^ 32 \<Longrightarrow> unat (a + of_nat i) = unat a + i"
  by (simp add: unat_word_ariths unat_of_nat)

lemma unat_bound: "unat (a :: uint) < 2 ^ 32"
  using unsigned_less [of a] by simp

lemma bit_255: "bit (255 :: int) k \<longleftrightarrow> k < 8" "bit (255 :: nat) k \<longleftrightarrow> k < 8"
proof -
  have "(255 :: int) = mask 8" "(255 :: nat) = mask 8"
    by (simp_all add: mask_eq_exp_minus_1)
  then show "bit (255 :: int) k \<longleftrightarrow> k < 8" "bit (255 :: nat) k \<longleftrightarrow> k < 8"
    by (simp_all only: bit_mask_iff) auto
qed

lemma spread_byte:
  fixes c :: uint
  assumes "j < 4"
  shows "ucast (drop_bit (8 * j) (push_bit 24 (c AND 0xFF) OR push_bit 16 (c AND 0xFF) OR
      push_bit 8 (c AND 0xFF) OR (c AND 0xFF))) = (ucast c :: uchar)"
proof (rule bit_word_eqI)
  fix k assume "k < LENGTH(8)"
  then have "k < 8" by simp
  moreover have "j = 0 \<or> j = 1 \<or> j = 2 \<or> j = 3"
    using assms by auto
  ultimately show "bit (ucast (drop_bit (8 * j) (push_bit 24 (c AND 0xFF) OR push_bit 16 (c AND 0xFF) OR
      push_bit 8 (c AND 0xFF) OR (c AND 0xFF))) :: uchar) k \<longleftrightarrow> bit (ucast c :: uchar) k"
    by (elim disjE) (simp_all add: bit_simps bit_255)
qed

lemma memset_fills:
  assumes "stosl_fills stosl" "stosb_fills stosb"
  shows "memset stosl stosb dst c n m a = (if a - dst < n then ucast c else m a)"
proof (cases "sint dst smod 4 = 0 \<and> n mod 4 = 0")
  case True
  then have "unat (n mod 4) = 0"
    by simp
  then have "4 dvd unat n"
    by (simp add: unat_mod_distrib dvd_eq_mod_eq_0)
  then have "4 * unat (n div 4) = unat n"
    by (simp add: unat_div_distrib)
  then show ?thesis
    using True assms(1) spread_byte [of "unat (a - dst) mod 4" c]
    by (simp add: memset_def stosl_fills_def word_less_nat_alt Let_def)
next
  case False
  then show ?thesis
    using assms(2) by (auto simp: memset_def stosb_fills_def word_less_nat_alt)
qed

lemma copy_up_eq:
  assumes "n \<le> 2 ^ 32" "\<And>i j. i < j \<Longrightarrow> j < n \<Longrightarrow> d + of_nat i \<noteq> s + of_nat j"
  shows "copy_up d s n m a = (if unat (a - d) < n then m (s + (a - d)) else m a)"
  using assms
proof (induction n arbitrary: d s m)
  case (Suc n)
  have "copy_up (d + 1) (s + 1) n (m(d := m s)) a =
      (if unat (a - (d + 1)) < n then (m(d := m s)) (s + 1 + (a - (d + 1))) else (m(d := m s)) a)"
  proof (rule Suc.IH)
    show "d + 1 + of_nat i \<noteq> s + 1 + of_nat j" if "i < j" "j < n" for i j
      using Suc.prems(2) [of "Suc i" "Suc j"] that by (simp add: ac_simps)
  qed (use Suc.prems in simp)
  moreover have "unat (a - (d + 1)) < n \<longleftrightarrow> a \<noteq> d \<and> unat (a - d) < Suc n"
  proof (cases "a = d")
    case True
    have "unat (- 1 :: uint) = 2 ^ 32 - 1"
      by (simp add: unsigned_minus_1_eq_mask mask_eq_exp_minus_1)
    then show ?thesis
      using True Suc.prems(1) by simp
  next
    case False
    then have "unat (a - d - 1) = unat (a - d) - 1" "unat (a - d) \<noteq> 0"
      by (simp_all add: unat_minus_one unat_eq_0)
    then show ?thesis
      using False by (auto simp: diff_diff_eq)
  qed
  moreover have "s + (a - d) \<noteq> d" if "a \<noteq> d" "unat (a - d) < Suc n"
  proof -
    have "0 < unat (a - d)"
      using that(1) by (simp add: unat_gt_0)
    then show ?thesis
      using Suc.prems(2) [of 0 "unat (a - d)"] that(2) by auto
  qed
  ultimately show ?case
    by (auto simp: algebra_simps)
qed simp

lemma copy_down_eq:
  assumes "n \<le> 2 ^ 32" "\<And>i j. j < i \<Longrightarrow> i < n \<Longrightarrow> d + of_nat i \<noteq> s + of_nat j"
  shows "copy_down (d + of_nat n) (s + of_nat n) n m a =
    (if unat (a - d) < n then m (s + (a - d)) else m a)"
  using assms
proof (induction n arbitrary: m)
  case (Suc n)
  let ?m = "m(d + of_nat n := m (s + of_nat n))"
  have step: "copy_down (d + of_nat (Suc n)) (s + of_nat (Suc n)) (Suc n) m a =
      (if unat (a - d) < n then ?m (s + (a - d)) else ?m a)"
  proof -
    have "x + of_nat (Suc n) - 1 = x + of_nat n" for x :: uint
      by simp
    then have "copy_down (d + of_nat (Suc n)) (s + of_nat (Suc n)) (Suc n) m a =
        copy_down (d + of_nat n) (s + of_nat n) n ?m a"
      by (simp only: copy_down.simps Let_def)
    also have "\<dots> = (if unat (a - d) < n then ?m (s + (a - d)) else ?m a)"
      by (rule Suc.IH) (use Suc.prems in simp_all)
    finally show ?thesis .
  qed
  have eq: "a = d + of_nat n \<longleftrightarrow> unat (a - d) = n"
  proof -
    have "unat (of_nat n :: uint) = n"
      using Suc.prems(1) by (simp add: unat_of_nat)
    then have "unat (a - d) = n \<longleftrightarrow> a - d = of_nat n"
      by auto
    then show ?thesis
      by (auto simp: algebra_simps)
  qed
  consider "unat (a - d) < n" | "unat (a - d) = n" | "n < unat (a - d)"
    by linarith
  then show ?case
  proof cases
    case 1
    then have "s + (a - d) \<noteq> d + of_nat n"
      using Suc.prems(2) [of "unat (a - d)" n] by auto
    then show ?thesis
      unfolding step using 1 by simp
  next
    case 2
    then show ?thesis
      unfolding step using eq by auto
  next
    case 3
    then show ?thesis
      unfolding step using eq by simp
  qed
qed simp

text \<open>
  C36. \<open>memmove\<close> copies correctly whether or not the regions overlap: each byte of the
  destination becomes the byte that was at the same offset of the source before the call,
  and no other byte changes.  The end of the source must be an address.
\<close>

theorem memmove_copies:
  assumes "unat src + unat n < 2 ^ 32" "unat dst + unat n \<le> 2 ^ 32"
  shows "memmove dst src n m a = (if a - dst < n then m (src + (a - dst)) else m a)"
proof -
  note b = assms
  have eq: "dst + of_nat i = src + of_nat j \<longleftrightarrow> unat dst + i = unat src + j"
    if "i < unat n" "j < unat n" for i j
    using b that by (simp add: word_unat_eq_iff unat_add_small)
  have n: "unat n \<le> 2 ^ 32" "of_nat (unat n) = n"
    using unat_bound [of n] by simp_all
  have s: "unat (src + n) = unat src + unat n"
    using unat_add_small [of src "unat n"] b(1) unfolding n(2) .
  show ?thesis
  proof (cases "src < dst \<and> src + n > dst")
    case True
    have "dst + of_nat i \<noteq> src + of_nat j" if "j < i" "i < unat n" for i j
      using True that unfolding word_less_nat_alt by (simp add: eq)
    then have "copy_down (dst + n) (src + n) (unat n) m a =
        (if unat (a - dst) < unat n then m (src + (a - dst)) else m a)"
      using copy_down_eq [OF n(1), of dst src m a] unfolding n(2) by blast
    then show ?thesis
      using True unfolding memmove_def word_less_nat_alt by simp
  next
    case False
    have "dst + of_nat i \<noteq> src + of_nat j" if "i < j" "j < unat n" for i j
      using False s that unfolding word_less_nat_alt by (auto simp: eq)
    then have "copy_up dst src (unat n) m a =
        (if unat (a - dst) < unat n then m (src + (a - dst)) else m a)"
      using copy_up_eq [OF n(1), of dst src m a] by blast
    then show ?thesis
      using False unfolding memmove_def word_less_nat_alt by (simp only: if_False)
  qed
qed

theorem memmove_copies_witness:
  "memmove 1002 1000 4 (\<lambda>a. ucast a) 1005 = ucast (1003 :: uint) \<and>
   memmove 1002 1000 4 (\<lambda>a. ucast a) 1001 = ucast (1001 :: uint)"
  by (simp add: memmove_copies)

section \<open>String routines\<close>

lemma memcmp_0_iff: "memcmp p q n = 0 \<longleftrightarrow> (\<forall>i<n. p i = q i)"
proof (induction n arbitrary: p q)
  case (Suc n)
  have "(\<forall>i<Suc n. p i = q i) \<longleftrightarrow> p 0 = q 0 \<and> (\<forall>i<n. tail p i = tail q i)"
    by (auto simp: tail_def less_Suc_eq_0_disj)
  then show ?case
    using Suc by (auto simp: word_uint_eq_iff)
qed simp

text \<open>\<open>strncmp\<close> is 0 when the bytes agree up to the first NUL or the limit.\<close>

lemma strncmp_0_iff:
  "strncmp p q n = 0 \<longleftrightarrow> (\<forall>i<n. (\<forall>j<i. p j \<noteq> 0) \<longrightarrow> p i = q i)"
proof (induction n arbitrary: p q)
  case (Suc n)
  have "(\<forall>i<Suc n. (\<forall>j<i. p j \<noteq> 0) \<longrightarrow> p i = q i) \<longleftrightarrow>
      p 0 = q 0 \<and> (p 0 \<noteq> 0 \<longrightarrow> (\<forall>i<n. (\<forall>j<i. tail p j \<noteq> 0) \<longrightarrow> tail p i = tail q i))"
    by (simp add: tail_def All_less_Suc2) blast
  then show ?case
    using Suc by (auto simp: word_uint_eq_iff)
qed simp

lemma strlen_Some:
  assumes "s n = 0" "\<forall>i<n. s i \<noteq> 0"
  shows "strlen s = Some n"
proof -
  have "strlen_from s (n - k) = Some n" if "k \<le> n" for k
    using that
  proof (induction k)
    case 0
    then show ?case
      using assms(1) by (simp add: strlen_from.simps)
  next
    case (Suc k)
    then show ?case
      using assms(2) by (subst strlen_from.simps) (simp add: Suc_diff_Suc)
  qed
  from this [of n] show ?thesis
    by (simp add: strlen_def)
qed

lemma strlen_cstr: "0 \<notin> set xs \<Longrightarrow> strlen (cstr xs) = Some (length xs)"
  by (rule strlen_Some) (auto simp: cstr_def in_set_conv_nth)

lemma strncpy_pad_eq: "strncpy_pad i s n k = (if i \<le> k \<and> k < i + n then 0 else s k)"
  by (induction n arbitrary: i s) auto

lemma strncpy_copy_eq:
  "strncpy_copy i s t n k =
     (if i \<le> k \<and> k < i + n then (if \<exists>j<k. i \<le> j \<and> t j = 0 then 0 else t k) else s k)"
proof (induction n arbitrary: i s)
  case (Suc n)
  have "(\<exists>j<k. i \<le> j \<and> t j = 0) \<longleftrightarrow> i < k \<and> t i = 0 \<or> (\<exists>j<k. Suc i \<le> j \<and> t j = 0)"
    by (auto simp: Suc_le_eq le_less)
  then show ?case
    using Suc.IH by (cases "k = i") (auto simp: Let_def strncpy_pad_eq)
qed auto

lemma strncpy_eq:
  "strncpy s t n k = (if int k < n then (if \<exists>j<k. t j = 0 then 0 else t k) else s k)"
  by (auto simp: strncpy_def strncpy_copy_eq)

lemma safestrcpy_copy_eq:
  assumes "\<forall>j<l. t (i + j) \<noteq> 0" "l = n \<or> l < n \<and> t (i + l) = 0"
  shows "safestrcpy_copy i s t n =
    (\<lambda>k. if i \<le> k \<and> k < i + l then t k else if k = i + l \<or> k = Suc (i + l) \<and> l < n then 0 else s k)"
  using assms
proof (induction n arbitrary: i l s)
  case (Suc n)
  show ?case
  proof (cases "t i = 0")
    case True
    then have "l = 0"
      using Suc.prems(1) by (cases l) auto
    then show ?thesis
      using True Suc.prems(2) by (auto simp: fun_eq_iff Let_def)
  next
    case False
    then obtain l' where l: "l = Suc l'"
      using Suc.prems(2) by (cases l) auto
    have "safestrcpy_copy (Suc i) (s(i := t i)) t n = (\<lambda>k. if Suc i \<le> k \<and> k < Suc i + l' then t k
        else if k = Suc i + l' \<or> k = Suc (Suc i + l') \<and> l' < n then 0 else (s(i := t i)) k)"
      using Suc.prems unfolding l by (intro Suc.IH) auto
    then show ?thesis
      using False by (auto simp: fun_eq_iff Let_def l)
  qed
qed (auto simp: fun_eq_iff)

text \<open>
  C37. \<open>safestrcpy\<close> into a buffer of \<open>n > 0\<close> bytes writes only inside the buffer and leaves a
  NUL-terminated string in it: the source's, cut after \<open>n - 1\<close> bytes if it is longer.
\<close>

theorem safestrcpy_terminates:
  assumes "0 < n" "0 \<notin> set xs" "\<forall>i<length xs. t i = xs ! i" "t (length xs) = 0"
  shows "\<exists>l. l = min (length xs) (nat n - 1) \<and> strlen (safestrcpy s t n) = Some l \<and>
    (\<forall>i<l. safestrcpy s t n i = xs ! i) \<and> (\<forall>i. n \<le> int i \<longrightarrow> safestrcpy s t n i = s i)"
proof -
  let ?l = "min (length xs) (nat n - 1)"
  have nz: "\<forall>j<?l. t j \<noteq> 0"
    using assms(2,3) by (auto simp: in_set_conv_nth)
  have nm: "nat (n - 1) = nat n - 1"
    by simp
  have e: "?l = nat n - 1 \<or> ?l < nat n - 1 \<and> t (0 + ?l) = 0"
    using assms(4) by (auto simp: min_def)
  have "safestrcpy_copy 0 s t (nat n - 1) = (\<lambda>k. if 0 \<le> k \<and> k < 0 + ?l then t k
      else if k = 0 + ?l \<or> k = Suc (0 + ?l) \<and> ?l < nat n - 1 then 0 else s k)"
    using nz e by (intro safestrcpy_copy_eq) (simp_all only: add_0)
  then have eq: "safestrcpy s t n =
      (\<lambda>k. if k < ?l then t k else if k = ?l \<or> k = Suc ?l \<and> ?l < nat n - 1 then 0 else s k)"
    using assms(1) unfolding safestrcpy_def nm by (simp only: add_0 le0 simp_thms not_le [symmetric] if_False)
  have "strlen (safestrcpy s t n) = Some ?l"
    using nz by (intro strlen_Some) (simp_all add: eq)
  moreover have "\<forall>i<?l. safestrcpy s t n i = xs ! i"
    using assms(3) by (simp add: eq)
  moreover have "safestrcpy s t n i = s i" if "n \<le> int i" for i
    using that assms(1) by (auto simp: eq min_def)
  ultimately show ?thesis by blast
qed

theorem safestrcpy_terminates_witness:
  "\<exists>l. l = (3 :: nat) \<and> strlen (safestrcpy (\<lambda>_. 1) (cstr [7, 8, 9, 10]) 4) = Some l"
  using safestrcpy_terminates [of 4 "[7, 8, 9, 10]" "cstr [7, 8, 9, 10]" "\<lambda>_. 1"]
  by (simp add: cstr_def)

end
