(* ===== verification/UserLib.thy ===== *)
theory UserLib
  imports CString "HOL-Library.Char_ord"
begin

text \<open>
  The C library of the user programs: ulib.c and printf.c.

  A C string is the \<open>string\<close> of its characters before the NUL.  Integers of type \<open>int\<close> are
  32-bit words, so the arithmetic of \<open>atoi\<close> and \<open>printint\<close> wraps as the compiled code does.
  Output goes to \<open>write\<close> one character at a time and is the list of (descriptor, character)
  pairs written.  The system calls that \<open>gets\<close> and \<open>stat\<close> use are parameters.
\<close>

type_synonym outp = "(uint \<times> char) list"

definition char_of_byte :: "uchar \<Rightarrow> char" where
  "char_of_byte b = char_of (unat b)"

definition byte_of_char :: "char \<Rightarrow> uchar" where
  "byte_of_char c = of_nat (of_char c)"

section \<open>ulib.c\<close>

text \<open>The byte array at \<open>s\<close> after \<open>strcpy(s, t)\<close>: the characters of \<open>t\<close> and a NUL.\<close>

fun strcpy_from :: "nat \<Rightarrow> cbuf \<Rightarrow> string \<Rightarrow> cbuf" where
  "strcpy_from i s [] = s(i := 0)"
| "strcpy_from i s (c # t) = strcpy_from (Suc i) (s(i := byte_of_char c)) t"

definition strcpy :: "cbuf \<Rightarrow> string \<Rightarrow> cbuf" where
  "strcpy s t = strcpy_from 0 s t"

fun strcmp :: "string \<Rightarrow> string \<Rightarrow> int" where
  "strcmp [] [] = 0"
| "strcmp [] (d # q) = - of_char d"
| "strcmp (c # p) [] = of_char c"
| "strcmp (c # p) (d # q) = (if c = d then strcmp p q else of_char c - of_char d)"

definition ulib_memset :: "stos \<Rightarrow> uint \<Rightarrow> uint \<Rightarrow> uint \<Rightarrow> mem \<Rightarrow> mem" where
  "ulib_memset stosb dst c n m = stosb dst c (unat n) m"

text \<open>\<open>strchr\<close> gives the string from the character on; the NUL itself is never found.\<close>

fun strchr :: "string \<Rightarrow> char \<Rightarrow> string option" where
  "strchr [] c = None"
| "strchr (d # s) c = (if d = c then Some (d # s) else strchr s c)"

text \<open>
  \<open>gets\<close> reads single characters from descriptor 0.  \<open>rd\<close> is that call: the state after it and
  the character, or none when it returned less than 1.
\<close>

fun gets_loop :: "('s \<Rightarrow> 's \<times> char option) \<Rightarrow> nat \<Rightarrow> nat \<Rightarrow> cbuf \<Rightarrow> 's \<Rightarrow> nat \<times> cbuf \<times> 's" where
  "gets_loop rd 0 i buf s = (i, buf, s)"
| "gets_loop rd (Suc k) i buf s =
     (case rd s of
        (s, None) \<Rightarrow> (i, buf, s)
      | (s, Some c) \<Rightarrow>
          let buf = buf(i := byte_of_char c) in
          if c = CHR ''\<newline>'' \<or> c = CHR 0x0D then (Suc i, buf, s)
          else gets_loop rd k (Suc i) buf s)"

definition gets :: "('s \<Rightarrow> 's \<times> char option) \<Rightarrow> cbuf \<Rightarrow> int \<Rightarrow> 's \<Rightarrow> cbuf \<times> 's" where
  "gets rd buf mx s =
     (case gets_loop rd (nat (mx - 1)) 0 buf s of (i, buf, s) \<Rightarrow> (buf(i := 0), s))"

definition ulib_stat ::
  "(string \<Rightarrow> 's \<Rightarrow> int \<times> 's) \<Rightarrow> (int \<Rightarrow> 's \<Rightarrow> (int \<times> 'st) \<times> 's) \<Rightarrow> (int \<Rightarrow> 's \<Rightarrow> 's) \<Rightarrow>
   string \<Rightarrow> 'st \<Rightarrow> 's \<Rightarrow> (int \<times> 'st) \<times> 's" where
  "ulib_stat open_ro fstat close n st s =
     (case open_ro n s of (fd, s) \<Rightarrow>
        if fd < 0 then ((- 1, st), s)
        else case fstat fd s of (r, s) \<Rightarrow> (r, close fd s))"

fun atoi_digits :: "uint \<Rightarrow> string \<Rightarrow> uint" where
  "atoi_digits n [] = n"
| "atoi_digits n (c # s) =
     (if CHR ''0'' \<le> c \<and> c \<le> CHR ''9'' then atoi_digits (n * 10 + of_char c - of_char CHR ''0'') s
      else n)"

fun skip_spaces :: "string \<Rightarrow> string" where
  "skip_spaces [] = []"
| "skip_spaces (c # s) = (if c = CHR '' '' then skip_spaces s else c # s)"

definition atoi :: "string \<Rightarrow> uint" where
  "atoi s =
     (let s = skip_spaces s;
          sign = (case s of c # _ \<Rightarrow> if c = CHR ''-'' then - 1 else 1 | [] \<Rightarrow> 1);
          s = (case s of c # t \<Rightarrow> if c = CHR ''+'' \<or> c = CHR ''-'' then t else s | [] \<Rightarrow> s)
      in sign * atoi_digits 0 s)"

definition ulib_memmove :: "uint \<Rightarrow> uint \<Rightarrow> int \<Rightarrow> mem \<Rightarrow> mem" where
  "ulib_memmove dst src n m = copy_up dst src (nat n) m"

section \<open>printf.c\<close>

definition putc :: "uint \<Rightarrow> char \<Rightarrow> outp" where
  "putc fd c = [(fd, c)]"

definition digits :: string where
  "digits = ''0123456789ABCDEF''"

text \<open>
  The digits in the order the loop stores them in \<open>buf\<close>, least significant first.  No result
  stands for a loop that does not end (base 1) or a division by zero (base 0).
\<close>

partial_function (option) printint_digits :: "uint \<Rightarrow> uint \<Rightarrow> string option" where
  "printint_digits base x =
     (if base = 0 then None
      else if x div base \<noteq> 0
      then Option.bind (printint_digits base (x div base)) (\<lambda>ds. Some (digits ! unat (x mod base) # ds))
      else Some [digits ! unat (x mod base)])"

definition printint :: "uint \<Rightarrow> uint \<Rightarrow> uint \<Rightarrow> bool \<Rightarrow> outp option" where
  "printint fd xx base sg =
     (let neg = (sg \<and> sint xx < 0);
          x = (if neg then - xx else xx)
      in map_option (\<lambda>buf. concat (map (putc fd) (rev (buf @ (if neg then ''-'' else [])))))
           (printint_digits base x))"

text \<open>The characters of the C string at an address; none if there is no NUL.\<close>

definition cstring :: "mem \<Rightarrow> uint \<Rightarrow> string option" where
  "cstring m a = map_option (\<lambda>n. map (\<lambda>i. char_of_byte (at m a i)) [0..<n]) (strlen (at m a))"

text \<open>
  One character after a \<open>%\<close>, with the next argument \<open>a\<close>: what it prints, and whether it used
  the argument.
\<close>

definition printf_conv :: "uint \<Rightarrow> mem \<Rightarrow> char \<Rightarrow> uint \<Rightarrow> (outp \<times> bool) option" where
  "printf_conv fd m c a =
     (if c = CHR ''d'' then map_option (\<lambda>t. (t, True)) (printint fd a 10 True)
      else if c = CHR ''x'' \<or> c = CHR ''p'' then map_option (\<lambda>t. (t, True)) (printint fd a 16 False)
      else if c = CHR ''s'' then
        map_option (\<lambda>s. (concat (map (putc fd) s), True))
          (if a = 0 then Some ''(null)'' else cstring m a)
      else if c = CHR ''c'' then Some (putc fd (char_of_byte (ucast a)), True)
      else if c = CHR ''%'' then Some (putc fd c, False)
      else Some (putc fd CHR ''%'' @ putc fd c, False))"

text \<open>The flag is \<open>state\<close>: a \<open>%\<close> has been read.  \<open>ap\<close> gives the argument words.\<close>

fun printf_loop :: "uint \<Rightarrow> mem \<Rightarrow> string \<Rightarrow> bool \<Rightarrow> (nat \<Rightarrow> uint) \<Rightarrow> outp option" where
  "printf_loop fd m [] st ap = Some []"
| "printf_loop fd m (c # fmt) st ap =
     (if \<not> st then
        if c = CHR ''%'' then printf_loop fd m fmt True ap
        else map_option (\<lambda>t. putc fd c @ t) (printf_loop fd m fmt False ap)
      else
        case printf_conv fd m c (ap 0) of
          None \<Rightarrow> None
        | Some (out, used) \<Rightarrow>
            map_option (\<lambda>t. out @ t)
              (printf_loop fd m fmt False (if used then (\<lambda>i. ap (Suc i)) else ap)))"

definition printf :: "uint \<Rightarrow> mem \<Rightarrow> string \<Rightarrow> (nat \<Rightarrow> uint) \<Rightarrow> outp option" where
  "printf fd m fmt ap = printf_loop fd m fmt False ap"

section \<open>What the string functions compute\<close>

lemma strcmp_0_iff: "strcmp p q = 0 \<longleftrightarrow> p = q"
  if "CHR 0x00 \<notin> set p" "CHR 0x00 \<notin> set q"
proof -
  have of_char_0: "of_char c = (0 :: int) \<longleftrightarrow> c = CHR 0x00" for c :: char
    using of_char_eq_iff [of c "CHR 0x00", where 'a = int] by simp
  from that show ?thesis
    by (induction p q rule: strcmp.induct) (auto simp: of_char_0 of_char_eq_iff)
qed

lemma strchr_Some: "strchr s c = Some t \<longleftrightarrow> (\<exists>pre. s = pre @ t \<and> c \<notin> set pre \<and> (\<exists>u. t = c # u))"
proof (induction s)
  case (Cons d s)
  show ?case
  proof (cases "d = c")
    case True
    have "(\<exists>pre. d # s = pre @ t \<and> c \<notin> set pre \<and> (\<exists>u. t = c # u)) \<longleftrightarrow> t = d # s"
      using True by (auto simp: Cons_eq_append_conv)
    then show ?thesis
      using True by auto
  next
    case False
    have "(\<exists>pre. d # s = pre @ t \<and> c \<notin> set pre \<and> (\<exists>u. t = c # u)) \<longleftrightarrow>
        (\<exists>pre. s = pre @ t \<and> c \<notin> set pre \<and> (\<exists>u. t = c # u))"
      using False by (auto simp: Cons_eq_append_conv)
    then show ?thesis
      using False Cons.IH by simp
  qed
qed auto

lemma gets_loop_bounds:
  "gets_loop rd k i buf s = (j, buf', s') \<Longrightarrow> i \<le> j \<and> j \<le> i + k \<and> (\<forall>l. l < i \<or> j \<le> l \<longrightarrow> buf' l = buf l)"
proof (induction k arbitrary: i buf s)
  case (Suc k)
  obtain s1 r where r: "rd s = (s1, r)"
    by (cases "rd s")
  show ?case
  proof (cases r)
    case None
    then show ?thesis
      using Suc.prems r by simp
  next
    case (Some c)
    let ?b = "buf(i := byte_of_char c)"
    show ?thesis
    proof (cases "c = CHR ''\<newline>'' \<or> c = CHR 0x0D")
      case True
      then show ?thesis
        using Suc.prems r Some by (auto simp: Let_def)
    next
      case False
      then have "gets_loop rd k (Suc i) ?b s1 = (j, buf', s')"
        using Suc.prems r Some by (simp add: Let_def)
      from Suc.IH [OF this] show ?thesis
        by auto
    qed
  qed
qed simp

lemma gets_in_bounds:
  assumes "0 < mx" "gets rd buf mx s = (buf', s')" "mx \<le> int l"
  shows "buf' l = buf l"
  using assms gets_loop_bounds [of rd "nat (mx - 1)" 0 buf s]
  by (auto simp: gets_def split: prod.splits)

section \<open>Numbers in and out\<close>

lemma word_div_0: "x div base = 0 \<longleftrightarrow> unat x < unat base \<or> base = 0" for x base :: uint
  by (simp add: word_unat_eq_iff unat_div_distrib div_eq_0_iff)

lemma printint_digits_step:
  "1 < base \<Longrightarrow> x div base \<noteq> 0 \<Longrightarrow>
     printint_digits base x =
       Option.bind (printint_digits base (x div base)) (\<lambda>ds. Some (digits ! unat (x mod base) # ds))"
  "1 < base \<Longrightarrow> x div base = 0 \<Longrightarrow> printint_digits base x = Some [digits ! unat (x mod base)]"
  for base :: uint
  by (subst printint_digits.simps, auto)+

lemma unat_mod_less: "1 < base \<Longrightarrow> unat (x mod base) < unat base" for base x :: uint
  by (simp add: unat_mod_distrib word_less_nat_alt)

lemma unat_div_less: "1 < base \<Longrightarrow> x div base \<noteq> 0 \<Longrightarrow> unat (x div base) < unat x" for base x :: uint
  by (auto simp: unat_div_distrib word_div_0 word_less_nat_alt)

lemma printint_digits_ok:
  assumes "1 < base"
  shows "\<exists>ds. printint_digits base x = Some ds \<and> ds \<noteq> [] \<and>
    (length ds = 1 \<or> unat base ^ (length ds - 1) \<le> unat x) \<and>
    set ds \<subseteq> (\<lambda>k. digits ! k) ` {..<unat base}"
proof (induction "unat x" arbitrary: x rule: less_induct)
  case less
  have m: "digits ! unat (x mod base) \<in> (\<lambda>k. digits ! k) ` {..<unat base}"
    using unat_mod_less [OF assms] by simp
  show ?case
  proof (cases "x div base = 0")
    case True
    then show ?thesis
      using printint_digits_step(2) [OF assms True] m by simp
  next
    case False
    then obtain ds where ds: "printint_digits base (x div base) = Some ds" "ds \<noteq> []"
      "length ds = 1 \<or> unat base ^ (length ds - 1) \<le> unat (x div base)"
      "set ds \<subseteq> (\<lambda>k. digits ! k) ` {..<unat base}"
      using less [of "x div base"] unat_div_less [OF assms] by blast
    have "unat base ^ length ds \<le> unat x"
    proof (cases "length ds = 1")
      case True
      then show ?thesis
        using False by (simp add: word_div_0)
    next
      case False
      then have "unat base ^ (length ds - 1) * unat base \<le> unat x div unat base * unat base"
        using ds(3) by (intro mult_right_mono) (simp_all add: unat_div_distrib)
      also have "\<dots> \<le> unat x"
        by (rule div_times_less_eq_dividend)
      finally show ?thesis
        using ds(2) by (cases ds) (simp_all add: mult.commute)
    qed
    then show ?thesis
      using printint_digits_step(1) [OF assms False] ds m by simp
  qed
qed

text \<open>The local array \<open>buf\<close> of \<open>printint\<close> has 16 bytes.\<close>

lemma printint_buf:
  assumes "base = 10 \<or> base = 16"
  shows "\<exists>ds. printint_digits base x = Some ds \<and> length ds \<le> 10"
proof -
  have b: "1 < base" "10 \<le> unat base"
    using assms by (auto simp: word_less_nat_alt)
  obtain ds where ds: "printint_digits base x = Some ds"
    "length ds = 1 \<or> unat base ^ (length ds - 1) \<le> unat x"
    using printint_digits_ok [OF b(1)] by blast
  have "length ds \<le> 10"
  proof (rule ccontr)
    assume l: "\<not> length ds \<le> 10"
    then have "(10 :: nat) ^ 10 \<le> 10 ^ (length ds - 1)"
      by (intro power_increasing) simp_all
    also have "\<dots> \<le> unat base ^ (length ds - 1)"
      using b(2) by (intro power_mono) simp_all
    also have "\<dots> \<le> unat x"
      using ds(2) l by simp
    finally show False
      using unat_bound [of x] by simp
  qed
  with ds(1) show ?thesis by blast
qed

definition dval :: "char \<Rightarrow> uint" where
  "dval c = of_char c - of_char CHR ''0''"

lemma digit_char:
  assumes "k < 10"
  shows "CHR ''0'' \<le> digits ! k \<and> digits ! k \<le> CHR ''9'' \<and> dval (digits ! k) = of_nat k"
proof -
  have "list_all (\<lambda>k. CHR ''0'' \<le> digits ! k \<and> digits ! k \<le> CHR ''9'' \<and> dval (digits ! k) = of_nat k)
      [0..<10]"
    by code_simp
  then show ?thesis
    using assms by (simp add: list_all_iff)
qed

lemma atoi_digits_foldl:
  "\<forall>c\<in>set ds. CHR ''0'' \<le> c \<and> c \<le> CHR ''9'' \<Longrightarrow>
     atoi_digits n ds = foldl (\<lambda>n c. n * 10 + dval c) n ds"
  by (induction ds arbitrary: n) (simp_all add: dval_def algebra_simps)

lemma printint_value:
  "printint_digits 10 x = Some ds \<Longrightarrow>
     foldl (\<lambda>n c. n * 10 + dval c) 0 (rev ds) = x \<and> (\<forall>c\<in>set ds. CHR ''0'' \<le> c \<and> c \<le> CHR ''9'')"
proof (induction "unat x" arbitrary: x ds rule: less_induct)
  case less
  have d: "CHR ''0'' \<le> digits ! unat (x mod 10) \<and> digits ! unat (x mod 10) \<le> CHR ''9'' \<and>
      dval (digits ! unat (x mod 10)) = x mod 10"
    using digit_char [of "unat (x mod 10)"] unat_mod_less [of 10 x] by (simp add: word_less_nat_alt)
  show ?case
  proof (cases "x div 10 = 0")
    case True
    then have "x = x mod 10"
      using div_mult_mod_eq [of x 10] by simp
    then show ?thesis
      using less.prems printint_digits_step(2) [of 10 x] True d by (auto simp: word_less_nat_alt)
  next
    case False
    then obtain es where es: "printint_digits 10 (x div 10) = Some es" "ds = digits ! unat (x mod 10) # es"
      using less.prems printint_digits_step(1) [of 10 x]
      by (auto simp: word_less_nat_alt bind_eq_Some_conv)
    have "foldl (\<lambda>n c. n * 10 + dval c) 0 (rev es) = x div 10 \<and>
        (\<forall>c\<in>set es. CHR ''0'' \<le> c \<and> c \<le> CHR ''9'')"
      using less.hyps [OF _ es(1)] unat_div_less [of 10 x] False by (simp add: word_less_nat_alt)
    then show ?thesis
      using d div_mult_mod_eq [of x 10] by (simp add: es(2))
  qed
qed

lemma digits_not_special:
  "CHR ''0'' \<le> c \<Longrightarrow> c \<le> CHR ''9'' \<Longrightarrow> c \<noteq> CHR '' '' \<and> c \<noteq> CHR ''+'' \<and> c \<noteq> CHR ''-''"
  by (auto simp: less_eq_char_def)

lemma atoi_plain:
  assumes "ds \<noteq> []" "\<forall>c\<in>set ds. CHR ''0'' \<le> c \<and> c \<le> CHR ''9''"
  shows "atoi ds = foldl (\<lambda>n c. n * 10 + dval c) 0 ds"
    "atoi (CHR ''-'' # ds) = - foldl (\<lambda>n c. n * 10 + dval c) 0 ds"
proof -
  obtain c cs where "ds = c # cs" "c \<noteq> CHR '' ''" "c \<noteq> CHR ''+''" "c \<noteq> CHR ''-''"
    using assms digits_not_special by (cases ds) auto
  then show "atoi ds = foldl (\<lambda>n c. n * 10 + dval c) 0 ds"
    using atoi_digits_foldl [OF assms(2), of 0] by (simp add: atoi_def)
  show "atoi (CHR ''-'' # ds) = - foldl (\<lambda>n c. n * 10 + dval c) 0 ds"
    using atoi_digits_foldl [OF assms(2), of 0] by (simp add: atoi_def)
qed

lemma concat_putc: "concat (map (putc fd) s) = map (Pair fd) s"
  by (induction s) (simp_all add: putc_def)

text \<open>
  C35. Printing with \<open>%d\<close> and reading back with \<open>atoi\<close> gives the same 32-bit integer, for every
  integer, the most negative one included.  The text goes to the given descriptor only and
  fits the 16-byte buffer of \<open>printint\<close>.
\<close>

theorem printf_atoi_roundtrip:
  "\<exists>out. printf fd m ''%d'' ap = Some out \<and> map fst out = replicate (length out) fd \<and>
     length out \<le> 11 \<and> atoi (map snd out) = ap 0"
proof -
  define x where "x = (if sint (ap 0) < 0 then - ap 0 else ap 0)"
  obtain ds where ds: "printint_digits 10 x = Some ds" "length ds \<le> 10"
    using printint_buf [of 10 x] by auto
  have "ds \<noteq> []"
    using printint_digits_ok [of 10 x] ds(1) by (auto simp: word_less_nat_alt)
  note v = printint_value [OF ds(1)]
  let ?s = "(if sint (ap 0) < 0 then ''-'' else []) @ rev ds"
  have "printf fd m ''%d'' ap = Some (map (Pair fd) ?s)"
    using ds(1) by (simp add: printf_def printf_conv_def printint_def Let_def x_def concat_putc)
  moreover have "atoi ?s = ap 0"
    using atoi_plain [of "rev ds"] v \<open>ds \<noteq> []\<close> by (auto simp: x_def)
  moreover have "map fst (map (Pair fd) ?s) = replicate (length (map (Pair fd) ?s)) fd"
    by (simp add: map_replicate_const o_def)
  moreover have "map snd (map (Pair fd) ?s) = ?s"
    by (simp add: o_def)
  ultimately show ?thesis
    using ds(2) by (intro exI [of _ "map (Pair fd) ?s"]) (simp only: length_map, simp)
qed

end
