(* ===== verification/Umalloc.thy ===== *)
theory Umalloc
  imports Prelude
begin

text \<open>
  umalloc.c, the memory allocator of user programs: a ring of free blocks in address order, each
  with a header of 8 bytes that holds the next block and the size in units of 8 bytes.

  The headers are the two functions \<open>hptr\<close> and \<open>hsize\<close> of the address.  The address \<open>base\<close> of the
  static header is an argument, and so is the system call \<open>sbrk\<close>, which works on the state \<open>os\<close> of
  the kernel.  The two loops give \<open>None\<close> if they do not end.
\<close>

section \<open>The code\<close>

record 'k uheap =
  hptr :: "uint \<Rightarrow> uint"
  hsize :: "uint \<Rightarrow> uint"
  freep :: uint
  os :: 'k

type_synonym 'k sbrk = "int \<Rightarrow> 'k \<Rightarrow> uint \<times> 'k"

partial_function (option) free_scan :: "'k uheap \<Rightarrow> uint \<Rightarrow> uint \<Rightarrow> uint option" where
  "free_scan st bp p =
     (if p < bp \<and> bp < hptr st p then Some p
      else if hptr st p \<le> p \<and> (p < bp \<or> bp < hptr st p) then Some p
      else free_scan st bp (hptr st p))"

definition ufree :: "uint \<Rightarrow> 'k uheap \<Rightarrow> 'k uheap option" where
  "ufree ap st =
     (let bp = ap - 8 in
      Option.bind (free_scan st bp (freep st)) (\<lambda>p.
      let nx = hptr st p;
          st = (if bp + 8 * hsize st bp = nx
                then st\<lparr>hsize := (hsize st)(bp := hsize st bp + hsize st nx), hptr := (hptr st)(bp := hptr st nx)\<rparr>
                else st\<lparr>hptr := (hptr st)(bp := nx)\<rparr>);
          st = (if p + 8 * hsize st p = bp
                then st\<lparr>hsize := (hsize st)(p := hsize st p + hsize st bp), hptr := (hptr st)(p := hptr st bp)\<rparr>
                else st\<lparr>hptr := (hptr st)(p := bp)\<rparr>) in
      Some (st\<lparr>freep := p\<rparr>)))"

definition morecore :: "'k sbrk \<Rightarrow> uint \<Rightarrow> 'k uheap \<Rightarrow> (uint \<times> 'k uheap) option" where
  "morecore sbrk nu st =
     (let nu = (if nu < 4096 then 4096 else nu); (p, k) = sbrk (sint (nu * 8)) (os st); st = st\<lparr>os := k\<rparr> in
      if p = - 1 then Some (0, st)
      else Option.bind (ufree (p + 8) (st\<lparr>hsize := (hsize st)(p := nu)\<rparr>)) (\<lambda>st. Some (freep st, st)))"

text \<open>The block found at \<open>p\<close>, after \<open>prevp\<close> in the ring: all of it, or its tail end.\<close>

definition malloc_take :: "uint \<Rightarrow> uint \<Rightarrow> uint \<Rightarrow> 'k uheap \<Rightarrow> uint \<times> 'k uheap" where
  "malloc_take nunits prevp p st =
     (if hsize st p = nunits then (p + 8, st\<lparr>hptr := (hptr st)(prevp := hptr st p), freep := prevp\<rparr>)
      else
        let n = hsize st p - nunits; q = p + 8 * n in
        (q + 8, st\<lparr>hsize := (hsize st)(p := n, q := nunits), freep := prevp\<rparr>))"

partial_function (option) malloc_loop :: "'k sbrk \<Rightarrow> uint \<Rightarrow> uint \<Rightarrow> uint \<Rightarrow> 'k uheap \<Rightarrow> (uint \<times> 'k uheap) option" where
  "malloc_loop sbrk nunits prevp p st =
     (if nunits \<le> hsize st p then Some (malloc_take nunits prevp p st)
      else if p = freep st then
        Option.bind (morecore sbrk nunits st) (\<lambda>(p, st).
        if p = 0 then Some (0, st) else malloc_loop sbrk nunits p (hptr st p) st)
      else malloc_loop sbrk nunits p (hptr st p) st)"

definition malloc :: "'k sbrk \<Rightarrow> uint \<Rightarrow> uint \<Rightarrow> 'k uheap \<Rightarrow> (uint \<times> 'k uheap) option" where
  "malloc sbrk base nbytes st =
     (let nunits = (nbytes + 8 - 1) div 8 + 1;
          st = (if freep st = 0 then st\<lparr>hptr := (hptr st)(base := base), freep := base, hsize := (hsize st)(base := 0)\<rparr> else st) in
      malloc_loop sbrk nunits (freep st) (hptr st (freep st)) st)"

section \<open>Rings\<close>

fun seg :: "(uint \<Rightarrow> uint) \<Rightarrow> uint \<Rightarrow> uint list \<Rightarrow> uint \<Rightarrow> bool" where
  "seg f p [] e \<longleftrightarrow> p = e"
| "seg f p (x # xs) e \<longleftrightarrow> p = x \<and> seg f (f x) xs e"

lemma seg_append: "seg f p (xs @ ys) e \<longleftrightarrow> (\<exists>q. seg f p xs q \<and> seg f q ys e)"
  by (induction xs arbitrary: p) auto

lemma seg_upd [simp]: "x \<notin> set xs \<Longrightarrow> seg (f(x := v)) p xs e \<longleftrightarrow> seg f p xs e"
  by (induction xs arbitrary: p) auto

text \<open>A ring has one beginning; following it from any of its nodes leads around it.\<close>

lemma seg_around:
  assumes "seg f b (xs @ p # ys) b"
  shows "seg f (f p) (ys @ xs) p" "f p = hd (ys @ [b])"
proof -
  have s: "seg f b xs p" "seg f (f p) ys b"
    using assms by (auto simp: seg_append)
  then show "seg f (f p) (ys @ xs) p"
    by (auto simp: seg_append)
  show "f p = hd (ys @ [b])"
    using s(2) by (cases ys) auto
qed

section \<open>The heap\<close>

abbreviation bend :: "'k uheap \<Rightarrow> uint \<Rightarrow> nat" where
  "bend st x \<equiv> unat x + 8 * unat (hsize st x)"

text \<open>
  The free blocks \<open>as\<close>, in address order behind \<open>base\<close>, and the blocks \<open>A\<close> in use, none of which
  overlap, below \<open>lim\<close>.
\<close>

definition heap_ok :: "uint \<Rightarrow> uint list \<Rightarrow> uint set \<Rightarrow> nat \<Rightarrow> 'k uheap \<Rightarrow> bool" where
  "heap_ok b as A lim st \<longleftrightarrow> seg (hptr st) b (b # as) b \<and> sorted_wrt (<) (b # as) \<and> hsize st b = 0 \<and> b \<noteq> 0 \<and>
     lim \<le> 2 ^ 31 \<and> set as \<inter> A = {} \<and>
     (\<forall>x\<in>set as \<union> A. 0 < hsize st x \<and> unat b + 8 \<le> unat x \<and> bend st x \<le> lim) \<and>
     (\<forall>x\<in>set as \<union> A. \<forall>y\<in>set as \<union> A. x \<noteq> y \<longrightarrow> bend st x \<le> unat y \<or> bend st y \<le> unat x)"

lemma heap_okD:
  assumes "heap_ok b as A lim st"
  shows "seg (hptr st) b (b # as) b" "sorted_wrt (<) (b # as)" "hsize st b = 0" "b \<noteq> 0" "lim \<le> 2 ^ 31" "set as \<inter> A = {}"
    "x \<in> set as \<union> A \<Longrightarrow> 0 < hsize st x \<and> unat b + 8 \<le> unat x \<and> bend st x \<le> lim"
    "x \<in> set as \<union> A \<Longrightarrow> y \<in> set as \<union> A \<Longrightarrow> x \<noteq> y \<Longrightarrow> bend st x \<le> unat y \<or> bend st y \<le> unat x"
  using assms unfolding heap_ok_def by blast+

lemma unat_units: "unat w \<le> 2 ^ 28 \<Longrightarrow> unat (8 * w) = 8 * unat w" for w :: uint
  by (simp add: unat_word_ariths)

lemma unat_plus_small: "unat x + unat y < 2 ^ 32 \<Longrightarrow> unat (x + y) = unat x + unat y" for x y :: uint
  by (simp add: unat_word_ariths)

lemma block_end:
  assumes "heap_ok b as A lim st" "x \<in> set as \<union> A"
  shows "unat (x + 8 * hsize st x) = bend st x" "b < x" "x \<noteq> 0" "unat x < bend st x" "unat (hsize st x) \<le> 2 ^ 28"
proof -
  note h = heap_okD(5) [OF assms(1)] heap_okD(7) [OF assms]
  show sz: "unat (hsize st x) \<le> 2 ^ 28"
    using h by simp
  then have "unat (8 * hsize st x) = 8 * unat (hsize st x)"
    by (simp add: unat_word_ariths)
  then show "unat (x + 8 * hsize st x) = bend st x"
    using h by (simp add: unat_word_ariths)
  show "b < x" "x \<noteq> 0" "unat x < bend st x"
    using h by (auto simp: word_less_nat_alt)
qed

lemma block_end_eq:
  assumes "heap_ok b as A lim st" "x \<in> set as \<union> A"
  shows "x + 8 * hsize st x = y \<longleftrightarrow> bend st x = unat y"
  using block_end(1) [OF assms] by (metis unsigned_word_eqI)

section \<open>Giving blocks back\<close>

text \<open>
  What \<open>ufree\<close> does, in three steps: the block is linked into the ring, joined with its successor
  if they touch, and its predecessor joined with it.
\<close>

definition link :: "uint \<Rightarrow> uint \<Rightarrow> 'k uheap \<Rightarrow> 'k uheap" where
  "link p x st = st\<lparr>hptr := (hptr st)(x := hptr st p, p := x)\<rparr>"

definition join :: "uint \<Rightarrow> 'k uheap \<Rightarrow> 'k uheap" where
  "join x st = (let y = hptr st x in
     if x + 8 * hsize st x = y
     then st\<lparr>hsize := (hsize st)(x := hsize st x + hsize st y), hptr := (hptr st)(x := hptr st y)\<rparr> else st)"

lemma sorted_distinct: "sorted_wrt (<) xs \<Longrightarrow> distinct xs" for xs :: "uint list"
  by (induction xs) auto

lemma link_ok:
  assumes ok: "heap_ok b as A lim st" and x: "x \<in> A" and sp: "b # as = xs @ p # ys" "b # cs = xs @ p # x # ys"
    and between: "\<forall>y\<in>set xs. y < x" "p < x" "\<forall>y\<in>set ys. x < y"
  shows "heap_ok b cs (A - {x}) lim (link p x st)"
proof -
  note h = heap_okD [OF ok]
  have srt: "sorted_wrt (<) (xs @ p # ys)"
    using h(2) sp(1) by simp
  then have d: "p \<notin> set xs" "p \<notin> set ys" "x \<notin> set xs" "x \<notin> set ys" "x \<noteq> p"
    using sorted_distinct between by fastforce+
  have "seg (hptr st) b (xs @ p # ys) b"
    using h(1) sp(1) by simp
  then have "seg ((hptr st)(x := hptr st p, p := x)) b (xs @ p # x # ys) b"
    using d by (auto simp: seg_append)
  moreover have "sorted_wrt (<) (xs @ p # x # ys)"
    using srt between by (auto simp: sorted_wrt_append)
  moreover have s: "set cs = insert x (set as)"
  proof -
    have "distinct (b # as)" "distinct (b # cs)"
      using sorted_distinct [OF h(2)] sorted_distinct [OF calculation(2)] sp(2) by simp_all
    moreover have "set (b # cs) = insert x (set (b # as))"
      unfolding sp by auto
    moreover have "x \<noteq> b"
      using h(7) [of x] x by auto
    ultimately show ?thesis
      by auto
  qed
  ultimately show ?thesis
    using h(3-6) h(7,8) x unfolding heap_ok_def sp(2) [symmetric] s
    by (auto simp: link_def)
qed

lemma join_ok:
  assumes ok: "heap_ok b as A lim st" and sp: "b # as = xs @ x # y # ys" "b # cs = xs @ x # ys" and x: "x \<in> set as"
    and touch: "bend st x = unat y"
  shows "heap_ok b cs A lim (join x st)" "hsize (join x st) z = (if z = x then hsize st x + hsize st y else hsize st z)"
    "unat (hsize st x + hsize st y) = unat (hsize st x) + unat (hsize st y)"
proof -
  note h = heap_okD [OF ok]
  have srt: "sorted_wrt (<) (xs @ x # y # ys)"
    using h(2) sp(1) by simp
  note d = sorted_distinct [OF this]
  have sg: "seg (hptr st) b (xs @ x # y # ys) b"
    using h(1) sp(1) by simp
  then have nx: "hptr st x = y"
    by (auto simp: seg_append)
  have y: "y \<in> set as"
    using sp(1) d by (cases xs) auto
  have s: "set cs = set as - {y}"
  proof -
    have "set (b # cs) = set (b # as) - {y}"
      using d unfolding sp by auto
    then have e: "insert b (set cs) = insert b (set as) - {y}"
      by simp
    have "distinct (b # cs)"
      unfolding sp(2) using d by simp
    then have nb: "b \<notin> set as" "b \<notin> set cs"
      using sorted_distinct [OF h(2)] by simp_all
    have "set cs = insert b (set cs) - {b}"
      using nb(2) by simp
    also have "\<dots> = set as - {y}"
      unfolding e using nb(1) by auto
    finally show ?thesis .
  qed
  have "x + 8 * hsize st x = y"
    using block_end_eq [OF ok, of x y] x touch by simp
  then have j: "join x st = st\<lparr>hsize := (hsize st)(x := hsize st x + hsize st y), hptr := (hptr st)(x := hptr st y)\<rparr>"
    by (simp add: join_def nx)
  then show "hsize (join x st) z = (if z = x then hsize st x + hsize st y else hsize st z)"
    by simp
  show add: "unat (hsize st x + hsize st y) = unat (hsize st x) + unat (hsize st y)"
    using block_end(5) [OF ok, of x] block_end(5) [OF ok, of y] x y by (simp add: unat_word_ariths)
  have e: "unat x + 8 * unat (hsize st x + hsize st y) = bend st y"
    using add touch by simp
  have ne: "x \<noteq> y" "x \<noteq> b" "x \<notin> A"
    using d h(6) x sorted_distinct [OF h(2)] by auto
  have away: "bend st y \<le> unat z \<or> bend st z \<le> unat x" if "z \<in> set as \<union> A" "z \<noteq> x" "z \<noteq> y" for z
    using h(8) [of x z] h(8) [of y z] block_end(4) [OF ok that(1)] that x y touch by fastforce
  have pos: "0 < hsize st x + hsize st y"
    using h(7) [of x] x add by (simp add: word_less_nat_alt)
  have sg': "seg ((hptr st)(x := hptr st y)) b (xs @ x # ys) b"
    using sg d by (auto simp: seg_append)
  have cA: "set cs \<inter> A = {}"
    using h(6) s by blast
  have "sorted_wrt (<) (xs @ x # ys)"
    using srt by (auto simp: sorted_wrt_append)
  moreover have "bend (join x st) u \<le> unat v \<or> bend (join x st) v \<le> unat u"
    if "u \<in> set cs \<union> A" "v \<in> set cs \<union> A" "u \<noteq> v" for u v
  proof -
    have uv: "u \<in> set as \<union> A" "v \<in> set as \<union> A" "u \<noteq> y" "v \<noteq> y"
      using that(1,2) y h(6) unfolding s by blast+
    show ?thesis
      using that(3) away [OF uv(1)] away [OF uv(2)] h(8) [OF uv(1,2)] uv(3,4) e unfolding j by auto
  qed
  moreover have "0 < hsize (join x st) z \<and> unat b + 8 \<le> unat z \<and> bend (join x st) z \<le> lim" if "z \<in> set cs \<union> A" for z
    using that h(7) [of z] h(7) [of y] y pos e unfolding s j by (cases "z = x") auto
  ultimately show "heap_ok b cs A lim (join x st)"
    unfolding heap_ok_def sp(2) using sg' h(3-5) ne(2) cA by (simp add: j)
qed

text \<open>The search of \<open>ufree\<close> finds the place of the block in the order of addresses.\<close>

lemma scan_below:
  assumes "seg (hptr st) q zs p" "sorted_wrt (<) (zs @ [p])" "\<forall>y\<in>set zs. y < bp" "p < bp"
  shows "free_scan st bp q = free_scan st bp p"
  using assms
proof (induction zs arbitrary: q)
  case (Cons z zs)
  have "z < hptr st z" "hptr st z < bp"
    using Cons.prems by (cases zs; auto)+
  then have "free_scan st bp z = free_scan st bp (hptr st z)"
    using free_scan.simps [of st bp z] by auto
  then show ?case
    using Cons.IH [of "hptr st z"] Cons.prems by simp
qed simp

lemma scan_above:
  assumes "seg (hptr st) q zs b" "sorted_wrt (<) zs" "\<forall>y\<in>set zs. bp < y" "b < bp"
  shows "free_scan st bp q = free_scan st bp b"
  using assms
proof (induction zs arbitrary: q)
  case (Cons z zs)
  have "z < hptr st z \<or> hptr st z = b" "bp < z"
    using Cons.prems by (cases zs; auto)+
  then have "free_scan st bp z = free_scan st bp (hptr st z)"
    using free_scan.simps [of st bp z] Cons.prems(4) by auto
  then show ?case
    using Cons.IH [of "hptr st z"] Cons.prems by simp
qed simp

lemma free_scan_ok:
  assumes ok: "heap_ok b as A lim st" and bp: "bp \<in> A" and q: "q \<in> set (b # as)"
  obtains xs p ys where "b # as = xs @ p # ys" "free_scan st bp q = Some p" "\<forall>y\<in>set xs. y < bp" "p < bp" "\<forall>y\<in>set ys. bp < y"
proof -
  note h = heap_okD [OF ok]
  have b: "b < bp"
    using block_end(2) [OF ok, of bp] bp by simp
  let ?l = "b # as"
  have srt: "sorted_wrt (<) ?l" and ring: "seg (hptr st) b ?l b"
    using h(1,2) by auto
  have nb: "bp \<notin> set ?l"
    using bp h(6) b by auto
  have "takeWhile (\<lambda>y. y < bp) ?l \<noteq> []"
    using b by simp
  then obtain xs p where xp: "takeWhile (\<lambda>y. y < bp) ?l = xs @ [p]"
    by (metis rev_exhaust)
  define ys where "ys = dropWhile (\<lambda>y. y < bp) ?l"
  have sp: "?l = xs @ p # ys"
    using takeWhile_dropWhile_id [of "\<lambda>y. y < bp" ?l] unfolding xp ys_def by simp
  have lo: "\<forall>y\<in>set xs. y < bp" "p < bp"
    using set_takeWhileD [of _ "\<lambda>y. y < bp" ?l] unfolding xp by auto
  have hi: "\<forall>y\<in>set ys. bp < y"
  proof (cases ys)
    case (Cons y zs)
    then have "\<not> y < bp"
      using hd_dropWhile [of "\<lambda>y. y < bp" ?l] unfolding ys_def [symmetric] by simp
    then have "bp < y"
      using nb unfolding sp Cons by auto
    moreover have "\<forall>z\<in>set zs. y < z"
      using srt unfolding sp Cons by (auto simp: sorted_wrt_append)
    ultimately show ?thesis
      using Cons by auto
  qed simp
  have rs: "seg (hptr st) b xs p" "seg (hptr st) (hptr st p) ys b"
    using ring unfolding sp by (auto simp: seg_append)
  have bl: "\<forall>y\<in>set ?l. b \<le> y"
    using srt by auto
  have "free_scan st bp p = Some p"
  proof (cases ys)
    case Nil
    then have "hptr st p = b" "b \<le> p"
      using rs(2) bl unfolding sp by auto
    then show ?thesis
      using free_scan.simps [of st bp p] lo(2) by auto
  next
    case (Cons y zs)
    then have "bp < hptr st p"
      using rs(2) hi by auto
    then show ?thesis
      using free_scan.simps [of st bp p] lo(2) by auto
  qed
  moreover have fb: "free_scan st bp b = free_scan st bp p"
    by (rule scan_below [OF rs(1) _ lo]) (use srt in \<open>auto simp: sp sorted_wrt_append\<close>)
  have "free_scan st bp q = free_scan st bp p"
  proof -
    have "q \<in> set xs \<union> {p} \<union> set ys"
      using q unfolding sp by auto
    then consider "q \<in> set xs" | "q = p" | "q \<in> set ys"
      by blast
    then show ?thesis
    proof cases
      case 1
      then obtain us vs where u: "xs = us @ q # vs"
        by (meson split_list)
      have "seg (hptr st) q (q # vs) p"
        using rs(1) unfolding u by (auto simp: seg_append)
      moreover have "sorted_wrt (<) ((q # vs) @ [p])"
        using srt unfolding sp u by (auto simp: sorted_wrt_append)
      ultimately show ?thesis
        by (rule scan_below) (use lo u in auto)
    next
      case 3
      then obtain us vs where u: "ys = us @ q # vs"
        by (meson split_list)
      have "seg (hptr st) q (q # vs) b"
        using rs(2) unfolding u by (auto simp: seg_append)
      moreover have "sorted_wrt (<) (q # vs)"
        using srt unfolding sp u by (auto simp: sorted_wrt_append)
      ultimately have "free_scan st bp q = free_scan st bp b"
        by (rule scan_above) (use hi u b in auto)
      then show ?thesis
        using fb by simp
    qed simp
  qed
  ultimately show ?thesis
    using that [OF sp _ lo hi] by simp
qed

text \<open>\<open>ufree\<close> gives a block back to the ring.\<close>

lemma ufree_steps:
  assumes "free_scan st bp (freep st) = Some p" "hptr st p \<noteq> p \<or> bp + 8 * hsize st bp \<noteq> hptr st p" "hptr st p \<noteq> bp" "p \<noteq> bp"
  shows "ufree (bp + 8) st = Some ((join p (join bp (link p bp st)))\<lparr>freep := p\<rparr>)"
  using assms by (auto simp: ufree_def Let_def join_def link_def fun_upd_twist)

lemma heap_ok_freep [simp]: "heap_ok b as A lim (st\<lparr>freep := p\<rparr>) = heap_ok b as A lim st"
  by (simp add: heap_ok_def)

lemma link_rest: "freep (link p x st) = freep st" "os (link p x st) = os st" "hsize (link p x st) = hsize st"
  by (simp_all add: link_def)

lemma join_rest: "freep (join x st) = freep st" "os (join x st) = os st" "z \<noteq> x \<Longrightarrow> hsize (join x st) z = hsize st z"
  "z \<noteq> x \<Longrightarrow> hptr (join x st) z = hptr st z"
  by (simp_all add: join_def Let_def)

lemma join_id: "x + 8 * hsize st x \<noteq> hptr st x \<Longrightarrow> join x st = st"
  by (simp add: join_def)

lemma join_maybe:
  assumes ok: "heap_ok b as A lim st" and sp: "b # as = xs @ x # zs" "x \<noteq> b"
  obtains cs ws where "b # cs = xs @ x # ws" "heap_ok b cs A lim (join x st)" "hsize st x \<le> hsize (join x st) x"
proof -
  have x: "x \<in> set as"
    using sp by (cases xs) auto
  show ?thesis
  proof (cases "x + 8 * hsize st x = hptr st x")
    case False
    then show ?thesis
      using that [OF sp(1)] ok by (simp add: join_def)
  next
    case True
    have "seg (hptr st) b (xs @ x # zs) b"
      using heap_okD(1) [OF ok] sp(1) by simp
    then have nx: "hptr st x = hd (zs @ [b])"
      by (rule seg_around(2))
    have touch: "bend st x = unat (hptr st x)"
      using block_end_eq [OF ok, of x "hptr st x"] x True by simp
    have "zs \<noteq> []"
    proof
      assume "zs = []"
      then have "unat x < unat b"
        using nx touch block_end(4) [OF ok, of x] x by simp
      then show False
        using block_end(2) [OF ok, of x] x by (simp add: word_less_nat_alt)
    qed
    then obtain y ys where z: "zs = y # ys"
      by (cases zs) auto
    obtain cs where cs: "b # cs = xs @ x # ys"
      using sp by (cases xs) auto
    have y: "bend st x = unat y" "b # as = xs @ x # y # ys"
      using touch nx z sp(1) by simp_all
    note j = join_ok [OF ok y(2) cs x y(1)]
    have "hsize st x \<le> hsize st x + hsize st y"
      using j(3) by (simp add: word_le_nat_alt)
    then show ?thesis
      using that [OF cs j(1)] j(2) [of x] by simp
  qed
qed

lemma ufree_ok:
  assumes ok: "heap_ok b as A lim st" and bp: "bp \<in> A" and fp: "freep st \<in> set (b # as)"
  obtains cs st' where "ufree (bp + 8) st = Some st'" "heap_ok b cs (A - {bp}) lim st'" "freep st' \<in> set (b # cs)"
    "os st' = os st" "\<forall>x\<in>A - {bp}. hsize st' x = hsize st x" "\<exists>x\<in>set cs. hsize st bp \<le> hsize st' x"
proof -
  note h = heap_okD [OF ok]
  obtain xs p ys where s: "b # as = xs @ p # ys" "free_scan st bp (freep st) = Some p" "\<forall>y\<in>set xs. y < bp" "p < bp"
    "\<forall>y\<in>set ys. bp < y"
    by (rule free_scan_ok [OF ok bp fp])
  note e = block_end [OF ok, of bp]
  have "seg (hptr st) b (xs @ p # ys) b"
    using h(1) s(1) by simp
  then have nx: "hptr st p = hd (ys @ [b])"
    by (rule seg_around(2))
  have b: "b < bp" "bp \<noteq> b" "p \<noteq> bp" "hptr st p \<noteq> bp"
    using e(2) bp s(4,5) nx by (cases ys; auto)+
  have self: "hptr st p \<noteq> p \<or> bp + 8 * hsize st bp \<noteq> hptr st p"
  proof (rule disjCI)
    assume "\<not> bp + 8 * hsize st bp \<noteq> hptr st p"
    then have "unat bp < unat (hptr st p)"
      using e(1,4) bp by auto
    then show "hptr st p \<noteq> p"
      using s(4) by (auto simp: word_less_nat_alt)
  qed
  note u = ufree_steps [OF s(2) self b(4,3)]
  obtain cs1 where c1: "b # cs1 = xs @ p # bp # ys"
    using s(1) by (cases xs) auto
  have l: "heap_ok b cs1 (A - {bp}) lim (link p bp st)"
    by (rule link_ok [OF ok bp s(1) c1 s(3-5)])
  obtain cs2 zs where c2: "b # cs2 = (xs @ [p]) @ bp # zs" "heap_ok b cs2 (A - {bp}) lim (join bp (link p bp st))"
    "hsize (link p bp st) bp \<le> hsize (join bp (link p bp st)) bp"
    by (rule join_maybe [OF l, of "xs @ [p]" bp ys]) (use c1 b(2) in auto)
  let ?s = "join bp (link p bp st)"
  have np: "hptr ?s p = bp"
    using b(3) by (simp add: join_rest link_def)
  have sz: "hsize st bp \<le> hsize ?s bp" "hsize ?s p = hsize st p"
    using c2(3) b(3) by (simp_all add: link_def join_rest)
  have pA: "p \<notin> A - {bp}" "p \<in> set (b # cs2)" "bp \<in> set cs2"
  proof -
    show "p \<in> set (b # cs2)"
      unfolding c2(1) by simp
    have "bp \<in> set (b # cs2)"
      unfolding c2(1) by simp
    then show "bp \<in> set cs2"
      using b(2) by simp
    have "p \<in> set (b # as)"
      unfolding s(1) by simp
    then show "p \<notin> A - {bp}"
      using h(6) block_end(2) [OF ok, of p] by auto
  qed
  have keep: "hsize (join p ?s) x = hsize st x" if "x \<in> A - {bp}" for x
  proof -
    have "x \<noteq> p" "x \<noteq> bp"
      using that pA(1) by auto
    then show ?thesis
      by (simp add: join_rest link_def)
  qed
  show ?thesis
  proof (cases "p = b \<or> p + 8 * hsize ?s p \<noteq> bp")
    case True
    have j: "join p ?s = ?s"
    proof (rule join_id)
      have "p + 8 * hsize ?s p \<noteq> bp" if "p = b"
        using that sz(2) h(3) b(2) by simp
      then show "p + 8 * hsize ?s p \<noteq> hptr ?s p"
        unfolding np using True by blast
    qed
    show ?thesis
      by (rule that [OF u [unfolded j], of cs2])
        (use c2(2) pA(2,3) sz(1) keep [unfolded j] in \<open>auto simp: join_rest link_rest\<close>)
  next
    case False
    obtain cs ws where c: "b # cs = xs @ p # ws" "heap_ok b cs (A - {bp}) lim (join p ?s)"
      by (rule join_maybe [OF c2(2), of xs p "bp # zs"]) (use c2(1) False in auto)
    have p: "p \<in> set cs2" "p \<in> set cs"
      using pA(2) False c(1) by (auto, cases xs) auto
    have "b # cs2 = xs @ p # bp # zs" "bend ?s p = unat bp"
      using c2(1) block_end_eq [OF c2(2), of p bp] p(1) False by auto
    moreover obtain cs' where "b # cs' = xs @ p # zs"
      using c2(1) by (cases xs) auto
    ultimately have "hsize (join p ?s) p = hsize ?s p + hsize ?s bp" "unat (hsize ?s p + hsize ?s bp) = unat (hsize ?s p) + unat (hsize ?s bp)"
      using join_ok(2,3) [OF c2(2), of xs p bp zs cs'] p(1) by auto
    then have "hsize st bp \<le> hsize (join p ?s) p"
      using sz(1) by (simp add: word_le_nat_alt)
    then show ?thesis
      by (intro that [OF u, of cs])
        (use c p(2) keep in \<open>auto simp: join_rest link_rest\<close>)
  qed
qed

section \<open>Taking blocks\<close>

lemma take_whole:
  assumes ok: "heap_ok b as A lim st" and sp: "b # as = us @ prev # x # vs" "b # cs = us @ prev # vs"
  shows "heap_ok b cs (insert x A) lim (st\<lparr>hptr := (hptr st)(prev := hptr st x)\<rparr>)" "x \<in> set as"
proof -
  note h = heap_okD [OF ok]
  have srt: "sorted_wrt (<) (us @ prev # x # vs)" and sg: "seg (hptr st) b (us @ prev # x # vs) b"
    using h(1,2) sp(1) by simp_all
  note d = sorted_distinct [OF srt]
  show x: "x \<in> set as"
    using sp(1) d by (cases us) auto
  have nb: "b \<notin> set as" "b \<notin> set cs"
  proof -
    have "distinct (b # cs)"
      unfolding sp(2) using d by simp
    then show "b \<notin> set as" "b \<notin> set cs"
      using sorted_distinct [OF h(2)] by simp_all
  qed
  have "set (b # cs) = set (b # as) - {x}"
    using d unfolding sp by auto
  then have e: "insert b (set cs) = insert b (set as) - {x}"
    by simp
  have "set cs = insert b (set cs) - {b}"
    using nb(2) by simp
  also have "\<dots> = set as - {x}"
    unfolding e using nb(1) by auto
  finally have s: "set cs = set as - {x}" .
  have "seg ((hptr st)(prev := hptr st x)) b (us @ prev # vs) b"
    using sg d by (auto simp: seg_append)
  moreover have "sorted_wrt (<) (us @ prev # vs)"
    using srt by (auto simp: sorted_wrt_append)
  moreover have "set cs \<union> insert x A = set as \<union> A" "set cs \<inter> insert x A = {}"
    using x h(6) s by blast+
  ultimately show "heap_ok b cs (insert x A) lim (st\<lparr>hptr := (hptr st)(prev := hptr st x)\<rparr>)"
    using ok unfolding heap_ok_def sp(2) by simp
qed

lemma take_part:
  assumes ok: "heap_ok b as A lim st" and x: "x \<in> set as" and n: "0 < n" "n < hsize st x"
    and q: "q = x + 8 * (hsize st x - n)"
  shows "heap_ok b as (insert q A) lim (st\<lparr>hsize := (hsize st)(x := hsize st x - n, q := n)\<rparr>)" "q \<notin> set as \<union> A"
proof -
  note h = heap_okD [OF ok]
  let ?m = "hsize st x - n" and ?t = "st\<lparr>hsize := (hsize st)(x := hsize st x - n, q := n)\<rparr>"
  note bx = block_end [OF ok, of x]
  have m: "unat ?m = unat (hsize st x) - unat n"
    by (rule unat_sub [OF less_imp_le [OF n(2)]])
  have nn: "0 < unat n" "unat n < unat (hsize st x)"
    using n by (simp_all add: word_less_nat_alt unat_gt_0)
  have lim: "bend st x \<le> 2 ^ 31"
    using h(5) h(7) [of x] x by simp
  have "unat (8 * ?m) = 8 * unat ?m"
    by (rule unat_units) (use bx(5) x m in simp)
  moreover have "unat (x + 8 * ?m) = unat x + unat (8 * ?m)"
    by (rule unat_plus_small) (use lim m calculation in simp)
  ultimately have uq: "unat q = unat x + 8 * unat ?m"
    unfolding q by simp
  have eq: "unat q + 8 * unat n = bend st x" "unat x < unat q"
    using uq m nn by simp_all
  have outside: "bend st y \<le> unat x \<or> bend st x \<le> unat y" if "y \<in> set as \<union> A" "y \<noteq> x" for y
    using h(8) [of x y] that x by blast
  show qn: "q \<notin> set as \<union> A"
  proof
    assume a: "q \<in> set as \<union> A"
    have "q \<noteq> x"
      using eq(2) by auto
    then show False
      using outside [OF a] block_end(4) [OF ok a] eq nn by auto
  qed
  have xq: "x \<noteq> q"
    using eq(2) by auto
  have bt: "bend ?t x = unat q" "bend ?t q = bend st x" "y \<noteq> x \<Longrightarrow> y \<noteq> q \<Longrightarrow> bend ?t y = bend st y" for y
    using xq uq eq by simp_all
  have "bend ?t u \<le> unat v \<or> bend ?t v \<le> unat u" if uv: "u \<in> insert q (set as \<union> A)" "v \<in> insert q (set as \<union> A)" "u \<noteq> v" for u v
  proof -
    have far: "bend ?t y \<le> unat x \<and> bend ?t y \<le> unat q \<or> bend st x \<le> unat y \<and> bend ?t x \<le> unat y" if "y \<in> set as \<union> A" "y \<noteq> x" for y
      using outside [OF that] bt qn that eq nn by (cases "y = q") auto
    consider "u = x" "v = q" | "u = q" "v = x" | "u \<in> {x, q}" "v \<in> set as \<union> A" "v \<noteq> x" | "v \<in> {x, q}" "u \<in> set as \<union> A" "u \<noteq> x"
      | "u \<in> set as \<union> A" "v \<in> set as \<union> A" "u \<notin> {x, q}" "v \<notin> {x, q}"
      using uv by blast
    then show ?thesis
    proof cases
      case 3
      then show ?thesis using far [OF 3(2,3)] bt by auto
    next
      case 4
      then show ?thesis using far [OF 4(2,3)] bt by auto
    next
      case 5
      then show ?thesis using h(8) [OF 5(1,2) uv(3)] bt(3) by simp
    qed (use bt in auto)
  qed
  moreover have "0 < hsize ?t y \<and> unat b + 8 \<le> unat y \<and> bend ?t y \<le> lim" if yi: "y \<in> insert q (set as \<union> A)" for y
  proof -
    consider "y = q" | "y = x" | "y \<in> set as \<union> A" "y \<noteq> q" "y \<noteq> x"
      using yi by blast
    then show ?thesis
    proof cases
      case 1
      then show ?thesis using bt(2) n(1) h(7) [of x] x eq(2) by auto
    next
      case 2
      then show ?thesis using bt(1) h(7) [of x] x eq nn m xq by (auto simp: word_less_nat_alt)
    next
      case 3
      then show ?thesis using h(7) [OF 3(1)] by simp
    qed
  qed
  moreover have "hsize ?t b = 0"
  proof -
    have "b \<noteq> x" "b \<noteq> q"
      using bx(2) x eq(2) by (auto simp: word_less_nat_alt)
    then show ?thesis
      using h(3) by simp
  qed
  ultimately show "heap_ok b as (insert q A) lim ?t"
    unfolding heap_ok_def using h(1,2,4,5,6) qn by simp
qed

lemma malloc_take_ok:
  assumes ok: "heap_ok b as A lim st" and pr: "prev \<in> set (b # as)" "hptr st prev = x" "n \<le> hsize st x" "x \<in> set (b # as)" "0 < n"
  obtains cs hd' st' where "malloc_take n prev x st = (hd' + 8, st')" "heap_ok b cs (insert hd' A) lim st'" "hd' \<notin> A"
    "freep st' \<in> set (b # cs)" "os st' = os st" "hsize st' hd' = n" "\<forall>y\<in>A. hsize st' y = hsize st y"
proof -
  note h = heap_okD [OF ok]
  have x: "x \<in> set as" "x \<noteq> b"
    using pr(3,4,5) h(3) by auto
  obtain us ws where "b # as = us @ prev # ws"
    using pr(1) by (meson split_list)
  moreover have "hptr st prev = hd (ws @ [b])"
    using seg_around(2) [of "hptr st" b us prev ws] h(1) calculation by simp
  ultimately obtain vs where sp: "b # as = us @ prev # x # vs"
    using pr(2) x(2) by (cases ws) auto
  have xA: "x \<notin> A"
    using x(1) h(6) by blast
  show ?thesis
  proof (cases "hsize st x = n")
    case True
    obtain cs where cs: "b # cs = us @ prev # vs"
      using sp by (cases us) auto
    have "prev \<in> set (b # cs)"
      unfolding cs by simp
    then show ?thesis
      using take_whole(1) [OF ok sp cs] True xA that [of x _ cs] by (simp add: malloc_take_def)
  next
    case False
    define q where "q = x + 8 * (hsize st x - n)"
    have lt: "n < hsize st x"
      using False pr(3) by simp
    note t = take_part [OF ok x(1) pr(5) lt q_def]
    have "malloc_take n prev x st = (q + 8, st\<lparr>hsize := (hsize st)(x := hsize st x - n, q := n), freep := prev\<rparr>)"
      using False by (simp add: malloc_take_def Let_def q_def)
    moreover have "y \<noteq> x \<and> y \<noteq> q" if "y \<in> A" for y
      using that xA t(2) by auto
    ultimately show ?thesis
      using t pr(1) that [of q "st\<lparr>hsize := (hsize st)(x := hsize st x - n, q := n), freep := prev\<rparr>" as] by simp
  qed
qed

text \<open>
  The search of \<open>malloc\<close> goes around the ring once: it stops at a block that is large enough, or
  asks for more memory when there is none.
\<close>

lemma loop_scan:
  assumes "seg (hptr st) p zs (freep st)" "freep st \<notin> set zs" "hptr st prev = p"
  shows "(\<exists>pr x. pr \<in> insert prev (set zs) \<and> x \<in> insert (freep st) (set zs) \<and> hptr st pr = x \<and> n \<le> hsize st x \<and>
      malloc_loop sbrk n prev p st = Some (malloc_take n pr x st)) \<or>
    (malloc_loop sbrk n prev p st = Option.bind (morecore sbrk n st) (\<lambda>(p, st).
        if p = 0 then Some (0, st) else malloc_loop sbrk n p (hptr st p) st) \<and>
      (\<forall>x\<in>insert (freep st) (set zs). hsize st x < n))"
  using assms
proof (induction zs arbitrary: prev p)
  case Nil
  then show ?case
    using malloc_loop.simps [of sbrk n prev p st] by (cases "n \<le> hsize st p") auto
next
  case (Cons z zs)
  have z: "p = z" "p \<noteq> freep st"
    using Cons.prems by auto
  show ?case
  proof (cases "n \<le> hsize st p")
    case True
    then show ?thesis
      using malloc_loop.simps [of sbrk n prev p st] Cons.prems(3) z(1)
      by (intro disjI1 exI [of _ prev] exI [of _ p]) simp
  next
    case False
    then have e: "malloc_loop sbrk n prev p st = malloc_loop sbrk n z (hptr st z) st" "hsize st z < n"
      using malloc_loop.simps [of sbrk n prev p st] z by auto
    have "seg (hptr st) (hptr st z) zs (freep st)" "freep st \<notin> set zs"
      using Cons.prems by auto
    from Cons.IH [OF this refl] show ?thesis
      unfolding e(1) using e(2) by fastforce
  qed
qed

lemma loop_ring:
  assumes ok: "heap_ok b as A lim st" and fp: "freep st \<in> set (b # as)"
  shows "(\<exists>pr x. pr \<in> set (b # as) \<and> x \<in> set (b # as) \<and> hptr st pr = x \<and> n \<le> hsize st x \<and>
      malloc_loop sbrk n (freep st) (hptr st (freep st)) st = Some (malloc_take n pr x st)) \<or>
    (malloc_loop sbrk n (freep st) (hptr st (freep st)) st = Option.bind (morecore sbrk n st) (\<lambda>(p, st).
        if p = 0 then Some (0, st) else malloc_loop sbrk n p (hptr st p) st) \<and>
      (\<forall>x\<in>set (b # as). hsize st x < n))"
proof -
  note h = heap_okD [OF ok]
  obtain xs ys where sp: "b # as = xs @ freep st # ys"
    using fp by (meson split_list)
  have "seg (hptr st) (hptr st (freep st)) (ys @ xs) (freep st)"
    using seg_around(1) [of "hptr st" b xs "freep st" ys] h(1) sp by simp
  moreover have "freep st \<notin> set (ys @ xs)" "set (b # as) = insert (freep st) (set (ys @ xs))"
    using sorted_distinct [OF h(2)] unfolding sp by auto
  ultimately show ?thesis
    using loop_scan [of st "hptr st (freep st)" "ys @ xs" "freep st" n sbrk] by simp
qed

text \<open>What \<open>malloc\<close> relies on of \<open>sbrk\<close>: it moves the end of the memory up and returns the old end, or -1.\<close>

definition sbrk_ok :: "('k \<Rightarrow> nat) \<Rightarrow> 'k sbrk \<Rightarrow> bool" where
  "sbrk_ok brk sbrk \<longleftrightarrow> (\<forall>n k p k'. 0 \<le> n \<and> sbrk n k = (p, k') \<longrightarrow>
     p = - 1 \<and> brk k' = brk k \<or> unat p = brk k \<and> brk k' = brk k + nat n \<and> brk k' \<le> 2 ^ 31)"

definition heap_at :: "('k \<Rightarrow> nat) \<Rightarrow> uint \<Rightarrow> uint list \<Rightarrow> uint set \<Rightarrow> 'k uheap \<Rightarrow> bool" where
  "heap_at brk b as A st \<longleftrightarrow> heap_ok b as A (brk (os st)) st \<and> freep st \<in> set (b # as) \<and> unat b + 8 \<le> brk (os st)"

lemma heap_grow:
  assumes ok: "heap_ok b as A lim st" and lim: "unat b + 8 \<le> lim" "lim + 8 * unat m \<le> 2 ^ 31" and p: "unat p = lim" and m: "0 < m"
  shows "heap_ok b as (insert p A) (lim + 8 * unat m) (st\<lparr>os := k, hsize := (hsize st)(p := m)\<rparr>)" "p \<notin> set as \<union> A"
proof -
  note h = heap_okD [OF ok]
  let ?t = "st\<lparr>os := k, hsize := (hsize st)(p := m)\<rparr>"
  have below: "unat x < lim" if "x \<in> set as \<union> A" for x
    using block_end(4) [OF ok that] h(7) [OF that] by simp
  show pn: "p \<notin> set as \<union> A"
    using below p by blast
  have bp: "b \<noteq> p"
    using lim(1) p by auto
  have old: "x \<noteq> p" "bend ?t x = bend st x" "bend st x \<le> lim" if "x \<in> set as \<union> A" for x
    using that pn h(7) [OF that] by auto
  have "bend ?t u \<le> unat v \<or> bend ?t v \<le> unat u"
    if uv: "u \<in> insert p (set as \<union> A)" "v \<in> insert p (set as \<union> A)" "u \<noteq> v" for u v
  proof -
    consider "u = p" "v \<in> set as \<union> A" | "v = p" "u \<in> set as \<union> A" | "u \<in> set as \<union> A" "v \<in> set as \<union> A"
      using uv by blast
    then show ?thesis
      using h(8) [of u v] uv(3) old [of u] old [of v] p by cases auto
  qed
  moreover have "0 < hsize ?t x \<and> unat b + 8 \<le> unat x \<and> bend ?t x \<le> lim + 8 * unat m" if "x \<in> insert p (set as \<union> A)" for x
  proof (cases "x = p")
    case True
    then show ?thesis
      using m lim p by simp
  next
    case False
    then show ?thesis
      using that h(7) [of x] by auto
  qed
  ultimately show "heap_ok b as (insert p A) (lim + 8 * unat m) ?t"
    unfolding heap_ok_def using h(1-4,6) bp pn lim(2) by simp
qed

lemma sint_unat:
  fixes w :: uint
  assumes "unat w = k" "k < 2 ^ 31"
  shows "sint w = int k"
proof -
  have "uint w = int k"
    unfolding assms(1) [symmetric] by simp
  then show ?thesis
    using assms(2) by (simp add: sint_uint signed_take_bit_int_eq_self)
qed

lemma morecore_ok:
  assumes ok: "heap_at brk b as A st" and sb: "sbrk_ok brk sbrk" and n: "0 < n" "unat n \<le> 2 ^ 27 + 1"
  shows "(\<exists>k. morecore sbrk n st = Some (0, st\<lparr>os := k\<rparr>) \<and> brk k = brk (os st)) \<or>
    (\<exists>cs st'. morecore sbrk n st = Some (freep st', st') \<and> heap_at brk b cs A st' \<and> (\<forall>x\<in>A. hsize st' x = hsize st x) \<and>
      (\<exists>x\<in>set cs. n \<le> hsize st' x))"
proof -
  let ?lim = "brk (os st)"
  define m where "m = (if n < 4096 then 4096 else n)"
  obtain p k where pk: "sbrk (sint (m * 8)) (os st) = (p, k)"
    by fastforce
  have h: "heap_ok b as A ?lim st" "freep st \<in> set (b # as)" "unat b + 8 \<le> ?lim"
    using ok by (simp_all add: heap_at_def)
  have m: "0 < m" "n \<le> m" "unat m \<le> 2 ^ 27 + 1"
    using n by (auto simp: m_def word_less_nat_alt word_le_nat_alt)
  have u: "unat (8 * m) = 8 * unat m"
    by (rule unat_units) (use m(3) in simp)
  have si: "sint (m * 8) = int (8 * unat m)"
    unfolding mult.commute [of m 8] by (rule sint_unat [OF u]) (use m(3) in simp)
  have sbk: "p = - 1 \<and> brk k = ?lim \<or> unat p = ?lim \<and> brk k = ?lim + 8 * unat m \<and> brk k \<le> 2 ^ 31"
    using sb pk unfolding sbrk_ok_def si by (metis nat_int of_nat_0_le_iff)
  show ?thesis
  proof (cases "p = - 1")
    case True
    have "unat (- 1 :: uint) = 4294967295"
      by (simp add: unsigned_minus_1_eq_mask mask_eq_exp_minus_1)
    then have "brk k = ?lim"
      using True sbk heap_okD(5) [OF h(1)] by auto
    then show ?thesis
      using True pk by (auto simp: morecore_def m_def [symmetric] Let_def)
  next
    case False
    then have s: "unat p = ?lim" "brk k = ?lim + 8 * unat m" "brk k \<le> 2 ^ 31"
      using sbk by auto
    let ?t = "st\<lparr>os := k, hsize := (hsize st)(p := m)\<rparr>"
    have g: "heap_ok b as (insert p A) (?lim + 8 * unat m) ?t" "p \<notin> set as \<union> A"
      using heap_grow [OF h(1,3) _ s(1) m(1)] s(2,3) by auto
    have fp: "freep ?t \<in> set (b # as)"
      using h(2) by simp
    obtain cs st' where f: "ufree (p + 8) ?t = Some st'" "heap_ok b cs (insert p A - {p}) (?lim + 8 * unat m) st'"
      "freep st' \<in> set (b # cs)" "os st' = os ?t" "\<forall>x\<in>insert p A - {p}. hsize st' x = hsize ?t x"
      "\<exists>x\<in>set cs. hsize ?t p \<le> hsize st' x"
      by (rule ufree_ok [OF g(1) insertI1 fp])
    have A: "insert p A - {p} = A"
      using g(2) by auto
    have "heap_at brk b cs A st'"
      using f(2-4) s(2) h(3) unfolding A by (simp add: heap_at_def)
    moreover have "\<forall>x\<in>A. hsize st' x = hsize st x"
      using f(5) g(2) unfolding A by auto
    moreover have "\<exists>x\<in>set cs. n \<le> hsize st' x"
      using f(6) m(2) by (auto intro: order_trans)
    moreover have "morecore sbrk n st = Some (freep st', st')"
      using False pk f(1) by (simp add: morecore_def m_def [symmetric] Let_def)
    ultimately show ?thesis
      by blast
  qed
qed

section \<open>malloc\<close>

lemma heap_at_nonzero: "heap_at brk b as A st \<Longrightarrow> freep st \<noteq> 0"
  using block_end(3) heap_okD(4) by (fastforce simp: heap_at_def)

text \<open>The outcome of a search for \<open>n\<close> units.\<close>

definition got :: "('k \<Rightarrow> nat) \<Rightarrow> uint \<Rightarrow> uint \<Rightarrow> uint set \<Rightarrow> 'k uheap \<Rightarrow> uint \<Rightarrow> 'k uheap \<Rightarrow> bool" where
  "got brk b n A st a st' \<longleftrightarrow> (\<forall>x\<in>A. hsize st' x = hsize st x) \<and>
     (a = 0 \<and> (\<exists>as. heap_at brk b as A st') \<or>
      (\<exists>h as. a = h + 8 \<and> h \<notin> A \<and> heap_at brk b as (insert h A) st' \<and> hsize st' h = n))"

lemma take_got:
  assumes ok: "heap_at brk b as A st" and pr: "pr \<in> set (b # as)" "x \<in> set (b # as)" "hptr st pr = x" "n \<le> hsize st x" "0 < n"
  obtains a st' where "malloc_take n pr x st = (a, st')" "got brk b n A st a st'"
proof -
  have h: "heap_ok b as A (brk (os st)) st" "unat b + 8 \<le> brk (os st)"
    using ok by (simp_all add: heap_at_def)
  obtain cs hd' st' where t: "malloc_take n pr x st = (hd' + 8, st')" "heap_ok b cs (insert hd' A) (brk (os st)) st'" "hd' \<notin> A"
    "freep st' \<in> set (b # cs)" "os st' = os st" "hsize st' hd' = n" "\<forall>y\<in>A. hsize st' y = hsize st y"
    by (rule malloc_take_ok [OF h(1) pr(1,3,4,2,5)])
  have "heap_at brk b cs (insert hd' A) st'"
    using t(2,4,5) h(2) by (simp add: heap_at_def)
  then have "got brk b n A st (hd' + 8) st'"
    using t(3,6,7) by (auto simp: got_def)
  then show ?thesis
    using that t(1) by blast
qed

lemma malloc_loop_ok:
  assumes ok: "heap_at brk b as A st" and sb: "sbrk_ok brk sbrk" and n: "0 < n" "unat n \<le> 2 ^ 27 + 1"
  shows "\<exists>a st'. malloc_loop sbrk n (freep st) (hptr st (freep st)) st = Some (a, st') \<and> got brk b n A st a st'"
proof -
  have h: "heap_ok b as A (brk (os st)) st" "freep st \<in> set (b # as)"
    using ok by (simp_all add: heap_at_def)
  consider pr x where "pr \<in> set (b # as)" "x \<in> set (b # as)" "hptr st pr = x" "n \<le> hsize st x"
      "malloc_loop sbrk n (freep st) (hptr st (freep st)) st = Some (malloc_take n pr x st)"
    | "malloc_loop sbrk n (freep st) (hptr st (freep st)) st = Option.bind (morecore sbrk n st) (\<lambda>(p, st).
        if p = 0 then Some (0, st) else malloc_loop sbrk n p (hptr st p) st)"
    using loop_ring [OF h, of n sbrk] by blast
  then show ?thesis
  proof cases
    case 1
    then show ?thesis
      using take_got [OF ok 1(1-4) n(1)] by metis
  next
    case 2
    from morecore_ok [OF ok sb n] show ?thesis
    proof (elim disjE exE conjE)
      fix k assume k: "morecore sbrk n st = Some (0, st\<lparr>os := k\<rparr>)" "brk k = brk (os st)"
      have "heap_at brk b as A (st\<lparr>os := k\<rparr>)"
        using ok k(2) by (simp add: heap_at_def heap_ok_def)
      then show ?thesis
        using 2 k(1) by (auto simp: got_def)
    next
      fix cs u assume u: "morecore sbrk n st = Some (freep u, u)" "heap_at brk b cs A u" "\<forall>x\<in>A. hsize u x = hsize st x"
        "\<exists>x\<in>set cs. n \<le> hsize u x"
      have hu: "heap_ok b cs A (brk (os u)) u" "freep u \<in> set (b # cs)"
        using u(2) by (simp_all add: heap_at_def)
      have "\<not> (\<forall>x\<in>set (b # cs). hsize u x < n)"
        using u(4) by (meson leD list.set_intros(2))
      then obtain pr x where p: "pr \<in> set (b # cs)" "x \<in> set (b # cs)" "hptr u pr = x" "n \<le> hsize u x"
        "malloc_loop sbrk n (freep u) (hptr u (freep u)) u = Some (malloc_take n pr x u)"
        using loop_ring [OF hu, of n sbrk] by blast
      obtain a st' where t: "malloc_take n pr x u = (a, st')" "got brk b n A u a st'"
        by (rule take_got [OF u(2) p(1-4) n(1)])
      have "got brk b n A st a st'"
        using t(2) u(3) by (simp add: got_def)
      then show ?thesis
        using 2 u(1) p(5) t(1) heap_at_nonzero [OF u(2)] by auto
    qed
  qed
qed

text \<open>The heap of a program: before the first call of \<open>malloc\<close>, or with its ring in place.\<close>

definition heap_inv :: "('k \<Rightarrow> nat) \<Rightarrow> uint \<Rightarrow> uint set \<Rightarrow> 'k uheap \<Rightarrow> bool" where
  "heap_inv brk b A st \<longleftrightarrow>
     (if freep st = 0 then A = {} \<and> b \<noteq> 0 \<and> unat b + 8 \<le> brk (os st) \<and> brk (os st) \<le> 2 ^ 31
      else \<exists>as. heap_at brk b as A st)"

lemma heap_at_inv: "heap_at brk b as A st \<Longrightarrow> heap_inv brk b A st"
  using heap_at_nonzero [of brk b as A st] by (auto simp: heap_inv_def)

lemma units_enough:
  fixes nbytes :: uint
  assumes "unat nbytes \<le> 2 ^ 30" "n = (nbytes + 8 - 1) div 8 + 1"
  shows "0 < n" "unat n \<le> 2 ^ 27 + 1" "unat nbytes \<le> 8 * (unat n - 1)"
proof -
  have "unat (nbytes + 7) = unat nbytes + 7"
    using unat_plus_small [of nbytes 7] assms(1) by simp
  then have d: "unat ((nbytes + 7) div 8) = (unat nbytes + 7) div 8"
    by (simp add: unat_div_distrib)
  have "n = (nbytes + 7) div 8 + 1"
    using assms(2) by (simp add: add.commute)
  then have n: "unat n = (unat nbytes + 7) div 8 + 1"
    using unat_plus_small [of "(nbytes + 7) div 8" 1] d assms(1) by simp
  then show "0 < n" "unat n \<le> 2 ^ 27 + 1" "unat nbytes \<le> 8 * (unat n - 1)"
    using assms(1) by (auto simp: word_less_nat_alt)
qed

lemma malloc_ok:
  assumes inv: "heap_inv brk b A st" and sb: "sbrk_ok brk sbrk" and n: "unat nbytes \<le> 2 ^ 30"
  obtains a st' where "malloc sbrk b nbytes st = Some (a, st')" "\<forall>x\<in>A. hsize st' x = hsize st x"
    "a = 0 \<and> heap_inv brk b A st' \<or>
     (\<exists>h. a = h + 8 \<and> h \<notin> A \<and> heap_inv brk b (insert h A) st' \<and> unat nbytes \<le> 8 * (unat (hsize st' h) - 1))"
proof -
  define u where "u = (nbytes + 8 - 1) div 8 + 1"
  note e = units_enough [OF n u_def]
  define s where "s = (if freep st = 0 then st\<lparr>hptr := (hptr st)(b := b), freep := b, hsize := (hsize st)(b := 0)\<rparr> else st)"
  have "\<exists>as. heap_at brk b as A s"
  proof (cases "freep st = 0")
    case True
    then have "heap_at brk b [] A s"
      using inv by (simp add: heap_inv_def heap_at_def heap_ok_def s_def)
    then show ?thesis
      by blast
  qed (use inv in \<open>simp add: heap_inv_def s_def\<close>)
  then obtain as where as: "heap_at brk b as A s"
    by blast
  obtain a st' where r: "malloc_loop sbrk u (freep s) (hptr s (freep s)) s = Some (a, st')" "got brk b u A s a st'"
    using malloc_loop_ok [OF as sb e(1,2)] by blast
  have "hsize s x = hsize st x" if "x \<in> A" for x
    using that inv by (auto simp: s_def heap_inv_def)
  moreover have "malloc sbrk b nbytes st = Some (a, st')"
    unfolding malloc_def Let_def u_def [symmetric] s_def [symmetric] by (rule r(1))
  moreover have "heap_inv brk b X st'" if "heap_at brk b cs X st'" for cs X
    using that by (rule heap_at_inv)
  ultimately show ?thesis
    using that r(2) e(3) unfolding got_def by metis
qed

section \<open>A program that uses the heap\<close>

text \<open>
  A program calls \<open>malloc\<close> for at most \<open>2 ^ 30\<close> bytes and frees only what it has: \<open>H\<close> gives, for
  each address it holds, the number of bytes it asked for.
\<close>

inductive uses :: "'k sbrk \<Rightarrow> uint \<Rightarrow> 'k uheap \<Rightarrow> 'k uheap \<Rightarrow> (uint \<Rightarrow> nat option) \<Rightarrow> bool" for sbrk b st0 where
  start: "uses sbrk b st0 st0 Map.empty"
| alloc: "uses sbrk b st0 st H \<Longrightarrow> unat n \<le> 2 ^ 30 \<Longrightarrow> malloc sbrk b n st = Some (a, st') \<Longrightarrow>
    uses sbrk b st0 st' (if a = 0 then H else H(a \<mapsto> unat n))"
| give: "uses sbrk b st0 st H \<Longrightarrow> H a = Some n \<Longrightarrow> ufree a st = Some st' \<Longrightarrow> uses sbrk b st0 st' (H(a := None))"

abbreviation headers :: "(uint \<Rightarrow> nat option) \<Rightarrow> uint set" where
  "headers H \<equiv> (\<lambda>a. a - 8) ` dom H"

definition client_inv :: "('k \<Rightarrow> nat) \<Rightarrow> uint \<Rightarrow> 'k uheap \<Rightarrow> (uint \<Rightarrow> nat option) \<Rightarrow> bool" where
  "client_inv brk b st H \<longleftrightarrow> heap_inv brk b (headers H) st \<and>
     (\<forall>a n. H a = Some n \<longrightarrow> n \<le> 8 * (unat (hsize st (a - 8)) - 1))"

lemma heap_inv_ring: "heap_inv brk b A st \<Longrightarrow> h \<in> A \<Longrightarrow> \<exists>as. heap_at brk b as A st"
  by (auto simp: heap_inv_def split: if_splits)

lemma client_free:
  assumes inv: "client_inv brk b st H" and a: "H a = Some n"
  obtains st' where "ufree a st = Some st'" "client_inv brk b st' (H(a := None))"
proof -
  have m: "a - 8 \<in> headers H"
    using a by auto
  have "heap_inv brk b (headers H) st"
    using inv by (simp add: client_inv_def)
  then obtain as where as: "heap_at brk b as (headers H) st"
    using heap_inv_ring [OF _ m] by blast
  have h: "heap_ok b as (headers H) (brk (os st)) st" "freep st \<in> set (b # as)" "unat b + 8 \<le> brk (os st)"
    using as by (simp_all add: heap_at_def)
  obtain cs st' where f: "ufree (a - 8 + 8) st = Some st'" "heap_ok b cs (headers H - {a - 8}) (brk (os st)) st'"
    "freep st' \<in> set (b # cs)" "os st' = os st" "\<forall>x\<in>headers H - {a - 8}. hsize st' x = hsize st x"
    by (rule ufree_ok [OF h(1) m h(2)])
  have d: "headers (H(a := None)) = headers H - {a - 8}"
    by auto
  have "heap_at brk b cs (headers (H(a := None))) st'"
    using f(2-4) h(3) unfolding d by (simp add: heap_at_def)
  then have "heap_inv brk b (headers (H(a := None))) st'"
    by (rule heap_at_inv)
  moreover have "k \<le> 8 * (unat (hsize st' (c - 8)) - 1)" if "(H(a := None)) c = Some k" for c k
  proof -
    have "c - 8 \<in> headers H - {a - 8}" "H c = Some k"
      using that by (auto split: if_splits)
    then show ?thesis
      using f(5) inv by (simp add: client_inv_def)
  qed
  ultimately show ?thesis
    using that f(1) by (simp add: client_inv_def)
qed

lemma client_malloc:
  assumes inv: "client_inv brk b st H" and sb: "sbrk_ok brk sbrk" and n: "unat n \<le> 2 ^ 30"
  obtains a st' where "malloc sbrk b n st = Some (a, st')" "client_inv brk b st' (if a = 0 then H else H(a \<mapsto> unat n))"
    "a \<noteq> 0 \<longrightarrow> H a = None"
proof -
  have hi: "heap_inv brk b (headers H) st" "\<forall>a n. H a = Some n \<longrightarrow> n \<le> 8 * (unat (hsize st (a - 8)) - 1)"
    using inv by (simp_all add: client_inv_def)
  obtain a st' where m: "malloc sbrk b n st = Some (a, st')" "\<forall>x\<in>headers H. hsize st' x = hsize st x"
    "a = 0 \<and> heap_inv brk b (headers H) st' \<or>
     (\<exists>h. a = h + 8 \<and> h \<notin> headers H \<and> heap_inv brk b (insert h (headers H)) st' \<and> unat n \<le> 8 * (unat (hsize st' h) - 1))"
    by (rule malloc_ok [OF hi(1) sb n])
  have old: "k \<le> 8 * (unat (hsize st' (c - 8)) - 1)" if "H c = Some k" for c k
    using hi(2) m(2) that by (metis domI image_eqI)
  from m(3) show ?thesis
  proof (elim disjE exE conjE)
    assume "a = 0" "heap_inv brk b (headers H) st'"
    then show ?thesis
      using that m(1) old by (simp add: client_inv_def)
  next
    fix h assume h: "a = h + 8" "h \<notin> headers H" "heap_inv brk b (insert h (headers H)) st'" "unat n \<le> 8 * (unat (hsize st' h) - 1)"
    have e: "a - 8 = h"
      using h(1) by simp
    obtain as where "heap_ok b as (insert h (headers H)) (brk (os st')) st'"
      using heap_inv_ring [OF h(3)] by (auto simp: heap_at_def)
    note hk = this
    have "unat h < 2 ^ 31"
      using block_end(4) [OF hk, of h] heap_okD(5) [OF hk] heap_okD(7) [OF hk, of h] by simp
    then have "unat a = unat h + 8"
      unfolding h(1) using unat_plus_small [of h 8] by simp
    then have a0: "a \<noteq> 0"
      by auto
    have H: "H a = None"
      using h(2) e by (metis domIff image_eqI)
    have "headers (H(a \<mapsto> unat n)) = insert h (headers H)"
      using e by auto
    then have "client_inv brk b st' (H(a \<mapsto> unat n))"
      using h(3,4) old e by (auto simp: client_inv_def)
    then show ?thesis
      using that m(1) a0 H by simp
  qed
qed

lemma client_reach:
  assumes "uses sbrk b st0 st H" "sbrk_ok brk sbrk" "client_inv brk b st0 Map.empty"
  shows "client_inv brk b st H"
  using assms(1)
proof induction
  case (alloc st H n a st')
  then show ?case
    using client_malloc [OF alloc.IH assms(2) alloc.hyps(2)] by (metis option.inject prod.inject)
next
  case (give st H a n st')
  then show ?case
    using client_free [OF give.IH give.hyps(2)] by (metis option.inject)
qed (rule assms(3))

lemma client_blocks:
  assumes "client_inv brk b st H" "H a = Some n"
  shows "unat b + 16 \<le> unat a" "unat a + n \<le> brk (os st)"
    "H c = Some m \<Longrightarrow> a \<noteq> c \<Longrightarrow> unat a + n \<le> unat c \<or> unat c + m \<le> unat a"
proof -
  obtain as where hk: "heap_ok b as (headers H) (brk (os st)) st"
    using assms heap_inv_ring [of brk b "headers H" st "a - 8"] by (auto simp: client_inv_def heap_at_def)
  have blk: "unat c = unat (c - 8) + 8 \<and> unat c + m \<le> bend st (c - 8) \<and> c - 8 \<in> set as \<union> headers H" if "H c = Some m" for c m
  proof -
    have i: "c - 8 \<in> set as \<union> headers H"
      using that by auto
    have "unat (c - 8) < 2 ^ 31" "0 < unat (hsize st (c - 8))"
      using block_end(4) [OF hk i] heap_okD(5,7) [OF hk] i by (fastforce simp: word_less_nat_alt)+
    moreover from this have "unat c = unat (c - 8) + 8"
      using unat_plus_small [of "c - 8" 8] by simp
    moreover have "m \<le> 8 * (unat (hsize st (c - 8)) - 1)"
      using assms(1) that by (simp add: client_inv_def)
    ultimately show ?thesis
      using i by simp
  qed
  note A = blk [OF assms(2)]
  show "unat b + 16 \<le> unat a" "unat a + n \<le> brk (os st)"
    using A heap_okD(7) [OF hk, of "a - 8"] by auto
  assume c: "H c = Some m" "a \<noteq> c"
  note C = blk [OF c(1)]
  have "a - 8 \<noteq> c - 8"
    using c(2) by simp
  then show "unat a + n \<le> unat c \<or> unat c + m \<le> unat a"
    using heap_okD(8) [OF hk, of "a - 8" "c - 8"] A C by linarith
qed

text \<open>
  C32. \<open>malloc\<close> and \<open>free\<close> never let two blocks overlap.  For a program that asks for at most \<open>2 ^ 30\<close>
  bytes at a time and frees only what it holds, and a system call \<open>sbrk\<close> that either fails or
  hands out the memory behind the old end, the blocks the program holds are apart from each other
  and from the static header, lie below the end of the memory and have the bytes asked for; every
  further \<open>malloc\<close> returns, with 0 or a new address, and every \<open>free\<close> returns.
\<close>

theorem malloc_separate:
  assumes sb: "sbrk_ok brk sbrk" and init: "freep st0 = 0" "b \<noteq> 0" "unat b + 8 \<le> brk (os st0)" "brk (os st0) \<le> 2 ^ 31"
    and reach: "uses sbrk b st0 st H"
  shows "(\<forall>a n. H a = Some n \<longrightarrow> unat b + 16 \<le> unat a \<and> unat a + n \<le> brk (os st)) \<and>
    (\<forall>a n c m. H a = Some n \<and> H c = Some m \<and> a \<noteq> c \<longrightarrow> unat a + n \<le> unat c \<or> unat c + m \<le> unat a) \<and>
    (\<forall>n. unat n \<le> 2 ^ 30 \<longrightarrow> (\<exists>a st'. malloc sbrk b n st = Some (a, st') \<and> (a \<noteq> 0 \<longrightarrow> H a = None))) \<and>
    (\<forall>a\<in>dom H. \<exists>st'. ufree a st = Some st')"
proof -
  have "client_inv brk b st0 Map.empty"
    using init by (simp add: client_inv_def heap_inv_def)
  note inv = client_reach [OF reach sb this]
  have "\<exists>a st'. malloc sbrk b n st = Some (a, st') \<and> (a \<noteq> 0 \<longrightarrow> H a = None)" if "unat n \<le> 2 ^ 30" for n
    using client_malloc [OF inv sb that] by metis
  moreover have "\<exists>st'. ufree a st = Some st'" if "a \<in> dom H" for a
    using client_free [OF inv] that by (metis domD)
  ultimately show ?thesis
    using client_blocks [OF inv] by blast
qed

definition demo_sbrk :: "nat sbrk" where
  "demo_sbrk n k = (if k + nat n \<le> 2 ^ 31 then (of_nat k, k + nat n) else (- 1, k))"

definition demo_heap :: "nat uheap" where
  "demo_heap = \<lparr>hptr = (\<lambda>_. 0), hsize = (\<lambda>_. 0), freep = 0, os = 4096\<rparr>"

theorem malloc_separate_witness:
  "\<exists>st1 a st2. malloc demo_sbrk 100 10 demo_heap = Some (36848, st1) \<and> malloc demo_sbrk 100 20 st1 = Some (a, st2) \<and> a \<noteq> 36848"
proof -
  have sb: "sbrk_ok id demo_sbrk"
    by (auto simp: sbrk_ok_def demo_sbrk_def unat_of_nat split: if_splits)
  have "\<exists>st1. malloc demo_sbrk 100 10 demo_heap = Some (36848, st1)"
    by (simp add: malloc_def malloc_loop.simps morecore_def ufree_def free_scan.simps malloc_take_def demo_sbrk_def demo_heap_def Let_def)
  then obtain st1 where st1: "malloc demo_sbrk 100 10 demo_heap = Some (36848, st1)"
    by blast
  have "uses demo_sbrk 100 demo_heap st1 (if (36848 :: uint) = 0 then Map.empty else Map.empty(36848 \<mapsto> unat (10 :: uint)))"
    by (rule uses.alloc [OF uses.start _ st1]) simp
  then have "uses demo_sbrk 100 demo_heap st1 (Map.empty(36848 \<mapsto> 10))"
    by simp
  from malloc_separate [OF sb _ _ _ _ this]
  have "\<forall>n. unat n \<le> 2 ^ 30 \<longrightarrow> (\<exists>a st2. malloc demo_sbrk 100 n st1 = Some (a, st2) \<and> (a \<noteq> 0 \<longrightarrow> (Map.empty(36848 \<mapsto> 10 :: nat)) a = None))"
    by (simp add: demo_heap_def)
  then obtain a st2 where "malloc demo_sbrk 100 20 st1 = Some (a, st2)" "a \<noteq> 0 \<longrightarrow> a \<noteq> 36848"
    by (fastforce dest: spec [of _ 20] split: if_splits)
  then show ?thesis
    using st1 by (cases "a = 36848") auto
qed

end
