(* ===== verification/Grep.thy ===== *)
theory Grep
  imports UserLib
begin

text \<open>
  grep.c: the regular expression matcher and the loop that prints the matching lines.

  A pattern and a line are C strings.  \<open>read\<close> is a parameter: from the number of bytes
  that fit and a state it gives the bytes read, none at the end of the input.  What
  \<open>grep\<close> writes to descriptor 1 is its result.
\<close>

section \<open>The matcher\<close>

fun matchhere :: "string \<Rightarrow> string \<Rightarrow> bool"
  and matchstar :: "char \<Rightarrow> string \<Rightarrow> string \<Rightarrow> bool" where
  "matchhere [] text = True"
| "matchhere (c # re) text =
     (if re \<noteq> [] \<and> hd re = CHR ''*'' then matchstar c (tl re) text
      else if c = CHR ''$'' \<and> re = [] then text = []
      else if text \<noteq> [] \<and> (c = CHR ''.'' \<or> c = hd text) then matchhere re (tl text)
      else False)"
| "matchstar c re text =
     (if matchhere re text then True
      else if text \<noteq> [] \<and> (hd text = c \<or> c = CHR ''.'') then matchstar c re (tl text)
      else False)"

declare matchhere.simps(2) [simp del] matchstar.simps [simp del]

fun match_from :: "string \<Rightarrow> string \<Rightarrow> bool" where
  "match_from re [] = matchhere re []"
| "match_from re (c # text) = (if matchhere re (c # text) then True else match_from re text)"

definition match :: "string \<Rightarrow> string \<Rightarrow> bool" where
  "match re text =
     (if re \<noteq> [] \<and> hd re = CHR ''^'' then matchhere (tl re) text else match_from re text)"

section \<open>The loop over the input\<close>

text \<open>
  The inner loop, on the bytes of \<open>buf\<close> from \<open>p\<close> on: the output, and the bytes that stay.
  \<open>strchr\<close> stops at a NUL, and so does \<open>match\<close>.
\<close>

definition c_str :: "string \<Rightarrow> string" where
  "c_str = takeWhile (\<lambda>c. c \<noteq> CHR 0x00)"

function grep_lines :: "string \<Rightarrow> string \<Rightarrow> string \<times> string" where
  "grep_lines pattern p =
     (case strchr (c_str p) CHR ''\<newline>'' of
        None \<Rightarrow> ([], p)
      | Some q \<Rightarrow>
          let n = length (c_str p) - length q;
              line = take n p;
              (out, rest) = grep_lines pattern (drop (Suc n) p)
          in ((if match pattern line then line @ [CHR ''\<newline>''] else []) @ out, rest))"
  by pat_completeness auto
termination
proof (relation "measure (\<lambda>(pattern, p). length p)", goal_cases)
  case (2 pattern p q x)
  then have "p \<noteq> []"
    by (auto simp: c_str_def)
  then show ?case by simp
qed simp

declare grep_lines.simps [simp del]

definition grep_turn :: "string \<Rightarrow> string \<Rightarrow> string \<Rightarrow> string \<times> string" where
  "grep_turn pattern held chunk =
     (let buf = held @ chunk; (out, p) = grep_lines pattern buf
      in (out, if length p = length buf then [] else p))"

partial_function (option) grep ::
  "(nat \<Rightarrow> 's \<Rightarrow> string \<times> 's) \<Rightarrow> string \<Rightarrow> string \<Rightarrow> 's \<Rightarrow> string option" where
  "grep rd pattern held s =
     (case rd (1024 - length held - 1) s of (chunk, s) \<Rightarrow>
        if chunk = [] then Some []
        else case grep_turn pattern held chunk of (out, held) \<Rightarrow>
          Option.bind (grep rd pattern held s) (\<lambda>more. Some (out @ more)))"

section \<open>The language of a pattern\<close>

datatype item = One char | Star char

fun items :: "string \<Rightarrow> item list \<times> bool" where
  "items [] = ([], False)"
| "items (c # re) =
     (if re \<noteq> [] \<and> hd re = CHR ''*'' then apfst ((#) (Star c)) (items (tl re))
      else if c = CHR ''$'' \<and> re = [] then ([], True)
      else apfst ((#) (One c)) (items re))"

definition fits :: "char \<Rightarrow> char \<Rightarrow> bool" where
  "fits c x \<longleftrightarrow> c = CHR ''.'' \<or> c = x"

fun lang :: "item list \<Rightarrow> string set" where
  "lang [] = {[]}"
| "lang (One c # is) = {x # w | x w. fits c x \<and> w \<in> lang is}"
| "lang (Star c # is) = {u @ w | u w. list_all (fits c) u \<and> w \<in> lang is}"

text \<open>
  \<open>text\<close> has, from its start, a string of the pattern; up to its end if the pattern says so.
\<close>

definition begins :: "item list \<times> bool \<Rightarrow> string \<Rightarrow> bool" where
  "begins ie text \<longleftrightarrow> (\<exists>w rest. text = w @ rest \<and> w \<in> lang (fst ie) \<and> (snd ie \<longrightarrow> rest = []))"

lemma begins_pair: "begins (r, e) tx \<longleftrightarrow> (\<exists>w rest. tx = w @ rest \<and> w \<in> lang r \<and> (e \<longrightarrow> rest = []))"
  by (simp add: begins_def)

lemma begins_One: "begins (One c # r, e) tx \<longleftrightarrow> tx \<noteq> [] \<and> fits c (hd tx) \<and> begins (r, e) (tl tx)"
proof (cases tx)
  case (Cons x xs)
  have "(\<exists>w rest. x # xs = w @ rest \<and> w \<in> lang (One c # r) \<and> (e \<longrightarrow> rest = [])) \<longleftrightarrow>
      (\<exists>v rest. xs = v @ rest \<and> fits c x \<and> v \<in> lang r \<and> (e \<longrightarrow> rest = []))"
    (is "?l \<longleftrightarrow> ?r")
  proof
    assume ?r
    then obtain v rest where "xs = v @ rest" "fits c x" "v \<in> lang r" "e \<longrightarrow> rest = []"
      by blast
    then show ?l
      by (intro exI [of _ "x # v"] exI [of _ rest]) simp
  qed (auto simp: Cons_eq_append_conv)
  then show ?thesis
    by (auto simp: begins_pair Cons)
qed (auto simp: begins_pair)

lemma begins_star_split:
  "begins (Star c # r, e) tx \<longleftrightarrow> (\<exists>u v. tx = u @ v \<and> list_all (fits c) u \<and> begins (r, e) v)"
proof -
  have "(\<exists>w rest. tx = w @ rest \<and> w \<in> lang (Star c # r) \<and> (e \<longrightarrow> rest = [])) \<longleftrightarrow>
      (\<exists>u w rest. tx = (u @ w) @ rest \<and> list_all (fits c) u \<and> w \<in> lang r \<and> (e \<longrightarrow> rest = []))"
    unfolding lang.simps by blast
  also have "\<dots> \<longleftrightarrow> (\<exists>u v. tx = u @ v \<and> list_all (fits c) u \<and>
      (\<exists>w rest. v = w @ rest \<and> w \<in> lang r \<and> (e \<longrightarrow> rest = [])))"
    unfolding append_assoc by blast
  finally show ?thesis
    unfolding begins_pair .
qed

lemma begins_Star:
  "begins (Star c # r, e) tx \<longleftrightarrow>
     begins (r, e) tx \<or> tx \<noteq> [] \<and> fits c (hd tx) \<and> begins (Star c # r, e) (tl tx)"
proof (cases tx)
  case (Cons x xs)
  have "(\<exists>u v. x # xs = u @ v \<and> list_all (fits c) u \<and> begins (r, e) v) \<longleftrightarrow>
      begins (r, e) (x # xs) \<or> fits c x \<and> (\<exists>u v. xs = u @ v \<and> list_all (fits c) u \<and> begins (r, e) v)"
    (is "?l \<longleftrightarrow> ?r")
  proof
    assume ?r
    then show ?l
    proof
      assume "begins (r, e) (x # xs)"
      then show ?l
        by (intro exI [of _ "[]"] exI [of _ "x # xs"]) simp
    next
      assume "fits c x \<and> (\<exists>u v. xs = u @ v \<and> list_all (fits c) u \<and> begins (r, e) v)"
      then obtain u v where "fits c x" "xs = u @ v" "list_all (fits c) u" "begins (r, e) v"
        by blast
      then show ?l
        by (intro exI [of _ "x # u"] exI [of _ v]) simp
    qed
  next
    assume ?l
    then obtain u v where u: "x # xs = u @ v" "list_all (fits c) u" "begins (r, e) v"
      by blast
    then show ?r
      by (cases u) (simp, auto)
  qed
  then show ?thesis
    unfolding begins_star_split Cons by simp
qed (simp add: begins_star_split)

lemma begins_end: "begins ([], b) tx \<longleftrightarrow> (b \<longrightarrow> tx = [])"
  by (auto simp: begins_pair)

lemma matchhere_begins:
  "matchhere re tx \<longleftrightarrow> begins (items re) tx"
  "matchstar c re tx \<longleftrightarrow> begins (Star c # fst (items re), snd (items re)) tx"
proof (induction re tx and c re tx rule: matchhere_matchstar.induct)
  case (1 tx)
  then show ?case by (simp add: begins_end)
next
  case (2 c re tx)
  obtain r e where r: "items re = (r, e)" by fastforce
  consider (star) "re \<noteq> [] \<and> hd re = CHR ''*''" | (last) "re = []" "c = CHR ''$''"
    | (one) "\<not> (re \<noteq> [] \<and> hd re = CHR ''*'')" "\<not> (c = CHR ''$'' \<and> re = [])"
    by blast
  then show ?case
  proof cases
    case star
    then show ?thesis
      using 2(1) [OF star] by (simp add: matchhere.simps(2) apfst_def map_prod_def split: prod.split)
  next
    case last
    then show ?thesis by (simp add: matchhere.simps(2) begins_end)
  next
    case one
    have i: "items (c # re) = (One c # r, e)"
      using one r by auto
    have "matchhere (c # re) tx \<longleftrightarrow> tx \<noteq> [] \<and> fits c (hd tx) \<and> matchhere re (tl tx)"
      unfolding matchhere.simps(2) if_not_P [OF one(1)] if_not_P [OF one(2)] by (simp add: fits_def)
    also have "\<dots> \<longleftrightarrow> tx \<noteq> [] \<and> fits c (hd tx) \<and> begins (r, e) (tl tx)"
      using 2(2) [OF one] unfolding r fits_def by blast
    finally show ?thesis
      unfolding i begins_One .
  qed
next
  case (3 c re tx)
  obtain r e where r: "items re = (r, e)" by fastforce
  have "matchstar c re tx \<longleftrightarrow> matchhere re tx \<or> tx \<noteq> [] \<and> fits c (hd tx) \<and> matchstar c re (tl tx)"
    by (subst matchstar.simps) (auto simp: fits_def)
  also have "\<dots> \<longleftrightarrow> begins (r, e) tx \<or> tx \<noteq> [] \<and> fits c (hd tx) \<and> begins (Star c # r, e) (tl tx)"
    using 3 unfolding r fits_def fst_conv snd_conv by blast
  finally show ?case
    unfolding r fst_conv snd_conv by (subst begins_Star)
qed

lemma match_from_suffix: "match_from re tx \<longleftrightarrow> (\<exists>pre suf. tx = pre @ suf \<and> matchhere re suf)"
proof (induction tx)
  case (Cons x tx)
  have "(\<exists>pre suf. x # tx = pre @ suf \<and> matchhere re suf) \<longleftrightarrow>
      matchhere re (x # tx) \<or> (\<exists>pre suf. tx = pre @ suf \<and> matchhere re suf)"
    by (auto simp: Cons_eq_append_conv)
  then show ?case
    using Cons by simp
qed simp

text \<open>
  C33. \<open>match(re, text)\<close> holds exactly when some part of the text is a string of the language
  of the pattern: \<open>.\<close> fits any character, \<open>c*\<close> any number of characters that \<open>c\<close> fits, a
  leading \<open>^\<close> makes the part start with the text and a final \<open>$\<close> makes it end with it.
\<close>

theorem match_language:
  "match re tx =
     (let anchored = (re \<noteq> [] \<and> hd re = CHR ''^''); (is, at_end) = items (if anchored then tl re else re)
      in \<exists>pre w rest. tx = pre @ w @ rest \<and> w \<in> lang is \<and>
           pre \<in> (if anchored then {[]} else UNIV) \<and> rest \<in> (if at_end then {[]} else UNIV))"
proof -
  have b: "begins ie tx \<longleftrightarrow> (\<exists>w rest. tx = w @ rest \<and> w \<in> lang (fst ie) \<and>
      rest \<in> (if snd ie then {[]} else UNIV))" for ie tx
    by (auto simp: begins_def)
  show ?thesis
  proof (cases "re \<noteq> [] \<and> hd re = CHR ''^''")
    case True
    then show ?thesis
      by (simp add: match_def matchhere_begins(1) b Let_def split: prod.split)
  next
    case False
    then have "match re tx \<longleftrightarrow> (\<exists>pre suf. tx = pre @ suf \<and> begins (items re) suf)"
      unfolding match_def match_from_suffix matchhere_begins(1) by (simp only: if_False)
    then show ?thesis
      using False by (auto simp: b Let_def split: prod.split)
  qed
qed

section \<open>The lines printed\<close>

text \<open>
  The complete lines of a text and what is left after the last newline; and what \<open>grep\<close>
  should print of them.
\<close>

fun split_lines :: "string \<Rightarrow> string \<Rightarrow> string list \<times> string" where
  "split_lines cur [] = ([], cur)"
| "split_lines cur (c # cs) =
     (if c = CHR ''\<newline>'' then apfst ((#) cur) (split_lines [] cs) else split_lines (cur @ [c]) cs)"

definition matching :: "string \<Rightarrow> string list \<Rightarrow> string" where
  "matching pattern ls = concat (map (\<lambda>l. l @ [CHR ''\<newline>'']) (filter (match pattern) ls))"

lemma split_lines_append:
  "split_lines cur (xs @ ys) =
     (case split_lines cur xs of (ls, left) \<Rightarrow> apfst ((@) ls) (split_lines left ys))"
  by (induction xs arbitrary: cur) (simp_all add: apfst_def map_prod_def split: prod.splits)

lemma split_lines_none: "CHR ''\<newline>'' \<notin> set xs \<Longrightarrow> split_lines cur xs = ([], cur @ xs)"
  by (induction xs arbitrary: cur) auto

lemma split_lines_left:
  "split_lines cur xs = (ls, left) \<Longrightarrow> CHR ''\<newline>'' \<in> set xs \<Longrightarrow> length left < length xs"
proof (induction xs arbitrary: cur ls)
  case (Cons x xs)
  show ?case
  proof (cases "CHR ''\<newline>'' \<in> set xs")
    case True
    then show ?thesis
      using Cons by (fastforce simp: apfst_def map_prod_def split: if_splits prod.splits)
  next
    case False
    then show ?thesis
      using Cons.prems by (auto simp: split_lines_none)
  qed
qed simp

lemma split_lines_left_set:
  "split_lines cur xs = (ls, left) \<Longrightarrow>
     set left \<subseteq> set cur \<union> set xs \<and> (CHR ''\<newline>'' \<notin> set cur \<longrightarrow> CHR ''\<newline>'' \<notin> set left)"
proof (induction xs arbitrary: cur ls)
  case (Cons x xs)
  show ?case
  proof (cases "x = CHR ''\<newline>''")
    case True
    then obtain ls' where "split_lines [] xs = (ls', left)"
      using Cons.prems by (auto simp: apfst_def map_prod_def split: prod.splits)
    from Cons.IH [OF this] show ?thesis by auto
  next
    case False
    then show ?thesis
      using Cons.IH [of "cur @ [x]"] Cons.prems by auto
  qed
qed simp

lemma c_str_id: "CHR 0x00 \<notin> set xs \<Longrightarrow> c_str xs = xs"
  by (auto simp: c_str_def takeWhile_eq_all_conv)

lemma grep_lines_eq:
  assumes "CHR 0x00 \<notin> set p" "split_lines [] p = (ls, left)"
  shows "grep_lines pattern p = (matching pattern ls, left)"
  using assms
proof (induction pattern p arbitrary: ls rule: grep_lines.induct)
  case (1 pattern p)
  have cs: "c_str p = p"
    using "1.prems"(1) by (rule c_str_id)
  show ?case
  proof (cases "strchr p CHR ''\<newline>''")
    case None
    then have "CHR ''\<newline>'' \<notin> set p"
      by (induction p) (auto split: if_splits)
    then show ?thesis
      using None "1.prems"(2) cs by (subst grep_lines.simps) (simp add: split_lines_none matching_def)
  next
    case (Some q)
    then obtain line rest where q: "p = line @ q" "CHR ''\<newline>'' \<notin> set line" "q = CHR ''\<newline>'' # rest"
      by (auto simp: strchr_Some)
    obtain ls' where ls: "split_lines [] rest = (ls', left)" "ls = line # ls'"
      using "1.prems"(2) by (auto simp: q split_lines_append split_lines_none apfst_def map_prod_def split: prod.splits)
    have "grep_lines pattern rest = (matching pattern ls', left)"
      using "1.IH" [of q "length (c_str p) - length q" "take (length (c_str p) - length q) p"] Some cs ls "1.prems"(1)
      by (simp add: q)
    then show ?thesis
      using Some cs q ls by (subst grep_lines.simps) (simp add: matching_def)
  qed
qed

text \<open>
  An input that arrives in the given pieces, each when there is room for it, and then ends.
\<close>

fun feeds :: "(nat \<Rightarrow> 's \<Rightarrow> string \<times> 's) \<Rightarrow> string list \<Rightarrow> 's \<Rightarrow> bool" where
  "feeds rd [] s \<longleftrightarrow> (\<forall>n. fst (rd n s) = [])"
| "feeds rd (c # cs) s \<longleftrightarrow> (\<exists>t. (\<forall>n. length c \<le> n \<longrightarrow> rd n s = (c, t)) \<and> feeds rd cs t)"

lemma grep_all:
  assumes "feeds rd cs s" "\<forall>c\<in>set cs. CHR ''\<newline>'' \<in> set c \<and> CHR 0x00 \<notin> set c \<and> length c \<le> 512"
    "length held < 512" "CHR 0x00 \<notin> set held" "CHR ''\<newline>'' \<notin> set held"
  shows "grep rd pattern held s = Some (matching pattern (fst (split_lines held (concat cs))))"
  using assms
proof (induction cs arbitrary: s held)
  case Nil
  obtain t where "rd (1024 - length held - 1) s = ([], t)"
    using Nil.prems(1) by (metis feeds.simps(1) prod.collapse)
  then show ?case
    by (subst grep.simps) (simp add: matching_def)
next
  case (Cons c cs)
  obtain t where t: "\<And>n. length c \<le> n \<Longrightarrow> rd n s = (c, t)" "feeds rd cs t"
    using Cons.prems(1) by auto
  have c: "CHR ''\<newline>'' \<in> set c" "CHR 0x00 \<notin> set c" "length c \<le> 512"
    using Cons.prems(2) by auto
  obtain ls left where ls: "split_lines held c = (ls, left)" by fastforce
  have "split_lines [] (held @ c) = (ls, left)"
    using ls Cons.prems(5) by (simp add: split_lines_append split_lines_none)
  then have g: "grep_lines pattern (held @ c) = (matching pattern ls, left)"
    using c(2) Cons.prems(4) by (intro grep_lines_eq) simp
  have l: "length left < length c"
    using split_lines_left [OF ls c(1)] .
  have left: "CHR 0x00 \<notin> set left" "CHR ''\<newline>'' \<notin> set left"
    using split_lines_left_set [OF ls] Cons.prems(4,5) c(2) by auto
  have "rd (1024 - length held - 1) s = (c, t)"
    using Cons.prems(3) c(3) by (intro t(1)) simp
  moreover have "c \<noteq> []"
    using c(1) by auto
  moreover have "grep_turn pattern held c = (matching pattern ls, left)"
    using g l by (simp add: grep_turn_def)
  moreover have "grep rd pattern left t = Some (matching pattern (fst (split_lines left (concat cs))))"
    using Cons.prems(2) l c(3) left by (intro Cons.IH [OF t(2)]) auto
  ultimately show ?case
    by (subst grep.simps) (simp add: ls split_lines_append matching_def apfst_def map_prod_def split: prod.split)
qed

text \<open>
  C34. \<open>grep\<close> on an input that arrives in pieces of at most 512 bytes, each with a newline and
  without a NUL byte in it: it ends, and prints exactly the complete lines of the input that
  match, in order, wherever the pieces cut them.
\<close>

theorem grep_prints_matching:
  assumes "feeds rd cs s" "\<forall>c\<in>set cs. CHR ''\<newline>'' \<in> set c \<and> CHR 0x00 \<notin> set c \<and> length c \<le> 512"
  shows "grep rd pattern [] s = Some (matching pattern (fst (split_lines [] (concat cs))))"
  by (rule grep_all [OF assms]) simp_all

definition chunks :: "nat \<Rightarrow> string list \<Rightarrow> string \<times> string list" where
  "chunks n cs = (case cs of [] \<Rightarrow> ([], []) | c # cs' \<Rightarrow> (c, cs'))"

theorem grep_prints_matching_witness:
  "grep chunks ''b'' [] [''a\<newline>b'', ''c\<newline>d\<newline>''] = Some ''bc\<newline>''"
proof -
  have f: "feeds chunks cs cs" for cs
    by (induction cs) (auto simp: chunks_def)
  show ?thesis
    using grep_prints_matching [OF f, of "[''a\<newline>b'', ''c\<newline>d\<newline>'']" "''b''"]
    by (simp add: matching_def match_def matchhere.simps(2))
qed

text \<open>A piece without a newline is lost: the line it begins is not seen whole.\<close>

lemma grep_loses_piece: "grep chunks ''^b'' [] [''a'', ''b\<newline>''] = Some ''b\<newline>''"
proof -
  have "grep_turn ''^b'' [] ''a'' = ([], [])" "grep_turn ''^b'' [] ''b\<newline>'' = (''b\<newline>'', [])"
    by (simp_all add: grep_turn_def grep_lines.simps c_str_def match_def matchhere.simps(2))
  then show ?thesis
    by (simp add: grep.simps chunks_def)
qed
end
