(* ===== verification/Quiet.thy ===== *)
theory Quiet
  imports ProcAlloc ProcSwitch
begin

text \<open>
  How the components above the process table use it.  Between their critical sections the
  kernel is \<open>quiet\<close>: every spin lock is free, this CPU is consistent and the state lists are
  right.  A section entered from a quiet state under a lock of the component may call
  \<open>wakeup\<close>; leaving it gives a quiet state again.  Such a run changes nothing of the process
  table but the states of sleepers and the links of the lists.
\<close>

definition quiet :: "'a ptable_scheme \<Rightarrow> bool" where
  "quiet s \<longleftrightarrow> (\<exists>L. pt_inv L s) \<and> (\<forall>l. lock_free l s) \<and> cpu_ok s"

definition core :: "proc \<Rightarrow> proc" where
  "core x = x\<lparr>state := UNUSED, pnext := None\<rparr>"

definition tab_sim :: "'a ptable_scheme \<Rightarrow> 'a ptable_scheme \<Rightarrow> bool" where
  "tab_sim s t \<longleftrightarrow> use_lock t = use_lock s \<and> freelist t = freelist s \<and> pmem t = pmem s \<and>
     PromoteAtTime t = PromoteAtTime s \<and> initproc t = initproc s \<and> nextpid t = nextpid s \<and>
     ticks t = ticks s \<and> (\<forall>p. core (ptab t p) = core (ptab s p)) \<and>
     (\<forall>p. state (ptab s p) \<noteq> SLEEPING \<longrightarrow> state (ptab t p) = state (ptab s p))"

definition cpu_sim :: "'a machine_scheme \<Rightarrow> 'a machine_scheme \<Rightarrow> bool" where
  "cpu_sim s t \<longleftrightarrow> curcpu t = curcpu s \<and> locks t = locks s \<and>
     (\<forall>c. cproc (cpus t c) = cproc (cpus s c) \<and> ncli (cpus t c) = ncli (cpus s c) \<and>
       eflags_IF (cpus t c) = eflags_IF (cpus s c))"

text \<open>\<open>t\<close> is a quiet state after \<open>s\<close>; \<open>t\<close> is inside a section under \<open>l\<close> entered from \<open>b\<close>.\<close>

definition follows :: "'a ptable_scheme \<Rightarrow> 'a ptable_scheme \<Rightarrow> bool" where
  "follows s t \<longleftrightarrow> quiet t \<and> cpu_sim s t \<and> tab_sim s t"

definition insec :: "lockname \<Rightarrow> 'a ptable_scheme \<Rightarrow> 'a ptable_scheme \<Rightarrow> bool" where
  "insec l b t \<longleftrightarrow> quiet b \<and> same_machine (acquired l b) t \<and> (\<exists>L. pt_inv L t) \<and> tab_sim b t"

lemma tab_sim_refl [simp]: "tab_sim s s"
  by (simp add: tab_sim_def)

lemma tab_sim_trans: "tab_sim s t \<Longrightarrow> tab_sim t u \<Longrightarrow> tab_sim s u"
  unfolding tab_sim_def by auto

lemma follows_refl [simp]: "quiet s \<Longrightarrow> follows s s"
  by (simp add: follows_def cpu_sim_def)

lemma follows_trans [trans]: "follows s t \<Longrightarrow> follows t u \<Longrightarrow> follows s u"
  using tab_sim_trans by (auto simp: follows_def cpu_sim_def)

lemma follows_quiet: "follows s t \<Longrightarrow> quiet t"
  by (simp add: follows_def)

text \<open>What the process table of a later state agrees on.\<close>

lemma core_simps [simp]:
  "sz (core x) = sz x" "pgdir (core x) = pgdir x" "kstack (core x) = kstack x"
  "pid (core x) = pid x" "parent (core x) = parent x" "tf (core x) = tf x"
  "pcontext (core x) = pcontext x" "pchan (core x) = pchan x" "killed (core x) = killed x"
  "ofile (core x) = ofile x" "cwd (core x) = cwd x" "pname (core x) = pname x"
  "uid (core x) = uid x" "gid (core x) = gid x" "prio (core x) = prio x"
  by (simp_all add: core_def)

lemma core_sel:
  assumes "core x = core y"
  shows "sz x = sz y" "pgdir x = pgdir y" "kstack x = kstack y" "pid x = pid y"
    "parent x = parent y" "tf x = tf y" "pcontext x = pcontext y" "pchan x = pchan y"
    "killed x = killed y" "ofile x = ofile y" "cwd x = cwd y" "pname x = pname y"
    "uid x = uid y" "gid x = gid y" "prio x = prio y"
  using assms core_simps by metis+

lemma core_forget: "x\<lparr>pnext := None\<rparr> = y\<lparr>pnext := None\<rparr> \<Longrightarrow> core x = core y"
proof -
  have "core z = (z\<lparr>pnext := None\<rparr>)\<lparr>state := UNUSED\<rparr>" for z
    by (simp add: core_def)
  then show "x\<lparr>pnext := None\<rparr> = y\<lparr>pnext := None\<rparr> \<Longrightarrow> core x = core y"
    by simp
qed

lemma tab_sim_upper:
  assumes e: "ptable.truncate t = ptable.truncate s"
  shows "tab_sim s t" "same_machine s t" "pt_inv L t = pt_inv L s"
proof -
  show "tab_sim s t" "same_machine s t"
    using e by (simp_all add: ptable.truncate_def tab_sim_def same_machine_def)
  show "pt_inv L t = pt_inv L s"
    using e by (intro pt_inv_cong) (simp_all add: ptable.truncate_def)
qed

lemma quiet_upper:
  assumes "quiet s" "ptable.truncate t = ptable.truncate s"
  shows "quiet t" "follows s t"
proof -
  note u = tab_sim_upper [OF assms(2)]
  show q: "quiet t"
    using assms(1) u(2,3) by (auto simp: quiet_def same_machine_def lock_free_def cpu_ok_def mycpu_def)
  show "follows s t"
    using q u(1,2) by (simp add: follows_def cpu_sim_def same_machine_def)
qed

lemma insec_enter:
  assumes "quiet s"
  shows "acquire l s = Inr (acquired l s)" "insec l s (acquired l s)"
    "ptable.more (acquired l s) = ptable.more s"
proof -
  show "acquire l s = Inr (acquired l s)" "ptable.more (acquired l s) = ptable.more s"
    using assms by (simp_all add: quiet_def) (simp add: acquired_def machine_defs)
  have "tab_sim s (acquired l s)"
    by (simp add: tab_sim_def) (simp add: acquired_def machine_defs)
  then show "insec l s (acquired l s)"
    using assms by (auto simp: insec_def quiet_def)
qed

lemma insec_upper:
  "insec l b t \<Longrightarrow> ptable.truncate u = ptable.truncate t \<Longrightarrow> insec l b u"
  unfolding insec_def
  using tab_sim_upper [of u t] tab_sim_trans same_machine_trans by blast

lemma insec_leave:
  assumes "insec l b t"
  obtains u where "release l t = Inr u" "follows b u" "ptable.more u = ptable.more t" "ptab u = ptab t"
proof -
  let ?u = "t\<lparr>cpus := cpus (settled b), locks := locks b\<rparr>"
  have q: "quiet b" "same_machine (acquired l b) t" "tab_sim b t"
    using assms by (auto simp: insec_def)
  obtain L where L: "pt_inv L t"
    using assms by (auto simp: insec_def)
  have "release l t = Inr ?u"
    using q by (intro release_section) (auto simp: quiet_def)
  moreover have "follows b ?u"
  proof -
    have "cpu_ok ?u" "\<forall>l. lock_free l ?u" "curcpu t = curcpu b"
      using q(1,2) by (auto simp: quiet_def same_machine_def cpu_ok_def lock_free_def mycpu_def)
    moreover have "pt_inv L ?u"
      using L by (simp cong: pt_inv_cong add: pt_inv_cong [of ?u t])
    moreover have "tab_sim b ?u"
      using q(3) by (simp add: tab_sim_def)
    ultimately show ?thesis
      by (auto simp: follows_def quiet_def cpu_sim_def)
  qed
  ultimately show ?thesis
    using that [of ?u] by simp
qed

text \<open>No process sleeps on the channel.\<close>

definition awake :: "chan \<Rightarrow> 'a ptable_scheme \<Rightarrow> bool" where
  "awake ch s \<longleftrightarrow> (\<forall>q<NPROC. state (ptab s q) = SLEEPING \<longrightarrow> pchan (ptab s q) \<noteq> ch)"

lemma insec_wakeup:
  assumes "insec l b t" "l \<noteq> PtableLock"
  obtains u where "wakeup ch t = Inr u" "insec l b u" "ptable.more u = ptable.more t" "awake ch u"
proof -
  have q: "quiet b" "same_machine (acquired l b) t" "tab_sim b t"
    using assms by (auto simp: insec_def)
  obtain L where L: "pt_inv L t"
    using assms by (auto simp: insec_def)
  have m: "cpus t = cpus (acquired l b)" "curcpu t = curcpu b" "locks t = locks (acquired l b)"
    using q(2) by (auto simp: same_machine_def)
  have rdy: "pt_ready t"
    using q(1) assms(2) m by (auto simp: pt_ready_def quiet_def lock_free_def cpu_ok_def mycpu_def)
  obtain u where u: "wakeup ch t = Inr u" "pt_inv (woken_lists ch (ptab t) L) u"
    "relinked (woken ch (settled t)) u"
    by (rule wakeup_ok [OF L rdy])
  have "0 < ncli (cpus t (curcpu t))"
    using q(1) m by (simp add: quiet_def cpu_ok_def mycpu_def)
  then have s: "settled t = t"
    by (simp add: settled_def upd_cpu_def cpu_settled_def)
  note g = relinked_globals [OF u(3)] and f = relinked_fields(1) [OF u(3)]
  have "same_machine t u" "ptable.more u = ptable.more t"
    using g by (simp_all add: same_machine_def woken_def s map_tab_def)
  moreover have "tab_sim t u"
  proof -
    have "forget (ptab u) = forget (ptab (woken ch t))"
      using u(3) by (simp add: relinked_def s)
    then have "core (ptab u p) = core (ptab (woken ch t) p)" for p
      by (intro core_forget forget_eqD)
    then have "core (ptab u p) = core (ptab t p)" for p
      by (simp add: woken_def wake_def core_def)
    then show ?thesis
      using g f by (auto simp: tab_sim_def woken_def s map_tab_def wake_def)
  qed
  moreover have "awake ch u"
    using f relinked_fields(4) [OF u(3)] by (simp add: awake_def woken_def s wake_def)
  ultimately show ?thesis
    using that [OF u(1)] u(2) q same_machine_trans tab_sim_trans unfolding insec_def by blast
qed

lemma insec_sleep:
  assumes "insec l b t" "l \<noteq> PtableLock" "runs p b"
  obtains u where "sleep ch (Some l) t = Inr u" "state (ptab u p) = SLEEPING" "pchan (ptab u p) = ch"
    "lock_free l u" "holding PtableLock u" "ptable.more u = ptable.more t"
    "\<And>c. awake c t \<Longrightarrow> c \<noteq> ch \<Longrightarrow> awake c u"
proof -
  let ?v = "(acq t)\<lparr>cpus := cpus (acq b), locks := locks (acq b)\<rparr>"
  have q: "quiet b" "same_machine (acquired l b) t" "tab_sim b t"
    using assms by (auto simp: insec_def)
  obtain L where L: "pt_inv L t"
    using assms by (auto simp: insec_def)
  have l: "lock_free l b" "state (ptab t p) = RUNNING"
    using q(1,3) assms(3) by (auto simp: quiet_def runs_def tab_sim_def)
  obtain u where u: "sleep ch (Some l) t = Inr u" "pt_inv (moved_head PRunning PSleep p L) u"
    "relinked (upd_proc p (slept (ticks t) (eflags_IF (mycpu b)) ch (Some l)) ?v) u"
    by (rule sleep_lock [OF L assms(3) l(1) assms(2) q(2) l(2)])
  note g = relinked_globals [OF u(3)] and f = relinked_fields(1,4) [OF u(3)]
  have m: "locks u = locks (acq b)" "cpus u = cpus (acq b)" "curcpu u = curcpu b"
    using g(1-3) q(2) by (simp_all add: same_machine_def)
  have "state (ptab u p) = SLEEPING" "pchan (ptab u p) = ch"
    using f [of p] by (simp_all add: slept_def switch_out_def)
  moreover have "lock_free l u" "holding PtableLock u"
    using assms(2,3) l(1) by (simp_all add: m lock_free_def holding_def mycpu_def runs_def)
  moreover have "ptable.more u = ptable.more t"
    using g(11) by (simp add: upd_proc_def) (simp add: acquired_def machine_defs)
  moreover have "awake c u" if "awake c t" "c \<noteq> ch" for c
    using f that \<open>pchan (ptab u p) = ch\<close> by (auto simp: awake_def upd_proc_def split: if_splits)
  ultimately show ?thesis
    using that u(1) by blast
qed
end
