(* ===== verification/Bio.thy ===== *)
theory Bio
  imports Quiet CString
begin

text \<open>
  The buffer cache (bio.c, buf.h) and the IDE driver below it (ide.c).

  A pointer to a buffer is its index in \<open>bcache.buf\<close>; the index \<open>bhead\<close> stands for
  \<open>bcache.head\<close>.  The flag bits are three booleans.  \<open>data\<close> is the byte array, of which the
  first \<open>BSIZE\<close> entries have a meaning.

  The disk holds, for each drive and block, the bytes last written; \<open>writes\<close> records the
  transfers to it in order.  The port protocol is not modelled: \<open>idestart\<close> moves the bytes of a
  write to the drive and \<open>ideintr\<close> those of a read to the buffer, unless the drive reports an
  error (\<open>ide_err\<close>).  A process that sleeps in \<open>iderw\<close> is woken by \<open>ideintr\<close>, so its wait is a
  sequence of interrupts here.  A sleep that another process has to end (a busy buffer) stops
  the operation with \<open>Sleeps\<close>.
\<close>

section \<open>State\<close>

definition BSIZE :: nat where "BSIZE = 512"

record buf =
  b_busy :: bool
  b_valid :: bool
  b_dirty :: bool
  bdev :: uint
  blockno :: uint
  bprev :: nat
  bnext :: nat
  qnext :: "nat ptr"
  data :: cbuf

record bio = ptable +
  bcache :: "nat \<Rightarrow> buf"
  idequeue :: "nat ptr"
  havedisk1 :: bool
  ide_err :: bool
  disk :: "uint \<Rightarrow> uint \<Rightarrow> cbuf"
  writes :: "(uint \<times> uint \<times> cbuf) list"

definition bhead :: nat where "bhead = NBUF"

definition upd_buf :: "nat \<Rightarrow> (buf \<Rightarrow> buf) \<Rightarrow> 'a bio_scheme \<Rightarrow> 'a bio_scheme" where
  "upd_buf b f s = s\<lparr>bcache := (bcache s)(b := f (bcache s b))\<rparr>"

definition BFUEL :: nat where "BFUEL = NBUF + 1"

section \<open>The IDE driver\<close>

definition drive :: "uint \<Rightarrow> uint" where
  "drive dev = dev AND 1"

definition idestart :: "nat ptr \<Rightarrow> 'a bio_scheme \<Rightarrow> 'a bio_scheme res" where
  "idestart q s =
     (case q of
        None \<Rightarrow> Inl (Panic ''idestart'')
      | Some b \<Rightarrow>
          let x = bcache s b in
          if of_nat FSSIZE \<le> blockno x then Inl (Panic ''incorrect blockno'')
          else if BSIZE div 512 > 7 then Inl (Panic ''idestart'')
          else if b_dirty x then
            Inr (s\<lparr>disk := (disk s)(drive (bdev x) := (disk s (drive (bdev x)))(blockno x := data x)),
                   writes := writes s @ [(drive (bdev x), blockno x, data x)]\<rparr>)
          else Inr s)"

definition ideintr :: "'a bio_scheme \<Rightarrow> 'a bio_scheme res" where
  "ideintr s =
     Rbind (acquire IdeLock s) (\<lambda>s.
     case idequeue s of
       None \<Rightarrow> release IdeLock s
     | Some b \<Rightarrow>
         let s = s\<lparr>idequeue := qnext (bcache s b)\<rparr>;
             s = (if \<not> b_dirty (bcache s b) \<and> \<not> ide_err s
                  then upd_buf b (\<lambda>x. x\<lparr>data := disk s (drive (bdev x)) (blockno x)\<rparr>) s else s);
             s = upd_buf b (\<lambda>x. x\<lparr>b_valid := True, b_dirty := False\<rparr>) s
         in
         Rbind (wakeup (BufAddr b) s) (\<lambda>s.
         Rbind (if idequeue s \<noteq> None then idestart (idequeue s) s else Inr s) (\<lambda>s.
         release IdeLock s)))"

text \<open>The last buffer of the queue, from \<open>b\<close> on.\<close>

fun queue_end :: "nat \<Rightarrow> (nat \<Rightarrow> buf) \<Rightarrow> nat \<Rightarrow> nat res" where
  "queue_end 0 B b = Inl Diverge"
| "queue_end (Suc k) B b = (case qnext (B b) of None \<Rightarrow> Inr b | Some c \<Rightarrow> queue_end k B c)"

definition ide_append :: "nat \<Rightarrow> 'a bio_scheme \<Rightarrow> 'a bio_scheme res" where
  "ide_append b s =
     (let s = upd_buf b (\<lambda>x. x\<lparr>qnext := None\<rparr>) s in
      case idequeue s of
        None \<Rightarrow> Inr (s\<lparr>idequeue := Some b\<rparr>)
      | Some q \<Rightarrow> Rbind (queue_end BFUEL (bcache s) q) (\<lambda>e.
          Inr (upd_buf e (\<lambda>x. x\<lparr>qnext := Some b\<rparr>) s)))"

text \<open>\<open>sleep(b, &idelock)\<close> until the request is done: the lock is free while interrupts come.\<close>

fun ide_wait :: "nat \<Rightarrow> nat \<Rightarrow> 'a bio_scheme \<Rightarrow> 'a bio_scheme res" where
  "ide_wait 0 b s = Inl Diverge"
| "ide_wait (Suc k) b s =
     (if b_valid (bcache s b) \<and> \<not> b_dirty (bcache s b) then Inr s
      else Rbind (release IdeLock s) (\<lambda>s.
           Rbind (ideintr s) (\<lambda>s.
           Rbind (acquire IdeLock s) (ide_wait k b))))"

definition iderw :: "nat \<Rightarrow> 'a bio_scheme \<Rightarrow> 'a bio_scheme res" where
  "iderw b s =
     (let x = bcache s b in
      if \<not> b_busy x then Inl (Panic ''iderw: buf not busy'')
      else if b_valid x \<and> \<not> b_dirty x then Inl (Panic ''iderw: nothing to do'')
      else if bdev x \<noteq> 0 \<and> \<not> havedisk1 s then Inl (Panic ''iderw: ide disk 1 not present'')
      else
        Rbind (acquire IdeLock s) (\<lambda>s.
        Rbind (ide_append b s) (\<lambda>s.
        Rbind (if idequeue s = Some b then idestart (Some b) s else Inr s) (\<lambda>s.
        Rbind (ide_wait BFUEL b s) (release IdeLock)))))"

section \<open>The buffer cache\<close>

definition link_front :: "nat \<Rightarrow> (nat \<Rightarrow> buf) \<Rightarrow> nat \<Rightarrow> buf" where
  "link_front b B =
     (let B = B(b := (B b)\<lparr>bnext := bnext (B bhead)\<rparr>);
          B = B(b := (B b)\<lparr>bprev := bhead\<rparr>);
          h = bnext (B bhead);
          B = B(h := (B h)\<lparr>bprev := b\<rparr>)
      in B(bhead := (B bhead)\<lparr>bnext := b\<rparr>))"

definition binit_buf :: "nat \<Rightarrow> 'a bio_scheme \<Rightarrow> 'a bio_scheme" where
  "binit_buf b s = s\<lparr>bcache := link_front b ((bcache s)(b := (bcache s b)\<lparr>bdev := - 1\<rparr>))\<rparr>"

definition binit :: "'a bio_scheme \<Rightarrow> 'a bio_scheme" where
  "binit s =
     (let s = initlock BcacheLock ''bcache'' s;
          s = upd_buf bhead (\<lambda>x. x\<lparr>bprev := bhead, bnext := bhead\<rparr>) s
      in fold binit_buf [0..<NBUF] s)"

fun bget_cached :: "nat \<Rightarrow> (nat \<Rightarrow> buf) \<Rightarrow> uint \<Rightarrow> uint \<Rightarrow> nat \<Rightarrow> nat option res" where
  "bget_cached 0 B dev bno b = Inl Diverge"
| "bget_cached (Suc k) B dev bno b =
     (if b = bhead then Inr None
      else if bdev (B b) = dev \<and> blockno (B b) = bno then Inr (Some b)
      else bget_cached k B dev bno (bnext (B b)))"

fun bget_victim :: "nat \<Rightarrow> (nat \<Rightarrow> buf) \<Rightarrow> nat \<Rightarrow> nat option res" where
  "bget_victim 0 B b = Inl Diverge"
| "bget_victim (Suc k) B b =
     (if b = bhead then Inr None
      else if \<not> b_busy (B b) \<and> \<not> b_dirty (B b) then Inr (Some b)
      else bget_victim k B (bprev (B b)))"

definition bget :: "uint \<Rightarrow> uint \<Rightarrow> 'a bio_scheme \<Rightarrow> (nat \<times> 'a bio_scheme) res" where
  "bget dev bno s =
     Rbind (acquire BcacheLock s) (\<lambda>s.
     Rbind (bget_cached BFUEL (bcache s) dev bno (bnext (bcache s bhead))) (\<lambda>r.
     case r of
       Some b \<Rightarrow>
         if \<not> b_busy (bcache s b) then
           Rbind (release BcacheLock (upd_buf b (\<lambda>x. x\<lparr>b_busy := True\<rparr>) s)) (\<lambda>s. Inr (b, s))
         else Inl (Sleeps (BufAddr b))
     | None \<Rightarrow>
         Rbind (bget_victim BFUEL (bcache s) (bprev (bcache s bhead))) (\<lambda>r.
         case r of
           Some b \<Rightarrow>
             Rbind (release BcacheLock (upd_buf b (\<lambda>x. x\<lparr>bdev := dev, blockno := bno,
               b_busy := True, b_valid := False, b_dirty := False\<rparr>) s)) (\<lambda>s. Inr (b, s))
         | None \<Rightarrow> Inl (Panic ''bget: no buffers''))))"

definition bread :: "uint \<Rightarrow> uint \<Rightarrow> 'a bio_scheme \<Rightarrow> (nat \<times> 'a bio_scheme) res" where
  "bread dev bno s =
     Rbind (bget dev bno s) (\<lambda>(b, s).
     if \<not> b_valid (bcache s b) then Rbind (iderw b s) (\<lambda>s. Inr (b, s)) else Inr (b, s))"

definition bwrite :: "nat \<Rightarrow> 'a bio_scheme \<Rightarrow> 'a bio_scheme res" where
  "bwrite b s =
     (if \<not> b_busy (bcache s b) then Inl (Panic ''bwrite'')
      else iderw b (upd_buf b (\<lambda>x. x\<lparr>b_dirty := True\<rparr>) s))"

definition unlink_buf :: "nat \<Rightarrow> (nat \<Rightarrow> buf) \<Rightarrow> nat \<Rightarrow> buf" where
  "unlink_buf b B =
     (let n = bnext (B b);
          B = B(n := (B n)\<lparr>bprev := bprev (B b)\<rparr>);
          p = bprev (B b)
      in B(p := (B p)\<lparr>bnext := bnext (B b)\<rparr>))"

definition brelse :: "nat \<Rightarrow> 'a bio_scheme \<Rightarrow> 'a bio_scheme res" where
  "brelse b s =
     (if \<not> b_busy (bcache s b) then Inl (Panic ''brelse'')
      else
        Rbind (acquire BcacheLock s) (\<lambda>s.
        let s = s\<lparr>bcache := link_front b (unlink_buf b (bcache s))\<rparr>;
            s = upd_buf b (\<lambda>x. x\<lparr>b_busy := False\<rparr>) s
        in Rbind (wakeup (BufAddr b) s) (release BcacheLock)))"

section \<open>The ring of buffers\<close>

text \<open>\<open>links f a xs z\<close>: following \<open>f\<close> from \<open>a\<close> visits \<open>xs\<close> and then arrives at \<open>z\<close>.\<close>

fun links :: "(nat \<Rightarrow> nat) \<Rightarrow> nat \<Rightarrow> nat list \<Rightarrow> nat \<Rightarrow> bool" where
  "links f a [] z \<longleftrightarrow> f a = z"
| "links f a (x # xs) z \<longleftrightarrow> f a = x \<and> links f x xs z"

lemma links_append: "links f a (xs @ y # ys) z \<longleftrightarrow> links f a xs y \<and> links f y ys z"
  by (induction xs arbitrary: a) auto

lemma links_upd: "c \<notin> set (a # xs) \<Longrightarrow> links (f(c := v)) a xs z = links f a xs z"
  by (induction xs arbitrary: a) auto

lemma links_first: "links f a xs z \<Longrightarrow> f a = hd (xs @ [z])"
  by (cases xs) auto

lemma links_redirect:
  "links f a xs y \<Longrightarrow> distinct (a # xs) \<Longrightarrow> links (f(last (a # xs) := z)) a xs z"
proof (induction xs arbitrary: a)
  case (Cons x xs)
  have l: "last (x # xs) \<in> set (x # xs)"
    by (rule last_in_set) simp
  have "links (f(last (x # xs) := z)) x xs z"
    using Cons.prems by (intro Cons.IH) auto
  moreover have "last (x # xs) \<noteq> a"
    using l Cons.prems(2) by auto
  moreover have "last (a # x # xs) = last (x # xs)"
    by simp
  ultimately show ?case
    using Cons.prems(1) by (simp only: links.simps fun_upd_other)
qed simp

definition ring :: "(nat \<Rightarrow> nat) \<Rightarrow> (nat \<Rightarrow> nat) \<Rightarrow> nat list \<Rightarrow> bool" where
  "ring N P xs \<longleftrightarrow> links N bhead xs bhead \<and> links P bhead (rev xs) bhead \<and> distinct (bhead # xs)"

lemma ring_ends: "ring N P xs \<Longrightarrow> N bhead = hd (xs @ [bhead])" "ring N P xs \<Longrightarrow> P bhead = last (bhead # xs)"
  by (auto simp: ring_def hd_append hd_rev dest: links_first)

lemma ring_split:
  assumes "ring N P (us @ b # vs)"
  shows "N b = hd (vs @ [bhead])" "P b = last (bhead # us)"
  using assms by (auto simp: ring_def links_append hd_append hd_rev dest: links_first)

lemma ring_remove:
  assumes "ring N P (us @ b # vs)"
  shows "ring (N(P b := N b)) (P(N b := P b)) (us @ vs)"
proof -
  have n: "links N bhead us b" "links N b vs bhead" "distinct (bhead # us)"
    using assms by (auto simp: ring_def links_append)
  have p: "links P bhead (rev vs) b" "links P b (rev us) bhead" "distinct (bhead # rev vs)"
    using assms by (auto simp: ring_def links_append)
  note e = ring_split [OF assms]
  have "links (N(last (bhead # us) := hd (vs @ [bhead]))) bhead (us @ vs) bhead"
  proof (cases vs)
    case Nil
    then show ?thesis
      using links_redirect [OF n(1,3), of bhead] by simp
  next
    case (Cons v vs')
    have "last (bhead # us) \<in> set (bhead # us)"
      by (rule last_in_set) simp
    then have "last (bhead # us) \<notin> set vs"
      using assms by (auto simp: ring_def)
    then show ?thesis
      using links_redirect [OF n(1,3), of v] n(2) Cons by (simp add: links_append links_upd)
  qed
  moreover have "links (P(hd (vs @ [bhead]) := last (bhead # us))) bhead (rev vs @ rev us) bhead"
  proof (cases us rule: rev_cases)
    case Nil
    then show ?thesis
      using links_redirect [OF p(1,3), of bhead] by (cases vs) (simp_all add: last_rev)
  next
    case (snoc us' u)
    have "hd (vs @ [bhead]) \<notin> set us" "hd (vs @ [bhead]) = last (bhead # rev vs)"
      using assms by (cases vs; auto simp: ring_def last_rev)+
    then show ?thesis
      using links_redirect [OF p(1,3), of u] p(2) snoc by (simp add: links_append links_upd)
  qed
  moreover have "distinct (bhead # us @ vs)"
    using assms by (auto simp: ring_def)
  ultimately show ?thesis
    by (simp add: ring_def e)
qed

lemma ring_insert:
  assumes "ring N P xs" "b \<notin> set (bhead # xs)"
  shows "ring (N(b := N bhead, bhead := b)) (P(b := bhead, N bhead := b)) (b # xs)"
proof -
  have "links (N(b := N bhead, bhead := b)) bhead (b # xs) bhead"
    using assms by (cases xs) (auto simp: ring_def links_upd)
  moreover have "links (P(b := bhead, N bhead := b)) bhead (rev xs @ [b]) bhead"
  proof (cases xs)
    case Nil
    then show ?thesis
      using assms by (auto simp: ring_def)
  next
    case (Cons x xs')
    have "links P bhead (rev xs' @ [x]) bhead" "distinct (bhead # rev xs)"
      using assms(1) Cons by (auto simp: ring_def)
    then have "links (P(last (bhead # rev xs) := b)) bhead (rev xs) b"
      using links_redirect [of P bhead "rev xs" bhead b] Cons by simp
    moreover have "N bhead = x" "last (bhead # rev xs) = x"
      using assms(1) Cons by (auto simp: ring_def)
    moreover have "P(b := bhead, x := b) = P(x := b, b := bhead)"
      using assms(2) Cons by (auto simp: fun_upd_twist)
    ultimately show ?thesis
      using assms(2) Cons by (simp add: links_append links_upd)
  qed
  ultimately show ?thesis
    using assms by (simp add: ring_def)
qed

definition nexts_of :: "(nat \<Rightarrow> buf) \<Rightarrow> nat \<Rightarrow> nat" where
  "nexts_of B i = bnext (B i)"

definition prevs_of :: "(nat \<Rightarrow> buf) \<Rightarrow> nat \<Rightarrow> nat" where
  "prevs_of B i = bprev (B i)"

lemma nexts_of_upd [simp]:
  "nexts_of (B(b := x)) = (nexts_of B)(b := bnext x)" "prevs_of (B(b := x)) = (prevs_of B)(b := bprev x)"
  by (auto simp: fun_eq_iff nexts_of_def prevs_of_def)

lemma nexts_of_same [simp]:
  "(nexts_of B)(b := bnext (B b)) = nexts_of B" "(prevs_of B)(b := bprev (B b)) = prevs_of B"
  by (auto simp: fun_eq_iff nexts_of_def prevs_of_def)

text \<open>A buffer without its links.\<close>

definition strip :: "buf \<Rightarrow> buf" where
  "strip x = x\<lparr>bprev := 0, bnext := 0, qnext := None\<rparr>"

lemma strip_sel [simp]:
  "b_busy (strip x) = b_busy x" "b_valid (strip x) = b_valid x" "b_dirty (strip x) = b_dirty x"
  "bdev (strip x) = bdev x" "blockno (strip x) = blockno x" "data (strip x) = data x"
  by (simp_all add: strip_def)

lemma strip_upd:
  "strip (x\<lparr>b_busy := v\<rparr>) = (strip x)\<lparr>b_busy := v\<rparr>" "strip (x\<lparr>b_dirty := v\<rparr>) = (strip x)\<lparr>b_dirty := v\<rparr>"
  "strip (x\<lparr>data := d\<rparr>) = (strip x)\<lparr>data := d\<rparr>"
  by (cases x; simp add: strip_def)+

lemma strip_eqD:
  assumes "strip x = strip y"
  shows "b_busy x = b_busy y" "b_valid x = b_valid y" "b_dirty x = b_dirty y"
    "bdev x = bdev y" "blockno x = blockno y" "data x = data y"
  using assms strip_sel by metis+

lemma link_front_links:
  assumes "b \<noteq> bhead"
  shows "nexts_of (link_front b B) = (nexts_of B)(b := bnext (B bhead), bhead := b)"
    "prevs_of (link_front b B) = (prevs_of B)(b := bhead, bnext (B bhead) := b)"
    "strip (link_front b B i) = strip (B i)"
  using assms by (auto simp: link_front_def Let_def strip_def fun_eq_iff nexts_of_def prevs_of_def)

lemma unlink_buf_links:
  assumes "bnext (B b) \<noteq> b"
  shows "nexts_of (unlink_buf b B) = (nexts_of B)(bprev (B b) := bnext (B b))"
    "prevs_of (unlink_buf b B) = (prevs_of B)(bnext (B b) := bprev (B b))"
    "strip (unlink_buf b B i) = strip (B i)"
  using assms by (auto simp: unlink_buf_def Let_def strip_def fun_eq_iff nexts_of_def prevs_of_def)

definition ring_ok :: "(nat \<Rightarrow> buf) \<Rightarrow> nat list \<Rightarrow> bool" where
  "ring_ok B xs \<longleftrightarrow> ring (nexts_of B) (prevs_of B) xs \<and> set xs = {..<NBUF}"

lemma ring_ok_cong:
  "nexts_of B = nexts_of C \<Longrightarrow> prevs_of B = prevs_of C \<Longrightarrow> ring_ok B xs = ring_ok C xs"
  by (simp add: ring_ok_def)

lemma ring_ok_upd [simp]:
  "(\<And>x. bnext (f x) = bnext x \<and> bprev (f x) = bprev x) \<Longrightarrow> ring_ok (B(b := f (B b))) xs = ring_ok B xs"
  by (intro ring_ok_cong) simp_all

lemma ring_move_front:
  assumes "ring_ok B (us @ b # vs)"
  shows "ring_ok (link_front b (unlink_buf b B)) (b # us @ vs)"
proof -
  have r: "ring (nexts_of B) (prevs_of B) (us @ b # vs)" "set (us @ b # vs) = {..<NBUF}"
    using assms by (auto simp: ring_ok_def)
  then have b: "b \<noteq> bhead" "b \<notin> set (bhead # us @ vs)"
    by (auto simp: ring_def)
  have "bnext (B b) \<noteq> b"
    using ring_split(1) [OF r(1)] b by (cases vs) (auto simp: nexts_of_def)
  note u = unlink_buf_links [where B = B and b = b, OF this]
  have "ring (nexts_of (unlink_buf b B)) (prevs_of (unlink_buf b B)) (us @ vs)"
    using ring_remove [OF r(1)] unfolding u(1,2) by (simp add: nexts_of_def prevs_of_def)
  from ring_insert [OF this b(2)] show ?thesis
    using r(2) by (auto simp: ring_ok_def link_front_links(1,2) [OF b(1)] nexts_of_def)
qed

text \<open>\<open>binit\<close> builds the ring.\<close>

lemma binit_buf_ring:
  assumes "ring (nexts_of (bcache s)) (prevs_of (bcache s)) xs" "b \<notin> set (bhead # xs)"
  shows "ring (nexts_of (bcache (binit_buf b s))) (prevs_of (bcache (binit_buf b s))) (b # xs)"
proof -
  let ?C = "(bcache s)(b := (bcache s b)\<lparr>bdev := - 1\<rparr>)"
  have "nexts_of ?C = nexts_of (bcache s)" "prevs_of ?C = prevs_of (bcache s)" "b \<noteq> bhead"
    using assms(2) by simp_all
  then show ?thesis
    using ring_insert [OF assms] link_front_links(1,2) [of b ?C]
    by (simp add: binit_buf_def nexts_of_def)
qed

lemma binit_ring: "ring_ok (bcache (binit s)) (rev [0..<NBUF])"
proof -
  let ?s = "upd_buf bhead (\<lambda>x. x\<lparr>bprev := bhead, bnext := bhead\<rparr>) (initlock BcacheLock ''bcache'' s)"
  have "ring (nexts_of (bcache (fold binit_buf [0..<n] ?s))) (prevs_of (bcache (fold binit_buf [0..<n] ?s)))
      (rev [0..<n])" if "n \<le> NBUF" for n
    using that
  proof (induction n)
    case 0
    then show ?case by (simp add: ring_def upd_buf_def nexts_of_def prevs_of_def)
  next
    case (Suc n)
    then show ?case
      using binit_buf_ring [of "fold binit_buf [0..<n] ?s" "rev [0..<n]" n] by (simp add: bhead_def)
  qed
  from this [of NBUF] show ?thesis
    by (auto simp: ring_ok_def binit_def Let_def)
qed

lemma bget_cached_ring:
  assumes "links (nexts_of B) a xs bhead" "bhead \<notin> set xs" "length xs < k"
  shows "bget_cached k B dev bno (bnext (B a)) = Inr (find (\<lambda>b. bdev (B b) = dev \<and> blockno (B b) = bno) xs)"
  using assms
proof (induction xs arbitrary: a k)
  case Nil
  then show ?case by (cases k) (simp_all add: nexts_of_def)
next
  case (Cons x xs)
  then show ?case by (cases k) (auto simp: nexts_of_def)
qed

lemma bget_victim_ring:
  assumes "links (prevs_of B) a xs bhead" "bhead \<notin> set xs" "length xs < k"
  shows "bget_victim k B (bprev (B a)) = Inr (find (\<lambda>b. \<not> b_busy (B b) \<and> \<not> b_dirty (B b)) xs)"
  using assms
proof (induction xs arbitrary: a k)
  case Nil
  then show ?case by (cases k) (simp_all add: prevs_of_def)
next
  case (Cons x xs)
  then show ?case by (cases k) (auto simp: prevs_of_def)
qed

lemma ring_searches:
  assumes "ring_ok B xs"
  shows "bget_cached BFUEL B dev bno (bnext (B bhead)) =
      Inr (find (\<lambda>b. bdev (B b) = dev \<and> blockno (B b) = bno) xs)"
    "bget_victim BFUEL B (bprev (B bhead)) = Inr (find (\<lambda>b. \<not> b_busy (B b) \<and> \<not> b_dirty (B b)) (rev xs))"
proof -
  have "length xs = NBUF"
    using assms distinct_card [of xs] by (auto simp: ring_ok_def ring_def)
  then show "bget_cached BFUEL B dev bno (bnext (B bhead)) =
      Inr (find (\<lambda>b. bdev (B b) = dev \<and> blockno (B b) = bno) xs)"
    "bget_victim BFUEL B (bprev (B bhead)) = Inr (find (\<lambda>b. \<not> b_busy (B b) \<and> \<not> b_dirty (B b)) (rev xs))"
    using assms by (intro bget_cached_ring bget_victim_ring; simp add: ring_ok_def ring_def BFUEL_def)+
qed

end
