(* ===== verification/BioCache.thy ===== *)
theory BioCache
  imports Bio ProcDemo
begin

text \<open>
  The buffer cache as its clients see it: a cache in front of the disk that gives each block
  one buffer.  \<open>bio_ok\<close> is its invariant and \<open>blk\<close> the contents of a block; \<open>bread\<close>, \<open>bwrite\<close>
  and \<open>brelse\<close> are described by them.
\<close>

section \<open>The operations\<close>

lemma bio_more:
  assumes "ptable.more t = ptable.more s"
  shows "bcache t = bcache s" "idequeue t = idequeue s" "havedisk1 t = havedisk1 s"
    "ide_err t = ide_err s" "disk t = disk s" "writes t = writes s" "bio.more t = bio.more s"
  using assms by (cases t; cases s; simp)+

lemma bio_truncate [simp]:
  "ptable.truncate (bcache_update f s) = ptable.truncate s"
  "ptable.truncate (idequeue_update g s) = ptable.truncate s"
  "ptable.truncate (disk_update h s) = ptable.truncate s"
  "ptable.truncate (writes_update k s) = ptable.truncate s"
  "ptable.truncate (upd_buf b m s) = ptable.truncate s"
  by (simp_all add: ptable.truncate_def upd_buf_def)

lemma upd_buf_sel [simp]:
  "bcache (upd_buf b f s) = (bcache s)(b := f (bcache s b))" "idequeue (upd_buf b f s) = idequeue s"
  "havedisk1 (upd_buf b f s) = havedisk1 s" "ide_err (upd_buf b f s) = ide_err s"
  "disk (upd_buf b f s) = disk s" "writes (upd_buf b f s) = writes s"
  "bio.more (upd_buf b f s) = bio.more s"
  by (simp_all add: upd_buf_def)

text \<open>What the layers above the cache keep.\<close>

definition same_above :: "'a bio_scheme \<Rightarrow> 'a bio_scheme \<Rightarrow> bool" where
  "same_above s t \<longleftrightarrow> havedisk1 t = havedisk1 s \<and> ide_err t = ide_err s \<and> bio.more t = bio.more s"

lemma same_above_refl [simp]: "same_above s s"
  by (simp add: same_above_def)

lemma same_above_trans [trans]: "same_above s t \<Longrightarrow> same_above t u \<Longrightarrow> same_above s u"
  by (simp add: same_above_def)

text \<open>The disk interrupt that completes the only request.\<close>

lemma ideintr_one:
  assumes "quiet s" "idequeue s = Some b" "qnext (bcache s b) = None" "\<not> ide_err s"
  obtains t where "ideintr s = Inr t" "follows s t" "same_above s t" "idequeue t = None"
    "disk t = disk s" "writes t = writes s"
    "bcache t = (bcache s)(b := (bcache s b)\<lparr>b_valid := True, b_dirty := False,
       data := (if b_dirty (bcache s b) then data (bcache s b)
                else disk s (drive (bdev (bcache s b))) (blockno (bcache s b)))\<rparr>)"
proof -
  let ?a = "acquired IdeLock s"
  note e = insec_enter [OF assms(1), of IdeLock]
  note m = bio_more [OF e(3)]
  let ?s1 = "?a\<lparr>idequeue := None\<rparr>"
  let ?s2 = "if \<not> b_dirty (bcache ?s1 b) \<and> \<not> ide_err ?s1
    then upd_buf b (\<lambda>x. x\<lparr>data := disk ?s1 (drive (bdev x)) (blockno x)\<rparr>) ?s1 else ?s1"
  let ?s3 = "upd_buf b (\<lambda>x. x\<lparr>b_valid := True, b_dirty := False\<rparr>) ?s2"
  have "insec IdeLock s ?s3"
    by (rule insec_upper [OF e(2)]) simp
  then obtain u where u: "wakeup (BufAddr b) ?s3 = Inr u" "insec IdeLock s u" "ptable.more u = ptable.more ?s3"
    by (rule insec_wakeup) simp
  obtain t where t: "release IdeLock u = Inr t" "follows s t" "ptable.more t = ptable.more u"
    by (rule insec_leave [OF u(2)])
  have "ptable.more t = ptable.more ?s3"
    using t(3) u(3) by simp
  note k = bio_more [OF this]
  have "ideintr s = Inr t"
    using e(1) u(1) t(1) assms(2,3) bio_more(2) [OF u(3)]
    by (simp add: ideintr_def m Let_def)
  moreover have "same_above s t"
    using k m by (simp add: same_above_def)
  moreover have "idequeue t = None" "disk t = disk s" "writes t = writes s"
    by (simp_all add: k m)
  moreover have "bcache t = (bcache s)(b := (bcache s b)\<lparr>b_valid := True, b_dirty := False,
      data := (if b_dirty (bcache s b) then data (bcache s b)
               else disk s (drive (bdev (bcache s b))) (blockno (bcache s b)))\<rparr>)"
    using assms(4) by (cases "b_dirty (bcache s b)"; cases "bcache s b") (simp_all add: k m)
  ultimately show ?thesis
    using that t(2) by blast
qed

lemma iderw_ok:
  assumes "quiet s" "idequeue s = None" "\<not> ide_err s"
    and x: "b_busy (bcache s b)" "b_valid (bcache s b) \<Longrightarrow> b_dirty (bcache s b)"
      "bdev (bcache s b) = 0 \<or> havedisk1 s" "blockno (bcache s b) < of_nat FSSIZE"
  obtains t where "iderw b s = Inr t" "follows s t" "same_above s t" "idequeue t = None"
    "disk t = (if b_dirty (bcache s b)
       then (disk s)(drive (bdev (bcache s b)) :=
              (disk s (drive (bdev (bcache s b))))(blockno (bcache s b) := data (bcache s b)))
       else disk s)"
    "writes t = writes s @ (if b_dirty (bcache s b)
       then [(drive (bdev (bcache s b)), blockno (bcache s b), data (bcache s b))] else [])"
    "bcache t = (bcache s)(b := (bcache s b)\<lparr>b_valid := True, b_dirty := False, qnext := None,
       data := (if b_dirty (bcache s b) then data (bcache s b)
                else disk s (drive (bdev (bcache s b))) (blockno (bcache s b)))\<rparr>)"
proof -
  let ?x = "bcache s b"
  let ?a = "acquired IdeLock s"
  note e = insec_enter [OF assms(1), of IdeLock]
  note m = bio_more [OF e(3)]
  let ?s1 = "(upd_buf b (\<lambda>x. x\<lparr>qnext := None\<rparr>) ?a)\<lparr>idequeue := Some b\<rparr>"
  let ?s2 = "if b_dirty ?x
    then ?s1\<lparr>disk := (disk s)(drive (bdev ?x) := (disk s (drive (bdev ?x)))(blockno ?x := data ?x)),
             writes := writes s @ [(drive (bdev ?x), blockno ?x, data ?x)]\<rparr>
    else ?s1"
  have start: "idestart (Some b) ?s1 = Inr ?s2"
    using x(4) by (simp add: idestart_def Let_def m BSIZE_def)
  have "insec IdeLock s ?s2"
    by (rule insec_upper [OF e(2)]) simp
  then obtain u where u: "release IdeLock ?s2 = Inr u" "follows s u" "ptable.more u = ptable.more ?s2"
    by (rule insec_leave)
  note mu = bio_more [OF u(3)]
  have B: "bcache u = (bcache s)(b := ?x\<lparr>qnext := None\<rparr>)" "idequeue u = Some b" "\<not> ide_err u"
    "same_above s u"
    using assms(3) by (simp_all add: mu m same_above_def)
  have q: "quiet u" "qnext (bcache u b) = None"
    using u(2) B by (simp_all add: follows_def)
  obtain v where v: "ideintr u = Inr v" "follows u v" "same_above u v" "idequeue v = None"
    "disk v = disk u" "writes v = writes u"
    "bcache v = (bcache u)(b := (bcache u b)\<lparr>b_valid := True, b_dirty := False,
       data := (if b_dirty (bcache u b) then data (bcache u b)
                else disk u (drive (bdev (bcache u b))) (blockno (bcache u b)))\<rparr>)"
    by (rule ideintr_one [OF q(1) B(2) q(2) B(3)])
  note ev = insec_enter [OF follows_quiet [OF v(2)], of IdeLock]
  note mv = bio_more [OF ev(3)]
  obtain t where t: "release IdeLock (acquired IdeLock v) = Inr t" "follows v t"
    "ptable.more t = ptable.more (acquired IdeLock v)"
    by (rule insec_leave [OF ev(2)])
  note mt = bio_more [OF t(3)]
  have nd: "\<not> (b_valid ?x \<and> \<not> b_dirty ?x)"
    using x(2) by blast
  have "ide_wait BFUEL b ?s2 = Inr (acquired IdeLock v)"
  proof -
    have f: "BFUEL = Suc (Suc (NBUF - 1))"
      by (simp add: BFUEL_def NBUF_def MAXOPBLOCKS_def)
    have "b_valid (bcache (acquired IdeLock v) b)" "\<not> b_dirty (bcache (acquired IdeLock v) b)"
      by (simp_all add: mv v(7))
    moreover have "bcache ?s2 b = ?x\<lparr>qnext := None\<rparr>"
      by (simp add: m)
    ultimately show ?thesis
      unfolding f using nd u(1) v(1) ev(1) by auto
  qed
  then have "iderw b s = Inr t"
    using x(1,3) nd e(1) start t(1) assms(2)
    by (simp add: iderw_def Let_def ide_append_def m)
  moreover have "follows s t"
    using u(2) v(2) t(2) follows_trans by blast
  moreover have "same_above s t"
    using B(4) v(3) mt mv by (simp add: same_above_def)
  moreover have "idequeue t = None" "bcache t = (bcache s)(b := ?x\<lparr>b_valid := True, b_dirty := False,
      qnext := None, data := (if b_dirty ?x then data ?x else disk s (drive (bdev ?x)) (blockno ?x))\<rparr>)"
    "disk t = (if b_dirty ?x then (disk s)(drive (bdev ?x) := (disk s (drive (bdev ?x)))(blockno ?x := data ?x))
       else disk s)"
    "writes t = writes s @ (if b_dirty ?x then [(drive (bdev ?x), blockno ?x, data ?x)] else [])"
    by (cases ?x, simp_all add: mt mv v B(1) mu m)+
  ultimately show ?thesis
    using that by blast
qed

section \<open>The cache in front of the disk\<close>

text \<open>
  The invariant of the cache: the ring holds every buffer once, no two buffers have the same
  block, a dirty buffer is valid, and a valid one that is not dirty agrees with the disk.
\<close>

definition has_drive :: "uint \<Rightarrow> bool" where
  "has_drive dev \<longleftrightarrow> dev = 0 \<or> dev = 1"

lemma has_driveD: "has_drive dev \<Longrightarrow> dev \<noteq> - 1" "has_drive dev \<Longrightarrow> drive dev = dev"
  by (auto simp: has_drive_def drive_def)

definition bufs_ok :: "(nat \<Rightarrow> buf) \<Rightarrow> (uint \<Rightarrow> uint \<Rightarrow> cbuf) \<Rightarrow> bool" where
  "bufs_ok B D \<longleftrightarrow>
     (\<exists>xs. ring_ok B xs) \<and>
     (\<forall>i<NBUF. \<forall>j<NBUF. bdev (B i) = bdev (B j) \<and> blockno (B i) = blockno (B j) \<and> bdev (B i) \<noteq> - 1 \<longrightarrow> i = j) \<and>
     (\<forall>i<NBUF. (b_dirty (B i) \<longrightarrow> b_valid (B i)) \<and> (b_valid (B i) \<longrightarrow> has_drive (bdev (B i))) \<and>
        (b_valid (B i) \<and> \<not> b_dirty (B i) \<longrightarrow> data (B i) = D (drive (bdev (B i))) (blockno (B i))))"

lemma bufs_okI:
  assumes "ring_ok B xs"
    "\<And>i j. i < NBUF \<Longrightarrow> j < NBUF \<Longrightarrow> i \<noteq> j \<Longrightarrow> bdev (B i) \<noteq> - 1 \<Longrightarrow>
       bdev (B i) \<noteq> bdev (B j) \<or> blockno (B i) \<noteq> blockno (B j)"
    "\<And>i. i < NBUF \<Longrightarrow> b_dirty (B i) \<Longrightarrow> b_valid (B i)"
    "\<And>i. i < NBUF \<Longrightarrow> b_valid (B i) \<Longrightarrow> has_drive (bdev (B i))"
    "\<And>i. i < NBUF \<Longrightarrow> b_valid (B i) \<Longrightarrow> \<not> b_dirty (B i) \<Longrightarrow> data (B i) = D (drive (bdev (B i))) (blockno (B i))"
  shows "bufs_ok B D"
  using assms unfolding bufs_ok_def by blast

lemma bufs_okD:
  assumes "bufs_ok B D" "i < NBUF"
  shows "j < NBUF \<Longrightarrow> i \<noteq> j \<Longrightarrow> bdev (B i) \<noteq> - 1 \<Longrightarrow> bdev (B i) \<noteq> bdev (B j) \<or> blockno (B i) \<noteq> blockno (B j)"
    "b_dirty (B i) \<Longrightarrow> b_valid (B i)" "b_valid (B i) \<Longrightarrow> has_drive (bdev (B i))"
    "b_valid (B i) \<Longrightarrow> \<not> b_dirty (B i) \<Longrightarrow> data (B i) = D (drive (bdev (B i))) (blockno (B i))"
  using assms unfolding bufs_ok_def by blast+

definition bio_ok :: "'a bio_scheme \<Rightarrow> bool" where
  "bio_ok s \<longleftrightarrow> quiet s \<and> idequeue s = None \<and> \<not> ide_err s \<and> havedisk1 s \<and> bufs_ok (bcache s) (disk s)"

text \<open>The contents of a block: those of its dirty buffer, else those on the disk.\<close>

definition blk :: "(nat \<Rightarrow> buf) \<Rightarrow> (uint \<Rightarrow> uint \<Rightarrow> cbuf) \<Rightarrow> uint \<Rightarrow> uint \<Rightarrow> cbuf" where
  "blk B D dev bno =
     (case find (\<lambda>i. b_dirty (B i) \<and> bdev (B i) = dev \<and> blockno (B i) = bno) [0..<NBUF] of
        Some i \<Rightarrow> data (B i) | None \<Rightarrow> D (drive dev) bno)"

lemma find_unique_upt:
  assumes "i < n" "P i" "\<And>j. j < n \<Longrightarrow> P j \<Longrightarrow> j = i"
  shows "find P [0..<n] = Some i"
proof (cases "find P [0..<n]")
  case None
  then show ?thesis
    using assms(1,2) by (auto simp: find_None_iff)
next
  case (Some j)
  then have "j < n" "P j"
    by (auto simp: find_Some_iff)
  then show ?thesis
    using assms(3) Some by simp
qed

lemma blk_valid:
  assumes "bufs_ok B D" "i < NBUF" "b_valid (B i)"
  shows "blk B D (bdev (B i)) (blockno (B i)) = data (B i)"
proof (cases "b_dirty (B i)")
  case True
  have "find (\<lambda>j. b_dirty (B j) \<and> bdev (B j) = bdev (B i) \<and> blockno (B j) = blockno (B i)) [0..<NBUF] = Some i"
    using assms True has_driveD(1) by (intro find_unique_upt) (auto simp: bufs_ok_def)
  then show ?thesis
    by (simp add: blk_def)
next
  case False
  have "find (\<lambda>j. b_dirty (B j) \<and> bdev (B j) = bdev (B i) \<and> blockno (B j) = blockno (B i)) [0..<NBUF] = None"
    using assms False has_driveD(1) unfolding bufs_ok_def find_None_iff by fastforce
  then show ?thesis
    using assms False by (auto simp: blk_def bufs_ok_def)
qed

lemma blk_clean:
  "(\<And>i. i < NBUF \<Longrightarrow> b_dirty (B i) \<Longrightarrow> bdev (B i) \<noteq> dev \<or> blockno (B i) \<noteq> bno) \<Longrightarrow>
     blk B D dev bno = D (drive dev) bno"
proof -
  assume "\<And>i. i < NBUF \<Longrightarrow> b_dirty (B i) \<Longrightarrow> bdev (B i) \<noteq> dev \<or> blockno (B i) \<noteq> bno"
  then have "find (\<lambda>j. b_dirty (B j) \<and> bdev (B j) = dev \<and> blockno (B j) = bno) [0..<NBUF] = None"
    unfolding find_None_iff by auto
  then show ?thesis
    by (simp add: blk_def)
qed

text \<open>The view depends on the dirty buffers only.\<close>

lemma blk_cong:
  assumes "\<And>i. i < NBUF \<Longrightarrow> b_dirty (B i) = b_dirty (C i)"
    "\<And>i. i < NBUF \<Longrightarrow> b_dirty (B i) \<Longrightarrow> bdev (B i) = bdev (C i) \<and> blockno (B i) = blockno (C i) \<and> data (B i) = data (C i)"
  shows "blk B D = blk C D"
proof (rule ext, rule ext)
  fix dev bno
  have "find (\<lambda>i. b_dirty (B i) \<and> bdev (B i) = dev \<and> blockno (B i) = bno) [0..<NBUF] =
      find (\<lambda>i. b_dirty (C i) \<and> bdev (C i) = dev \<and> blockno (C i) = bno) [0..<NBUF]"
    using assms by (intro find_cong) auto
  moreover have "data (B i) = data (C i)"
    if "find (\<lambda>i. b_dirty (C i) \<and> bdev (C i) = dev \<and> blockno (C i) = bno) [0..<NBUF] = Some i" for i
  proof -
    have "i < NBUF" "b_dirty (C i)"
      using that unfolding find_Some_iff by auto
    then show ?thesis
      using assms by simp
  qed
  ultimately show "blk B D dev bno = blk C D dev bno"
    by (simp add: blk_def split: option.split)
qed

text \<open>A buffer that is given the contents of a block no other buffer has.\<close>

lemma bufs_ok_load:
  assumes B: "bufs_ok B D" and b: "b < NBUF"
    and nm: "\<And>i. i < NBUF \<Longrightarrow> i \<noteq> b \<Longrightarrow> bdev (B i) \<noteq> dev \<or> blockno (B i) \<noteq> bno"
    and dev: "has_drive dev" and old: "b_dirty z \<Longrightarrow> bdev (B b) = dev \<and> blockno (B b) = bno"
    and z: "bnext z = bnext (B b)" "bprev z = bprev (B b)" "bdev z = dev" "blockno z = bno" "b_valid z"
      "b_dirty z = b_dirty (B b)" "data z = blk B D dev bno"
  shows "bufs_ok (B(b := z)) D \<and> blk (B(b := z)) D = blk B D"
proof
  let ?C = "B(b := z)"
  have bc: "blk B D dev bno = D (drive dev) bno" if "\<not> b_dirty (B b)"
    by (rule blk_clean) (use nm that in blast)
  obtain xs where xs: "ring_ok B xs"
    using B by (auto simp: bufs_ok_def)
  show "bufs_ok ?C D"
  proof (rule bufs_okI)
    show "ring_ok ?C xs"
      using xs z(1,2) ring_ok_cong [of ?C B xs] by simp
    show "bdev (?C i) \<noteq> bdev (?C j) \<or> blockno (?C i) \<noteq> blockno (?C j)"
      if ij: "i < NBUF" "j < NBUF" "i \<noteq> j" "bdev (?C i) \<noteq> - 1" for i j
    proof -
      consider "i = b" "j \<noteq> b" | "j = b" "i \<noteq> b" | "i \<noteq> b" "j \<noteq> b"
        using ij(3) by blast
      then show ?thesis
        using nm [of i] nm [of j] bufs_okD(1) [OF B ij(1,2,3)] ij z(3,4) by cases auto
    qed
    show "b_valid (?C i)" if "i < NBUF" "b_dirty (?C i)" for i
      using bufs_okD(2) [OF B that(1)] that z(5) by (cases "i = b") simp_all
    show "has_drive (bdev (?C i))" if "i < NBUF" "b_valid (?C i)" for i
      using bufs_okD(3) [OF B that(1)] that z(3) dev by (cases "i = b") simp_all
    show "data (?C i) = D (drive (bdev (?C i))) (blockno (?C i))"
      if "i < NBUF" "b_valid (?C i)" "\<not> b_dirty (?C i)" for i
      using bufs_okD(4) [OF B that(1)] that z bc by (cases "i = b") simp_all
  qed
  show "blk ?C D = blk B D"
  proof (rule blk_cong)
    show "b_dirty (?C i) = b_dirty (B i)" for i
      using z(6) by simp
    show "bdev (?C i) = bdev (B i) \<and> blockno (?C i) = blockno (B i) \<and> data (?C i) = data (B i)"
      if i: "i < NBUF" "b_dirty (?C i)" for i
    proof (cases "i = b")
      case True
      then have v: "bdev (B b) = dev" "blockno (B b) = bno" "b_valid (B b)"
        using i z(6) old bufs_okD(2) [OF B b] by auto
      then show ?thesis
        using blk_valid [OF B b v(3)] z True by simp
    qed simp
  qed
qed

text \<open>A buffer written through to the disk.\<close>

lemma bufs_ok_flush:
  assumes B: "bufs_ok B D" and b: "b < NBUF" "b_valid (B b)"
  shows "bufs_ok (B(b := (B b)\<lparr>b_valid := True, b_dirty := False, qnext := None, data := d\<rparr>))
    (D(drive (bdev (B b)) := (D (drive (bdev (B b))))(blockno (B b) := d)))"
    (is "bufs_ok ?C ?D")
proof -
  obtain xs where xs: "ring_ok B xs"
    using B by (auto simp: bufs_ok_def)
  have same: "bdev (?C i) = bdev (B i)" "blockno (?C i) = blockno (B i)" for i
    by simp_all
  show ?thesis
  proof (rule bufs_okI)
    show "ring_ok ?C xs"
      using xs ring_ok_cong [of ?C B xs] by simp
    show "bdev (?C i) \<noteq> bdev (?C j) \<or> blockno (?C i) \<noteq> blockno (?C j)"
      if "i < NBUF" "j < NBUF" "i \<noteq> j" "bdev (?C i) \<noteq> - 1" for i j
      using bufs_okD(1) [OF B that(1,2,3)] that(4) unfolding same by simp
    show "b_valid (?C i)" if "i < NBUF" "b_dirty (?C i)" for i
      using bufs_okD(2) [OF B that(1)] that by (cases "i = b") simp_all
    show "has_drive (bdev (?C i))" if "i < NBUF" "b_valid (?C i)" for i
      using bufs_okD(3) [OF B that(1)] bufs_okD(3) [OF B b] that by (cases "i = b") simp_all
    show "data (?C i) = ?D (drive (bdev (?C i))) (blockno (?C i))"
      if i: "i < NBUF" "b_valid (?C i)" "\<not> b_dirty (?C i)" for i
    proof (cases "i = b")
      case False
      then have v: "b_valid (B i)" "\<not> b_dirty (B i)"
        using i by simp_all
      note h = bufs_okD(3) [OF B i(1) v(1)] bufs_okD(3) [OF B b]
      have "bdev (B i) \<noteq> bdev (B b) \<or> blockno (B i) \<noteq> blockno (B b)"
        using bufs_okD(1) [OF B i(1) b(1) False] has_driveD(1) [OF h(1)] by simp
      then show ?thesis
        using False bufs_okD(4) [OF B i(1) v] has_driveD(2) [OF h(1)] has_driveD(2) [OF h(2)] by auto
    qed simp
  qed
qed

lemma find_pred: "find P xs = Some x \<Longrightarrow> x \<in> set xs \<and> P x"
  by (auto simp: find_Some_iff)

lemma bget_ok:
  assumes ok: "bio_ok s" and free: "(\<exists>i<NBUF. bdev (bcache s i) = dev \<and> blockno (bcache s i) = bno) \<or>
      (\<exists>i<NBUF. \<not> b_busy (bcache s i) \<and> \<not> b_dirty (bcache s i))"
    and idle: "\<And>i. i < NBUF \<Longrightarrow> bdev (bcache s i) = dev \<Longrightarrow> blockno (bcache s i) = bno \<Longrightarrow> \<not> b_busy (bcache s i)"
  obtains b t y where "bget dev bno s = Inr (b, t)" "follows s t" "same_above s t" "idequeue t = None"
    "disk t = disk s" "writes t = writes s" "b < NBUF" "\<not> b_busy (bcache s b)"
    "bcache t = (bcache s)(b := y)"
    "y = (bcache s b)\<lparr>b_busy := True\<rparr> \<and> bdev (bcache s b) = dev \<and> blockno (bcache s b) = bno \<or>
     y = (bcache s b)\<lparr>bdev := dev, blockno := bno, b_busy := True, b_valid := False, b_dirty := False\<rparr> \<and>
       \<not> b_dirty (bcache s b) \<and> (\<forall>i<NBUF. bdev (bcache s i) \<noteq> dev \<or> blockno (bcache s i) \<noteq> bno)"
proof -
  let ?B = "bcache s"
  obtain xs where xs: "ring_ok ?B xs"
    using ok by (auto simp: bio_ok_def bufs_ok_def)
  then have mem: "set xs = {..<NBUF}"
    by (simp add: ring_ok_def)
  have q: "quiet s" "idequeue s = None"
    using ok by (auto simp: bio_ok_def)
  note e = insec_enter [OF q(1), of BcacheLock]
  note m = bio_more [OF e(3)]
  let ?P = "\<lambda>b. bdev (?B b) = dev \<and> blockno (?B b) = bno"
  let ?Q = "\<lambda>b. \<not> b_busy (?B b) \<and> \<not> b_dirty (?B b)"
  have leave: "\<exists>t. release BcacheLock (upd_buf b f (acquired BcacheLock s)) = Inr t \<and> follows s t \<and>
      same_above s t \<and> idequeue t = None \<and> disk t = disk s \<and> writes t = writes s \<and>
      bcache t = ?B(b := f (?B b))" for b f
  proof -
    have "insec BcacheLock s (upd_buf b f (acquired BcacheLock s))"
      by (rule insec_upper [OF e(2)]) simp
    then obtain t where t: "release BcacheLock (upd_buf b f (acquired BcacheLock s)) = Inr t" "follows s t"
      "ptable.more t = ptable.more (upd_buf b f (acquired BcacheLock s))"
      by (rule insec_leave)
    then show ?thesis
      using bio_more [OF t(3)] m q(2) by (simp add: same_above_def)
  qed
  show ?thesis
  proof (cases "find ?P xs")
    case (Some b)
    then have b: "b < NBUF" "?P b"
      using find_pred [OF Some] mem by auto
    obtain t where t: "release BcacheLock (upd_buf b (\<lambda>x. x\<lparr>b_busy := True\<rparr>) (acquired BcacheLock s)) = Inr t"
      "follows s t" "same_above s t" "idequeue t = None" "disk t = disk s" "writes t = writes s"
      "bcache t = ?B(b := (?B b)\<lparr>b_busy := True\<rparr>)"
      using leave [of b "\<lambda>x. x\<lparr>b_busy := True\<rparr>"] by blast
    have "bget dev bno s = Inr (b, t)"
      using e(1) ring_searches(1) [OF xs] Some idle [OF b(1)] b(2) t(1) by (simp add: bget_def m)
    then show ?thesis
      using that [of b t] t idle b by blast
  next
    case None
    then have no: "\<forall>i<NBUF. bdev (?B i) \<noteq> dev \<or> blockno (?B i) \<noteq> bno"
      using mem by (auto simp: find_None_iff)
    obtain b where b: "find ?Q (rev xs) = Some b"
      using free no mem by (cases "find ?Q (rev xs)") (auto simp: find_None_iff)
    then have b2: "b < NBUF" "?Q b"
      using find_pred [OF b] mem by auto
    let ?f = "\<lambda>x. x\<lparr>bdev := dev, blockno := bno, b_busy := True, b_valid := False, b_dirty := False\<rparr>"
    obtain t where t: "release BcacheLock (upd_buf b ?f (acquired BcacheLock s)) = Inr t"
      "follows s t" "same_above s t" "idequeue t = None" "disk t = disk s" "writes t = writes s"
      "bcache t = ?B(b := ?f (?B b))"
      using leave [of b ?f] by blast
    have "bget dev bno s = Inr (b, t)"
      using e(1) ring_searches [OF xs] None b t(1) by (simp add: bget_def m)
    then show ?thesis
      using that [of b t] t b2 no by blast
  qed
qed

lemma bread_ok:
  assumes ok: "bio_ok s" and free: "(\<exists>i<NBUF. bdev (bcache s i) = dev \<and> blockno (bcache s i) = bno) \<or>
      (\<exists>i<NBUF. \<not> b_busy (bcache s i) \<and> \<not> b_dirty (bcache s i))"
    and idle: "\<And>i. i < NBUF \<Longrightarrow> bdev (bcache s i) = dev \<Longrightarrow> blockno (bcache s i) = bno \<Longrightarrow> \<not> b_busy (bcache s i)"
    and dev: "has_drive dev" "bno < of_nat FSSIZE"
  obtains b t y where "bread dev bno s = Inr (b, t)" "follows s t" "same_above s t" "bio_ok t"
    "disk t = disk s" "writes t = writes s" "b < NBUF" "\<not> b_busy (bcache s b)"
    "bcache t = (bcache s)(b := y)" "b_busy y" "b_valid y" "bdev y = dev" "blockno y = bno"
    "b_dirty y = b_dirty (bcache s b)" "data y = blk (bcache s) (disk s) dev bno"
    "b_dirty y \<longrightarrow> bdev (bcache s b) = dev \<and> blockno (bcache s b) = bno"
    "blk (bcache t) (disk t) = blk (bcache s) (disk s)"
proof -
  let ?B = "bcache s"
  obtain b t y where t: "bget dev bno s = Inr (b, t)" "follows s t" "same_above s t" "idequeue t = None"
    "disk t = disk s" "writes t = writes s" "b < NBUF" "\<not> b_busy (?B b)" "bcache t = ?B(b := y)" and
    y: "y = (?B b)\<lparr>b_busy := True\<rparr> \<and> bdev (?B b) = dev \<and> blockno (?B b) = bno \<or>
     y = (?B b)\<lparr>bdev := dev, blockno := bno, b_busy := True, b_valid := False, b_dirty := False\<rparr> \<and>
       \<not> b_dirty (?B b) \<and> (\<forall>i<NBUF. bdev (?B i) \<noteq> dev \<or> blockno (?B i) \<noteq> bno)"
    by (rule bget_ok [OF ok free idle])
  have B: "bufs_ok ?B (disk s)" "\<not> ide_err s" "havedisk1 s"
    using ok by (auto simp: bio_ok_def)
  have ds: "b_busy y" "bdev y = dev" "blockno y = bno" "bnext y = bnext (?B b)" "bprev y = bprev (?B b)"
    "b_dirty y = b_dirty (?B b)" "b_dirty y \<longrightarrow> bdev (?B b) = dev \<and> blockno (?B b) = bno"
    using y by auto
  have nm: "bdev (?B i) \<noteq> dev \<or> blockno (?B i) \<noteq> bno" if "i < NBUF" "i \<noteq> b" for i
  proof (cases "bdev (?B b) = dev \<and> blockno (?B b) = bno")
    case True
    then show ?thesis
      using bufs_okD(1) [OF B(1) t(7) that(1)] that(2) has_driveD(1) [OF dev(1)] by auto
  next
    case False
    then show ?thesis
      using y that by blast
  qed
  have bc: "blk ?B (disk s) dev bno = disk s (drive dev) bno" if "\<not> b_dirty (?B b)"
    by (rule blk_clean) (use nm that in blast)
  have upd: "bufs_ok (?B(b := z)) (disk s) \<and> blk (?B(b := z)) (disk s) = blk ?B (disk s)"
    if z: "bnext z = bnext (?B b)" "bprev z = bprev (?B b)" "bdev z = dev" "blockno z = bno" "b_valid z"
      "b_dirty z = b_dirty (?B b)" "data z = blk ?B (disk s) dev bno" for z
    using bufs_ok_load [OF B(1) t(7) nm dev(1)] z ds(6,7) by simp
  show ?thesis
  proof (cases "b_valid y")
    case True
    then have y1: "y = (?B b)\<lparr>b_busy := True\<rparr>" "bdev (?B b) = dev" "blockno (?B b) = bno"
      using y by auto
    have "data y = blk ?B (disk s) dev bno"
      using blk_valid [OF B(1) t(7)] True y1 by simp
    moreover have "bread dev bno s = Inr (b, t)"
      using t(1,9) True by (simp add: bread_def)
    moreover have "bio_ok t"
      using upd [of y] ds t True calculation(1) B by (auto simp: bio_ok_def follows_def same_above_def)
    moreover have "blk (bcache t) (disk t) = blk ?B (disk s)"
      using upd [of y] ds t True calculation(1) by simp
    ultimately show ?thesis
      using that t ds True by blast
  next
    case False
    then have nd: "\<not> b_dirty y"
      using B(1) y t(7) by (auto simp: bufs_ok_def)
    have q: "quiet t" "\<not> ide_err t" "havedisk1 t"
      using t(2,3) B by (auto simp: follows_def same_above_def)
    obtain u where u: "iderw b t = Inr u" "follows t u" "same_above t u" "idequeue u = None"
      "disk u = disk t" "writes u = writes t"
      "bcache u = (bcache t)(b := y\<lparr>b_valid := True, b_dirty := False, qnext := None,
         data := disk t (drive (bdev y)) (blockno y)\<rparr>)"
      using iderw_ok [OF q(1) t(4) q(2), of b] t(9) ds False nd dev(2) q(3) by (auto simp: )
    let ?z = "y\<lparr>b_valid := True, b_dirty := False, qnext := None, data := disk t (drive dev) bno\<rparr>"
    have zb: "blk ?B (disk s) dev bno = disk s (drive dev) bno"
      using bc nd ds(6) by simp
    then have z: "bufs_ok (?B(b := ?z)) (disk s) \<and> blk (?B(b := ?z)) (disk s) = blk ?B (disk s)"
      "data ?z = blk ?B (disk s) dev bno"
      using upd [of ?z] ds nd t(5) by simp_all
    have "bread dev bno s = Inr (b, u)"
      using t(1,9) u(1) False by (simp add: bread_def)
    moreover have "bcache u = ?B(b := ?z)"
      using u(7) t(9) ds by simp
    ultimately show ?thesis
      using that [of b u ?z] t u z ds nd B q follows_trans [OF t(2) u(2)] same_above_trans [OF t(3) u(3)]
      by (auto simp: bio_ok_def follows_def same_above_def)
  qed
qed

lemma bwrite_ok:
  assumes ok: "bio_ok s" and b: "b < NBUF" "b_busy (bcache s b)" "b_valid (bcache s b)"
    "blockno (bcache s b) < of_nat FSSIZE"
  obtains t where "bwrite b (upd_buf b (\<lambda>x. x\<lparr>data := d\<rparr>) s) = Inr t" "follows s t" "same_above s t"
    "bio_ok t"
    "disk t = (disk s)(drive (bdev (bcache s b)) :=
       (disk s (drive (bdev (bcache s b))))(blockno (bcache s b) := d))"
    "writes t = writes s @ [(drive (bdev (bcache s b)), blockno (bcache s b), d)]"
    "bcache t = (bcache s)(b := (bcache s b)\<lparr>b_valid := True, b_dirty := False, qnext := None, data := d\<rparr>)"
proof -
  let ?x = "bcache s b"
  let ?s = "upd_buf b (\<lambda>x. x\<lparr>b_dirty := True\<rparr>) (upd_buf b (\<lambda>x. x\<lparr>data := d\<rparr>) s)"
  have s: "quiet ?s" "follows s ?s" "idequeue ?s = None" "\<not> ide_err ?s" "havedisk1 ?s" "bufs_ok (bcache s) (disk s)"
    using ok quiet_upper [of s ?s] by (auto simp: bio_ok_def)
  have x: "bcache ?s b = ?x\<lparr>data := d, b_dirty := True\<rparr>"
    by simp
  obtain t where t: "iderw b ?s = Inr t" "follows ?s t" "same_above ?s t" "idequeue t = None"
    "disk t = (disk s)(drive (bdev ?x) := (disk s (drive (bdev ?x)))(blockno ?x := d))"
    "writes t = writes s @ [(drive (bdev ?x), blockno ?x, d)]"
    "bcache t = (bcache ?s)(b := (bcache ?s b)\<lparr>b_valid := True, b_dirty := False, qnext := None, data := d\<rparr>)"
    using iderw_ok [OF s(1,3,4), of b] b s(5) by (auto simp: x)
  have B: "bcache t = (bcache s)(b := ?x\<lparr>b_valid := True, b_dirty := False, qnext := None, data := d\<rparr>)"
    by (cases ?x) (simp add: t(7))
  have "bufs_ok (bcache t) (disk t)"
    unfolding B t(5) by (rule bufs_ok_flush [OF s(6) b(1,3)])
  then have "bio_ok t"
    using follows_quiet [OF t(2)] t(3,4) s(4,5) by (simp add: bio_ok_def same_above_def)
  moreover have "same_above s t"
    using t(3) by (simp add: same_above_def)
  moreover have "bwrite b (upd_buf b (\<lambda>x. x\<lparr>data := d\<rparr>) s) = Inr t"
    using b(2) t(1) by (simp add: bwrite_def)
  ultimately show ?thesis
    using that follows_trans [OF s(2) t(2)] t(5,6) B by blast
qed

definition released :: "nat \<Rightarrow> (nat \<Rightarrow> buf) \<Rightarrow> nat \<Rightarrow> buf" where
  "released b B = (link_front b (unlink_buf b B))(b := (link_front b (unlink_buf b B) b)\<lparr>b_busy := False\<rparr>)"

lemma bufs_ok_release:
  assumes B: "bufs_ok B D" and b: "b < NBUF"
  shows "bufs_ok (released b B) D" "\<exists>xs. ring_ok (released b B) (b # xs)" "strip (released b B i) = strip ((B(b := (B b)\<lparr>b_busy := False\<rparr>)) i)"
proof -
  let ?C = "released b B"
  obtain xs where xs: "ring_ok B xs"
    using B by (auto simp: bufs_ok_def)
  then have r: "ring (nexts_of B) (prevs_of B) xs" "set xs = {..<NBUF}"
    by (auto simp: ring_ok_def)
  obtain us vs where uv: "xs = us @ b # vs"
    using r(2) b by (metis lessThan_iff split_list)
  have nb: "b \<noteq> bhead" "bnext (B b) \<noteq> b"
    using b ring_split(1) [OF r(1) [unfolded uv]] r(1) unfolding uv
    by (cases vs; auto simp: nexts_of_def ring_def bhead_def)+
  have st: "strip (link_front b (unlink_buf b B) i) = strip (B i)" for i
    using link_front_links(3) [OF nb(1)] unlink_buf_links(3) [where B = B and b = b, OF nb(2)] by simp
  have st2: "strip (?C i) = strip ((B(b := (B b)\<lparr>b_busy := False\<rparr>)) i)" for i
    using st [of b] st [of i] by (cases "i = b") (simp_all add: strip_upd released_def)
  then show "strip (?C i) = strip ((B(b := (B b)\<lparr>b_busy := False\<rparr>)) i)" .
  have e: "bdev (?C i) = bdev (B i)" "blockno (?C i) = blockno (B i)" "b_valid (?C i) = b_valid (B i)"
    "b_dirty (?C i) = b_dirty (B i)" "data (?C i) = data (B i)" for i
    using strip_eqD [OF st2 [of i]] by (cases "i = b"; simp)+
  have rc: "ring_ok ?C (b # us @ vs)"
    using ring_move_front [OF xs [unfolded uv]] by (simp add: released_def)
  then show "\<exists>xs. ring_ok ?C (b # xs)"
    by blast
  show "bufs_ok ?C D"
    using rc B unfolding bufs_ok_def e by blast
qed

lemma brelse_ok:
  assumes ok: "bio_ok s" and b: "b < NBUF" "b_busy (bcache s b)"
  obtains t where "brelse b s = Inr t" "follows s t" "same_above s t" "bio_ok t" "disk t = disk s"
    "writes t = writes s"
    "\<forall>i. strip (bcache t i) = strip (((bcache s)(b := (bcache s b)\<lparr>b_busy := False\<rparr>)) i)"
    "blk (bcache t) (disk t) = blk (bcache s) (disk s)" "\<exists>xs. ring_ok (bcache t) (b # xs)"
proof -
  have s: "quiet s" "idequeue s = None" "\<not> ide_err s" "havedisk1 s" "bufs_ok (bcache s) (disk s)"
    using ok by (auto simp: bio_ok_def)
  note e = insec_enter [OF s(1), of BcacheLock]
  note m = bio_more [OF e(3)]
  let ?a = "acquired BcacheLock s"
  let ?s = "upd_buf b (\<lambda>x. x\<lparr>b_busy := False\<rparr>) (?a\<lparr>bcache := link_front b (unlink_buf b (bcache ?a))\<rparr>)"
  have "insec BcacheLock s ?s"
    by (rule insec_upper [OF e(2)]) simp
  then obtain u where u: "wakeup (BufAddr b) ?s = Inr u" "insec BcacheLock s u" "ptable.more u = ptable.more ?s"
    by (rule insec_wakeup) simp
  obtain t where t: "release BcacheLock u = Inr t" "follows s t" "ptable.more t = ptable.more u"
    by (rule insec_leave [OF u(2)])
  have "ptable.more t = ptable.more ?s"
    using t(3) u(3) by simp
  note k = bio_more [OF this]
  note f = bufs_ok_release [OF s(5) b(1)]
  have C: "bcache t = released b (bcache s)"
    by (simp add: k m released_def)
  have st: "strip (bcache t i) = strip (((bcache s)(b := (bcache s b)\<lparr>b_busy := False\<rparr>)) i)" for i
    unfolding C by (rule f(3))
  have "brelse b s = Inr t"
    using b(2) e(1) u(1) t(1) by (simp add: brelse_def Let_def)
  moreover have "bio_ok t" "same_above s t" "disk t = disk s" "writes t = writes s"
    using f(1) follows_quiet [OF t(2)] s(2,3,4) by (simp_all add: bio_ok_def same_above_def C k(2-7) m)
  moreover have "blk (bcache t) (disk t) = blk (bcache s) (disk s)"
  proof -
    have "b_dirty (bcache t i) = b_dirty (bcache s i)" "bdev (bcache t i) = bdev (bcache s i)"
      "blockno (bcache t i) = blockno (bcache s i)" "data (bcache t i) = data (bcache s i)" for i
      using strip_eqD [OF st [of i]] by (cases "i = b"; simp)+
    then show ?thesis
      unfolding calculation(4) by (intro blk_cong) simp_all
  qed
  moreover have "\<exists>xs. ring_ok (bcache t) (b # xs)"
    unfolding C by (rule f(2))
  ultimately show ?thesis
    using that t(2) st by blast
qed

section \<open>Reading a block\<close>

text \<open>
  C24. \<open>bread\<close> returns the contents of the block, when some buffer is idle and clean, no one
  holds the block, the drive exists and reports no error (\<open>bio_ok\<close>): it ends with a busy and
  valid buffer that no one held before, holding what the block's dirty buffer or else the disk
  has.  \<open>brelse\<close> then makes it free and most recently used.  No block changes its contents,
  nothing is written to the disk and the cache invariant holds again.
\<close>

theorem bread_serves_block:
  assumes "bio_ok s" "\<exists>i<NBUF. \<not> b_busy (bcache s i) \<and> \<not> b_dirty (bcache s i)"
    "\<forall>i<NBUF. bdev (bcache s i) = dev \<and> blockno (bcache s i) = bno \<longrightarrow> \<not> b_busy (bcache s i)"
    "has_drive dev" "bno < of_nat FSSIZE"
  shows "\<exists>b t u. bread dev bno s = Inr (b, t) \<and> \<not> b_busy (bcache s b) \<and> b_busy (bcache t b) \<and>
    b_valid (bcache t b) \<and> bdev (bcache t b) = dev \<and> blockno (bcache t b) = bno \<and>
    data (bcache t b) = blk (bcache s) (disk s) dev bno \<and> bio_ok t \<and>
    brelse b t = Inr u \<and> bio_ok u \<and> \<not> b_busy (bcache u b) \<and> (\<exists>xs. ring_ok (bcache u) (b # xs)) \<and>
    blk (bcache u) (disk u) = blk (bcache s) (disk s) \<and> writes u = writes s"
proof -
  have idle: "\<not> b_busy (bcache s i)" if "i < NBUF" "bdev (bcache s i) = dev" "blockno (bcache s i) = bno" for i
    using assms(3) that by blast
  obtain b t y where t: "bread dev bno s = Inr (b, t)" "follows s t" "same_above s t" "bio_ok t"
    "disk t = disk s" "writes t = writes s" "b < NBUF" "\<not> b_busy (bcache s b)"
    "bcache t = (bcache s)(b := y)" "b_busy y" "b_valid y" "bdev y = dev" "blockno y = bno"
    "b_dirty y = b_dirty (bcache s b)" "data y = blk (bcache s) (disk s) dev bno"
    "b_dirty y \<longrightarrow> bdev (bcache s b) = dev \<and> blockno (bcache s b) = bno"
    "blk (bcache t) (disk t) = blk (bcache s) (disk s)"
    by (rule bread_ok [OF assms(1) disjI2 [OF assms(2)] idle assms(4,5)])
  have "b_busy (bcache t b)"
    using t(9,10) by simp
  then obtain u where u: "brelse b t = Inr u" "follows t u" "same_above t u" "bio_ok u" "disk u = disk t"
    "writes u = writes t"
    "\<forall>i. strip (bcache u i) = strip (((bcache t)(b := (bcache t b)\<lparr>b_busy := False\<rparr>)) i)"
    "blk (bcache u) (disk u) = blk (bcache t) (disk t)" "\<exists>xs. ring_ok (bcache u) (b # xs)"
    by (rule brelse_ok [OF t(4,7)])
  have "\<not> b_busy (bcache u b)"
    using strip_eqD(1) [OF u(7) [rule_format, of b]] by simp
  then show ?thesis
    using t u by (intro exI [of _ b] exI [of _ t] exI [of _ u]) simp
qed

definition demo_buf :: buf where
  "demo_buf = \<lparr>b_busy = False, b_valid = False, b_dirty = False, bdev = 0, blockno = 0, bprev = 0,
     bnext = 0, qnext = None, data = (\<lambda>_. 0)\<rparr>"

definition demo_bio :: bio where
  "demo_bio = binit (ptable.extend demo_pt
     (bio.fields (\<lambda>_. demo_buf) None True False (\<lambda>dev bno i. of_nat i) []))"

lemma binit_fold:
  "bhead \<notin> set bs \<Longrightarrow> strip (bcache (fold binit_buf bs s) i) =
     (if i \<in> set bs then (strip (bcache s i))\<lparr>bdev := - 1\<rparr> else strip (bcache s i)) \<and>
     ptable.truncate (fold binit_buf bs s) = ptable.truncate s \<and> idequeue (fold binit_buf bs s) = idequeue s \<and>
     havedisk1 (fold binit_buf bs s) = havedisk1 s \<and> ide_err (fold binit_buf bs s) = ide_err s \<and>
     disk (fold binit_buf bs s) = disk s \<and> bio.more (fold binit_buf bs s) = bio.more s"
proof (induction bs arbitrary: s)
  case (Cons b bs)
  have "strip (bcache (binit_buf b s) i) = (if i = b then (strip (bcache s i))\<lparr>bdev := - 1\<rparr> else strip (bcache s i))"
    using Cons.prems by (auto simp: binit_buf_def link_front_links(3)) (simp_all add: strip_def)
  then show ?case
    using Cons by (auto simp: binit_buf_def)
qed simp

lemma binit_ok:
  assumes "quiet s" "idequeue s = None" "\<not> ide_err s" "havedisk1 s" "\<And>i. i < NBUF \<Longrightarrow> \<not> b_valid (bcache s i) \<and> \<not> b_dirty (bcache s i)"
  shows "bio_ok (binit s)" "disk (binit s) = disk s" "bio.more (binit s) = bio.more s"
    "\<And>i. i < NBUF \<Longrightarrow> \<not> b_valid (bcache (binit s) i) \<and> \<not> b_dirty (bcache (binit s) i) \<and>
       bdev (bcache (binit s) i) = - 1 \<and> b_busy (bcache (binit s) i) = b_busy (bcache s i)"
proof -
  let ?s = "upd_buf bhead (\<lambda>x. x\<lparr>bprev := bhead, bnext := bhead\<rparr>) (initlock BcacheLock ''bcache'' s)"
  have "quiet (initlock BcacheLock ''bcache'' s)"
    using assms(1) pt_inv_cong [of "initlock BcacheLock ''bcache'' s" s]
    by (auto simp: quiet_def initlock_def upd_lock_def lock_free_def cpu_ok_def mycpu_def)
  then have q: "quiet ?s"
    by (rule quiet_upper) simp
  have b: "bhead \<notin> set [0..<NBUF]"
    by (simp add: bhead_def)
  note f = binit_fold [OF b, of ?s]
  have e: "binit s = fold binit_buf [0..<NBUF] ?s"
    by (simp add: binit_def Let_def)
  have s: "bcache ?s i = bcache s i" if "i < NBUF" for i
    using that by (simp add: initlock_def upd_lock_def bhead_def)
  have "strip (bcache (binit s) i) = (strip (bcache s i))\<lparr>bdev := - 1\<rparr>" if "i < NBUF" for i
    using f [of i] s [OF that] that by (simp add: e)
  then show c: "\<And>i. i < NBUF \<Longrightarrow> \<not> b_valid (bcache (binit s) i) \<and> \<not> b_dirty (bcache (binit s) i) \<and>
       bdev (bcache (binit s) i) = - 1 \<and> b_busy (bcache (binit s) i) = b_busy (bcache s i)"
    using assms(5) by (metis buf.select_convs(4) buf.surjective buf.update_convs(4) strip_sel(1-4) buf.select_convs(1-3))
  have "bufs_ok (bcache (binit s)) (disk (binit s))"
    using c by (intro bufs_okI [OF binit_ring]) auto
  then show "bio_ok (binit s)" "disk (binit s) = disk s" "bio.more (binit s) = bio.more s"
    using f q quiet_upper(1) [OF q, of "binit s"] assms(2-4)
    by (simp_all add: bio_ok_def e initlock_def upd_lock_def)
qed

lemma demo_bio_ok:
  "bio_ok demo_bio" "disk demo_bio = (\<lambda>dev bno i. of_nat i)"
  "\<And>i. i < NBUF \<Longrightarrow> \<not> b_dirty (bcache demo_bio i) \<and> bdev (bcache demo_bio i) = - 1 \<and> \<not> b_busy (bcache demo_bio i)"
proof -
  let ?s = "ptable.extend demo_pt (bio.fields (\<lambda>_. demo_buf) None True False (\<lambda>dev bno i. of_nat i) [])"
  have "quiet ?s"
    using demo_inv demo_calm pt_inv_cong [of ?s demo_pt]
    by (auto simp: quiet_def ptable.extend_def calm_def lock_free_def cpu_ok_def mycpu_def)
  note b = binit_ok [of ?s, OF this]
  show "bio_ok demo_bio" "disk demo_bio = (\<lambda>dev bno i. of_nat i)"
    "\<And>i. i < NBUF \<Longrightarrow> \<not> b_dirty (bcache demo_bio i) \<and> bdev (bcache demo_bio i) = - 1 \<and> \<not> b_busy (bcache demo_bio i)"
    using b unfolding demo_bio_def
    by (simp_all add: ptable.extend_def bio.fields_def demo_buf_def)
qed

theorem bread_serves_block_witness:
  "\<exists>b t u. bread 1 5 demo_bio = Inr (b, t) \<and> data (bcache t b) 7 = 7 \<and> brelse b t = Inr u \<and> bio_ok u"
proof -
  have "\<forall>i<NBUF. \<not> b_busy (bcache demo_bio i) \<and> \<not> b_dirty (bcache demo_bio i)" "(0::nat) < NBUF"
    using demo_bio_ok(3) by (auto simp: NBUF_def MAXOPBLOCKS_def)
  moreover have "blk (bcache demo_bio) (disk demo_bio) 1 5 7 = 7"
    using demo_bio_ok(3) by (subst blk_clean) (auto simp: demo_bio_ok(2))
  ultimately show ?thesis
    using bread_serves_block [OF demo_bio_ok(1), of 1 5]
    by (force simp: has_drive_def FSSIZE_def word_less_nat_alt)
qed
end
