(* ===== verification/Layout.thy ===== *)
theory Layout
  imports CString
begin

text \<open>
  The bytes of disk blocks: little-endian integers at byte offsets, and the structures of fs.h
  and log.c that the kernel lays over a block (superblock, log header, on-disk inode, directory
  entry), each with its reader and writer.
\<close>

section \<open>Integers in a block\<close>

definition get16 :: "cbuf \<Rightarrow> nat \<Rightarrow> ushort" where
  "get16 d a = ucast (d a) OR push_bit 8 (ucast (d (a + 1)))"

definition put16 :: "nat \<Rightarrow> ushort \<Rightarrow> cbuf \<Rightarrow> cbuf" where
  "put16 a w d = d(a := ucast w, a + 1 := ucast (drop_bit 8 w))"

definition get32 :: "cbuf \<Rightarrow> nat \<Rightarrow> uint" where
  "get32 d a = ucast (d a) OR push_bit 8 (ucast (d (a + 1))) OR
     push_bit 16 (ucast (d (a + 2))) OR push_bit 24 (ucast (d (a + 3)))"

definition put32 :: "nat \<Rightarrow> uint \<Rightarrow> cbuf \<Rightarrow> cbuf" where
  "put32 a w d = d(a := ucast w, a + 1 := ucast (drop_bit 8 w),
     a + 2 := ucast (drop_bit 16 w), a + 3 := ucast (drop_bit 24 w))"

lemma bytes16: "(ucast (ucast w :: uchar) OR push_bit 8 (ucast (ucast (drop_bit 8 w) :: uchar)) :: ushort) = w"
  for w :: ushort
proof (rule bit_word_eqI)
  fix k assume "k < LENGTH(16)"
  then show "bit (ucast (ucast w :: uchar) OR push_bit 8 (ucast (ucast (drop_bit 8 w) :: uchar)) :: ushort) k \<longleftrightarrow> bit w k"
    by (cases "k < 8") (auto simp: bit_simps)
qed

lemma bytes32:
  "(ucast (ucast w :: uchar) OR push_bit 8 (ucast (ucast (drop_bit 8 w) :: uchar)) OR
    push_bit 16 (ucast (ucast (drop_bit 16 w) :: uchar)) OR
    push_bit 24 (ucast (ucast (drop_bit 24 w) :: uchar)) :: uint) = w"
  for w :: uint
proof (rule bit_word_eqI)
  fix k assume "k < LENGTH(32)"
  then have "k < 8 \<or> 8 \<le> k \<and> k < 16 \<or> 16 \<le> k \<and> k < 24 \<or> 24 \<le> k \<and> k < 32"
    by auto
  then show "bit (ucast (ucast w :: uchar) OR push_bit 8 (ucast (ucast (drop_bit 8 w) :: uchar)) OR
    push_bit 16 (ucast (ucast (drop_bit 16 w) :: uchar)) OR
    push_bit 24 (ucast (ucast (drop_bit 24 w) :: uchar)) :: uint) k \<longleftrightarrow> bit w k"
    by (elim disjE) (auto simp: bit_simps)
qed

lemma get16_put16 [simp]: "get16 (put16 a w d) a = w"
  by (simp add: get16_def put16_def bytes16)

lemma get32_put32 [simp]: "get32 (put32 a w d) a = w"
  by (simp add: get32_def put32_def bytes32)

text \<open>Writes to separate fields do not disturb each other.\<close>

lemma get_put_apart [simp]:
  "a + 2 \<le> b \<or> b + 2 \<le> a \<Longrightarrow> get16 (put16 a v d) b = get16 d b"
  "a + 2 \<le> b \<or> b + 4 \<le> a \<Longrightarrow> get32 (put16 a v d) b = get32 d b"
  "a + 4 \<le> b \<or> b + 2 \<le> a \<Longrightarrow> get16 (put32 a w d) b = get16 d b"
  "a + 4 \<le> b \<or> b + 4 \<le> a \<Longrightarrow> get32 (put32 a w d) b = get32 d b"
  by (auto simp: get16_def put16_def get32_def put32_def)

lemma put_outside [simp]:
  "i < a \<or> a + 2 \<le> i \<Longrightarrow> put16 a v d i = d i"
  "i < a \<or> a + 4 \<le> i \<Longrightarrow> put32 a w d i = d i"
  by (auto simp: put16_def put32_def)

section \<open>The superblock and the log header\<close>

record superblock =
  sb_size :: uint
  nblocks :: uint
  ninodes :: uint
  nlog :: uint
  logstart :: uint
  inodestart :: uint
  bmapstart :: uint

definition get_sb :: "cbuf \<Rightarrow> superblock" where
  "get_sb d = \<lparr>sb_size = get32 d 0, nblocks = get32 d 4, ninodes = get32 d 8, nlog = get32 d 12,
     logstart = get32 d 16, inodestart = get32 d 20, bmapstart = get32 d 24\<rparr>"

definition hdr_n :: "cbuf \<Rightarrow> int" where
  "hdr_n d = sint (get32 d 0)"

definition hdr_block :: "cbuf \<Rightarrow> nat \<Rightarrow> uint" where
  "hdr_block d i = get32 d (4 + 4 * i)"

definition put_hdr :: "int \<Rightarrow> (nat \<Rightarrow> uint) \<Rightarrow> cbuf \<Rightarrow> cbuf" where
  "put_hdr n blks d = fold (\<lambda>i d. put32 (4 + 4 * i) (blks i) d) [0..<nat n] (put32 0 (of_int n) d)"

lemma get_put32_slot: "i \<noteq> j \<Longrightarrow> get32 (put32 (c + 4 * i) w d) (c + 4 * j) = get32 d (c + 4 * j)"
  by (rule get_put_apart(4)) auto

lemma fold_put32_0: "get32 (fold (\<lambda>i d. put32 (4 + 4 * i) (blks i) d) is d) 0 = get32 d 0"
  by (induction "is" arbitrary: d) simp_all

lemma fold_put32_other:
  "i \<notin> set is \<Longrightarrow> get32 (fold (\<lambda>i d. put32 (4 + 4 * i) (blks i) d) is d) (4 + 4 * i) = get32 d (4 + 4 * i)"
  by (induction "is" arbitrary: d) (auto simp: get_put32_slot)

lemma fold_put32_in:
  "i < n \<Longrightarrow> get32 (fold (\<lambda>i d. put32 (4 + 4 * i) (blks i) d) [0..<n] d) (4 + 4 * i) = blks i"
proof (induction n arbitrary: d)
  case (Suc n)
  then show ?case
    by (cases "i = n") (auto simp: get_put32_slot)
qed simp

text \<open>The header read back is the header written.\<close>

lemma hdr_roundtrip:
  assumes "0 \<le> n" "n < 2 ^ 31"
  shows "hdr_n (put_hdr n blks d) = n" "i < nat n \<Longrightarrow> hdr_block (put_hdr n blks d) i = blks i"
proof -
  have "sint (of_int n :: uint) = n"
    using assms by (simp add: signed_of_int signed_take_bit_int_eq_self)
  then show "hdr_n (put_hdr n blks d) = n"
    by (simp add: hdr_n_def put_hdr_def fold_put32_0)
  show "i < nat n \<Longrightarrow> hdr_block (put_hdr n blks d) i = blks i"
    by (simp add: hdr_block_def put_hdr_def fold_put32_in)
qed

section \<open>Inodes and directory entries\<close>

definition NDIRECT :: nat where "NDIRECT = 10"
definition NINDIRECT :: nat where "NINDIRECT = 512 div 4"
definition MAXFILE :: nat where "MAXFILE = NDIRECT + NINDIRECT"
definition DIRSIZ :: nat where "DIRSIZ = 14"
definition DINODE_SIZE :: nat where "DINODE_SIZE = 64"
definition IPB :: nat where "IPB = 512 div DINODE_SIZE"
definition BPB :: nat where "BPB = 512 * 8"
definition DIRENT_SIZE :: nat where "DIRENT_SIZE = 16"
definition ROOTINO :: uint where "ROOTINO = 1"

definition IBLOCK :: "uint \<Rightarrow> superblock \<Rightarrow> uint" where
  "IBLOCK i sb = i div of_nat IPB + inodestart sb"

definition BBLOCK :: "uint \<Rightarrow> superblock \<Rightarrow> uint" where
  "BBLOCK b sb = b div of_nat BPB + bmapstart sb"

text \<open>The 16-bit fields are kept as words; \<open>type\<close>, \<open>major\<close>, \<open>minor\<close> and \<open>nlink\<close> are signed in C.\<close>

record dinode =
  d_type :: ushort
  d_major :: ushort
  d_minor :: ushort
  d_nlink :: ushort
  d_uid :: ushort
  d_gid :: ushort
  d_mode :: uint
  d_size :: uint
  d_addrs :: "nat \<Rightarrow> uint"

definition get_dinode :: "cbuf \<Rightarrow> nat \<Rightarrow> dinode" where
  "get_dinode d a = \<lparr>d_type = get16 d a, d_major = get16 d (a + 2), d_minor = get16 d (a + 4),
     d_nlink = get16 d (a + 6), d_uid = get16 d (a + 8), d_gid = get16 d (a + 10),
     d_mode = get32 d (a + 12), d_size = get32 d (a + 16), d_addrs = (\<lambda>i. get32 d (a + 20 + 4 * i))\<rparr>"

definition put_addrs :: "nat \<Rightarrow> (nat \<Rightarrow> uint) \<Rightarrow> cbuf \<Rightarrow> cbuf" where
  "put_addrs a f d = fold (\<lambda>i d. put32 (a + 20 + 4 * i) (f i) d) [0..<NDIRECT + 1] d"

definition put_dinode :: "nat \<Rightarrow> dinode \<Rightarrow> cbuf \<Rightarrow> cbuf" where
  "put_dinode a x d =
     put_addrs a (d_addrs x)
       (put32 (a + 12) (d_mode x) (put16 (a + 10) (d_gid x) (put16 (a + 8) (d_uid x)
         (put32 (a + 16) (d_size x) (put16 (a + 6) (d_nlink x) (put16 (a + 4) (d_minor x)
           (put16 (a + 2) (d_major x) (put16 a (d_type x) d))))))))"

definition zero_dinode :: "nat \<Rightarrow> cbuf \<Rightarrow> cbuf" where
  "zero_dinode a d = (\<lambda>i. if a \<le> i \<and> i < a + DINODE_SIZE then 0 else d i)"

lemma put_addrs_get:
  "i \<le> NDIRECT \<Longrightarrow> get32 (put_addrs a f d) (a + 20 + 4 * i) = f i"
  "b + 2 \<le> a + 20 \<or> a + 64 \<le> b \<Longrightarrow> get16 (put_addrs a f d) b = get16 d b"
  "b + 4 \<le> a + 20 \<or> a + 64 \<le> b \<Longrightarrow> get32 (put_addrs a f d) b = get32 d b"
proof -
  have "get32 (fold (\<lambda>i d. put32 (a + 20 + 4 * i) (f i) d) [0..<n] d) (a + 20 + 4 * i) =
      (if i < n then f i else get32 d (a + 20 + 4 * i))" for n
    by (induction n) (auto simp: get_put32_slot less_Suc_eq)
  from this [of "NDIRECT + 1"] show "i \<le> NDIRECT \<Longrightarrow> get32 (put_addrs a f d) (a + 20 + 4 * i) = f i"
    unfolding put_addrs_def by simp
  have "(b + 2 \<le> a + 20 \<or> a + 20 + 4 * n \<le> b \<longrightarrow>
      get16 (fold (\<lambda>i d. put32 (a + 20 + 4 * i) (f i) d) [0..<n] d) b = get16 d b) \<and>
      (b + 4 \<le> a + 20 \<or> a + 20 + 4 * n \<le> b \<longrightarrow>
      get32 (fold (\<lambda>i d. put32 (a + 20 + 4 * i) (f i) d) [0..<n] d) b = get32 d b)" for n
    by (induction n) auto
  from this [of "NDIRECT + 1"]
  show "b + 2 \<le> a + 20 \<or> a + 64 \<le> b \<Longrightarrow> get16 (put_addrs a f d) b = get16 d b"
    "b + 4 \<le> a + 20 \<or> a + 64 \<le> b \<Longrightarrow> get32 (put_addrs a f d) b = get32 d b"
    by (auto simp: put_addrs_def NDIRECT_def)
qed

text \<open>An inode read back is the one written, and its neighbours keep theirs.\<close>

definition same_dinode :: "dinode \<Rightarrow> dinode \<Rightarrow> bool" where
  "same_dinode x y \<longleftrightarrow> x = y\<lparr>d_addrs := d_addrs x\<rparr> \<and> (\<forall>i\<le>NDIRECT. d_addrs x i = d_addrs y i)"

lemma dinode_roundtrip:
  "same_dinode (get_dinode (put_dinode a x d) a) x"
  "a + 64 \<le> b \<or> b + 64 \<le> a \<Longrightarrow> same_dinode (get_dinode (put_dinode a x d) b) (get_dinode d b)"
  by (auto simp: same_dinode_def get_dinode_def put_dinode_def put_addrs_get NDIRECT_def)

end
