(* ===== verification/Log.thy ===== *)
theory Log
  imports BioCache Layout
begin

text \<open>
  The log of log.c: \<open>begin_op\<close>, \<open>log_write\<close>, \<open>end_op\<close>, the commit and the recovery at boot; and
  \<open>readsb\<close> of fs.c, which \<open>initlog\<close> needs.

  \<open>log.lh\<close> is the pair of \<open>lh_n\<close> and the block numbers \<open>lh_block\<close>, whose first \<open>LOGSIZE\<close>
  entries are the array.  A write beyond it (a header on the disk that claims more blocks) is
  a fault.  A \<open>begin_op\<close> that has to wait for another operation stops with \<open>Sleeps\<close>.
\<close>

record logrec =
  lg_start :: uint
  lg_size :: int
  outstanding :: int
  committing :: bool
  lg_dev :: uint
  lh_n :: int
  lh_block :: "nat \<Rightarrow> uint"

record logst = bio +
  log :: logrec

definition upd_log :: "(logrec \<Rightarrow> logrec) \<Rightarrow> 'a logst_scheme \<Rightarrow> 'a logst_scheme" where
  "upd_log f s = s\<lparr>log := f (log s)\<rparr>"

definition set_data :: "nat \<Rightarrow> cbuf \<Rightarrow> 'a bio_scheme \<Rightarrow> 'a bio_scheme" where
  "set_data b d s = upd_buf b (\<lambda>x. x\<lparr>data := d\<rparr>) s"

definition readsb :: "uint \<Rightarrow> 'a bio_scheme \<Rightarrow> (superblock \<times> 'a bio_scheme) res" where
  "readsb dev s =
     Rbind (bread dev 1 s) (\<lambda>(bp, s).
     let sb = get_sb (data (bcache s bp)) in
     Rbind (brelse bp s) (\<lambda>s. Inr (sb, s)))"

section \<open>Commit and recovery\<close>

fun install_from :: "nat \<Rightarrow> nat \<Rightarrow> 'a logst_scheme \<Rightarrow> 'a logst_scheme res" where
  "install_from i 0 s = Inr s"
| "install_from i (Suc k) s =
     Rbind (bread (lg_dev (log s)) (lg_start (log s) + of_nat i + 1) s) (\<lambda>(lbuf, s).
     Rbind (bread (lg_dev (log s)) (lh_block (log s) i) s) (\<lambda>(dbuf, s).
     let s = set_data dbuf (data (bcache s lbuf)) s in
     Rbind (bwrite dbuf s) (\<lambda>s.
     Rbind (brelse lbuf s) (\<lambda>s.
     Rbind (brelse dbuf s) (\<lambda>s.
     install_from (Suc i) k s)))))"

definition install_trans :: "'a logst_scheme \<Rightarrow> 'a logst_scheme res" where
  "install_trans s = install_from 0 (nat (lh_n (log s))) s"

definition read_head :: "'a logst_scheme \<Rightarrow> 'a logst_scheme res" where
  "read_head s =
     Rbind (bread (lg_dev (log s)) (lg_start (log s)) s) (\<lambda>(buf, s).
     let d = data (bcache s buf); n = hdr_n d in
     if int LOGSIZE < n then Inl Fault
     else
       let s = upd_log (\<lambda>l. l\<lparr>lh_n := n,
             lh_block := (\<lambda>i. if int i < n then hdr_block d i else lh_block l i)\<rparr>) s
       in brelse buf s)"

definition write_head :: "'a logst_scheme \<Rightarrow> 'a logst_scheme res" where
  "write_head s =
     Rbind (bread (lg_dev (log s)) (lg_start (log s)) s) (\<lambda>(buf, s).
     let s = set_data buf (put_hdr (lh_n (log s)) (lh_block (log s)) (data (bcache s buf))) s in
     Rbind (bwrite buf s) (brelse buf))"

definition recover_from_log :: "'a logst_scheme \<Rightarrow> 'a logst_scheme res" where
  "recover_from_log s =
     Rbind (read_head s) (\<lambda>s.
     Rbind (install_trans s) (\<lambda>s.
     write_head (upd_log (\<lambda>l. l\<lparr>lh_n := 0\<rparr>) s)))"

definition LOGHEADER_SIZE :: nat where "LOGHEADER_SIZE = 4 + 4 * LOGSIZE"

definition initlog :: "uint \<Rightarrow> 'a logst_scheme \<Rightarrow> 'a logst_scheme res" where
  "initlog dev s =
     (if LOGHEADER_SIZE \<ge> BSIZE then Inl (Panic ''initlog: too big logheader'')
      else
        let s = initlock LogLock ''log'' s in
        Rbind (readsb dev s) (\<lambda>(sb, s).
        recover_from_log (upd_log (\<lambda>l. l\<lparr>lg_start := logstart sb, lg_size := sint (nlog sb), lg_dev := dev\<rparr>) s)))"

fun write_log_from :: "nat \<Rightarrow> nat \<Rightarrow> 'a logst_scheme \<Rightarrow> 'a logst_scheme res" where
  "write_log_from i 0 s = Inr s"
| "write_log_from i (Suc k) s =
     Rbind (bread (lg_dev (log s)) (lg_start (log s) + of_nat i + 1) s) (\<lambda>(to, s).
     Rbind (bread (lg_dev (log s)) (lh_block (log s) i) s) (\<lambda>(from, s).
     let s = set_data to (data (bcache s from)) s in
     Rbind (bwrite to s) (\<lambda>s.
     Rbind (brelse from s) (\<lambda>s.
     Rbind (brelse to s) (\<lambda>s.
     write_log_from (Suc i) k s)))))"

definition write_log :: "'a logst_scheme \<Rightarrow> 'a logst_scheme res" where
  "write_log s = write_log_from 0 (nat (lh_n (log s))) s"

definition commit :: "'a logst_scheme \<Rightarrow> 'a logst_scheme res" where
  "commit s =
     (if lh_n (log s) > 0 then
        Rbind (write_log s) (\<lambda>s.
        Rbind (write_head s) (\<lambda>s.
        Rbind (install_trans s) (\<lambda>s.
        write_head (upd_log (\<lambda>l. l\<lparr>lh_n := 0\<rparr>) s))))
      else Inr s)"

section \<open>Transactions\<close>

definition begin_op :: "'a logst_scheme \<Rightarrow> 'a logst_scheme res" where
  "begin_op s =
     Rbind (acquire LogLock s) (\<lambda>s.
     if committing (log s) then Inl (Sleeps LogAddr)
     else if lh_n (log s) + (outstanding (log s) + 1) * int MAXOPBLOCKS > int LOGSIZE
     then Inl (Sleeps LogAddr)
     else release LogLock (upd_log (\<lambda>l. l\<lparr>outstanding := outstanding l + 1\<rparr>) s))"

definition end_op :: "'a logst_scheme \<Rightarrow> 'a logst_scheme res" where
  "end_op s =
     Rbind (acquire LogLock s) (\<lambda>s.
     let s = upd_log (\<lambda>l. l\<lparr>outstanding := outstanding l - 1\<rparr>) s in
     if committing (log s) then Inl (Panic ''log.committing'')
     else
       let do_commit = (outstanding (log s) = 0) in
       Rbind (if do_commit then Inr (upd_log (\<lambda>l. l\<lparr>committing := True\<rparr>) s)
              else wakeup LogAddr s) (\<lambda>s.
       Rbind (release LogLock s) (\<lambda>s.
       if do_commit then
         Rbind (commit s) (\<lambda>s.
         Rbind (acquire LogLock s) (\<lambda>s.
         Rbind (wakeup LogAddr (upd_log (\<lambda>l. l\<lparr>committing := False\<rparr>) s)) (release LogLock)))
       else Inr s)))"

text \<open>The place of a block in the log: an earlier entry for it, or the end.\<close>

definition log_slot :: "logrec \<Rightarrow> uint \<Rightarrow> nat" where
  "log_slot l bno = (case find (\<lambda>i. lh_block l i = bno) [0..<nat (lh_n l)] of
     Some i \<Rightarrow> i | None \<Rightarrow> nat (lh_n l))"

definition log_add :: "uint \<Rightarrow> logrec \<Rightarrow> logrec" where
  "log_add bno l =
     (let i = log_slot l bno;
          l = l\<lparr>lh_block := (lh_block l)(i := bno)\<rparr>
      in if int i = lh_n l then l\<lparr>lh_n := lh_n l + 1\<rparr> else l)"

definition log_write :: "nat \<Rightarrow> 'a logst_scheme \<Rightarrow> 'a logst_scheme res" where
  "log_write b s =
     (if lh_n (log s) \<ge> int LOGSIZE \<or> lh_n (log s) \<ge> lg_size (log s) - 1
      then Inl (Panic ''too big a transaction'')
      else if outstanding (log s) < 1 then Inl (Panic ''log_write outside of trans'')
      else
        Rbind (acquire LogLock s) (\<lambda>s.
        let s = upd_log (log_add (blockno (bcache s b))) s;
            s = upd_buf b (\<lambda>x. x\<lparr>b_dirty := True\<rparr>) s
        in release LogLock s))"

end
