(* ===== verification/LogTx.thy ===== *)
theory LogTx
  imports Log
begin

text \<open>
  What a file system operation can rely on inside a transaction.  \<open>fsv s\<close> gives the current
  contents of every block of the root device; \<open>fsinv H s\<close> is the invariant of the cache and the
  log together while the operation holds the buffers in \<open>H\<close>.  \<open>bread\<close>, a change of a buffer
  followed by \<open>log_write\<close>, and \<open>brelse\<close> are described by them.
\<close>

section \<open>Frames\<close>

lemma log_more: "bio.more t = bio.more s \<Longrightarrow> log t = log s" "bio.more t = bio.more s \<Longrightarrow> logst.more t = logst.more s"
  by (cases t; cases s; simp)+

lemma upd_log_sel [simp]:
  "log (upd_log f s) = f (log s)" "bcache (upd_log f s) = bcache s" "idequeue (upd_log f s) = idequeue s"
  "havedisk1 (upd_log f s) = havedisk1 s" "ide_err (upd_log f s) = ide_err s" "disk (upd_log f s) = disk s"
  "writes (upd_log f s) = writes s" "logst.more (upd_log f s) = logst.more s"
  "ptable.truncate (upd_log f s) = ptable.truncate s"
  by (simp_all add: upd_log_def ptable.truncate_def)

lemma upd_buf_log [simp]:
  "log (upd_buf b f s) = log s" "logst.more (upd_buf b f s) = logst.more s"
  by (simp_all add: upd_buf_def)

lemma set_data_sel [simp]:
  "bcache (set_data b d s) = (bcache s)(b := (bcache s b)\<lparr>data := d\<rparr>)" "disk (set_data b d s) = disk s"
  "idequeue (set_data b d s) = idequeue s" "havedisk1 (set_data b d s) = havedisk1 s"
  "ide_err (set_data b d s) = ide_err s" "writes (set_data b d s) = writes s"
  "bio.more (set_data b d s) = bio.more s" "ptable.truncate (set_data b d s) = ptable.truncate s"
  by (simp_all add: set_data_def)

lemma set_data_log [simp]: "log (set_data b d s) = log s" "logst.more (set_data b d s) = logst.more s"
  by (simp_all add: set_data_def)

lemma bio_ok_upd_log [simp]: "bio_ok (upd_log f s) = bio_ok s"
proof -
  have "quiet (upd_log f s) = quiet s"
    using quiet_upper(1) [of s "upd_log f s"] quiet_upper(1) [of "upd_log f s" s] by auto
  then show ?thesis
    by (simp add: bio_ok_def)
qed

section \<open>The invariant\<close>

definition logged :: "logrec \<Rightarrow> uint set" where
  "logged l = lh_block l ` {..<nat (lh_n l)}"

definition in_log :: "logrec \<Rightarrow> uint \<Rightarrow> bool" where
  "in_log l bno \<longleftrightarrow> unat (lg_start l) \<le> unat bno \<and> int (unat bno) < int (unat (lg_start l)) + lg_size l"

definition log_ok :: "logrec \<Rightarrow> bool" where
  "log_ok l \<longleftrightarrow> 0 \<le> lh_n l \<and> lh_n l \<le> int LOGSIZE \<and> lh_n l < lg_size l \<and> lg_dev l = ROOTDEV \<and>
     int (unat (lg_start l)) + lg_size l \<le> int FSSIZE \<and> inj_on (lh_block l) {..<nat (lh_n l)} \<and>
     (\<forall>bno\<in>logged l. \<not> in_log l bno \<and> bno < of_nat FSSIZE)"

definition pinned :: "(nat \<Rightarrow> buf) \<Rightarrow> uint set \<Rightarrow> bool" where
  "pinned B X \<longleftrightarrow> (\<forall>i<NBUF. b_dirty (B i) \<longrightarrow> bdev (B i) = ROOTDEV \<and> blockno (B i) \<in> X) \<and>
     (\<forall>bno\<in>X. \<exists>i<NBUF. b_dirty (B i) \<and> bdev (B i) = ROOTDEV \<and> blockno (B i) = bno)"

definition holds :: "(nat \<Rightarrow> uint option) \<Rightarrow> (nat \<Rightarrow> buf) \<Rightarrow> bool" where
  "holds H B \<longleftrightarrow> dom H \<subseteq> {..<NBUF} \<and> (\<forall>i<NBUF. b_busy (B i) \<longleftrightarrow> i \<in> dom H) \<and>
     (\<forall>i bno. H i = Some bno \<longrightarrow> b_valid (B i) \<and> bdev (B i) = ROOTDEV \<and> blockno (B i) = bno)"

text \<open>
  The cache with the dirty blocks \<open>X\<close> and the held buffers \<open>H\<close>; and the same with the log, whose
  blocks are the dirty ones.
\<close>

definition ginv :: "uint set \<Rightarrow> (nat \<Rightarrow> uint option) \<Rightarrow> 'a bio_scheme \<Rightarrow> bool" where
  "ginv X H s \<longleftrightarrow> bio_ok s \<and> pinned (bcache s) X \<and> holds H (bcache s)"

definition fsinv :: "(nat \<Rightarrow> uint option) \<Rightarrow> 'a logst_scheme \<Rightarrow> bool" where
  "fsinv H s \<longleftrightarrow> ginv (logged (log s)) H s \<and> log_ok (log s)"

definition fsv :: "'a bio_scheme \<Rightarrow> uint \<Rightarrow> cbuf" where
  "fsv s = blk (bcache s) (disk s) ROOTDEV"

lemma root_drive [simp]: "has_drive ROOTDEV" "drive ROOTDEV = ROOTDEV" "ROOTDEV \<noteq> - 1"
  by (simp_all add: has_drive_def ROOTDEV_def drive_def)

lemma fsv_clean: "ginv X H s \<Longrightarrow> bno \<notin> X \<Longrightarrow> fsv s bno = disk s ROOTDEV bno"
  unfolding fsv_def by (subst blk_clean) (auto simp: ginv_def pinned_def)

lemma held_data:
  assumes "ginv X H s" "H b = Some bno"
  shows "data (bcache s b) = fsv s bno" "b < NBUF" "b_busy (bcache s b)" "b_valid (bcache s b)"
    "bdev (bcache s b) = ROOTDEV" "blockno (bcache s b) = bno"
proof -
  have h: "bufs_ok (bcache s) (disk s)" "holds H (bcache s)"
    using assms(1) by (auto simp: ginv_def bio_ok_def)
  then show b: "b < NBUF" "b_busy (bcache s b)" "b_valid (bcache s b)" "bdev (bcache s b) = ROOTDEV"
    "blockno (bcache s b) = bno"
    using assms(2) by (auto simp: holds_def)
  show "data (bcache s b) = fsv s bno"
    using blk_valid [OF h(1) b(1,3)] b by (simp add: fsv_def)
qed

text \<open>There is a buffer to recycle as long as the dirty and the held blocks leave one.\<close>

lemma free_buffer:
  assumes "ginv X H s" "finite X" "card X + card (dom H) < NBUF"
  shows "\<exists>i<NBUF. \<not> b_busy (bcache s i) \<and> \<not> b_dirty (bcache s i)"
proof (rule ccontr)
  assume no: "\<not> ?thesis"
  let ?B = "bcache s"
  let ?D = "{i. i < NBUF \<and> b_dirty (?B i)}"
  have h: "bufs_ok ?B (disk s)" "pinned ?B X" "holds H ?B"
    using assms(1) by (auto simp: ginv_def bio_ok_def)
  have "inj_on (\<lambda>i. blockno (?B i)) ?D"
  proof (rule inj_onI)
    fix i j assume ij: "i \<in> ?D" "j \<in> ?D" "blockno (?B i) = blockno (?B j)"
    then have "bdev (?B i) = ROOTDEV" "bdev (?B j) = ROOTDEV"
      using h(2) by (auto simp: pinned_def)
    then show "i = j"
      using bufs_okD(1) [OF h(1), of i j] ij by auto
  qed
  then have "card ?D = card ((\<lambda>i. blockno (?B i)) ` ?D)"
    by (simp add: card_image)
  also have "\<dots> \<le> card X"
    using h(2) assms(2) by (intro card_mono) (auto simp: pinned_def)
  finally have d: "card ?D \<le> card X" .
  have f: "finite (dom H)" "dom H \<subseteq> {..<NBUF}"
    using h(3) finite_subset by (auto simp: holds_def)
  have "{..<NBUF} \<subseteq> ?D \<union> dom H"
    using no h(3) by (auto simp: holds_def)
  then have "NBUF \<le> card (?D \<union> dom H)"
    using f(1) card_mono [of "?D \<union> dom H" "{..<NBUF}"] by simp
  also have "\<dots> \<le> card ?D + card (dom H)"
    by (rule card_Un_le)
  finally show False
    using d assms(3) by simp
qed

section \<open>The laws of the cache\<close>

text \<open>What an operation wrote to the disk, and that it changed nothing above the log.\<close>

definition apply_writes :: "(uint \<times> uint \<times> cbuf) list \<Rightarrow> (uint \<Rightarrow> uint \<Rightarrow> cbuf) \<Rightarrow> uint \<Rightarrow> uint \<Rightarrow> cbuf" where
  "apply_writes ws D = fold (\<lambda>(dr, bno, d) D. D(dr := (D dr)(bno := d))) ws D"

lemma apply_writes_simps [simp]:
  "apply_writes [] D = D" "apply_writes (ws @ vs) D = apply_writes vs (apply_writes ws D)"
  "apply_writes [(dr, bno, d)] D = D(dr := (D dr)(bno := d))"
  by (simp_all add: apply_writes_def)

definition wrote :: "(uint \<times> uint \<times> cbuf) list \<Rightarrow> 'a logst_scheme \<Rightarrow> 'a logst_scheme \<Rightarrow> bool" where
  "wrote ws s t \<longleftrightarrow> follows s t \<and> logst.more t = logst.more s \<and> writes t = writes s @ ws \<and>
     disk t = apply_writes ws (disk s)"

abbreviation fsstep :: "'a logst_scheme \<Rightarrow> 'a logst_scheme \<Rightarrow> bool" where
  "fsstep \<equiv> wrote []"

lemma fsstep_refl: "bio_ok s \<Longrightarrow> fsstep s s"
  by (simp add: wrote_def bio_ok_def)

lemma wrote_trans: "wrote ws s t \<Longrightarrow> wrote vs t u \<Longrightarrow> wrote (ws @ vs) s u"
  using follows_trans by (auto simp: wrote_def)

lemma fsstep_trans [trans]:
  "fsstep s t \<Longrightarrow> fsstep t u \<Longrightarrow> fsstep s u" "fsstep s t \<Longrightarrow> wrote ws t u \<Longrightarrow> wrote ws s u"
  "wrote ws s t \<Longrightarrow> fsstep t u \<Longrightarrow> wrote ws s u"
  using wrote_trans by fastforce+

lemma g_bread:
  assumes inv: "ginv X H s" and bno: "bno \<notin> ran H" "bno < of_nat FSSIZE"
    and room: "bno \<in> X \<or> finite X \<and> card X + card (dom H) < NBUF"
  obtains b t where "bread ROOTDEV bno s = Inr (b, t)" "ginv X (H(b \<mapsto> bno)) t" "fsstep s t"
    "log t = log s" "b \<notin> dom H" "fsv t = fsv s" "b < NBUF"
proof -
  let ?B = "bcache s"
  have h: "bio_ok s" "pinned ?B X" "holds H ?B"
    using inv by (auto simp: ginv_def)
  have idle: "\<not> b_busy (?B i)" if "i < NBUF" "bdev (?B i) = ROOTDEV" "blockno (?B i) = bno" for i
    using that h(3) bno(1) by (auto simp: holds_def ran_def)
  have free: "(\<exists>i<NBUF. bdev (?B i) = ROOTDEV \<and> blockno (?B i) = bno) \<or>
      (\<exists>i<NBUF. \<not> b_busy (?B i) \<and> \<not> b_dirty (?B i))"
    using room free_buffer [OF inv] h(2) unfolding pinned_def by blast
  obtain b t y where t: "bread ROOTDEV bno s = Inr (b, t)" "follows s t" "same_above s t" "bio_ok t"
    "disk t = disk s" "writes t = writes s" "b < NBUF" "\<not> b_busy (?B b)"
    "bcache t = ?B(b := y)" "b_busy y" "b_valid y" "bdev y = ROOTDEV" "blockno y = bno"
    "b_dirty y = b_dirty (?B b)" "data y = blk ?B (disk s) ROOTDEV bno"
    "b_dirty y \<longrightarrow> bdev (?B b) = ROOTDEV \<and> blockno (?B b) = bno"
    "blk (bcache t) (disk t) = blk ?B (disk s)"
    by (rule bread_ok [OF h(1) free idle root_drive(1) bno(2)])
  have l: "log t = log s" "logst.more t = logst.more s"
    using t(3) log_more by (auto simp: same_above_def)
  have nb: "b \<notin> dom H"
    using t(7,8) h(3) by (auto simp: holds_def)
  have "pinned (bcache t) X"
  proof -
    have "b_dirty (bcache t i) = b_dirty (?B i)"
      "b_dirty (?B i) \<Longrightarrow> bdev (bcache t i) = bdev (?B i) \<and> blockno (bcache t i) = blockno (?B i)" for i
      using t(9,12,13,14,16) by (cases "i = b"; simp)+
    then show ?thesis
      using h(2) unfolding pinned_def by metis
  qed
  moreover have "holds (H(b \<mapsto> bno)) (bcache t)"
    using h(3) nb t(7,9-13) by (auto simp: holds_def)
  ultimately have "ginv X (H(b \<mapsto> bno)) t"
    using t(4) by (simp add: ginv_def)
  moreover have "fsstep s t"
    using t(2,5,6) l(2) by (simp add: wrote_def)
  moreover have "fsv t = fsv s"
    using t(17) by (simp add: fsv_def)
  ultimately show ?thesis
    using that t(1,7) l(1) nb by blast
qed

lemma g_brelse:
  assumes inv: "ginv X H s" and b: "H b = Some bno"
  obtains t where "brelse b s = Inr t" "ginv X (H(b := None)) t" "fsstep s t" "log t = log s" "fsv t = fsv s"
proof -
  note d = held_data [OF inv b]
  have h: "bio_ok s" "pinned (bcache s) X" "holds H (bcache s)"
    using inv by (auto simp: ginv_def)
  obtain t where t: "brelse b s = Inr t" "follows s t" "same_above s t" "bio_ok t" "disk t = disk s"
    "writes t = writes s"
    "\<forall>i. strip (bcache t i) = strip (((bcache s)(b := (bcache s b)\<lparr>b_busy := False\<rparr>)) i)"
    "blk (bcache t) (disk t) = blk (bcache s) (disk s)" "\<exists>xs. ring_ok (bcache t) (b # xs)"
    by (rule brelse_ok [OF h(1) d(2,3)])
  have l: "log t = log s" "logst.more t = logst.more s"
    using t(3) log_more by (auto simp: same_above_def)
  have e: "b_dirty (bcache t i) = b_dirty (bcache s i)" "bdev (bcache t i) = bdev (bcache s i)"
    "blockno (bcache t i) = blockno (bcache s i)" "b_valid (bcache t i) = b_valid (bcache s i)"
    "b_busy (bcache t i) = (i \<noteq> b \<and> b_busy (bcache s i))" for i
    using strip_eqD [OF t(7) [rule_format, of i]] by (cases "i = b"; simp)+
  have "pinned (bcache t) X" "holds (H(b := None)) (bcache t)"
    using h(2,3) unfolding pinned_def holds_def e by auto
  then have "ginv X (H(b := None)) t" "fsstep s t" "fsv t = fsv s"
    using t l by (simp_all add: ginv_def wrote_def fsv_def)
  then show ?thesis
    using that t(1) l(1) by blast
qed

lemma g_bwrite:
  assumes inv: "ginv X H s" and b: "H b = Some bno" "bno < of_nat FSSIZE"
  obtains t where "bwrite b (set_data b d s) = Inr t" "ginv (X - {bno}) H t" "wrote [(ROOTDEV, bno, d)] s t"
    "log t = log s" "fsv t = (fsv s)(bno := d)"
proof -
  note hd = held_data [OF inv b(1)]
  have h: "bio_ok s" "pinned (bcache s) X" "holds H (bcache s)" "bufs_ok (bcache s) (disk s)"
    using inv by (auto simp: ginv_def bio_ok_def)
  obtain t where t: "bwrite b (set_data b d s) = Inr t" "follows s t" "same_above s t" "bio_ok t"
    "disk t = (disk s)(ROOTDEV := (disk s ROOTDEV)(bno := d))" "writes t = writes s @ [(ROOTDEV, bno, d)]"
    "bcache t = (bcache s)(b := (bcache s b)\<lparr>b_valid := True, b_dirty := False, qnext := None, data := d\<rparr>)"
    using bwrite_ok [OF h(1) hd(2,3,4), of d] b(2) hd unfolding set_data_def by auto
  have l: "log t = log s" "logst.more t = logst.more s"
    using t(3) log_more by (auto simp: same_above_def)
  have other: "bdev (bcache s i) \<noteq> ROOTDEV \<or> blockno (bcache s i) \<noteq> bno" if "i < NBUF" "i \<noteq> b" for i
    using bufs_okD(1) [OF h(4) hd(2) that(1)] that(2) hd(5,6) by auto
  have p: "pinned (bcache t) (X - {bno})"
    using h(2) hd(5,6) other unfolding pinned_def t(7) by (auto split: if_splits) metis+
  moreover have "holds H (bcache t)"
    using h(3) hd unfolding holds_def t(7) by auto
  ultimately have g: "ginv (X - {bno}) H t"
    using t(4) by (simp add: ginv_def)
  moreover have "fsv t = (fsv s)(bno := d)"
  proof
    fix x
    show "fsv t x = ((fsv s)(bno := d)) x"
    proof (cases "x = bno")
      case True
      then show ?thesis
        using fsv_clean [OF g, of bno] t(5) by simp
    next
      case False
      have "find (\<lambda>i. b_dirty (bcache t i) \<and> bdev (bcache t i) = ROOTDEV \<and> blockno (bcache t i) = x) [0..<NBUF] =
          find (\<lambda>i. b_dirty (bcache s i) \<and> bdev (bcache s i) = ROOTDEV \<and> blockno (bcache s i) = x) [0..<NBUF]"
        using False hd(6) by (intro find_cong) (auto simp: t(7))
      then show ?thesis
        using False hd(6) by (auto simp: fsv_def blk_def t(5,7) split: option.split dest: find_pred)
    qed
  qed
  moreover have "wrote [(ROOTDEV, bno, d)] s t"
    using t(2,5,6) l(2) by (simp add: wrote_def)
  ultimately show ?thesis
    using that t(1) l(1) by blast
qed

section \<open>The laws of a transaction\<close>

lemma fsinvD: "fsinv H s \<Longrightarrow> ginv (logged (log s)) H s" "fsinv H s \<Longrightarrow> log_ok (log s)"
  by (simp_all add: fsinv_def)

lemma logged_card: "finite (logged l)" "card (logged l) \<le> nat (lh_n l)"
  unfolding logged_def by (simp_all add: order_trans [OF card_image_le])

lemma fs_bread:
  assumes inv: "fsinv H s" and bno: "bno \<notin> ran H" "bno < of_nat FSSIZE"
    and room: "nat (lh_n (log s)) + card (dom H) < NBUF"
  obtains b t where "bread ROOTDEV bno s = Inr (b, t)" "fsinv (H(b \<mapsto> bno)) t" "fsstep s t"
    "log t = log s" "b \<notin> dom H" "fsv t = fsv s" "b < NBUF"
proof -
  have r: "bno \<in> logged (log s) \<or> finite (logged (log s)) \<and> card (logged (log s)) + card (dom H) < NBUF"
    using room logged_card [of "log s"] by auto
  obtain b t where "bread ROOTDEV bno s = Inr (b, t)" "ginv (logged (log s)) (H(b \<mapsto> bno)) t" "fsstep s t"
    "log t = log s" "b \<notin> dom H" "fsv t = fsv s" "b < NBUF"
    by (rule g_bread [OF fsinvD(1) [OF inv] bno r])
  then show ?thesis
    using that fsinvD(2) [OF inv] by (simp add: fsinv_def)
qed

lemma fs_brelse:
  assumes inv: "fsinv H s" and b: "H b = Some bno"
  obtains t where "brelse b s = Inr t" "fsinv (H(b := None)) t" "fsstep s t" "log t = log s" "fsv t = fsv s"
proof -
  obtain t where "brelse b s = Inr t" "ginv (logged (log s)) (H(b := None)) t" "fsstep s t" "log t = log s"
    "fsv t = fsv s"
    by (rule g_brelse [OF fsinvD(1) [OF inv] b])
  then show ?thesis
    using that fsinvD(2) [OF inv] by (simp add: fsinv_def)
qed

definition log_static :: "logrec \<Rightarrow> logrec \<Rightarrow> bool" where
  "log_static l k \<longleftrightarrow> lg_start k = lg_start l \<and> lg_size k = lg_size l \<and> lg_dev k = lg_dev l \<and>
     outstanding k = outstanding l \<and> committing k = committing l"

lemma log_static_refl [simp]: "log_static l l"
  by (simp add: log_static_def)

lemma log_static_trans [trans]: "log_static l k \<Longrightarrow> log_static k j \<Longrightarrow> log_static l j"
  by (simp add: log_static_def)

lemma log_add_ok:
  assumes "log_ok l" "\<not> in_log l bno" "bno < of_nat FSSIZE" "lh_n l < int LOGSIZE" "lh_n l < lg_size l - 1"
  shows "log_ok (log_add bno l)" "logged (log_add bno l) = insert bno (logged l)"
    "lh_n (log_add bno l) = (if bno \<in> logged l then lh_n l else lh_n l + 1)" "log_static l (log_add bno l)"
proof -
  let ?n = "nat (lh_n l)"
  have n: "0 \<le> lh_n l"
    using assms(1) by (simp add: log_ok_def)
  have "log_ok (log_add bno l) \<and> logged (log_add bno l) = insert bno (logged l) \<and>
    lh_n (log_add bno l) = (if bno \<in> logged l then lh_n l else lh_n l + 1)"
  proof (cases "find (\<lambda>i. lh_block l i = bno) [0..<?n]")
    case None
    then have no: "bno \<notin> logged l"
      by (auto simp: find_None_iff logged_def)
    have e: "log_add bno l = l\<lparr>lh_block := (lh_block l)(?n := bno), lh_n := lh_n l + 1\<rparr>"
      using n None by (simp add: log_add_def log_slot_def)
    have s: "nat (lh_n l + 1) = Suc ?n"
      using n by simp
    have g: "logged (log_add bno l) = insert bno (logged l)"
      unfolding e logged_def by (auto simp: s lessThan_Suc image_iff)
    moreover have "inj_on ((lh_block l)(?n := bno)) {..<Suc ?n}"
      using assms(1) no by (auto simp: lessThan_Suc inj_on_def log_ok_def logged_def)
    ultimately show ?thesis
      using assms no by (simp add: e log_ok_def in_log_def s)
  next
    case (Some i)
    then have i: "i < ?n" "lh_block l i = bno"
      using find_pred [OF Some] by auto
    then have "bno \<in> logged l" "(lh_block l)(i := bno) = lh_block l" "int i \<noteq> lh_n l"
      by (auto simp: logged_def)
    then show ?thesis
      using assms(1) Some by (simp add: log_add_def log_slot_def insert_absorb)
  qed
  then show "log_ok (log_add bno l)" "logged (log_add bno l) = insert bno (logged l)"
    "lh_n (log_add bno l) = (if bno \<in> logged l then lh_n l else lh_n l + 1)"
    by auto
  show "log_static l (log_add bno l)"
    by (simp add: log_static_def log_add_def Let_def)
qed

text \<open>A changed buffer made dirty.\<close>

lemma bufs_ok_dirty:
  assumes B: "bufs_ok B D" and b: "b < NBUF" "b_valid (B b)"
  shows "bufs_ok (B(b := (B b)\<lparr>data := d, b_dirty := True\<rparr>)) D"
    "blk (B(b := (B b)\<lparr>data := d, b_dirty := True\<rparr>)) D dev bno =
       (if dev = bdev (B b) \<and> bno = blockno (B b) then d else blk B D dev bno)"
proof -
  let ?C = "B(b := (B b)\<lparr>data := d, b_dirty := True\<rparr>)"
  obtain xs where xs: "ring_ok B xs"
    using B by (auto simp: bufs_ok_def)
  have same: "bdev (?C i) = bdev (B i)" "blockno (?C i) = blockno (B i)" "b_valid (?C i) = b_valid (B i)" for i
    by simp_all
  show ok: "bufs_ok ?C D"
  proof (rule bufs_okI)
    show "ring_ok ?C xs"
      using xs ring_ok_cong [of ?C B xs] by simp
    show "bdev (?C i) \<noteq> bdev (?C j) \<or> blockno (?C i) \<noteq> blockno (?C j)"
      if "i < NBUF" "j < NBUF" "i \<noteq> j" "bdev (?C i) \<noteq> - 1" for i j
      using bufs_okD(1) [OF B that(1,2,3)] that(4) unfolding same by simp
    show "b_valid (?C i)" if "i < NBUF" "b_dirty (?C i)" for i
      using bufs_okD(2) [OF B that(1)] that b by (cases "i = b") simp_all
    show "has_drive (bdev (?C i))" if "i < NBUF" "b_valid (?C i)" for i
      using bufs_okD(3) [OF B that(1)] that unfolding same by blast
    show "data (?C i) = D (drive (bdev (?C i))) (blockno (?C i))"
      if "i < NBUF" "b_valid (?C i)" "\<not> b_dirty (?C i)" for i
      using bufs_okD(4) [OF B that(1)] that by (cases "i = b") simp_all
  qed
  show "blk ?C D dev bno = (if dev = bdev (B b) \<and> bno = blockno (B b) then d else blk B D dev bno)"
  proof (cases "dev = bdev (B b) \<and> bno = blockno (B b)")
    case True
    then show ?thesis
      using blk_valid [OF ok b(1)] b(2) by simp
  next
    case False
    have "find (\<lambda>i. b_dirty (?C i) \<and> bdev (?C i) = dev \<and> blockno (?C i) = bno) [0..<NBUF] =
        find (\<lambda>i. b_dirty (B i) \<and> bdev (B i) = dev \<and> blockno (B i) = bno) [0..<NBUF]"
      using False by (intro find_cong) auto
    then show ?thesis
      using False by (auto simp: blk_def split: option.split dest: find_pred)
  qed
qed

lemma fs_log_write:
  assumes inv: "fsinv H s" and b: "H b = Some bno" and free: "\<not> in_log (log s) bno" "bno < of_nat FSSIZE"
    and room: "lh_n (log s) < int LOGSIZE" "lh_n (log s) < lg_size (log s) - 1" "1 \<le> outstanding (log s)"
  obtains t where "log_write b (set_data b d s) = Inr t" "fsinv H t" "fsstep s t"
    "log t = log_add bno (log s)" "fsv t = (fsv s)(bno := d)"
proof -
  note hd = held_data [OF fsinvD(1) [OF inv] b]
  have h: "bio_ok s" "log_ok (log s)" "pinned (bcache s) (logged (log s))" "holds H (bcache s)"
    using inv by (auto simp: fsinv_def ginv_def)
  have bo: "bufs_ok (bcache s) (disk s)" "quiet s"
    using h(1) by (auto simp: bio_ok_def)
  note a = log_add_ok [OF h(2) free room(1,2)]
  let ?s = "set_data b d s"
  have q: "quiet ?s" "follows s ?s"
    using quiet_upper [OF bo(2), of ?s] by simp_all
  note e = insec_enter [OF q(1), of LogLock]
  note m = bio_more [OF e(3)] log_more [OF bio_more(7) [OF e(3)]]
  let ?a = "acquired LogLock ?s"
  let ?u = "upd_buf b (\<lambda>x. x\<lparr>b_dirty := True\<rparr>) (upd_log (log_add bno) ?a)"
  have "insec LogLock ?s ?u"
    by (rule insec_upper [OF e(2)]) simp
  then obtain t where t: "release LogLock ?u = Inr t" "follows ?s t" "ptable.more t = ptable.more ?u"
    by (rule insec_leave)
  note k = bio_more [OF t(3)] log_more [OF bio_more(7) [OF t(3)]]
  have bn: "blockno (bcache ?a b) = bno"
    by (simp add: m hd)
  have "log_write b ?s = Inr t"
    using room e(1) t(1) bn by (simp add: log_write_def Let_def)
  moreover have B: "bcache t = (bcache s)(b := (bcache s b)\<lparr>data := d, b_dirty := True\<rparr>)" "disk t = disk s"
    "log t = log_add bno (log s)"
    by (simp_all add: k m)
  moreover have "fsv t = (fsv s)(bno := d)"
    unfolding fsv_def B(1,2) fun_eq_iff by (auto simp: bufs_ok_dirty(2) [OF bo(1) hd(2,4)] hd)
  moreover have "fsinv H t"
  proof -
    have "bio_ok t"
      using h(1) bufs_ok_dirty(1) [OF bo(1) hd(2,4)] follows_quiet [OF t(2)] k(2,3,4) m
      by (simp add: bio_ok_def B(1,2))
    moreover have "pinned (bcache t) (insert bno (logged (log s)))"
      using h(3) hd unfolding B(1) pinned_def by auto
    moreover have "holds H (bcache t)"
      using h(4) unfolding B(1) holds_def by auto
    ultimately show ?thesis
      using a(1,2) B(3) by (simp add: fsinv_def ginv_def)
  qed
  moreover have "fsstep s t"
    using follows_trans [OF q(2) t(2)] k m by (simp add: wrote_def)
  ultimately show ?thesis
    using that by blast
qed
end
