(* ===== verification/LogCrash.thy ===== *)
theory LogCrash
  imports LogTx
begin

text \<open>
  Commit and recovery.  The disk writes of \<open>commit\<close> are computed block by block; a crash leaves
  the disk after some prefix of them.  Running \<open>recover_from_log\<close> on any such disk gives either
  the disk before the transaction or the one after it, outside the log area.
\<close>

section \<open>The log area\<close>

definition log_pos :: "logrec \<Rightarrow> nat \<Rightarrow> uint" where
  "log_pos l i = lg_start l + of_nat i + 1"

definition geometry :: "logrec \<Rightarrow> bool" where
  "geometry l \<longleftrightarrow> lg_dev l = ROOTDEV \<and> 0 < lg_size l \<and> int (unat (lg_start l)) + lg_size l \<le> int FSSIZE"

lemma log_ok_geometry: "log_ok l \<Longrightarrow> geometry l"
  by (auto simp: log_ok_def geometry_def)

lemma unat_fssize: "unat (of_nat FSSIZE :: uint) = FSSIZE" "FSSIZE = 2000"
  by (simp_all add: FSSIZE_def)

lemma geometry_bound: "geometry l \<Longrightarrow> int (unat (lg_start l)) + lg_size l \<le> 2000"
  unfolding geometry_def unat_fssize(2) by simp

lemma log_pos_unat:
  assumes "geometry l" "int i < lg_size l - 1"
  shows "unat (log_pos l i) = unat (lg_start l) + i + 1"
proof -
  define a where "a = unat (lg_start l)"
  have "int a + lg_size l \<le> 2000"
    using geometry_bound [OF assms(1)] unfolding a_def .
  then have "a + (i + 1) < 2000"
    using assms(2) by linarith
  also have "2000 < (2 :: nat) ^ 32"
    by simp
  finally have "unat (lg_start l) + (i + 1) < 2 ^ 32"
    unfolding a_def .
  from unat_add_small [OF this] show ?thesis
    by (simp add: log_pos_def ac_simps)
qed

lemma log_pos_facts:
  assumes "geometry l" "int i < lg_size l - 1"
  shows "log_pos l i < of_nat FSSIZE" "in_log l (log_pos l i)" "log_pos l i \<noteq> lg_start l"
    "int j < lg_size l - 1 \<Longrightarrow> log_pos l i = log_pos l j \<longleftrightarrow> i = j"
    "lg_start l < of_nat FSSIZE" "in_log l (lg_start l)"
proof -
  note u = log_pos_unat [OF assms]
  define a where "a = unat (lg_start l)"
  have "int a + lg_size l \<le> 2000"
    using geometry_bound [OF assms(1)] unfolding a_def .
  then have b: "a + i + 1 < 2000" "a \<le> a + i + 1 \<and> int (a + i + 1) < int a + lg_size l" "a < 2000"
    "a \<le> a \<and> int a < int a + lg_size l"
    using assms(2) by linarith+
  show "log_pos l i < of_nat FSSIZE"
    unfolding word_less_nat_alt unat_fssize(1) u unfolding unat_fssize(2) using b(1) unfolding a_def .
  show "in_log l (log_pos l i)"
    unfolding in_log_def u using b(2) unfolding a_def .
  show "lg_start l < of_nat FSSIZE"
    unfolding word_less_nat_alt unat_fssize(1) unfolding unat_fssize(2) using b(3) unfolding a_def .
  show "in_log l (lg_start l)"
    unfolding in_log_def using b(4) unfolding a_def .
  show "log_pos l i \<noteq> lg_start l"
  proof
    assume "log_pos l i = lg_start l"
    then have "unat (lg_start l) = unat (lg_start l) + i + 1"
      by (rule subst) (rule u)
    then show False
      by linarith
  qed
  assume j: "int j < lg_size l - 1"
  show "log_pos l i = log_pos l j \<longleftrightarrow> i = j"
  proof
    assume "log_pos l i = log_pos l j"
    then have "unat (lg_start l) + i + 1 = unat (lg_start l) + j + 1"
      unfolding u [symmetric] log_pos_unat [OF assms(1) j, symmetric] by (rule arg_cong)
    then show "i = j"
      by linarith
  qed simp
qed

section \<open>What the loops write\<close>

definition vapply :: "(uint \<times> uint \<times> cbuf) list \<Rightarrow> (uint \<Rightarrow> cbuf) \<Rightarrow> uint \<Rightarrow> cbuf" where
  "vapply ws v = fold (\<lambda>(dr, bno, d) v. v(bno := d)) ws v"

lemma vapply_simps [simp]:
  "vapply [] v = v" "vapply (ws @ vs) v = vapply vs (vapply ws v)" "vapply [(dr, bno, d)] v = v(bno := d)"
  "vapply ((dr, bno, d) # ws) v = vapply ws (v(bno := d))"
  by (simp_all add: vapply_def)

definition writ :: "(uint \<times> uint \<times> cbuf) list \<Rightarrow> 'a logst_scheme \<Rightarrow> 'a logst_scheme \<Rightarrow> bool" where
  "writ ws s t \<longleftrightarrow> wrote ws s t \<and> fsv t = vapply ws (fsv s) \<and> log t = log s"

lemma writ_trans: "writ ws s t \<Longrightarrow> writ vs t u \<Longrightarrow> writ (ws @ vs) s u"
  using wrote_trans by (auto simp: writ_def)

lemma writ_refl: "ginv X H s \<Longrightarrow> writ [] s s"
  by (simp add: writ_def fsstep_refl ginv_def)

text \<open>One turn of each loop.\<close>

lemma two_breads:
  assumes "ginv X Map.empty s" "finite X" "card X < NBUF" "p \<noteq> q" "p < of_nat FSSIZE" "q < of_nat FSSIZE"
    "q \<in> X \<or> card X + 1 < NBUF"
  obtains a b t u where "bread ROOTDEV p s = Inr (a, t)" "bread ROOTDEV q t = Inr (b, u)" "a \<noteq> b"
    "ginv X [a \<mapsto> p, b \<mapsto> q] u" "writ [] s u" "log t = log s"
proof -
  obtain a t where t: "bread ROOTDEV p s = Inr (a, t)" "ginv X (Map.empty(a \<mapsto> p)) t" "fsstep s t"
    "log t = log s" "a \<notin> dom Map.empty" "fsv t = fsv s" "a < NBUF"
    by (rule g_bread [OF assms(1) _ assms(5)]) (use assms in auto)
  obtain b u where u: "bread ROOTDEV q t = Inr (b, u)" "ginv X ([a \<mapsto> p](b \<mapsto> q)) u" "fsstep t u"
    "log u = log t" "b \<notin> dom [a \<mapsto> p]" "fsv u = fsv t" "b < NBUF"
    by (rule g_bread [OF t(2) _ assms(6)]) (use assms in auto)
  have "writ [] s u"
    using t u fsstep_trans(1) [OF t(3) u(3)] by (simp add: writ_def)
  then show ?thesis
    using that t(1,4) u(1,2,5) by auto
qed

lemma two_brelses:
  assumes "ginv X [a \<mapsto> p, b \<mapsto> q] s" "a \<noteq> b"
  obtains t u where "brelse a s = Inr t" "brelse b t = Inr u" "ginv X Map.empty u" "writ [] s u"
proof -
  obtain t where t: "brelse a s = Inr t" "ginv X ([a \<mapsto> p, b \<mapsto> q](a := None)) t" "fsstep s t" "log t = log s"
    "fsv t = fsv s"
    by (rule g_brelse [OF assms(1), of a p]) (use assms(2) in auto)
  obtain u where u: "brelse b t = Inr u" "ginv X ([a \<mapsto> p, b \<mapsto> q](a := None, b := None)) u" "fsstep t u"
    "log u = log t" "fsv u = fsv t"
    by (rule g_brelse [OF t(2), of b q]) (use assms(2) in auto)
  have "[a \<mapsto> p, b \<mapsto> q](a := None, b := None) = Map.empty"
    by auto
  moreover have "writ [] s u"
    using t u fsstep_trans(1) [OF t(3) u(3)] by (simp add: writ_def)
  ultimately show ?thesis
    using that t(1) u(1,2) by simp
qed

lemma write_log_turn:
  assumes "ginv X Map.empty s" "finite X" "card X < NBUF" "lg_dev (log s) = ROOTDEV"
    "log_pos (log s) i < of_nat FSSIZE" "log_pos (log s) i \<notin> X" "lh_block (log s) i < of_nat FSSIZE"
    "lh_block (log s) i \<in> X"
  obtains t where "\<forall>k. write_log_from i (Suc k) s = write_log_from (Suc i) k t" "ginv X Map.empty t"
    "writ [(ROOTDEV, log_pos (log s) i, fsv s (lh_block (log s) i))] s t"
proof -
  let ?p = "log_pos (log s) i" and ?q = "lh_block (log s) i"
  have pq: "?p \<noteq> ?q"
    using assms(6,8) by auto
  obtain a b t u where u: "bread ROOTDEV ?p s = Inr (a, t)" "bread ROOTDEV ?q t = Inr (b, u)" "a \<noteq> b"
    "ginv X [a \<mapsto> ?p, b \<mapsto> ?q] u" "writ [] s u" "log t = log s"
    by (rule two_breads [OF assms(1-3) pq assms(5,7) disjI1 [OF assms(8)]])
  have d: "data (bcache u b) = fsv s ?q"
    using held_data(1) [OF u(4), of b ?q] u(5) by (simp add: writ_def)
  obtain v where v: "bwrite a (set_data a (fsv s ?q) u) = Inr v" "ginv (X - {?p}) [a \<mapsto> ?p, b \<mapsto> ?q] v"
    "wrote [(ROOTDEV, ?p, fsv s ?q)] u v" "log v = log u" "fsv v = (fsv u)(?p := fsv s ?q)"
    by (rule g_bwrite [OF u(4), of a ?p]) (use u(3) assms(5) in auto)
  have g: "ginv X [b \<mapsto> ?q, a \<mapsto> ?p] v"
    using v(2) assms(6) fun_upd_twist [OF u(3), of "Map.empty" "Some ?p" "Some ?q"] by simp
  obtain w x where x: "brelse b v = Inr w" "brelse a w = Inr x" "ginv X Map.empty x" "writ [] v x"
    by (rule two_brelses [OF g u(3) [symmetric]])
  have "writ [(ROOTDEV, ?p, fsv s ?q)] u v"
    using v by (simp add: writ_def)
  from writ_trans [OF writ_trans [OF u(5) this] x(4)]
  have "writ [(ROOTDEV, ?p, fsv s ?q)] s x"
    by simp
  moreover have "write_log_from i (Suc k) s = write_log_from (Suc i) k x" for k
    using u v(1) x(1,2) d assms(4) by (simp add: log_pos_def Let_def)
  ultimately show ?thesis
    using that x(3) by blast
qed

lemma install_turn:
  assumes "ginv X Map.empty s" "finite X" "card X < NBUF" "lg_dev (log s) = ROOTDEV"
    "log_pos (log s) i < of_nat FSSIZE" "lh_block (log s) i < of_nat FSSIZE"
    "log_pos (log s) i \<noteq> lh_block (log s) i" "lh_block (log s) i \<in> X \<or> card X + 1 < NBUF"
  obtains t where "\<forall>k. install_from i (Suc k) s = install_from (Suc i) k t"
    "ginv (X - {lh_block (log s) i}) Map.empty t"
    "writ [(ROOTDEV, lh_block (log s) i, fsv s (log_pos (log s) i))] s t"
proof -
  let ?p = "log_pos (log s) i" and ?q = "lh_block (log s) i"
  obtain a b t u where u: "bread ROOTDEV ?p s = Inr (a, t)" "bread ROOTDEV ?q t = Inr (b, u)" "a \<noteq> b"
    "ginv X [a \<mapsto> ?p, b \<mapsto> ?q] u" "writ [] s u" "log t = log s"
    by (rule two_breads [OF assms(1-3,7,5,6,8)])
  have d: "data (bcache u a) = fsv s ?p"
    using held_data(1) [OF u(4), of a ?p] u(3,5) by (simp add: writ_def)
  obtain v where v: "bwrite b (set_data b (fsv s ?p) u) = Inr v" "ginv (X - {?q}) [a \<mapsto> ?p, b \<mapsto> ?q] v"
    "wrote [(ROOTDEV, ?q, fsv s ?p)] u v" "log v = log u" "fsv v = (fsv u)(?q := fsv s ?p)"
    by (rule g_bwrite [OF u(4), of b ?q]) (use u(3) assms(6) in auto)
  obtain w x where x: "brelse a v = Inr w" "brelse b w = Inr x" "ginv (X - {?q}) Map.empty x" "writ [] v x"
    by (rule two_brelses [OF v(2) u(3)])
  have "writ [(ROOTDEV, ?q, fsv s ?p)] u v"
    using v by (simp add: writ_def)
  from writ_trans [OF writ_trans [OF u(5) this] x(4)]
  have "writ [(ROOTDEV, ?q, fsv s ?p)] s x"
    by simp
  moreover have "install_from i (Suc k) s = install_from (Suc i) k x" for k
    using u v(1) x(1,2) d assms(4) by (simp add: log_pos_def Let_def)
  ultimately show ?thesis
    using that x(3) by blast
qed

lemma write_head_ok:
  assumes "ginv X Map.empty s" "finite X" "card X < NBUF" "lg_dev (log s) = ROOTDEV"
    "lg_start (log s) < of_nat FSSIZE" "lg_start (log s) \<notin> X"
  obtains t where "write_head s = Inr t" "ginv X Map.empty t"
    "writ [(ROOTDEV, lg_start (log s), put_hdr (lh_n (log s)) (lh_block (log s)) (fsv s (lg_start (log s))))] s t"
proof -
  let ?p = "lg_start (log s)"
  obtain a t where t: "bread ROOTDEV ?p s = Inr (a, t)" "ginv X (Map.empty(a \<mapsto> ?p)) t" "fsstep s t"
    "log t = log s" "a \<notin> dom Map.empty" "fsv t = fsv s" "a < NBUF"
    by (rule g_bread [OF assms(1) _ assms(5)]) (use assms in auto)
  let ?d = "put_hdr (lh_n (log s)) (lh_block (log s)) (fsv s ?p)"
  have d: "data (bcache t a) = fsv s ?p"
    using held_data(1) [OF t(2), of a ?p] t(6) by simp
  obtain v where v: "bwrite a (set_data a ?d t) = Inr v" "ginv (X - {?p}) [a \<mapsto> ?p] v"
    "wrote [(ROOTDEV, ?p, ?d)] t v" "log v = log t" "fsv v = (fsv t)(?p := ?d)"
    by (rule g_bwrite [OF t(2), of a ?p]) (use assms(5) in auto)
  obtain w where w: "brelse a v = Inr w" "ginv X ([a \<mapsto> ?p](a := None)) w" "fsstep v w" "log w = log v"
    "fsv w = fsv v"
    by (rule g_brelse [OF v(2), of a ?p]) (use assms(6) in auto)
  have "write_head s = Inr w"
    using t(1,4) v(1) w(1) d assms(4) by (simp add: write_head_def Let_def)
  moreover have "writ [(ROOTDEV, ?p, ?d)] s w"
    using fsstep_trans(2) [OF t(3) fsstep_trans(3) [OF v(3) w(3)]] t v w by (simp add: writ_def)
  moreover have "ginv X Map.empty w"
    using w(2) by simp
  ultimately show ?thesis
    using that by blast
qed

text \<open>The loops write one block per turn.\<close>

lemma write_log_loop:
  assumes "ginv X Map.empty s" "finite X" "card X < NBUF" "geometry (log s)" "int (i + k) \<le> lg_size (log s) - 1"
    "\<forall>b\<in>X. \<not> in_log (log s) b" "\<forall>j<i + k. lh_block (log s) j \<in> X \<and> lh_block (log s) j < of_nat FSSIZE"
  obtains t where "write_log_from i k s = Inr t" "ginv X Map.empty t"
    "writ (map (\<lambda>j. (ROOTDEV, log_pos (log s) j, fsv s (lh_block (log s) j))) [i..<i + k]) s t"
  using assms
proof (induction k arbitrary: i s thesis)
  case 0
  show ?case
    by (rule 0(1) [of s]) (use 0 writ_refl in simp_all)
next
  case (Suc k)
  let ?l = "log s"
  have i: "int i < lg_size ?l - 1"
    using Suc.prems(6) by linarith
  note p = log_pos_facts [OF Suc.prems(5) i]
  have q: "lh_block ?l i \<in> X" "lh_block ?l i < of_nat FSSIZE" "log_pos ?l i \<notin> X" "lg_dev ?l = ROOTDEV"
    using Suc.prems(5,7,8) p(2) by (auto simp: geometry_def)
  obtain u where u: "\<forall>k. write_log_from i (Suc k) s = write_log_from (Suc i) k u" "ginv X Map.empty u"
    "writ [(ROOTDEV, log_pos ?l i, fsv s (lh_block ?l i))] s u"
    by (rule write_log_turn [OF Suc.prems(2-4) q(4) p(1) q(3,2,1)])
  have l: "log u = ?l" "fsv u = (fsv s)(log_pos ?l i := fsv s (lh_block ?l i))"
    using u(3) by (auto simp: writ_def)
  obtain t where t: "write_log_from (Suc i) k u = Inr t" "ginv X Map.empty t"
    "writ (map (\<lambda>j. (ROOTDEV, log_pos (log u) j, fsv u (lh_block (log u) j))) [Suc i..<Suc i + k]) u t"
    by (rule Suc.IH [of "Suc i" u]) (use Suc.prems u(2) l(1) in auto)
  have "fsv u (lh_block ?l j) = fsv s (lh_block ?l j)" if "j < i + Suc k" for j
    using Suc.prems(7,8) that p(2) unfolding l(2) by auto
  then have m: "map (\<lambda>j. (ROOTDEV, log_pos (log u) j, fsv u (lh_block (log u) j))) [Suc i..<Suc i + k] =
    map (\<lambda>j. (ROOTDEV, log_pos ?l j, fsv s (lh_block ?l j))) [Suc i..<i + Suc k]"
    unfolding l(1) by (intro map_cong) auto
  have "[i..<i + Suc k] = i # [Suc i..<i + Suc k]"
    by (rule upt_conv_Cons) simp
  then have w: "writ (map (\<lambda>j. (ROOTDEV, log_pos ?l j, fsv s (lh_block ?l j))) [i..<i + Suc k]) s t"
    using writ_trans [OF u(3) t(3)] unfolding m by (simp only: list.map append.simps)
  then show ?case
    using Suc.prems(1) [of t] u(1) t(1,2) by simp
qed

lemma install_loop:
  assumes "ginv X Map.empty s" "finite X" "card X < NBUF" "geometry (log s)" "int (i + k) \<le> lg_size (log s) - 1"
    "\<forall>j<i + k. lh_block (log s) j < of_nat FSSIZE \<and> \<not> in_log (log s) (lh_block (log s) j) \<and>
       (lh_block (log s) j \<in> X \<or> card X + 1 < NBUF \<or> j < i)"
  obtains t where "install_from i k s = Inr t" "ginv (X - lh_block (log s) ` {i..<i + k}) Map.empty t"
    "writ (map (\<lambda>j. (ROOTDEV, lh_block (log s) j, fsv s (log_pos (log s) j))) [i..<i + k]) s t"
  using assms
proof (induction k arbitrary: i s X thesis)
  case 0
  show ?case
    by (rule 0(1) [of s]) (use 0 writ_refl in simp_all)
next
  case (Suc k)
  let ?l = "log s" and ?q = "lh_block (log s) i"
  have i: "int i < lg_size ?l - 1"
    using Suc.prems(6) by linarith
  note p = log_pos_facts [OF Suc.prems(5) i]
  have q: "?q < of_nat FSSIZE" "\<not> in_log ?l ?q" "?q \<in> X \<or> card X + 1 < NBUF" "lg_dev ?l = ROOTDEV"
    using Suc.prems(5) Suc.prems(7) [rule_format, of i] by (auto simp: geometry_def)
  have pq: "log_pos ?l i \<noteq> ?q"
    using p(2) q(2) by auto
  obtain u where u: "\<forall>k. install_from i (Suc k) s = install_from (Suc i) k u" "ginv (X - {?q}) Map.empty u"
    "writ [(ROOTDEV, ?q, fsv s (log_pos ?l i))] s u"
    by (rule install_turn [OF Suc.prems(2-4) q(4) p(1) q(1) pq q(3)])
  have l: "log u = ?l" "fsv u = (fsv s)(?q := fsv s (log_pos ?l i))"
    using u(3) by (auto simp: writ_def)
  have c: "card (X - {?q}) \<le> card X" "?q \<in> X \<Longrightarrow> card (X - {?q}) + 1 = card X"
    using Suc.prems(3) card_Diff_singleton_if [of X ?q] card_gt_0_iff [of X] by auto
  have room: "\<forall>j<Suc i + k. lh_block (log u) j < of_nat FSSIZE \<and> \<not> in_log (log u) (lh_block (log u) j) \<and>
       (lh_block (log u) j \<in> X - {?q} \<or> card (X - {?q}) + 1 < NBUF \<or> j < Suc i)"
  proof (intro allI impI)
    fix j assume j: "j < Suc i + k"
    then have "lh_block ?l j < of_nat FSSIZE" "\<not> in_log ?l (lh_block ?l j)"
      "lh_block ?l j \<in> X \<or> card X + 1 < NBUF \<or> j < i"
      using Suc.prems(7) by auto
    then show "lh_block (log u) j < of_nat FSSIZE \<and> \<not> in_log (log u) (lh_block (log u) j) \<and>
       (lh_block (log u) j \<in> X - {?q} \<or> card (X - {?q}) + 1 < NBUF \<or> j < Suc i)"
      unfolding l(1) using c Suc.prems(4) by fastforce
  qed
  have c': "card (X - {?q}) < NBUF" "finite (X - {?q})" "geometry (log u)" "int (Suc i + k) \<le> lg_size (log u) - 1"
    using c(1) Suc.prems(3-6) l(1) by auto
  obtain t where t: "install_from (Suc i) k u = Inr t"
    "ginv (X - {?q} - lh_block (log u) ` {Suc i..<Suc i + k}) Map.empty t"
    "writ (map (\<lambda>j. (ROOTDEV, lh_block (log u) j, fsv u (log_pos (log u) j))) [Suc i..<Suc i + k]) u t"
    by (rule Suc.IH [OF _ u(2) c'(2,1,3,4) room])
  have "fsv u (log_pos ?l j) = fsv s (log_pos ?l j)" if "j < i + Suc k" for j
  proof -
    have "int j < lg_size ?l - 1"
      using that Suc.prems(6) by linarith
    from log_pos_facts(2) [OF Suc.prems(5) this] show ?thesis
      using q(2) unfolding l(2) by auto
  qed
  then have m: "map (\<lambda>j. (ROOTDEV, lh_block (log u) j, fsv u (log_pos (log u) j))) [Suc i..<Suc i + k] =
    map (\<lambda>j. (ROOTDEV, lh_block ?l j, fsv s (log_pos ?l j))) [Suc i..<i + Suc k]"
    unfolding l(1) by (intro map_cong) auto
  have "[i..<i + Suc k] = i # [Suc i..<i + Suc k]"
    by (rule upt_conv_Cons) simp
  then have w: "writ (map (\<lambda>j. (ROOTDEV, lh_block ?l j, fsv s (log_pos ?l j))) [i..<i + Suc k]) s t"
    using writ_trans [OF u(3) t(3)] unfolding m by (simp only: list.map append.simps)
  have "{i..<i + Suc k} = insert i {Suc i..<Suc i + k}"
    by auto
  then have "X - {?q} - lh_block (log u) ` {Suc i..<Suc i + k} = X - lh_block ?l ` {i..<i + Suc k}"
    unfolding l(1) by auto
  then show ?case
    using Suc.prems(1) [OF _ _ w] u(1) t(1,2) by simp
qed

end
