(* ===== verification/Fs.thy ===== *)
theory Fs
  imports LogCrash
begin

text \<open>
  fs.c: block allocation, the inode cache, the contents of files, directories and path names.
  An inode pointer is the index of its entry in the cache.  The bytes that \<open>readi\<close> copies to its
  destination are part of its result, and those that \<open>writei\<close> takes from its source an argument.
  The device table \<open>devsw\<close> is an argument of the functions that use it.  A wait for a busy inode
  stops with \<open>Sleeps\<close>.
\<close>

definition T_DIR :: ushort where "T_DIR = 1"
definition T_FILE :: ushort where "T_FILE = 2"
definition T_DEV :: ushort where "T_DEV = 3"

record inode =
  i_dev :: uint
  i_inum :: uint
  i_ref :: int
  i_busy :: bool
  i_valid :: bool
  din :: dinode   \<comment> \<open>the copy of the disk inode\<close>

record fsst = logst +
  icache :: "nat \<Rightarrow> inode"
  fsb :: superblock   \<comment> \<open>\<open>sb\<close>\<close>

record 's devsw =
  dev_read :: "(nat \<Rightarrow> uint \<Rightarrow> 's \<Rightarrow> (int \<times> uchar list \<times> 's) res) option"
  dev_write :: "(nat \<Rightarrow> cbuf \<Rightarrow> uint \<Rightarrow> 's \<Rightarrow> (int \<times> 's) res) option"

definition upd_inode :: "nat \<Rightarrow> (inode \<Rightarrow> inode) \<Rightarrow> 'a fsst_scheme \<Rightarrow> 'a fsst_scheme" where
  "upd_inode ip f s = s\<lparr>icache := (icache s)(ip := f (icache s ip))\<rparr>"

definition upd_din :: "nat \<Rightarrow> (dinode \<Rightarrow> dinode) \<Rightarrow> 'a fsst_scheme \<Rightarrow> 'a fsst_scheme" where
  "upd_din ip f s = upd_inode ip (\<lambda>x. x\<lparr>din := f (din x)\<rparr>) s"

section \<open>Blocks\<close>

definition bzero :: "uint \<Rightarrow> uint \<Rightarrow> 'a fsst_scheme \<Rightarrow> 'a fsst_scheme res" where
  "bzero dev bno s =
     Rbind (bread dev bno s) (\<lambda>(bp, s).
     Rbind (log_write bp (set_data bp (\<lambda>i. if i < BSIZE then 0 else data (bcache s bp) i) s)) (brelse bp))"

definition bmask :: "nat \<Rightarrow> uchar" where
  "bmask bi = push_bit (bi mod 8) 1"

definition free_bit :: "cbuf \<Rightarrow> nat \<Rightarrow> nat option" where
  "free_bit d k = find (\<lambda>bi. d (bi div 8) AND bmask bi = 0) [0..<k]"

fun balloc_from :: "nat \<Rightarrow> uint \<Rightarrow> uint \<Rightarrow> 'a fsst_scheme \<Rightarrow> (uint \<times> 'a fsst_scheme) res" where
  "balloc_from 0 b dev s = Inl Diverge"
| "balloc_from (Suc k) b dev s =
     (if b < sb_size (fsb s) then
        Rbind (bread dev (BBLOCK b (fsb s)) s) (\<lambda>(bp, s).
        let d = data (bcache s bp) in
        case free_bit d (min BPB (unat (sb_size (fsb s) - b))) of
          Some bi \<Rightarrow>
            Rbind (log_write bp (set_data bp (d(bi div 8 := d (bi div 8) OR bmask bi)) s)) (\<lambda>s.
            Rbind (brelse bp s) (\<lambda>s.
            Rbind (bzero dev (b + of_nat bi) s) (\<lambda>s. Inr (b + of_nat bi, s))))
        | None \<Rightarrow> Rbind (brelse bp s) (balloc_from k (b + of_nat BPB) dev))
      else Inl (Panic ''balloc: out of blocks''))"

definition balloc :: "uint \<Rightarrow> 'a fsst_scheme \<Rightarrow> (uint \<times> 'a fsst_scheme) res" where
  "balloc dev s = balloc_from (unat (sb_size (fsb s)) div BPB + 2) 0 dev s"

definition bfree :: "uint \<Rightarrow> uint \<Rightarrow> 'a fsst_scheme \<Rightarrow> 'a fsst_scheme res" where
  "bfree dev b s =
     Rbind (readsb dev s) (\<lambda>(sb, s).
     let s = s\<lparr>fsb := sb\<rparr> in
     Rbind (bread dev (BBLOCK b (fsb s)) s) (\<lambda>(bp, s).
     let d = data (bcache s bp); bi = unat b mod BPB in
     if d (bi div 8) AND bmask bi = 0 then Inl (Panic ''freeing free block'')
     else Rbind (log_write bp (set_data bp (d(bi div 8 := d (bi div 8) AND NOT (bmask bi))) s)) (brelse bp)))"

section \<open>Inodes\<close>

definition iget :: "uint \<Rightarrow> uint \<Rightarrow> 'a fsst_scheme \<Rightarrow> (nat \<times> 'a fsst_scheme) res" where
  "iget dev inum s =
     Rbind (acquire IcacheLock s) (\<lambda>s.
     case find (\<lambda>ip. 0 < i_ref (icache s ip) \<and> i_dev (icache s ip) = dev \<and> i_inum (icache s ip) = inum) [0..<NINODE] of
       Some ip \<Rightarrow>
         Rbind (release IcacheLock (upd_inode ip (\<lambda>x. x\<lparr>i_ref := i_ref x + 1\<rparr>) s)) (\<lambda>s. Inr (ip, s))
     | None \<Rightarrow>
         (case find (\<lambda>ip. i_ref (icache s ip) = 0) [0..<NINODE] of
            None \<Rightarrow> Inl (Panic ''iget: no inodes'')
          | Some ip \<Rightarrow>
              Rbind (release IcacheLock (upd_inode ip (\<lambda>x. x\<lparr>i_dev := dev, i_inum := inum, i_ref := 1,
                i_busy := False, i_valid := False,
                din := (din x)\<lparr>d_uid := ucast DEFUID, d_gid := ucast DEFGID, d_mode := DEFMODE\<rparr>\<rparr>) s))
                (\<lambda>s. Inr (ip, s))))"

definition dinode_at :: "uint \<Rightarrow> nat" where
  "dinode_at inum = unat inum mod IPB * DINODE_SIZE"

fun ialloc_from :: "nat \<Rightarrow> uint \<Rightarrow> uint \<Rightarrow> ushort \<Rightarrow> 'a fsst_scheme \<Rightarrow> (nat \<times> 'a fsst_scheme) res" where
  "ialloc_from 0 inum dev ty s = Inl (Panic ''ialloc: no inodes'')"
| "ialloc_from (Suc k) inum dev ty s =
     Rbind (bread dev (IBLOCK inum (fsb s)) s) (\<lambda>(bp, s).
     let d = data (bcache s bp); a = dinode_at inum in
     if get16 d a = 0 then
       Rbind (log_write bp (set_data bp (put16 a ty (zero_dinode a d)) s)) (\<lambda>s.
       Rbind (brelse bp s) (iget dev inum))
     else Rbind (brelse bp s) (ialloc_from k (inum + 1) dev ty))"

definition ialloc :: "uint \<Rightarrow> ushort \<Rightarrow> 'a fsst_scheme \<Rightarrow> (nat \<times> 'a fsst_scheme) res" where
  "ialloc dev ty s = ialloc_from (unat (ninodes (fsb s)) - 1) 1 dev ty s"

definition iupdate :: "nat \<Rightarrow> 'a fsst_scheme \<Rightarrow> 'a fsst_scheme res" where
  "iupdate ip s =
     Rbind (bread (i_dev (icache s ip)) (IBLOCK (i_inum (icache s ip)) (fsb s)) s) (\<lambda>(bp, s).
     let x = icache s ip in
     Rbind (log_write bp (set_data bp (put_dinode (dinode_at (i_inum x)) (din x) (data (bcache s bp))) s)) (brelse bp))"

definition idup :: "nat \<Rightarrow> 'a fsst_scheme \<Rightarrow> (nat \<times> 'a fsst_scheme) res" where
  "idup ip s =
     Rbind (acquire IcacheLock s) (\<lambda>s.
     Rbind (release IcacheLock (upd_inode ip (\<lambda>x. x\<lparr>i_ref := i_ref x + 1\<rparr>) s)) (\<lambda>s. Inr (ip, s)))"

definition ilock :: "nat \<Rightarrow> 'a fsst_scheme \<Rightarrow> 'a fsst_scheme res" where
  "ilock ip s =
     (if i_ref (icache s ip) < 1 then Inl (Panic ''ilock'')
      else
        Rbind (acquire IcacheLock s) (\<lambda>s.
        if i_busy (icache s ip) then Inl (Sleeps (InodeAddr ip))
        else
          Rbind (release IcacheLock (upd_inode ip (\<lambda>x. x\<lparr>i_busy := True\<rparr>) s)) (\<lambda>s.
          if \<not> i_valid (icache s ip) then
            Rbind (bread (i_dev (icache s ip)) (IBLOCK (i_inum (icache s ip)) (fsb s)) s) (\<lambda>(bp, s).
            let d = get_dinode (data (bcache s bp)) (dinode_at (i_inum (icache s ip))) in
            Rbind (brelse bp (upd_din ip (\<lambda>_. d) s)) (\<lambda>s.
            let s = upd_inode ip (\<lambda>x. x\<lparr>i_valid := True\<rparr>) s in
            if d_type (din (icache s ip)) = 0 then Inl (Panic ''ilock: no type'') else Inr s))
          else Inr s)))"

definition iunlock :: "nat \<Rightarrow> 'a fsst_scheme \<Rightarrow> 'a fsst_scheme res" where
  "iunlock ip s =
     (if \<not> i_busy (icache s ip) \<or> i_ref (icache s ip) < 1 then Inl (Panic ''iunlock'')
      else
        Rbind (acquire IcacheLock s) (\<lambda>s.
        Rbind (wakeup (InodeAddr ip) (upd_inode ip (\<lambda>x. x\<lparr>i_busy := False\<rparr>) s)) (release IcacheLock)))"

section \<open>Contents\<close>

definition set_addr :: "nat \<Rightarrow> nat \<Rightarrow> uint \<Rightarrow> 'a fsst_scheme \<Rightarrow> 'a fsst_scheme" where
  "set_addr ip i addr s = upd_din ip (\<lambda>x. x\<lparr>d_addrs := (d_addrs x)(i := addr)\<rparr>) s"

definition bmap :: "nat \<Rightarrow> uint \<Rightarrow> 'a fsst_scheme \<Rightarrow> (uint \<times> 'a fsst_scheme) res" where
  "bmap ip bn s =
     (let dev = i_dev (icache s ip) in
      if bn < of_nat NDIRECT then
        let addr = d_addrs (din (icache s ip)) (unat bn) in
        if addr = 0 then Rbind (balloc dev s) (\<lambda>(addr, s). Inr (addr, set_addr ip (unat bn) addr s))
        else Inr (addr, s)
      else
        let bn = bn - of_nat NDIRECT in
        if bn < of_nat NINDIRECT then
          let addr = d_addrs (din (icache s ip)) NDIRECT in
          Rbind (if addr = 0 then Rbind (balloc dev s) (\<lambda>(addr, s). Inr (addr, set_addr ip NDIRECT addr s))
                 else Inr (addr, s)) (\<lambda>(addr, s).
          Rbind (bread dev addr s) (\<lambda>(bp, s).
          let addr = get32 (data (bcache s bp)) (4 * unat bn) in
          Rbind (if addr = 0 then
                   Rbind (balloc dev s) (\<lambda>(addr, s).
                   Rbind (log_write bp (set_data bp (put32 (4 * unat bn) addr (data (bcache s bp))) s)) (\<lambda>s.
                   Inr (addr, s)))
                 else Inr (addr, s)) (\<lambda>(addr, s).
          Rbind (brelse bp s) (\<lambda>s. Inr (addr, s)))))
        else Inl (Panic ''bmap: out of range''))"

fun itrunc_direct :: "nat \<Rightarrow> nat \<Rightarrow> nat \<Rightarrow> 'a fsst_scheme \<Rightarrow> 'a fsst_scheme res" where
  "itrunc_direct ip i 0 s = Inr s"
| "itrunc_direct ip i (Suc k) s =
     (let addr = d_addrs (din (icache s ip)) i in
      if addr \<noteq> 0 then
        Rbind (bfree (i_dev (icache s ip)) addr s) (\<lambda>s. itrunc_direct ip (Suc i) k (set_addr ip i 0 s))
      else itrunc_direct ip (Suc i) k s)"

fun itrunc_indirect :: "nat \<Rightarrow> nat \<Rightarrow> nat \<Rightarrow> nat \<Rightarrow> 'a fsst_scheme \<Rightarrow> 'a fsst_scheme res" where
  "itrunc_indirect ip bp j 0 s = Inr s"
| "itrunc_indirect ip bp j (Suc k) s =
     (let addr = get32 (data (bcache s bp)) (4 * j) in
      if addr \<noteq> 0 then Rbind (bfree (i_dev (icache s ip)) addr s) (itrunc_indirect ip bp (Suc j) k)
      else itrunc_indirect ip bp (Suc j) k s)"

definition itrunc :: "nat \<Rightarrow> 'a fsst_scheme \<Rightarrow> 'a fsst_scheme res" where
  "itrunc ip s =
     Rbind (itrunc_direct ip 0 NDIRECT s) (\<lambda>s.
     let dev = i_dev (icache s ip); addr = d_addrs (din (icache s ip)) NDIRECT in
     Rbind (if addr \<noteq> 0 then
              Rbind (bread dev addr s) (\<lambda>(bp, s).
              Rbind (itrunc_indirect ip bp 0 NINDIRECT s) (\<lambda>s.
              Rbind (brelse bp s) (\<lambda>s.
              Rbind (bfree dev (d_addrs (din (icache s ip)) NDIRECT) s) (\<lambda>s.
              Inr (set_addr ip NDIRECT 0 s)))))
            else Inr s) (\<lambda>s.
     iupdate ip (upd_din ip (\<lambda>x. x\<lparr>d_size := 0\<rparr>) s)))"

definition iput :: "nat \<Rightarrow> 'a fsst_scheme \<Rightarrow> 'a fsst_scheme res" where
  "iput ip s =
     Rbind (acquire IcacheLock s) (\<lambda>s.
     let x = icache s ip in
     Rbind (if i_ref x = 1 \<and> i_valid x \<and> d_nlink (din x) = 0 then
              if i_busy x then Inl (Panic ''iput busy'')
              else
                Rbind (release IcacheLock (upd_inode ip (\<lambda>x. x\<lparr>i_busy := True\<rparr>) s)) (\<lambda>s.
                Rbind (itrunc ip s) (\<lambda>s.
                Rbind (iupdate ip (upd_din ip (\<lambda>x. x\<lparr>d_type := 0\<rparr>) s)) (\<lambda>s.
                Rbind (acquire IcacheLock s) (\<lambda>s.
                wakeup (InodeAddr ip) (upd_inode ip (\<lambda>x. x\<lparr>i_busy := False, i_valid := False\<rparr>) s)))))
            else Inr s) (\<lambda>s.
     release IcacheLock (upd_inode ip (\<lambda>x. x\<lparr>i_ref := i_ref x - 1\<rparr>) s)))"

definition iunlockput :: "nat \<Rightarrow> 'a fsst_scheme \<Rightarrow> 'a fsst_scheme res" where
  "iunlockput ip s = Rbind (iunlock ip s) (iput ip)"

record stat =
  st_type :: ushort
  st_dev :: uint
  st_ino :: uint
  st_nlink :: ushort
  st_size :: uint
  st_uid :: ushort
  st_gid :: ushort
  st_mode :: uint

definition stati :: "nat \<Rightarrow> 'a fsst_scheme \<Rightarrow> stat" where
  "stati ip s = (let x = icache s ip; d = din x in
     \<lparr>st_type = d_type d, st_dev = i_dev x, st_ino = i_inum x, st_nlink = d_nlink d, st_size = d_size d,
      st_uid = d_uid d, st_gid = d_gid d, st_mode = d_mode d\<rparr>)"

function readi_loop :: "nat \<Rightarrow> uint \<Rightarrow> nat \<Rightarrow> 'a fsst_scheme \<Rightarrow> (uchar list \<times> 'a fsst_scheme) res" where
  "readi_loop ip off k s =
     (if k = 0 then Inr ([], s)
      else
        Rbind (bmap ip (off div of_nat BSIZE) s) (\<lambda>(addr, s).
        Rbind (bread (i_dev (icache s ip)) addr s) (\<lambda>(bp, s).
        let o' = unat off mod BSIZE; m = min k (BSIZE - o');
            bs = map (\<lambda>i. data (bcache s bp) (o' + i)) [0..<m] in
        Rbind (brelse bp s) (\<lambda>s.
        Rbind (readi_loop ip (off + of_nat m) (k - m) s) (\<lambda>(bs', s). Inr (bs @ bs', s))))))"
  by pat_completeness auto
termination
  by (relation "measure (\<lambda>(ip, off, k, s). k)") (auto simp: BSIZE_def)

declare readi_loop.simps [simp del]

definition readi :: "(nat \<Rightarrow> 'a fsst_scheme devsw) \<Rightarrow> nat \<Rightarrow> uint \<Rightarrow> uint \<Rightarrow> 'a fsst_scheme \<Rightarrow>
    (int \<times> uchar list \<times> 'a fsst_scheme) res" where
  "readi dv ip off n s =
     (let x = din (icache s ip); mj = sint (d_major x) in
      if d_type x = T_DEV then
        if mj < 0 \<or> int NDEV \<le> mj then Inr (- 1, [], s)
        else case dev_read (dv (nat mj)) of None \<Rightarrow> Inr (- 1, [], s) | Some rd \<Rightarrow> rd ip n s
      else if d_size x < off \<or> off + n < off then Inr (- 1, [], s)
      else
        let n = (if d_size x < off + n then d_size x - off else n) in
        Rbind (readi_loop ip off (unat n) s) (\<lambda>(bs, s). Inr (sint n, bs, s)))"

function writei_loop :: "nat \<Rightarrow> cbuf \<Rightarrow> uint \<Rightarrow> nat \<Rightarrow> 'a fsst_scheme \<Rightarrow> (uint \<times> 'a fsst_scheme) res" where
  "writei_loop ip src off k s =
     (if k = 0 then Inr (off, s)
      else
        Rbind (bmap ip (off div of_nat BSIZE) s) (\<lambda>(addr, s).
        Rbind (bread (i_dev (icache s ip)) addr s) (\<lambda>(bp, s).
        let o' = unat off mod BSIZE; m = min k (BSIZE - o'); d = data (bcache s bp) in
        Rbind (log_write bp (set_data bp (\<lambda>i. if o' \<le> i \<and> i < o' + m then src (i - o') else d i) s)) (\<lambda>s.
        Rbind (brelse bp s) (\<lambda>s.
        writei_loop ip (\<lambda>i. src (i + m)) (off + of_nat m) (k - m) s)))))"
  by pat_completeness auto
termination
  by (relation "measure (\<lambda>(ip, src, off, k, s). k)") (auto simp: BSIZE_def)

declare writei_loop.simps [simp del]

definition writei :: "(nat \<Rightarrow> 'a fsst_scheme devsw) \<Rightarrow> nat \<Rightarrow> cbuf \<Rightarrow> uint \<Rightarrow> uint \<Rightarrow> 'a fsst_scheme \<Rightarrow>
    (int \<times> 'a fsst_scheme) res" where
  "writei dv ip src off n s =
     (let x = din (icache s ip); mj = sint (d_major x) in
      if d_type x = T_DEV then
        if mj < 0 \<or> int NDEV \<le> mj then Inr (- 1, s)
        else case dev_write (dv (nat mj)) of None \<Rightarrow> Inr (- 1, s) | Some wr \<Rightarrow> wr ip src n s
      else if d_size x < off \<or> off + n < off then Inr (- 1, s)
      else if of_nat (MAXFILE * BSIZE) < off + n then Inr (- 1, s)
      else
        Rbind (writei_loop ip src off (unat n) s) (\<lambda>(off, s).
        if 0 < n \<and> d_size (din (icache s ip)) < off then
          Rbind (iupdate ip (upd_din ip (\<lambda>x. x\<lparr>d_size := off\<rparr>) s)) (\<lambda>s. Inr (sint n, s))
        else Inr (sint n, s)))"

end
