(* ===== verification/FsDir.thy ===== *)
theory FsDir
  imports Fs
begin

text \<open>
  fs.c, directories and paths.  A path is the list of bytes before the terminating null byte; the
  buffer \<open>name\<close> that receives a path element is part of the arguments and results.
\<close>

definition namecmp :: "cbuf \<Rightarrow> cbuf \<Rightarrow> int" where
  "namecmp s t = strncmp s t DIRSIZ"

definition dirent_inum :: "uchar list \<Rightarrow> ushort" where
  "dirent_inum de = get16 (\<lambda>i. de ! i) 0"

definition dirent_name :: "uchar list \<Rightarrow> cbuf" where
  "dirent_name de = (\<lambda>i. de ! (i + 2))"

definition put_dirent :: "ushort \<Rightarrow> cbuf \<Rightarrow> cbuf" where
  "put_dirent inum name = put16 0 inum (\<lambda>i. name (i - 2))"

fun dirlookup_from :: "nat \<Rightarrow> (nat \<Rightarrow> 'a fsst_scheme devsw) \<Rightarrow> nat \<Rightarrow> cbuf \<Rightarrow> uint \<Rightarrow> 'a fsst_scheme \<Rightarrow>
    ((nat \<times> uint) option \<times> 'a fsst_scheme) res" where
  "dirlookup_from 0 dv dp name off s = Inl Diverge"
| "dirlookup_from (Suc k) dv dp name off s =
     (if off < d_size (din (icache s dp)) then
        Rbind (readi dv dp off (of_nat DIRENT_SIZE) s) (\<lambda>(r, de, s).
        if r \<noteq> int DIRENT_SIZE then Inl (Panic ''dirlink read'')
        else if dirent_inum de \<noteq> 0 \<and> namecmp name (dirent_name de) = 0 then
          Rbind (iget (i_dev (icache s dp)) (ucast (dirent_inum de)) s) (\<lambda>(ip, s). Inr (Some (ip, off), s))
        else dirlookup_from k dv dp name (off + of_nat DIRENT_SIZE) s)
      else Inr (None, s))"

definition dirlookup :: "(nat \<Rightarrow> 'a fsst_scheme devsw) \<Rightarrow> nat \<Rightarrow> cbuf \<Rightarrow> 'a fsst_scheme \<Rightarrow>
    ((nat \<times> uint) option \<times> 'a fsst_scheme) res" where
  "dirlookup dv dp name s =
     (if d_type (din (icache s dp)) \<noteq> T_DIR then Inl (Panic ''dirlookup not DIR'')
      else dirlookup_from (unat (d_size (din (icache s dp))) div DIRENT_SIZE + 2) dv dp name 0 s)"

fun dirlink_slot :: "nat \<Rightarrow> (nat \<Rightarrow> 'a fsst_scheme devsw) \<Rightarrow> nat \<Rightarrow> uint \<Rightarrow> 'a fsst_scheme \<Rightarrow>
    (uint \<times> 'a fsst_scheme) res" where
  "dirlink_slot 0 dv dp off s = Inl Diverge"
| "dirlink_slot (Suc k) dv dp off s =
     (if off < d_size (din (icache s dp)) then
        Rbind (readi dv dp off (of_nat DIRENT_SIZE) s) (\<lambda>(r, de, s).
        if r \<noteq> int DIRENT_SIZE then Inl (Panic ''dirlink read'')
        else if dirent_inum de = 0 then Inr (off, s)
        else dirlink_slot k dv dp (off + of_nat DIRENT_SIZE) s)
      else Inr (off, s))"

definition dirlink :: "(nat \<Rightarrow> 'a fsst_scheme devsw) \<Rightarrow> nat \<Rightarrow> cbuf \<Rightarrow> uint \<Rightarrow> 'a fsst_scheme \<Rightarrow>
    (int \<times> 'a fsst_scheme) res" where
  "dirlink dv dp name inum s =
     Rbind (dirlookup dv dp name s) (\<lambda>(r, s).
     case r of
       Some (ip, _) \<Rightarrow> Rbind (iput ip s) (\<lambda>s. Inr (- 1, s))
     | None \<Rightarrow>
         Rbind (dirlink_slot (unat (d_size (din (icache s dp))) div DIRENT_SIZE + 2) dv dp 0 s) (\<lambda>(off, s).
         let de = put_dirent (ucast inum) (strncpy (\<lambda>_. 0) name (int DIRSIZ)) in
         Rbind (writei dv dp de off (of_nat DIRENT_SIZE) s) (\<lambda>(r, s).
         if r \<noteq> int DIRENT_SIZE then Inl (Panic ''dirlink'') else Inr (0, s))))"

section \<open>Paths\<close>

definition SLASH :: uchar where "SLASH = 47"

definition skipelem :: "uchar list \<Rightarrow> cbuf \<Rightarrow> (uchar list \<times> cbuf) option" where
  "skipelem path name =
     (let path = dropWhile (\<lambda>c. c = SLASH) path in
      if path = [] then None
      else
        let s = takeWhile (\<lambda>c. c \<noteq> SLASH) path; path = dropWhile (\<lambda>c. c \<noteq> SLASH) path; len = length s;
            name = (if DIRSIZ \<le> len then (\<lambda>i. if i < DIRSIZ then s ! i else name i)
                    else (\<lambda>i. if i < len then s ! i else name i)(len := 0))
        in Some (dropWhile (\<lambda>c. c = SLASH) path, name))"

lemma skipelem_shorter: "skipelem path name = Some (path', name') \<Longrightarrow> length path' < length path"
proof -
  assume a: "skipelem path name = Some (path', name')"
  let ?p = "dropWhile (\<lambda>c. c = SLASH) path"
  have ne: "?p \<noteq> []" and p': "path' = dropWhile (\<lambda>c. c = SLASH) (dropWhile (\<lambda>c. c \<noteq> SLASH) ?p)"
    using a by (auto simp: skipelem_def Let_def split: if_splits)
  have "length (dropWhile (\<lambda>c. c \<noteq> SLASH) ?p) < length ?p"
    using hd_dropWhile [OF ne] ne length_dropWhile_le [of "\<lambda>c. c \<noteq> SLASH" "tl ?p"] by (cases ?p) auto
  then show ?thesis
    using length_dropWhile_le [of "\<lambda>c. c = SLASH" "dropWhile (\<lambda>c. c \<noteq> SLASH) ?p"]
      length_dropWhile_le [of "\<lambda>c. c = SLASH" path] p' by simp
qed

function namex_loop :: "(nat \<Rightarrow> 'a fsst_scheme devsw) \<Rightarrow> bool \<Rightarrow> nat \<Rightarrow> uchar list \<Rightarrow> cbuf \<Rightarrow> 'a fsst_scheme \<Rightarrow>
    (nat option \<times> cbuf \<times> 'a fsst_scheme) res" where
  "namex_loop dv nameiparent ip path name s =
     (case skipelem path name of
        None \<Rightarrow>
          if nameiparent then Rbind (iput ip s) (\<lambda>s. Inr (None, name, s)) else Inr (Some ip, name, s)
      | Some (path', name') \<Rightarrow>
          Rbind (ilock ip s) (\<lambda>s.
          if d_type (din (icache s ip)) \<noteq> T_DIR then Rbind (iunlockput ip s) (\<lambda>s. Inr (None, name', s))
          else if nameiparent \<and> path' = [] then Rbind (iunlock ip s) (\<lambda>s. Inr (Some ip, name', s))
          else
            Rbind (dirlookup dv ip name' s) (\<lambda>(r, s).
            case r of
              None \<Rightarrow> Rbind (iunlockput ip s) (\<lambda>s. Inr (None, name', s))
            | Some (nx, _) \<Rightarrow>
                Rbind (iunlockput ip s) (\<lambda>s. namex_loop dv nameiparent nx path' name' s))))"
  by pat_completeness auto
termination
  by (relation "measure (\<lambda>(dv, np, ip, path, name, s). length path)") (auto dest: skipelem_shorter)

declare namex_loop.simps [simp del]

definition namex :: "(nat \<Rightarrow> 'a fsst_scheme devsw) \<Rightarrow> uchar list \<Rightarrow> bool \<Rightarrow> cbuf \<Rightarrow> 'a fsst_scheme \<Rightarrow>
    (nat option \<times> cbuf \<times> 'a fsst_scheme) res" where
  "namex dv path nameiparent name s =
     Rbind (if path \<noteq> [] \<and> hd path = SLASH then iget ROOTDEV ROOTINO s
            else
              (case cproc (mycpu s) of
                 None \<Rightarrow> Inl Fault
               | Some p \<Rightarrow> (case cwd (ptab s p) of None \<Rightarrow> Inl Fault | Some ip \<Rightarrow> idup ip s))) (\<lambda>(ip, s).
     namex_loop dv nameiparent ip path name s)"

definition namei :: "(nat \<Rightarrow> 'a fsst_scheme devsw) \<Rightarrow> uchar list \<Rightarrow> 'a fsst_scheme \<Rightarrow>
    (nat option \<times> 'a fsst_scheme) res" where
  "namei dv path s = Rbind (namex dv path False (\<lambda>_. 0) s) (\<lambda>(ip, _, s). Inr (ip, s))"

definition nameiparent :: "(nat \<Rightarrow> 'a fsst_scheme devsw) \<Rightarrow> uchar list \<Rightarrow> cbuf \<Rightarrow> 'a fsst_scheme \<Rightarrow>
    (nat option \<times> cbuf \<times> 'a fsst_scheme) res" where
  "nameiparent dv path name s = namex dv path True name s"

end
