(* ===== verification/Pipe.thy ===== *)
theory Pipe
  imports FsDir
begin

text \<open>
  pipe.c and the file structure of file.h.  A pipe lives in a page of its own, by whose address
  it is known.  Reading and writing may block half way: then the process has gone to sleep, and
  the result says how far it came; \<open>pipewrite_resume\<close> and \<open>piperead_resume\<close> go on when the
  scheduler has switched back.
\<close>

datatype fdtype = FD_NONE | FD_PIPE | FD_INODE

record kfile =
  ftype :: fdtype
  fref :: int
  readable :: bool
  writable :: bool
  fpipe :: uint
  fip :: nat
  foff :: uint

record pipe =
  pdata :: cbuf
  nread :: uint
  nwrite :: uint
  readopen :: bool
  writeopen :: bool

record filest = fsst +
  pipes :: "uint \<Rightarrow> pipe"
  ftable :: "nat \<Rightarrow> kfile"

definition PIPESIZE :: nat where "PIPESIZE = 512"

definition upd_pipe :: "uint \<Rightarrow> (pipe \<Rightarrow> pipe) \<Rightarrow> 'a filest_scheme \<Rightarrow> 'a filest_scheme" where
  "upd_pipe p f s = s\<lparr>pipes := (pipes s)(p := f (pipes s p))\<rparr>"

definition upd_file :: "nat \<Rightarrow> (kfile \<Rightarrow> kfile) \<Rightarrow> 'a filest_scheme \<Rightarrow> 'a filest_scheme" where
  "upd_file f g s = s\<lparr>ftable := (ftable s)(f := g (ftable s f))\<rparr>"

text \<open>One byte in, one byte out.\<close>

definition pipe_put :: "uchar \<Rightarrow> pipe \<Rightarrow> pipe" where
  "pipe_put c x = x\<lparr>pdata := (pdata x)(unat (nwrite x) mod PIPESIZE := c), nwrite := nwrite x + 1\<rparr>"

definition pipe_byte :: "pipe \<Rightarrow> uchar" where
  "pipe_byte x = pdata x (unat (nread x) mod PIPESIZE)"

definition pipe_drop :: "pipe \<Rightarrow> pipe" where
  "pipe_drop x = x\<lparr>nread := nread x + 1\<rparr>"

definition pipe_full :: "pipe \<Rightarrow> bool" where
  "pipe_full x \<longleftrightarrow> nwrite x = nread x + of_nat PIPESIZE"

definition pipe_empty :: "pipe \<Rightarrow> bool" where
  "pipe_empty x \<longleftrightarrow> nread x = nwrite x"

definition pipe_init :: "pipe \<Rightarrow> pipe" where
  "pipe_init x = x\<lparr>readopen := True, writeopen := True, nwrite := 0, nread := 0\<rparr>"

definition pipeclose :: "uint \<Rightarrow> uint \<Rightarrow> bool \<Rightarrow> 'a filest_scheme \<Rightarrow> 'a filest_scheme res" where
  "pipeclose kend p wr s =
     Rbind (acquire (PipeLock p) s) (\<lambda>s.
     Rbind (if wr then wakeup (PipeReadAddr p) (upd_pipe p (\<lambda>x. x\<lparr>writeopen := False\<rparr>) s)
            else wakeup (PipeWriteAddr p) (upd_pipe p (\<lambda>x. x\<lparr>readopen := False\<rparr>) s)) (\<lambda>s.
     if \<not> readopen (pipes s p) \<and> \<not> writeopen (pipes s p)
     then Rbind (release (PipeLock p) s) (kfree kend p)
     else release (PipeLock p) s))"

datatype piperes = PRet int | PSlept nat

fun pipewrite_loop :: "uint \<Rightarrow> cbuf \<Rightarrow> nat \<Rightarrow> nat \<Rightarrow> int \<Rightarrow> 'a filest_scheme \<Rightarrow> (piperes \<times> 'a filest_scheme) res" where
  "pipewrite_loop p addr i 0 n s =
     Rbind (wakeup (PipeReadAddr p) s) (\<lambda>s.
     Rbind (release (PipeLock p) s) (\<lambda>s. Inr (PRet n, s)))"
| "pipewrite_loop p addr i (Suc k) n s =
     (if pipe_full (pipes s p) then
        with_proc (\<lambda>me s.
          if \<not> readopen (pipes s p) \<or> killed (ptab s me)
          then Rbind (release (PipeLock p) s) (\<lambda>s. Inr (PRet (- 1), s))
          else
            Rbind (wakeup (PipeReadAddr p) s) (\<lambda>s.
            Rbind (sleep (PipeWriteAddr p) (Some (PipeLock p)) s) (\<lambda>s. Inr (PSlept i, s)))) s
      else pipewrite_loop p addr (Suc i) k n (upd_pipe p (pipe_put (addr i)) s))"

definition pipewrite :: "uint \<Rightarrow> cbuf \<Rightarrow> int \<Rightarrow> 'a filest_scheme \<Rightarrow> (piperes \<times> 'a filest_scheme) res" where
  "pipewrite p addr n s = Rbind (acquire (PipeLock p) s) (pipewrite_loop p addr 0 (nat n) n)"

definition pipewrite_resume :: "uint \<Rightarrow> cbuf \<Rightarrow> nat \<Rightarrow> int \<Rightarrow> bool \<Rightarrow> 'a filest_scheme \<Rightarrow> (piperes \<times> 'a filest_scheme) res" where
  "pipewrite_resume p addr i n ie s =
     Rbind (sleep_resume ie (Some (PipeLock p)) s) (pipewrite_loop p addr i (nat n - i) n)"

fun pipe_take :: "nat \<Rightarrow> pipe \<Rightarrow> uchar list \<times> pipe" where
  "pipe_take 0 x = ([], x)"
| "pipe_take (Suc k) x =
     (if pipe_empty x then ([], x)
      else let (bs, y) = pipe_take k (pipe_drop x) in (pipe_byte x # bs, y))"

text \<open>The bytes delivered to the reader's buffer are the second component of the result.\<close>

definition piperead_wait :: "uint \<Rightarrow> int \<Rightarrow> 'a filest_scheme \<Rightarrow> (piperes \<times> uchar list \<times> 'a filest_scheme) res" where
  "piperead_wait p n s =
     (if pipe_empty (pipes s p) \<and> writeopen (pipes s p) then
        with_proc (\<lambda>me s.
          if killed (ptab s me)
          then Rbind (release (PipeLock p) s) (\<lambda>s. Inr (PRet (- 1), [], s))
          else Rbind (sleep (PipeReadAddr p) (Some (PipeLock p)) s) (\<lambda>s. Inr (PSlept 0, [], s))) s
      else
        let (bs, x) = pipe_take (nat n) (pipes s p) in
        Rbind (wakeup (PipeWriteAddr p) (upd_pipe p (\<lambda>_. x) s)) (\<lambda>s.
        Rbind (release (PipeLock p) s) (\<lambda>s. Inr (PRet (int (length bs)), bs, s))))"

definition piperead :: "uint \<Rightarrow> int \<Rightarrow> 'a filest_scheme \<Rightarrow> (piperes \<times> uchar list \<times> 'a filest_scheme) res" where
  "piperead p n s = Rbind (acquire (PipeLock p) s) (piperead_wait p n)"

definition piperead_resume :: "uint \<Rightarrow> int \<Rightarrow> bool \<Rightarrow> 'a filest_scheme \<Rightarrow> (piperes \<times> uchar list \<times> 'a filest_scheme) res" where
  "piperead_resume p n ie s = Rbind (sleep_resume ie (Some (PipeLock p)) s) (piperead_wait p n)"

section \<open>A pipe is a bounded queue\<close>

text \<open>
  The contract of a bounded byte channel, and what follows from it: whatever the order of the
  writes and reads, the bytes read and the bytes still inside are the bytes written.
\<close>

locale byte_channel =
  fixes ok :: "'p \<Rightarrow> bool" and contents :: "'p \<Rightarrow> 'c list" and full :: "'p \<Rightarrow> bool" and empty :: "'p \<Rightarrow> bool"
    and put :: "'c \<Rightarrow> 'p \<Rightarrow> 'p" and front :: "'p \<Rightarrow> 'c" and drop_front :: "'p \<Rightarrow> 'p"
  assumes put_contents: "ok p \<Longrightarrow> \<not> full p \<Longrightarrow> contents (put c p) = contents p @ [c] \<and> ok (put c p)"
    and empty_iff: "ok p \<Longrightarrow> empty p \<longleftrightarrow> contents p = []"
    and front_contents: "ok p \<Longrightarrow> \<not> empty p \<Longrightarrow>
      contents p = front p # contents (drop_front p) \<and> ok (drop_front p)"
begin

inductive channel_run :: "'p \<Rightarrow> 'c list \<Rightarrow> 'c list \<Rightarrow> 'p \<Rightarrow> bool" for p where
  start: "channel_run p [] [] p"
| put_step: "channel_run p ws rs q \<Longrightarrow> \<not> full q \<Longrightarrow> channel_run p (ws @ [c]) rs (put c q)"
| get_step: "channel_run p ws rs q \<Longrightarrow> \<not> empty q \<Longrightarrow> channel_run p ws (rs @ [front q]) (drop_front q)"

lemma run_fifo: "channel_run p ws rs q \<Longrightarrow> ok p \<Longrightarrow> ok q \<and> contents p @ ws = rs @ contents q"
proof (induction rule: channel_run.induct)
  case (put_step ws rs q c)
  then show ?case
    using put_contents [of q c] by (simp add: put_step)
next
  case (get_step ws rs q)
  then show ?case
    using front_contents [of q] by auto
qed simp

end

definition pipe_len :: "pipe \<Rightarrow> nat" where
  "pipe_len x = unat (nwrite x - nread x)"

definition pipe_ok :: "pipe \<Rightarrow> bool" where
  "pipe_ok x \<longleftrightarrow> pipe_len x \<le> PIPESIZE"

definition pipe_contents :: "pipe \<Rightarrow> uchar list" where
  "pipe_contents x = map (\<lambda>i. pdata x (unat (nread x + of_nat i) mod PIPESIZE)) [0..<pipe_len x]"

lemma pipe_full_iff: "pipe_full x \<longleftrightarrow> pipe_len x = PIPESIZE"
proof -
  have "pipe_full x \<longleftrightarrow> nwrite x - nread x = of_nat PIPESIZE"
    by (auto simp: pipe_full_def algebra_simps)
  also have "\<dots> \<longleftrightarrow> pipe_len x = PIPESIZE"
    by (simp add: pipe_len_def PIPESIZE_def word_unat_eq_iff)
  finally show ?thesis .
qed

lemma pipe_empty_iff: "pipe_empty x \<longleftrightarrow> pipe_len x = 0"
  by (auto simp: pipe_empty_def pipe_len_def unat_eq_0)

lemma slot_add: "unat (a + of_nat i :: uint) mod PIPESIZE = (unat a + i) mod PIPESIZE"
  by (rule wrap_slot) (simp add: PIPESIZE_def)

lemma pipe_contents_alt:
  "pipe_contents x = map (\<lambda>i. pdata x ((unat (nread x) + i) mod PIPESIZE)) [0..<pipe_len x]"
  by (simp add: pipe_contents_def slot_add)

lemma pipe_put_ok:
  assumes "pipe_ok x" "\<not> pipe_full x"
  shows "pipe_len (pipe_put c x) = pipe_len x + 1" "pipe_ok (pipe_put c x)"
    "pipe_contents (pipe_put c x) = pipe_contents x @ [c]"
proof -
  have l: "pipe_len x < PIPESIZE"
    using assms by (auto simp: pipe_full_iff pipe_ok_def)
  then have s: "unat (nwrite x - nread x) + 1 < 2 ^ 32"
    by (simp add: pipe_len_def PIPESIZE_def)
  have "nwrite (pipe_put c x) - nread (pipe_put c x) = (nwrite x - nread x) + 1"
    by (simp add: pipe_put_def)
  then show n: "pipe_len (pipe_put c x) = pipe_len x + 1"
    using unat_add_small [of "nwrite x - nread x" 1] s unfolding pipe_len_def by simp
  show "pipe_ok (pipe_put c x)"
    using n l by (simp add: pipe_ok_def)
  have "nwrite x = nread x + of_nat (pipe_len x)"
    by (simp add: pipe_len_def)
  then have w: "unat (nwrite x) mod PIPESIZE = (unat (nread x) + pipe_len x) mod PIPESIZE"
    using slot_add [of "nread x" "pipe_len x"] by simp
  have old: "pdata (pipe_put c x) ((unat (nread x) + i) mod PIPESIZE) = pdata x ((unat (nread x) + i) mod PIPESIZE)"
    if "i < pipe_len x" for i
    using slots_apart [OF that l, of "unat (nread x)"] w by (simp add: pipe_put_def)
  have new: "pdata (pipe_put c x) ((unat (nread x) + pipe_len x) mod PIPESIZE) = c"
    using w by (simp add: pipe_put_def)
  have r: "nread (pipe_put c x) = nread x"
    by (simp add: pipe_put_def)
  show "pipe_contents (pipe_put c x) = pipe_contents x @ [c]"
    unfolding pipe_contents_alt n r using old new by simp
qed

lemma pipe_get_ok:
  assumes "pipe_ok x" "\<not> pipe_empty x"
  shows "pipe_contents x = pipe_byte x # pipe_contents (pipe_drop x)" "pipe_ok (pipe_drop x)"
    "pipe_len x = Suc (pipe_len (pipe_drop x))"
proof -
  have "nwrite x - nread x \<noteq> 0"
    using assms(2) by (simp add: pipe_empty_def)
  then have "unat (nwrite x - nread x - 1) = unat (nwrite x - nread x) - 1" "0 < pipe_len x"
    by (simp_all add: unat_minus_one pipe_len_def unat_gt_0)
  moreover have "nwrite x - nread x - 1 = nwrite x - (nread x + 1)"
    by simp
  ultimately show n: "pipe_len x = Suc (pipe_len (pipe_drop x))"
    by (simp add: pipe_len_def pipe_drop_def)
  show "pipe_ok (pipe_drop x)"
    using assms(1) n by (simp add: pipe_ok_def)
  have "[0..<pipe_len x] = 0 # map Suc [0..<pipe_len (pipe_drop x)]"
    unfolding n by (simp add: upt_conv_Cons map_Suc_upt del: upt_Suc)
  then show "pipe_contents x = pipe_byte x # pipe_contents (pipe_drop x)"
    using slot_add [of "nread x" 1]
    by (simp add: pipe_contents_def pipe_byte_def pipe_drop_def algebra_simps comp_def)
qed

interpretation pq: byte_channel pipe_ok pipe_contents pipe_full pipe_empty pipe_put pipe_byte pipe_drop
proof unfold_locales
  fix p :: pipe
  show "pipe_ok p \<Longrightarrow> pipe_empty p \<longleftrightarrow> pipe_contents p = []"
    by (simp add: pipe_empty_iff pipe_contents_def)
qed (simp_all add: pipe_put_ok pipe_get_ok(2), rule pipe_get_ok(1))

end
