(* ===== verification/LogAtomic.thy ===== *)
theory LogAtomic
  imports LogCrash
begin

text \<open>
  Crash safety.  A crash leaves the disk after a prefix of the block writes that \<open>commit\<close>, or the
  recovery of an earlier crash, issues; the buffers and the in-memory log are lost.
\<close>

section \<open>The writes of a commit\<close>

lemma vapply_other: "\<forall>w\<in>set ws. fst (snd w) \<noteq> b \<Longrightarrow> vapply ws v b = v b"
proof (induction ws arbitrary: v)
  case (Cons w ws)
  obtain dr bno d where w: "w = (dr, bno, d)"
    by (cases w)
  show ?case
    using Cons by (auto simp: w)
qed simp

lemma log_start_facts:
  assumes "geometry l"
  shows "lg_start l < of_nat FSSIZE" "in_log l (lg_start l)" "lg_dev l = ROOTDEV"
proof -
  define a where "a = unat (lg_start l)"
  have "int a + lg_size l \<le> 2000" "0 < lg_size l"
    using geometry_bound [OF assms] assms unfolding a_def geometry_def by blast+
  then have b: "a < 2000" "a \<le> a \<and> int a < int a + lg_size l"
    by linarith+
  show "lg_start l < of_nat FSSIZE"
    unfolding word_less_nat_alt unat_fssize(1) unfolding unat_fssize(2) using b(1) unfolding a_def .
  show "in_log l (lg_start l)"
    unfolding in_log_def using b(2) unfolding a_def .
  show "lg_dev l = ROOTDEV"
    using assms by (simp add: geometry_def)
qed

definition log_copies :: "logrec \<Rightarrow> (uint \<Rightarrow> cbuf) \<Rightarrow> (uint \<times> uint \<times> cbuf) list" where
  "log_copies l v = map (\<lambda>j. (ROOTDEV, log_pos l j, v (lh_block l j))) [0..<nat (lh_n l)]"

definition head_write :: "logrec \<Rightarrow> (uint \<Rightarrow> cbuf) \<Rightarrow> uint \<times> uint \<times> cbuf" where
  "head_write l v = (ROOTDEV, lg_start l, put_hdr (lh_n l) (lh_block l) (v (lg_start l)))"

definition installs :: "logrec \<Rightarrow> (uint \<Rightarrow> cbuf) \<Rightarrow> (uint \<times> uint \<times> cbuf) list" where
  "installs l v = map (\<lambda>j. (ROOTDEV, lh_block l j, v (log_pos l j))) [0..<nat (lh_n l)]"

definition done_log :: "logrec \<Rightarrow> logrec" where
  "done_log l = l\<lparr>lh_n := 0\<rparr>"

lemma done_log_sel [simp]:
  "lh_n (done_log l) = 0" "lg_start (done_log l) = lg_start l" "lg_size (done_log l) = lg_size l"
  "lg_dev (done_log l) = lg_dev l" "lh_block (done_log l) = lh_block l"
  by (simp_all add: done_log_def)

text \<open>The second half of \<open>commit\<close>, which is the second half of recovery too.\<close>

lemma install_and_clear:
  assumes g: "ginv X Map.empty s" "finite X" "card X < NBUF" "geometry (log s)" "lh_n (log s) \<le> lg_size (log s) - 1"
    and b: "\<forall>j<nat (lh_n (log s)). lh_block (log s) j < of_nat FSSIZE \<and> \<not> in_log (log s) (lh_block (log s) j) \<and>
       (lh_block (log s) j \<in> X \<or> card X + 1 < NBUF)"
    and X: "X \<subseteq> logged (log s)"
  obtains t where "Rbind (install_trans s) (\<lambda>s. write_head (upd_log (\<lambda>l. l\<lparr>lh_n := 0\<rparr>) s)) = Inr t"
    "ginv {} Map.empty t" "log t = done_log (log s)"
    "wrote (installs (log s) (fsv s) @ [head_write (done_log (log s)) (vapply (installs (log s) (fsv s)) (fsv s))]) s t"
proof -
  let ?l = "log s" and ?w = "installs (log s) (fsv s)"
  have i: "int (0 + nat (lh_n ?l)) \<le> lg_size ?l - 1"
    using g(4,5) by (auto simp: geometry_def)
  have b': "\<forall>j<0 + nat (lh_n ?l). lh_block ?l j < of_nat FSSIZE \<and> \<not> in_log ?l (lh_block ?l j) \<and>
       (lh_block ?l j \<in> X \<or> card X + 1 < NBUF \<or> j < 0)"
    using b by simp
  obtain u where u: "install_from 0 (nat (lh_n ?l)) s = Inr u"
    "ginv (X - lh_block ?l ` {0..<0 + nat (lh_n ?l)}) Map.empty u"
    "writ (map (\<lambda>j. (ROOTDEV, lh_block ?l j, fsv s (log_pos ?l j))) [0..<0 + nat (lh_n ?l)]) s u"
    by (rule install_loop [OF g(1-4) i b'])
  have X0: "X - lh_block ?l ` {0..<0 + nat (lh_n ?l)} = {}"
    using X by (auto simp: logged_def atLeast0LessThan)
  let ?u = "upd_log (\<lambda>l. l\<lparr>lh_n := 0\<rparr>) u"
  have lu: "log u = ?l" "fsv u = vapply ?w (fsv s)" "wrote ?w s u"
    using u(3) by (auto simp: writ_def installs_def)
  have gu: "ginv {} Map.empty ?u"
    using u(2) unfolding X0 by (simp add: ginv_def)
  have vu: "fsv ?u = fsv u"
    by (simp add: fsv_def)
  note st = log_start_facts [OF g(4)]
  obtain t where t: "write_head ?u = Inr t" "ginv {} Map.empty t"
    "writ [(ROOTDEV, lg_start (log ?u), put_hdr (lh_n (log ?u)) (lh_block (log ?u)) (fsv ?u (lg_start (log ?u))))] ?u t"
    by (rule write_head_ok [OF gu]) (use st lu(1) in \<open>auto simp: NBUF_def MAXOPBLOCKS_def\<close>)
  have "wrote [head_write (done_log ?l) (vapply ?w (fsv s))] ?u t" "log t = done_log ?l"
    using t(3) lu(1,2) vu by (simp_all add: writ_def head_write_def done_log_def)
  moreover have "wrote [] u ?u"
    using gu quiet_upper [of u ?u] u(2) by (auto simp: wrote_def ginv_def bio_ok_def)
  ultimately have "wrote (?w @ [head_write (done_log ?l) (vapply ?w (fsv s))]) s t"
    using wrote_trans [OF lu(3) wrote_trans [of "[]" u ?u]] by fastforce
  then show ?thesis
    using that [of t] t(1,2) u(1) \<open>log t = done_log ?l\<close> by (simp add: install_trans_def)
qed

lemma commit_writes:
  assumes inv: "fsinv Map.empty s" and n: "0 < lh_n (log s)" "lh_n (log s) < int NBUF"
  obtains t v where "commit s = Inr t" "ginv {} Map.empty t" "log t = done_log (log s)"
    "v = vapply (log_copies (log s) (fsv s) @ [head_write (log s) (fsv s)]) (fsv s)"
    "wrote (log_copies (log s) (fsv s) @ head_write (log s) (fsv s) #
       installs (log s) v @ [head_write (done_log (log s)) (vapply (installs (log s) v) v)]) s t"
proof -
  let ?l = "log s" and ?X = "logged (log s)" and ?n = "nat (lh_n (log s))"
  have ok: "ginv ?X Map.empty s" "log_ok ?l" "geometry ?l"
    using fsinvD [OF inv] log_ok_geometry by auto
  have X: "finite ?X" "card ?X < NBUF" "\<forall>b\<in>?X. \<not> in_log ?l b"
    using logged_card [of ?l] n ok(2) by (auto simp: log_ok_def)
  have i: "int (0 + ?n) \<le> lg_size ?l - 1"
    using ok(2) n by (auto simp: log_ok_def)
  have b: "\<forall>j<0 + ?n. lh_block ?l j \<in> ?X \<and> lh_block ?l j < of_nat FSSIZE"
    using ok(2) by (auto simp: logged_def log_ok_def)
  obtain u where u: "write_log_from 0 ?n s = Inr u" "ginv ?X Map.empty u"
    "writ (map (\<lambda>j. (ROOTDEV, log_pos ?l j, fsv s (lh_block ?l j))) [0..<0 + ?n]) s u"
    by (rule write_log_loop [OF ok(1) X(1,2) ok(3) i X(3) b])
  have p: "log_pos ?l j \<noteq> lg_start ?l" if "j < ?n" for j
    using log_pos_facts(3) [OF ok(3), of j] i that by auto
  have st: "lg_start ?l < of_nat FSSIZE" "lg_start ?l \<notin> ?X" "lg_dev ?l = ROOTDEV"
    using log_start_facts [OF ok(3)] X(3) by blast+
  have lu: "log u = ?l" "fsv u = vapply (log_copies ?l (fsv s)) (fsv s)" "wrote (log_copies ?l (fsv s)) s u"
    using u(3) by (auto simp: writ_def log_copies_def)
  have vs: "fsv u (lg_start ?l) = fsv s (lg_start ?l)"
    unfolding lu(2) log_copies_def using p by (intro vapply_other) auto
  obtain w where w: "write_head u = Inr w" "ginv ?X Map.empty w"
    "writ [(ROOTDEV, lg_start (log u), put_hdr (lh_n (log u)) (lh_block (log u)) (fsv u (lg_start (log u))))] u w"
    by (rule write_head_ok [OF u(2) X(1,2)]) (use st lu(1) in auto)
  have hw: "writ [head_write ?l (fsv s)] u w"
    using w(3) lu(1) vs by (simp add: head_write_def)
  have lw: "log w = ?l" "fsv w = vapply (log_copies ?l (fsv s) @ [head_write ?l (fsv s)]) (fsv s)"
    using hw lu by (auto simp: writ_def head_write_def)
  obtain t where t: "Rbind (install_trans w) (\<lambda>s. write_head (upd_log (\<lambda>l. l\<lparr>lh_n := 0\<rparr>) s)) = Inr t"
    "ginv {} Map.empty t" "log t = done_log (log w)"
    "wrote (installs (log w) (fsv w) @ [head_write (done_log (log w)) (vapply (installs (log w) (fsv w)) (fsv w))]) w t"
    by (rule install_and_clear [OF w(2) X(1,2)]) (use ok(3) i n b X(3) lw(1) in auto)
  have "commit s = Inr t"
    using n(1) u(1) w(1) t(1) by (simp add: commit_def write_log_def)
  then show ?thesis
    using that [OF _ t(2) _ lw(2)] t(3)
      wrote_trans [OF lu(3) wrote_trans [OF hw [unfolded writ_def, THEN conjunct1] t(4)]] lw(1)
    by simp
qed

section \<open>Recovery\<close>

text \<open>
  A disk from which recovery gives the contents \<open>w\<close> outside the log: the header names blocks
  outside the log, whose new contents are in the log, and all the other blocks have theirs.
\<close>

definition crash_ok :: "logrec \<Rightarrow> (uint \<Rightarrow> cbuf) \<Rightarrow> (uint \<Rightarrow> cbuf) \<Rightarrow> bool" where
  "crash_ok l w v \<longleftrightarrow> (let h = v (lg_start l); n = nat (hdr_n h) in
     0 \<le> hdr_n h \<and> hdr_n h \<le> int LOGSIZE \<and> hdr_n h \<le> lg_size l - 1 \<and>
     (\<forall>j<n. \<not> in_log l (hdr_block h j) \<and> hdr_block h j < of_nat FSSIZE \<and> v (log_pos l j) = w (hdr_block h j)) \<and>
     (\<forall>b. \<not> in_log l b \<and> b \<notin> hdr_block h ` {..<n} \<longrightarrow> v b = w b))"

definition rebooted :: "logrec \<Rightarrow> (uint \<Rightarrow> uint \<Rightarrow> cbuf) \<Rightarrow> 'a logst_scheme \<Rightarrow> bool" where
  "rebooted l D r \<longleftrightarrow> ginv {} Map.empty r \<and> disk r = D \<and>
     lg_start (log r) = lg_start l \<and> lg_size (log r) = lg_size l \<and> lg_dev (log r) = lg_dev l"

lemma vapply_map:
  "vapply (map (\<lambda>j. (ROOTDEV, f j, w (f j))) xs) v = (\<lambda>b. if b \<in> f ` set xs then w b else v b)"
  by (induction xs arbitrary: v) (auto simp: fun_eq_iff)

lemma take_upt_min: "take m [0..<n] = [0..<min m n]"
  by (cases "m \<le> n") (simp_all add: take_upt min_def)

lemma clean_view: "ginv {} H r \<Longrightarrow> fsv r = disk r ROOTDEV"
  by (rule ext) (simp add: fsv_clean)

lemma log_same:
  assumes "lg_start k = lg_start l" "lg_size k = lg_size l" "lg_dev k = lg_dev l"
  shows "log_pos k = log_pos l" "in_log k = in_log l" "geometry k = geometry l"
  using assms by (simp_all add: log_pos_def [abs_def] in_log_def [abs_def] geometry_def)

lemma read_head_ok:
  assumes "ginv {} Map.empty r" "geometry (log r)" "hdr_n (fsv r (lg_start (log r))) \<le> int LOGSIZE"
  obtains t where "read_head r = Inr t" "ginv {} Map.empty t" "fsstep r t" "fsv t = fsv r"
    "log t = (log r)\<lparr>lh_n := hdr_n (fsv r (lg_start (log r))), lh_block := (\<lambda>i.
       if int i < hdr_n (fsv r (lg_start (log r))) then hdr_block (fsv r (lg_start (log r))) i else lh_block (log r) i)\<rparr>"
proof -
  let ?p = "lg_start (log r)"
  note st = log_start_facts [OF assms(2)]
  obtain b t where t: "bread ROOTDEV ?p r = Inr (b, t)" "ginv {} (Map.empty(b \<mapsto> ?p)) t" "fsstep r t"
    "log t = log r" "b \<notin> dom Map.empty" "fsv t = fsv r" "b < NBUF"
    by (rule g_bread [OF assms(1) _ st(1)]) (auto simp: NBUF_def MAXOPBLOCKS_def)
  have d: "data (bcache t b) = fsv r ?p"
    using held_data(1) [OF t(2), of b ?p] t(6) by simp
  define h where "h = fsv r ?p"
  let ?f = "\<lambda>l. l\<lparr>lh_n := hdr_n h, lh_block := (\<lambda>i. if int i < hdr_n h then hdr_block h i else lh_block l i)\<rparr>"
  have g: "ginv {} (Map.empty(b \<mapsto> ?p)) (upd_log ?f t)" "fsstep t (upd_log ?f t)" "fsv (upd_log ?f t) = fsv t"
    using t(2) quiet_upper [of t "upd_log ?f t"] by (auto simp: ginv_def wrote_def bio_ok_def fsv_def)
  obtain u where u: "brelse b (upd_log ?f t) = Inr u" "ginv {} ([b \<mapsto> ?p](b := None)) u" "fsstep (upd_log ?f t) u"
    "log u = log (upd_log ?f t)" "fsv u = fsv (upd_log ?f t)"
    by (rule g_brelse [OF g(1), of b ?p]) auto
  have "read_head r = Inr u"
    using t(1,4) u(1) d assms(3) st(3) by (simp add: read_head_def Let_def h_def cong: if_cong)
  moreover have "fsstep r u"
    using fsstep_trans(1) [OF t(3) fsstep_trans(1) [OF g(2) u(3)]] .
  moreover have "ginv {} Map.empty u"
    using u(2) by simp
  moreover have "fsv u = fsv r" "log u = ?f (log r)"
    using u(4,5) g(3) t(4,6) by (simp_all cong: if_cong)
  ultimately show ?thesis
    using that unfolding h_def by blast
qed

text \<open>The writes of a recovery, and that a crash between any two of them loses nothing.\<close>

definition replay :: "logrec \<Rightarrow> (uint \<Rightarrow> cbuf) \<Rightarrow> logrec \<Rightarrow> bool" where
  "replay l v k \<longleftrightarrow> lg_start k = lg_start l \<and> lg_size k = lg_size l \<and> lg_dev k = lg_dev l \<and>
     lh_n k = hdr_n (v (lg_start l)) \<and> (\<forall>j<nat (lh_n k). lh_block k j = hdr_block (v (lg_start l)) j)"

lemma recover_writes:
  assumes r: "rebooted l D r" "geometry l" and c: "crash_ok l w (D ROOTDEV)"
  obtains t k x where "recover_from_log r = Inr t" "ginv {} Map.empty t" "replay l (D ROOTDEV) k"
    "wrote (installs k (D ROOTDEV) @ [(ROOTDEV, lg_start l, put_hdr 0 (lh_block k) x)]) r t"
proof -
  let ?h = "D ROOTDEV (lg_start l)"
  have s: "lg_start (log r) = lg_start l" "lg_size (log r) = lg_size l" "lg_dev (log r) = lg_dev l"
    and g0: "ginv {} Map.empty r" "disk r = D"
    using r(1) unfolding rebooted_def by blast+
  have g: "ginv {} Map.empty r" "fsv r = D ROOTDEV"
    using g0 clean_view [OF g0(1)] by simp_all
  note same = log_same [OF s]
  have h: "hdr_n ?h \<le> int LOGSIZE" "0 \<le> hdr_n ?h" "hdr_n ?h \<le> lg_size l - 1"
    "\<forall>j<nat (hdr_n ?h). \<not> in_log l (hdr_block ?h j) \<and> hdr_block ?h j < of_nat FSSIZE"
    using c unfolding crash_ok_def Let_def by blast+
  have g': "geometry (log r)" "hdr_n (fsv r (lg_start (log r))) \<le> int LOGSIZE"
    using r(2) h(1) same(3) s(1) g(2) by simp_all
  obtain u where u: "read_head r = Inr u" "ginv {} Map.empty u" "fsstep r u" "fsv u = fsv r"
    "log u = (log r)\<lparr>lh_n := hdr_n (fsv r (lg_start (log r))), lh_block := (\<lambda>i.
       if int i < hdr_n (fsv r (lg_start (log r))) then hdr_block (fsv r (lg_start (log r))) i else lh_block (log r) i)\<rparr>"
    by (rule read_head_ok [OF g(1) g'])
  have k: "replay l (D ROOTDEV) (log u)"
    using s by (simp add: replay_def u(5) g(2) zless_nat_eq_int_zless)
  have su: "log_pos (log u) = log_pos l" "in_log (log u) = in_log l" "geometry (log u) = geometry l"
    using log_same [of "log u" l] k by (auto simp: replay_def)
  have b: "\<forall>j<nat (lh_n (log u)). lh_block (log u) j < of_nat FSSIZE \<and> \<not> in_log (log u) (lh_block (log u) j) \<and>
       (lh_block (log u) j \<in> {} \<or> card ({} :: uint set) + 1 < NBUF)"
    using k h(4) unfolding su replay_def by (simp add: NBUF_def MAXOPBLOCKS_def)
  have c': "card ({} :: uint set) < NBUF" "geometry (log u)" "lh_n (log u) \<le> lg_size (log u) - 1"
    using r(2) su(3) k h(3) by (auto simp: replay_def NBUF_def MAXOPBLOCKS_def)
  obtain t where t: "Rbind (install_trans u) (\<lambda>s. write_head (upd_log (\<lambda>l. l\<lparr>lh_n := 0\<rparr>) s)) = Inr t"
    "ginv {} Map.empty t" "log t = done_log (log u)"
    "wrote (installs (log u) (fsv u) @ [head_write (done_log (log u)) (vapply (installs (log u) (fsv u)) (fsv u))]) u t"
    by (rule install_and_clear [OF u(2) finite.emptyI c' b empty_subsetI])
  have "recover_from_log r = Inr t"
    using u(1) t(1) by (simp add: recover_from_log_def)
  moreover have "wrote (installs (log u) (D ROOTDEV) @ [(ROOTDEV, lg_start l, put_hdr 0 (lh_block (log u))
      (vapply (installs (log u) (fsv u)) (fsv u) (lg_start l)))]) r t"
    using fsstep_trans(2) [OF u(3) t(4)] u(4) g(2) k by (simp add: head_write_def replay_def)
  ultimately show ?thesis
    using that t(2) k by blast
qed

lemma replay_crash_ok:
  assumes c: "crash_ok l w v" and g: "geometry l" and r: "replay l v k"
  shows "crash_ok l w (vapply (take m (installs k v @ [(ROOTDEV, lg_start l, put_hdr 0 bs x)])) v)"
    "\<not> in_log l b \<Longrightarrow> vapply (installs k v @ [(ROOTDEV, lg_start l, put_hdr 0 bs x)]) v b = w b"
    "hdr_n (vapply (installs k v @ [(ROOTDEV, lg_start l, put_hdr 0 bs x)]) v (lg_start l)) = 0"
proof -
  let ?h = "v (lg_start l)" and ?n = "nat (hdr_n (v (lg_start l)))"
  have h: "0 \<le> hdr_n ?h" "hdr_n ?h \<le> int LOGSIZE" "hdr_n ?h \<le> lg_size l - 1"
    and blk: "\<And>j. j < ?n \<Longrightarrow> \<not> in_log l (hdr_block ?h j) \<and> hdr_block ?h j < of_nat FSSIZE \<and>
        v (log_pos l j) = w (hdr_block ?h j)"
    and rest: "\<And>b. \<not> in_log l b \<Longrightarrow> b \<notin> hdr_block ?h ` {..<?n} \<Longrightarrow> v b = w b"
    using c unfolding crash_ok_def Let_def by blast+
  have k: "log_pos k = log_pos l" "nat (lh_n k) = ?n" "\<And>j. j < ?n \<Longrightarrow> lh_block k j = hdr_block ?h j"
    using r log_same(1) [of k l] by (auto simp: replay_def)
  have ins: "installs k v = map (\<lambda>j. (ROOTDEV, hdr_block ?h j, w (hdr_block ?h j))) [0..<?n]"
    unfolding installs_def k(1,2) using blk k(3) by (intro map_cong) auto
  have part: "vapply (take m (installs k v)) v = (\<lambda>b. if b \<in> hdr_block ?h ` {..<min m ?n} then w b else v b)" for m
    unfolding ins take_map take_upt_min vapply_map by (simp add: atLeast0LessThan)
  have pos: "in_log l (log_pos l j)" if "j < ?n" for j
    using log_pos_facts(2) [OF g, of j] h(1,3) that by linarith
  have st: "lg_start l \<notin> hdr_block ?h ` {..<?n}" "\<And>j. j < ?n \<Longrightarrow> log_pos l j \<notin> hdr_block ?h ` {..<?n}"
    using blk log_start_facts(2) [OF g] pos by fastforce+
  have ok: "crash_ok l w (vapply (take m (installs k v)) v)" for m
  proof -
    have sub: "hdr_block ?h ` {..<min m ?n} \<subseteq> hdr_block ?h ` {..<?n}"
      by auto
    then have "vapply (take m (installs k v)) v (lg_start l) = ?h"
      "\<And>j. j < ?n \<Longrightarrow> vapply (take m (installs k v)) v (log_pos l j) = v (log_pos l j)"
      unfolding part using st by (meson subsetD)+
    then show ?thesis
      unfolding crash_ok_def Let_def using h blk rest by (simp add: part)
  qed
  let ?z = "vapply (installs k v @ [(ROOTDEV, lg_start l, put_hdr 0 bs x)]) v"
  have z: "?z = (vapply (installs k v) v)(lg_start l := put_hdr 0 bs x)"
    by simp
  show hz: "hdr_n (?z (lg_start l)) = 0"
    unfolding z using hdr_roundtrip(1) [of 0] by simp
  show out: "\<not> in_log l b \<Longrightarrow> ?z b = w b" for b
    using part [of ?n] log_start_facts(2) [OF g] rest [of b] unfolding z by (auto simp: ins)
  have "crash_ok l w ?z"
    unfolding crash_ok_def Let_def hz using h(3) out g by (auto simp: geometry_def)
  then show "crash_ok l w (vapply (take m (installs k v @ [(ROOTDEV, lg_start l, put_hdr 0 bs x)])) v)"
    using ok [of m] by (cases "m \<le> length (installs k v)") (simp_all add: take_Cons')
qed

section \<open>Crash safety\<close>

text \<open>
  The disks that crashes lead to: a reboot runs recovery, which a crash may cut short again.
\<close>

inductive crashed :: "'a itself \<Rightarrow> logrec \<Rightarrow> (uint \<Rightarrow> uint \<Rightarrow> cbuf) \<Rightarrow> (uint \<Rightarrow> uint \<Rightarrow> cbuf) \<Rightarrow> bool"
  for ty :: "'a itself" and l D where
  first: "crashed ty l D D"
| again: "crashed ty l D E \<Longrightarrow> rebooted l E (r :: 'a logst_scheme) \<Longrightarrow> recover_from_log r = Inr u \<Longrightarrow>
    writes u = writes r @ ws \<Longrightarrow> crashed ty l D (apply_writes (take m ws) E)"

definition root_only :: "(uint \<times> uint \<times> cbuf) list \<Rightarrow> bool" where
  "root_only ws \<longleftrightarrow> (\<forall>w\<in>set ws. fst w = ROOTDEV)"

lemma apply_writes_root: "root_only ws \<Longrightarrow> apply_writes ws D ROOTDEV = vapply ws (D ROOTDEV)"
proof (induction ws arbitrary: D)
  case (Cons w ws)
  then show ?case
    by (cases w) (auto simp: root_only_def apply_writes_def)
qed (simp add: root_only_def)

lemma root_only_simps [simp]:
  "root_only []" "root_only (ws @ vs) = (root_only ws \<and> root_only vs)"
  "root_only ((dr, bno, d) # ws) = (dr = ROOTDEV \<and> root_only ws)" "root_only (installs k v)"
  "root_only (log_copies k v)" "root_only ws \<Longrightarrow> root_only (take m ws)"
  by (auto simp: root_only_def installs_def log_copies_def dest: in_set_takeD)

lemma recovery_result:
  assumes "rebooted l D r" "geometry l" "crash_ok l w (D ROOTDEV)"
  obtains u ws where "recover_from_log r = Inr u" "writes u = writes r @ ws"
    "\<forall>m. crash_ok l w (apply_writes (take m ws) D ROOTDEV)" "\<forall>b. \<not> in_log l b \<longrightarrow> disk u ROOTDEV b = w b"
    "hdr_n (disk u ROOTDEV (lg_start l)) = 0" "ginv {} Map.empty u"
proof -
  obtain t k x where t: "recover_from_log r = Inr t" "ginv {} Map.empty t" "replay l (D ROOTDEV) k"
    "wrote (installs k (D ROOTDEV) @ [(ROOTDEV, lg_start l, put_hdr 0 (lh_block k) x)]) r t"
    by (rule recover_writes [OF assms])
  let ?ws = "installs k (D ROOTDEV) @ [(ROOTDEV, lg_start l, put_hdr 0 (lh_block k) x)]"
  note c = replay_crash_ok [OF assms(3,2) t(3), where bs = "lh_block k" and x = x]
  have "root_only ?ws"
    by simp
  then have ro: "apply_writes (take m ?ws) D ROOTDEV = vapply (take m ?ws) (D ROOTDEV)"
    "apply_writes ?ws D ROOTDEV = vapply ?ws (D ROOTDEV)" for m
    by (rule apply_writes_root [OF root_only_simps(6)], rule apply_writes_root)
  have d: "writes t = writes r @ ?ws" "disk t ROOTDEV = vapply ?ws (D ROOTDEV)"
    using t(4) assms(1) ro(2) unfolding wrote_def rebooted_def by metis+
  show ?thesis
    by (rule that [OF t(1) d(1) _ _ _ t(2)]; unfold ro d(2)) (use c in blast)+
qed

lemma crashed_ok:
  assumes "crashed ty l D E" "geometry l" "crash_ok l w (D ROOTDEV)"
  shows "crash_ok l w (E ROOTDEV)"
  using assms
proof (induction rule: crashed.induct)
  case (again E r u ws m)
  obtain u' ws' where u: "recover_from_log r = Inr u'" "writes u' = writes r @ ws'"
    "\<forall>m. crash_ok l w (apply_writes (take m ws') E ROOTDEV)"
    by (rule recovery_result [OF again(2) again.prems(1) again.IH [OF again.prems]])
  then have "ws' = ws"
    using again(3,4) by simp
  then show ?case
    using u(3) by simp
qed

lemma vapply_slot:
  "inj_on f (set xs) \<Longrightarrow> distinct xs \<Longrightarrow> j \<in> set xs \<Longrightarrow> vapply (map (\<lambda>j. (ROOTDEV, f j, g j)) xs) v (f j) = g j"
proof (induction xs arbitrary: v)
  case (Cons i xs)
  show ?case
  proof (cases "j = i")
    case True
    have "\<forall>w\<in>set (map (\<lambda>j. (ROOTDEV, f j, g j)) xs). fst (snd w) \<noteq> f i"
      using Cons.prems by (auto simp: inj_on_def)
    from vapply_other [OF this] show ?thesis
      by (simp add: True)
  next
    case False
    then show ?thesis
      using Cons by (simp add: inj_on_def)
  qed
qed simp

text \<open>
  Every prefix of the writes of a commit: up to the header the disk still stands for the old
  contents, from the header on for the new ones.
\<close>

lemma log_phase:
  assumes "geometry l" "nat (lh_n l) \<le> nat (lg_size l - 1)" "hdr_n (v (lg_start l)) = 0"
  shows "crash_ok l v (vapply (take m (log_copies l w)) v)"
proof -
  have p: "in_log l (log_pos l j)" "log_pos l j \<noteq> lg_start l" if "j < nat (lh_n l)" for j
    using log_pos_facts(2,3) [OF assms(1), of j] that assms(2) by linarith+
  have t: "\<exists>j<nat (lh_n l). y = (ROOTDEV, log_pos l j, w (lh_block l j))" if "y \<in> set (take m (log_copies l w))" for y
    using in_set_takeD [OF that] by (auto simp: log_copies_def)
  have "vapply (take m (log_copies l w)) v (lg_start l) = v (lg_start l)"
    by (rule vapply_other) (use t p(2) in fastforce)
  moreover have "vapply (take m (log_copies l w)) v b = v b" if "\<not> in_log l b" for b
    by (rule vapply_other) (use t p(1) that in fastforce)
  ultimately show ?thesis
    using assms(1,3) by (simp add: crash_ok_def geometry_def)
qed

lemma header_phase:
  fixes x :: "uint \<Rightarrow> cbuf"
  assumes ok: "log_ok l" and v: "\<forall>b. b \<notin> logged l \<longrightarrow> v b = w b"
  defines "z \<equiv> vapply (log_copies l w @ [head_write l x]) v"
  shows "crash_ok l w z" "replay l z l" "installs l z = map (\<lambda>j. (ROOTDEV, lh_block l j, w (lh_block l j))) [0..<nat (lh_n l)]"
proof -
  let ?n = "nat (lh_n l)"
  have g: "geometry l" and n: "0 \<le> lh_n l" "lh_n l \<le> int LOGSIZE" "lh_n l \<le> lg_size l - 1" "lh_n l < 2 ^ 31"
    using ok log_ok_geometry [OF ok] by (auto simp: log_ok_def LOGSIZE_def MAXOPBLOCKS_def)
  have p: "in_log l (log_pos l j)" "log_pos l j \<noteq> lg_start l" if "j < ?n" for j
    using log_pos_facts(2,3) [OF g, of j] that n by linarith+
  have inj: "inj_on (log_pos l) (set [0..<?n])"
    using log_pos_facts(4) [OF g] n by (auto simp: inj_on_def)
  have start: "z (lg_start l) = put_hdr (lh_n l) (lh_block l) (x (lg_start l))"
    by (simp add: z_def head_write_def)
  note h = hdr_roundtrip [OF n(1,4), where blks = "lh_block l" and d = "x (lg_start l)", folded start]
  have slot: "z (log_pos l j) = w (lh_block l j)" if "j < ?n" for j
    using vapply_slot [OF inj, of j "\<lambda>j. w (lh_block l j)" v] that p(2) [OF that]
    by (simp add: z_def head_write_def log_copies_def)
  have other: "z b = w b" if "\<not> in_log l b" "b \<notin> logged l" for b
  proof -
    have "z b = v b"
      unfolding z_def by (rule vapply_other) (use that(1) p(1) log_start_facts(2) [OF g] in \<open>auto simp: log_copies_def head_write_def\<close>)
    then show ?thesis
      using v that(2) by simp
  qed
  have img: "hdr_block (z (lg_start l)) ` {..<?n} = logged l"
    using h(2) by (auto simp: logged_def)
  show "crash_ok l w z"
    unfolding crash_ok_def Let_def h(1) img
    using n other h(2) slot ok by (auto simp: log_ok_def logged_def)
  show "replay l z l"
    using h by (simp add: replay_def)
  show "installs l z = map (\<lambda>j. (ROOTDEV, lh_block l j, w (lh_block l j))) [0..<?n]"
    unfolding installs_def using slot by (intro map_cong) auto
qed

text \<open>
  C19. Commit is atomic and durable across crashes.  With the header on the disk empty, \<open>commit\<close>
  returns and the disk holds the new contents outside the log area.  If the machine stops after
  any number \<open>m\<close> of its block writes, and then again any number of times during recovery, the
  recovery that runs to its end gives a disk which outside the log area holds the old contents in
  every block, when \<open>m\<close> does not reach the write of the header, and the new contents in every
  block otherwise.
\<close>

theorem commit_crash_atomic:
  fixes s :: "'a logst_scheme"
  assumes inv: "fsinv Map.empty s" and n: "0 < lh_n (log s)" "lh_n (log s) < int NBUF"
    and hd0: "hdr_n (disk s ROOTDEV (lg_start (log s))) = 0"
  shows "\<exists>t ws. commit s = Inr t \<and> writes t = writes s @ ws \<and>
    (\<forall>b. \<not> in_log (log s) b \<longrightarrow> disk t ROOTDEV b = fsv s b) \<and>
    (\<forall>m E r. crashed TYPE('a) (log s) (apply_writes (take m ws) (disk s)) E \<and> rebooted (log s) E (r :: 'a logst_scheme) \<longrightarrow>
      (\<exists>u. recover_from_log r = Inr u \<and>
        (\<forall>b. \<not> in_log (log s) b \<longrightarrow> disk u ROOTDEV b =
           (if m \<le> nat (lh_n (log s)) then disk s ROOTDEV b else fsv s b))))"
proof -
  let ?l = "log s" and ?D = "disk s ROOTDEV" and ?c = "log_copies (log s) (fsv s)" and ?n = "nat (lh_n (log s))"
  have ok: "log_ok ?l" "geometry ?l" "ginv (logged ?l) Map.empty s"
    using fsinvD [OF inv] log_ok_geometry by auto
  obtain t v where t: "commit s = Inr t" "ginv {} Map.empty t" "log t = done_log ?l"
    "v = vapply (?c @ [head_write ?l (fsv s)]) (fsv s)"
    "wrote (?c @ head_write ?l (fsv s) # installs ?l v @ [head_write (done_log ?l) (vapply (installs ?l v) v)]) s t"
    by (rule commit_writes [OF inv n])
  define x where "x = vapply (installs ?l v) v (lg_start ?l)"
  define tl where "tl = installs ?l v @ [(ROOTDEV, lg_start ?l, put_hdr 0 (lh_block ?l) x)]"
  define ws where "ws = (?c @ [head_write ?l (fsv s)]) @ tl"
  have w: "writes t = writes s @ ws" "disk t = apply_writes ws (disk s)"
    using t(5) by (simp_all add: wrote_def ws_def tl_def x_def head_write_def)
  have ro: "root_only ws"
    by (simp add: ws_def tl_def head_write_def)
  define z where "z = vapply (?c @ [head_write ?l (fsv s)]) ?D"
  have old: "\<forall>b. b \<notin> logged ?l \<longrightarrow> ?D b = fsv s b"
    using fsv_clean [OF ok(3)] by simp
  note h = header_phase [where v = ?D and w = "fsv s" and x = "fsv s", OF ok(1) old, folded z_def]
  have "installs ?l v = installs ?l z"
    unfolding h(3) t(4) by (rule header_phase(3) [OF ok(1)]) simp
  then have tl: "tl = installs ?l z @ [(ROOTDEV, lg_start ?l, put_hdr 0 (lh_block ?l) x)]"
    by (simp add: tl_def)
  note r = replay_crash_ok [OF h(1) ok(2) h(2), where bs = "lh_block ?l" and x = x, folded tl]
  have len: "length ?c = ?n"
    by (simp add: log_copies_def)
  have "vapply ws ?D = vapply tl z"
    unfolding ws_def z_def by (rule vapply_simps(2))
  then have fin: "\<forall>b. \<not> in_log ?l b \<longrightarrow> disk t ROOTDEV b = fsv s b"
    using r(2) apply_writes_root [OF ro, of "disk s"] w(2) by simp
  have le: "?n \<le> nat (lg_size ?l - 1)"
    using ok(1) unfolding log_ok_def by linarith
  have pre: "crash_ok ?l (if m \<le> ?n then ?D else fsv s) (apply_writes (take m ws) (disk s) ROOTDEV)" for m
  proof (cases "m \<le> ?n")
    case True
    then have "take m ws = take m ?c"
      using len by (simp add: ws_def)
    then show ?thesis
      using log_phase [where v = ?D, OF ok(2) le hd0, of m "fsv s"] True
        apply_writes_root [OF root_only_simps(6) [OF root_only_simps(5)], of m ?l "fsv s" "disk s"]
      by simp
  next
    case False
    then have "take m ws = (?c @ [head_write ?l (fsv s)]) @ take (m - Suc ?n) tl"
      unfolding ws_def take_append [of m "?c @ [head_write ?l (fsv s)]"] by (simp add: len)
    then have "vapply (take m ws) ?D = vapply (take (m - Suc ?n) tl) z"
      unfolding z_def by (simp only: vapply_simps(2))
    then show ?thesis
      using r(1) False apply_writes_root [OF root_only_simps(6) [OF ro], of m "disk s"] by simp
  qed
  have "\<exists>u. recover_from_log r = Inr u \<and> (\<forall>b. \<not> in_log ?l b \<longrightarrow> disk u ROOTDEV b = (if m \<le> ?n then ?D b else fsv s b))"
    if E: "crashed TYPE('a) ?l (apply_writes (take m ws) (disk s)) E" "rebooted ?l E (r :: 'a logst_scheme)" for m E r
  proof -
    obtain u where "recover_from_log r = Inr u" "\<forall>b. \<not> in_log ?l b \<longrightarrow> disk u ROOTDEV b = (if m \<le> ?n then ?D else fsv s) b"
      by (rule recovery_result [OF E(2) ok(2) crashed_ok [OF E(1) ok(2) pre]])
    then show ?thesis
      by (cases "m \<le> ?n") auto
  qed
  then show ?thesis
    using t(1) w(1) fin by blast
qed

text \<open>A freshly booted machine with an empty log at blocks 2 to 31 and one open operation.\<close>

definition demo_logrec :: logrec where
  "demo_logrec = \<lparr>lg_start = 2, lg_size = 30, outstanding = 1, committing = False, lg_dev = ROOTDEV, lh_n = 0,
     lh_block = (\<lambda>_. 0)\<rparr>"

definition demo_log :: "(uint \<Rightarrow> uint \<Rightarrow> cbuf) \<Rightarrow> logst" where
  "demo_log D = binit (bio.extend (ptable.extend demo_pt
     (bio.fields (\<lambda>_. demo_buf) None True False D [])) (logst.fields demo_logrec))"

lemma fresh_ginv:
  assumes "bio_ok s" "\<And>i. i < NBUF \<Longrightarrow> \<not> b_dirty (bcache s i) \<and> \<not> b_busy (bcache s i)"
  shows "ginv {} Map.empty s"
  using assms by (auto simp: ginv_def pinned_def holds_def)

lemma demo_log_ok:
  "ginv {} Map.empty (demo_log D)" "disk (demo_log D) = D" "log (demo_log D) = demo_logrec"
proof -
  let ?s = "bio.extend (ptable.extend demo_pt (bio.fields (\<lambda>_. demo_buf) None True False D [])) (logst.fields demo_logrec)"
  have "quiet ?s"
    using demo_inv demo_calm pt_inv_cong [of ?s demo_pt]
    by (auto simp: quiet_def ptable.extend_def bio.extend_def calm_def lock_free_def cpu_ok_def mycpu_def)
  note b = binit_ok [of ?s, OF this]
  have v: "bcache ?s i = demo_buf" "idequeue ?s = None" "havedisk1 ?s" "\<not> ide_err ?s" "disk ?s = D"
    "bio.more ?s = logst.fields demo_logrec" for i
    by (simp_all add: ptable.extend_def bio.extend_def bio.fields_def)
  note b = b [unfolded v(1), OF v(2,4,3)]
  show "disk (demo_log D) = D" "log (demo_log D) = demo_logrec"
    using b(2,3) log_more(1) [of "demo_log D" ?s] unfolding demo_log_def v
    by (simp_all add: demo_buf_def bio.extend_def logst.fields_def)
  show "ginv {} Map.empty (demo_log D)"
    using b(1,4) unfolding demo_log_def by (intro fresh_ginv) (simp_all add: demo_buf_def)
qed

lemma demo_log_inv: "fsinv Map.empty (demo_log D)" "rebooted demo_logrec D (demo_log D)"
  using demo_log_ok [of D]
  by (simp_all add: fsinv_def rebooted_def logged_def log_ok_def demo_logrec_def FSSIZE_def)

theorem commit_crash_atomic_witness:
  "\<exists>b s1 s2 s t ws u1 u2. bread ROOTDEV 100 (demo_log (\<lambda>_ _ _. 0)) = Inr (b, s1) \<and>
     log_write b (set_data b (\<lambda>_. 7) s1) = Inr s2 \<and> brelse b s2 = Inr s \<and>
     commit s = Inr t \<and> writes t = writes s @ ws \<and> disk t ROOTDEV 100 = (\<lambda>_. 7) \<and>
     recover_from_log (demo_log (apply_writes (take 1 ws) (disk s))) = Inr u1 \<and> disk u1 ROOTDEV 100 = (\<lambda>_. 0) \<and>
     recover_from_log (demo_log (apply_writes (take 2 ws) (disk s))) = Inr u2 \<and> disk u2 ROOTDEV 100 = (\<lambda>_. 7)"
proof -
  let ?s = "demo_log (\<lambda>_ _ _. 0)"
  note ok = demo_log_ok [of "\<lambda>_ _ _. 0"] demo_log_inv [of "\<lambda>_ _ _. 0"]
  have lr: "lh_n demo_logrec = 0" "outstanding demo_logrec = 1" "lg_size demo_logrec = 30" "lg_start demo_logrec = 2"
    by (simp_all add: demo_logrec_def)
  have bno: "100 \<notin> ran Map.empty" "(100 :: uint) < of_nat FSSIZE" "\<not> in_log demo_logrec 100"
    by (simp_all add: FSSIZE_def in_log_def demo_logrec_def)
  obtain b s1 where s1: "bread ROOTDEV 100 ?s = Inr (b, s1)" "fsinv (Map.empty(b \<mapsto> 100)) s1" "fsstep ?s s1"
    "log s1 = log ?s" "b \<notin> dom Map.empty" "fsv s1 = fsv ?s" "b < NBUF"
    by (rule fs_bread [OF ok(4) bno(1,2)]) (simp_all add: ok(3) lr NBUF_def MAXOPBLOCKS_def)
  obtain s2 where s2: "log_write b (set_data b (\<lambda>_. 7) s1) = Inr s2" "fsinv (Map.empty(b \<mapsto> 100)) s2" "fsstep s1 s2"
    "log s2 = log_add 100 (log s1)" "fsv s2 = (fsv s1)(100 := \<lambda>_. 7)"
    by (rule fs_log_write [OF s1(2), of b 100])
      (use bno s1(4) ok(3) in \<open>simp_all add: lr LOGSIZE_def MAXOPBLOCKS_def\<close>)
  obtain s where s: "brelse b s2 = Inr s" "fsinv ((Map.empty(b \<mapsto> 100))(b := None)) s" "fsstep s2 s" "log s = log s2"
    "fsv s = fsv s2"
    by (rule fs_brelse [OF s2(2), of b 100]) simp
  have l: "log s = demo_logrec\<lparr>lh_n := 1, lh_block := (lh_block demo_logrec)(0 := 100)\<rparr>"
    using s(4) s2(4) s1(4) ok(3) by (simp add: log_add_def log_slot_def lr Let_def)
  have d: "disk s = (\<lambda>_ _ _. 0)" "fsv s 100 = (\<lambda>_. 7)"
    using s s2 s1 ok(2) by (simp_all add: wrote_def)
  have "hdr_n (disk s ROOTDEV (lg_start (log s))) = 0"
    by (simp add: d hdr_n_def get32_def)
  then obtain t ws where t: "commit s = Inr t" "writes t = writes s @ ws"
    "\<forall>b. \<not> in_log (log s) b \<longrightarrow> disk t ROOTDEV b = fsv s b"
    "\<forall>m E r. crashed TYPE(unit) (log s) (apply_writes (take m ws) (disk s)) E \<and> rebooted (log s) E (r :: logst) \<longrightarrow>
      (\<exists>u. recover_from_log r = Inr u \<and>
        (\<forall>b. \<not> in_log (log s) b \<longrightarrow> disk u ROOTDEV b =
           (if m \<le> nat (lh_n (log s)) then disk s ROOTDEV b else fsv s b)))"
    using commit_crash_atomic [of s] s(2) by (auto simp: l NBUF_def MAXOPBLOCKS_def)
  have out: "\<not> in_log (log s) 100"
    using bno(3) by (simp add: l in_log_def)
  have r: "rebooted (log s) D (demo_log D)" for D
    using demo_log_inv(2) [of D] by (simp add: l rebooted_def)
  have n: "nat (lh_n (log s)) = 1"
    by (simp add: l)
  obtain u1 u2 where u: "recover_from_log (demo_log (apply_writes (take 1 ws) (disk s))) = Inr u1"
    "disk u1 ROOTDEV 100 = disk s ROOTDEV 100"
    "recover_from_log (demo_log (apply_writes (take 2 ws) (disk s))) = Inr u2" "disk u2 ROOTDEV 100 = fsv s 100"
    using t(4) [rule_format, OF conjI [OF crashed.first r], of 1] t(4) [rule_format, OF conjI [OF crashed.first r], of 2] out
    unfolding n by auto
  show ?thesis
    using s1(1) s2(1) s(1) t(1,2) u t(3) out d
    by (intro exI [of _ b] exI [of _ s1] exI [of _ s2] exI [of _ s] exI [of _ t] exI [of _ ws] exI [of _ u1] exI [of _ u2]) simp
qed

end
