(* ===== verification/PipeProps.thy ===== *)
theory PipeProps
  imports Pipe LogAtomic
begin

text \<open>
  The handlers of pipe.c on kernel states: a write appends to the queue of the pipe and a read
  takes from its front, each as far as it gets before it returns or goes to sleep.
\<close>

section \<open>Appending and taking\<close>

lemma put_all:
  assumes "pipe_ok x" "pipe_len x + length cs \<le> PIPESIZE"
  shows "pipe_contents (fold pipe_put cs x) = pipe_contents x @ cs \<and> pipe_ok (fold pipe_put cs x) \<and>
    pipe_len (fold pipe_put cs x) = pipe_len x + length cs \<and>
    readopen (fold pipe_put cs x) = readopen x \<and> writeopen (fold pipe_put cs x) = writeopen x"
  using assms
proof (induction cs arbitrary: x)
  case (Cons c cs)
  have nf: "\<not> pipe_full x"
    using Cons.prems(2) by (simp add: pipe_full_iff)
  note p = pipe_put_ok [OF Cons.prems(1) nf, of c]
  have "readopen (pipe_put c x) = readopen x" "writeopen (pipe_put c x) = writeopen x"
    by (simp_all add: pipe_put_def)
  then show ?case
    using Cons.IH [OF p(2)] Cons.prems(2) p by simp
qed simp

lemma take_all:
  "pipe_ok x \<Longrightarrow> fst (pipe_take k x) = take k (pipe_contents x) \<and>
     pipe_contents (snd (pipe_take k x)) = drop k (pipe_contents x) \<and> pipe_ok (snd (pipe_take k x)) \<and>
     readopen (snd (pipe_take k x)) = readopen x \<and> writeopen (snd (pipe_take k x)) = writeopen x"
proof (induction k arbitrary: x)
  case (Suc k)
  show ?case
  proof (cases "pipe_empty x")
    case True
    then show ?thesis
      using Suc.prems by (simp add: pipe_empty_iff pipe_contents_def)
  next
    case False
    note g = pipe_get_ok [OF Suc.prems False]
    have "readopen (pipe_drop x) = readopen x" "writeopen (pipe_drop x) = writeopen x"
      by (simp_all add: pipe_drop_def)
    then show ?thesis
      using Suc.IH [OF g(2)] g(1) False by (simp add: split_beta)
  qed
qed simp

lemma contents_length [simp]: "length (pipe_contents x) = pipe_len x"
  by (simp add: pipe_contents_def)

section \<open>The handlers\<close>

lemma pipes_more: "ptable.more t = ptable.more s \<Longrightarrow> pipes t = pipes s"
  by (cases s; cases t) simp

lemma upd_pipe_sel [simp]:
  "ptable.truncate (upd_pipe p f s) = ptable.truncate s" "pipes (upd_pipe p f s) = (pipes s)(p := f (pipes s p))"
  "ptab (upd_pipe p f s) = ptab s" "cpus (upd_pipe p f s) = cpus s" "curcpu (upd_pipe p f s) = curcpu s"
  by (simp_all add: upd_pipe_def ptable.truncate_def)

lemma upd_pipe_upd_pipe: "upd_pipe p f (upd_pipe p g s) = upd_pipe p (\<lambda>x. f (g x)) s"
  by (simp add: upd_pipe_def)

lemma pipewrite_fill:
  assumes "pipe_ok (pipes s p)" "pipe_len (pipes s p) + k \<le> PIPESIZE"
  shows "pipewrite_loop p addr i (k + m) n s =
    pipewrite_loop p addr (i + k) m n (upd_pipe p (fold pipe_put (map addr [i..<i + k])) s)"
  using assms
proof (induction k arbitrary: i s)
  case 0
  have "upd_pipe p (\<lambda>x. x) s = s"
    by (simp add: upd_pipe_def)
  then show ?case
    by (simp add: id_def)
next
  case (Suc k)
  have nf: "\<not> pipe_full (pipes s p)"
    using Suc.prems(2) by (simp add: pipe_full_iff)
  note q = pipe_put_ok [OF Suc.prems(1) nf, of "addr i"]
  let ?s = "upd_pipe p (pipe_put (addr i)) s"
  have "pipewrite_loop p addr i (Suc k + m) n s = pipewrite_loop p addr (Suc i) (k + m) n ?s"
    using nf by simp
  also have "\<dots> = pipewrite_loop p addr (Suc i + k) m n (upd_pipe p (fold pipe_put (map addr [Suc i..<Suc i + k])) ?s)"
    using Suc.prems(2) q by (intro Suc.IH) simp_all
  also have "upd_pipe p (fold pipe_put (map addr [Suc i..<Suc i + k])) ?s =
      upd_pipe p (fold pipe_put (map addr [i..<i + Suc k])) s"
    unfolding upd_pipe_upd_pipe by (simp add: upt_conv_Cons comp_def del: upt_Suc)
  finally show ?case
    by (simp only: add_Suc add_Suc_right)
qed

text \<open>What is left of a pipe write when no more bytes fit.\<close>

lemma pipewrite_stuck:
  assumes sec: "insec (PipeLock p) b s" and me: "runs me b" and full: "pipe_full (pipes s p)"
  shows "if readopen (pipes s p) \<and> \<not> killed (ptab s me)
    then \<exists>t. pipewrite_loop p addr i (Suc k) n s = Inr (PSlept i, t) \<and> pipes t = pipes s \<and>
      state (ptab t me) = SLEEPING \<and> pchan (ptab t me) = PipeWriteAddr p \<and> lock_free (PipeLock p) t \<and>
      holding PtableLock t \<and> awake (PipeReadAddr p) t
    else \<exists>t. pipewrite_loop p addr i (Suc k) n s = Inr (PRet (- 1), t) \<and> pipes t = pipes s \<and> follows b t"
proof -
  have c: "cproc (mycpu s) = Some me"
    using sec me by (auto simp: insec_def same_machine_def runs_def mycpu_def)
  show ?thesis
  proof (cases "readopen (pipes s p) \<and> \<not> killed (ptab s me)")
    case True
    obtain u where u: "wakeup (PipeReadAddr p) s = Inr u" "insec (PipeLock p) b u" "ptable.more u = ptable.more s"
      "awake (PipeReadAddr p) u"
      by (rule insec_wakeup [OF sec]) simp
    obtain t where t: "sleep (PipeWriteAddr p) (Some (PipeLock p)) u = Inr t" "state (ptab t me) = SLEEPING"
      "pchan (ptab t me) = PipeWriteAddr p" "lock_free (PipeLock p) t" "holding PtableLock t"
      "ptable.more t = ptable.more u" "\<And>c. awake c u \<Longrightarrow> c \<noteq> PipeWriteAddr p \<Longrightarrow> awake c t"
      by (rule insec_sleep [where ch = "PipeWriteAddr p", OF u(2) _ me]) simp_all
    have "pipes t = pipes s"
      using t(6) u(3) by (intro pipes_more) simp
    then show ?thesis
      using True u t full c by (simp add: with_proc_def)
  next
    case False
    obtain t where t: "release (PipeLock p) s = Inr t" "follows b t" "ptable.more t = ptable.more s"
      by (rule insec_leave [OF sec])
    then show ?thesis
      using False full c pipes_more [OF t(3)] by (auto simp: with_proc_def)
  qed
qed

text \<open>
  C25. \<open>pipewrite\<close> of \<open>n\<close> bytes: if they fit, it appends them to the pipe, wakes the readers and
  returns \<open>n\<close>.  Otherwise it fills the pipe up; then it goes to sleep with the lock of the pipe
  given up and no reader left asleep, or, when the read end is closed or the process has been
  killed, it returns -1.  No other pipe changes.
\<close>

theorem pipewrite_result:
  fixes s :: "'a filest_scheme"
  assumes q: "quiet s" and me: "runs me s" and ok: "pipe_ok (pipes s p)" and n: "0 \<le> n"
  defines "k \<equiv> PIPESIZE - pipe_len (pipes s p)"
  shows "if nat n \<le> k then
      \<exists>t. pipewrite p addr n s = Inr (PRet n, t) \<and> quiet t \<and> awake (PipeReadAddr p) t \<and>
        pipe_contents (pipes t p) = pipe_contents (pipes s p) @ map addr [0..<nat n] \<and>
        pipe_ok (pipes t p) \<and> (\<forall>r. r \<noteq> p \<longrightarrow> pipes t r = pipes s r)
    else if readopen (pipes s p) \<and> \<not> killed (ptab s me) then
      \<exists>t. pipewrite p addr n s = Inr (PSlept k, t) \<and> awake (PipeReadAddr p) t \<and>
        state (ptab t me) = SLEEPING \<and> pchan (ptab t me) = PipeWriteAddr p \<and> lock_free (PipeLock p) t \<and>
        pipe_contents (pipes t p) = pipe_contents (pipes s p) @ map addr [0..<k] \<and>
        pipe_full (pipes t p) \<and> (\<forall>r. r \<noteq> p \<longrightarrow> pipes t r = pipes s r)
    else
      \<exists>t. pipewrite p addr n s = Inr (PRet (- 1), t) \<and> quiet t \<and>
        pipe_contents (pipes t p) = pipe_contents (pipes s p) @ map addr [0..<k] \<and>
        (\<forall>r. r \<noteq> p \<longrightarrow> pipes t r = pipes s r)"
proof -
  note e = insec_enter [OF q, of "PipeLock p"]
  let ?a = "acquired (PipeLock p) s" and ?f = "\<lambda>j. fold pipe_put (map addr [0..<j])"
  have pa: "pipes ?a = pipes s" "\<And>j. killed (ptab ?a j) = killed (ptab s j)"
    using pipes_more [OF e(3)] by simp_all
  have sec: "insec (PipeLock p) s (upd_pipe p (?f j) ?a)" for j
    by (rule insec_upper [OF e(2)]) simp
  have run: "pipewrite p addr n s = pipewrite_loop p addr j (nat n - j) n (upd_pipe p (?f j) ?a)"
    if "j \<le> nat n" "j \<le> k" for j
    using e(1) pipewrite_fill [of ?a p j addr 0 "nat n - j" n] pa(1) ok that
    by (simp add: pipewrite_def k_def pipe_ok_def)
  have f: "pipe_contents (?f j (pipes s p)) = pipe_contents (pipes s p) @ map addr [0..<j] \<and>
      pipe_ok (?f j (pipes s p)) \<and> pipe_len (?f j (pipes s p)) = pipe_len (pipes s p) + j \<and>
      readopen (?f j (pipes s p)) = readopen (pipes s p)" if "j \<le> k" for j
    using put_all [OF ok, of "map addr [0..<j]"] that ok by (simp add: k_def pipe_ok_def)
  show ?thesis
  proof (cases "nat n \<le> k")
    case True
    obtain u where u: "wakeup (PipeReadAddr p) (upd_pipe p (?f (nat n)) ?a) = Inr u" "insec (PipeLock p) s u"
      "ptable.more u = ptable.more (upd_pipe p (?f (nat n)) ?a)" "awake (PipeReadAddr p) u"
      by (rule insec_wakeup [OF sec]) simp
    obtain t where t: "release (PipeLock p) u = Inr t" "follows s t" "ptable.more t = ptable.more u" "ptab t = ptab u"
      by (rule insec_leave [OF u(2)])
    have "pipes t = pipes (upd_pipe p (?f (nat n)) ?a)"
      using t(3) u(3) by (intro pipes_more) simp
    then show ?thesis
      using True run [of "nat n"] u(1,4) t(1,2,4) f [of "nat n"] pa follows_quiet
      by (auto simp: awake_def)
  next
    case False
    let ?s = "upd_pipe p (?f k) ?a"
    have full: "pipe_full (pipes ?s p)"
      using f [of k] ok pa(1) by (simp add: pipe_full_iff k_def pipe_ok_def)
    have "Suc (nat n - k - 1) = nat n - k"
      using False by simp
    then have "pipewrite p addr n s = pipewrite_loop p addr k (Suc (nat n - k - 1)) n ?s"
      using run [of k] False by (simp only:)
    then show ?thesis
      using False pipewrite_stuck [OF sec me full, of addr k "nat n - k - 1" n] f [of k] pa full follows_quiet
      by (auto split: if_splits)
  qed
qed

text \<open>
  C26. \<open>piperead\<close> of up to \<open>n\<close> bytes: from a pipe that holds bytes, or whose write end is closed, it
  takes the first \<open>n\<close> bytes or all there are, delivers them in order, wakes the writers and
  returns their number, 0 at the end of the stream.  On an empty pipe with the write end open it
  goes to sleep with the lock of the pipe given up, or returns -1 when the process has been
  killed.  No other pipe changes.
\<close>

theorem piperead_result:
  fixes s :: "'a filest_scheme"
  assumes q: "quiet s" and me: "runs me s" and ok: "pipe_ok (pipes s p)" and n: "0 \<le> n"
  shows "if pipe_contents (pipes s p) \<noteq> [] \<or> \<not> writeopen (pipes s p) then
      \<exists>t. piperead p n s = Inr (PRet (min n (int (length (pipe_contents (pipes s p))))),
             take (nat n) (pipe_contents (pipes s p)), t) \<and> quiet t \<and> awake (PipeWriteAddr p) t \<and>
        pipe_contents (pipes t p) = drop (nat n) (pipe_contents (pipes s p)) \<and> pipe_ok (pipes t p) \<and>
        (\<forall>r. r \<noteq> p \<longrightarrow> pipes t r = pipes s r)
    else if killed (ptab s me) then
      \<exists>t. piperead p n s = Inr (PRet (- 1), [], t) \<and> quiet t \<and> pipes t = pipes s
    else
      \<exists>t. piperead p n s = Inr (PSlept 0, [], t) \<and> pipes t = pipes s \<and> state (ptab t me) = SLEEPING \<and>
        pchan (ptab t me) = PipeReadAddr p \<and> lock_free (PipeLock p) t"
proof -
  note e = insec_enter [OF q, of "PipeLock p"]
  let ?a = "acquired (PipeLock p) s" and ?x = "pipes s p"
  have pa: "pipes ?a = pipes s" "killed (ptab ?a me) = killed (ptab s me)" "cproc (mycpu ?a) = Some me"
    using pipes_more [OF e(3)] me by (simp_all add: runs_def mycpu_def)
  have em: "pipe_empty ?x \<longleftrightarrow> pipe_contents ?x = []"
    by (rule pq.empty_iff [OF ok])
  show ?thesis
  proof (cases "pipe_contents ?x \<noteq> [] \<or> \<not> writeopen ?x")
    case True
    obtain bs y where y: "pipe_take (nat n) ?x = (bs, y)"
      by fastforce
    note tk = take_all [OF ok, of "nat n", unfolded y]
    have sec: "insec (PipeLock p) s (upd_pipe p (\<lambda>_. y) ?a)"
      by (rule insec_upper [OF e(2)]) simp
    obtain u where u: "wakeup (PipeWriteAddr p) (upd_pipe p (\<lambda>_. y) ?a) = Inr u" "insec (PipeLock p) s u"
      "ptable.more u = ptable.more (upd_pipe p (\<lambda>_. y) ?a)" "awake (PipeWriteAddr p) u"
      by (rule insec_wakeup [OF sec]) simp
    obtain t where t: "release (PipeLock p) u = Inr t" "follows s t" "ptable.more t = ptable.more u" "ptab t = ptab u"
      by (rule insec_leave [OF u(2)])
    have pt: "pipes t = pipes (upd_pipe p (\<lambda>_. y) ?a)"
      using t(3) u(3) by (intro pipes_more) simp
    have "piperead p n s = Inr (PRet (int (length bs)), bs, t)"
      using e(1) True em pa(1) y u(1) t(1) by (auto simp: piperead_def piperead_wait_def)
    moreover have "int (length bs) = min n (int (length (pipe_contents ?x)))" "bs = take (nat n) (pipe_contents ?x)"
      using tk n by auto
    moreover have "awake (PipeWriteAddr p) t" "quiet t"
      using u(4) t(4) follows_quiet [OF t(2)] by (simp_all add: awake_def)
    ultimately show ?thesis
      using True tk pt pa(1) by auto
  next
    case False
    then have w: "piperead p n s = piperead_wait p n ?a" "pipe_empty (pipes ?a p)" "writeopen (pipes ?a p)"
      using e(1) em pa(1) by (auto simp: piperead_def)
    show ?thesis
    proof (cases "killed (ptab s me)")
      case True
      obtain t where t: "release (PipeLock p) ?a = Inr t" "follows s t" "ptable.more t = ptable.more ?a"
        by (rule insec_leave [OF e(2)])
      have "piperead p n s = Inr (PRet (- 1), [], t)"
        using w True pa(2,3) t(1) by (simp add: piperead_wait_def with_proc_def)
      then show ?thesis
        using False True follows_quiet [OF t(2)] pipes_more [OF t(3)] pa(1) by auto
    next
      case alive: False
      obtain t where t: "sleep (PipeReadAddr p) (Some (PipeLock p)) ?a = Inr t" "state (ptab t me) = SLEEPING"
        "pchan (ptab t me) = PipeReadAddr p" "lock_free (PipeLock p) t" "ptable.more t = ptable.more ?a"
        by (rule insec_sleep [where ch = "PipeReadAddr p", OF e(2) _ me]) simp_all
      have "piperead p n s = Inr (PSlept 0, [], t)"
        using w alive pa(2,3) t(1) by (simp add: piperead_wait_def with_proc_def)
      then show ?thesis
        using False alive t pipes_more [OF t(5)] pa(1) by auto
    qed
  qed
qed

text \<open>
  C27. Whatever the order in which bytes are put into a pipe that is not full and taken from one
  that is not empty, the bytes taken and then those still in the pipe are the bytes that were in
  it and then those put in, in order; also when the 32-bit counters wrap around.
\<close>

theorem pipe_is_fifo:
  assumes "pipe_ok x" "pq.channel_run x ws rs y"
  shows "pipe_contents x @ ws = rs @ pipe_contents y \<and> length (pipe_contents y) \<le> PIPESIZE"
  using pq.run_fifo [OF assms(2,1)] by (simp add: pipe_ok_def)

definition demo_pipe :: pipe where
  "demo_pipe = \<lparr>pdata = (\<lambda>_. 0), nread = - 1, nwrite = - 1, readopen = True, writeopen = True\<rparr>"

theorem pipe_is_fifo_witness:
  "pipe_contents demo_pipe @ [1, 2] = [pipe_byte (pipe_put 2 (pipe_put 1 demo_pipe))] @
     pipe_contents (pipe_drop (pipe_put 2 (pipe_put 1 demo_pipe)))"
proof -
  have ok: "pipe_ok demo_pipe"
    by (simp add: pipe_ok_def pipe_len_def demo_pipe_def)
  have "pq.channel_run demo_pipe ([] @ [1] @ [2]) ([] @ [pipe_byte (pipe_put 2 (pipe_put 1 demo_pipe))])
     (pipe_drop (pipe_put 2 (pipe_put 1 demo_pipe)))"
    unfolding append_assoc [symmetric]
    by (intro pq.get_step pq.put_step pq.start)
      (simp_all add: pipe_full_def pipe_empty_def pipe_put_def demo_pipe_def PIPESIZE_def)
  from pipe_is_fifo [OF ok this] show ?thesis
    by simp
qed

section \<open>Witnesses\<close>

lemma quiet_truncate: "quiet (ptable.truncate s) = quiet s"
proof -
  have "pt_inv L s = pt_inv L (ptable.truncate s)" for L
    by (rule pt_inv_cong) (simp_all add: ptable.truncate_def)
  then show ?thesis
    by (auto simp: quiet_def lock_free_def cpu_ok_def mycpu_def ptable.truncate_def)
qed

lemma runs_truncate: "runs p (ptable.truncate s) = runs p s"
  by (auto simp: runs_def pt_ready_def lock_free_def mycpu_def ptable.truncate_def cpu_ok_def)

lemma binit_runs: "runs p (binit s) = runs p s"
proof -
  let ?s = "upd_buf bhead (\<lambda>x. x\<lparr>bprev := bhead, bnext := bhead\<rparr>) (initlock BcacheLock ''bcache'' s)"
  have "ptable.truncate (binit s) = ptable.truncate (initlock BcacheLock ''bcache'' s)"
    using binit_fold [of "[0..<NBUF]" ?s undefined] by (simp add: binit_def Let_def bhead_def)
  then have "runs p (binit s) = runs p (initlock BcacheLock ''bcache'' s)"
    by (metis runs_truncate)
  also have "\<dots> = runs p s"
    by (simp add: runs_def pt_ready_def lock_free_def mycpu_def cpu_ok_def initlock_def upd_lock_def)
  finally show ?thesis .
qed

definition demo_dinode :: dinode where
  "demo_dinode = \<lparr>d_type = 0, d_major = 0, d_minor = 0, d_nlink = 0, d_uid = 0, d_gid = 0, d_mode = 0, d_size = 0,
     d_addrs = (\<lambda>_. 0)\<rparr>"

definition demo_inode :: inode where
  "demo_inode = \<lparr>i_dev = 0, i_inum = 0, i_ref = 0, i_busy = False, i_valid = False, din = demo_dinode\<rparr>"

definition demo_sb :: superblock where
  "demo_sb = \<lparr>sb_size = 2000, nblocks = 1941, ninodes = 200, nlog = 30, logstart = 2, inodestart = 32, bmapstart = 58\<rparr>"

definition demo_kfile :: kfile where
  "demo_kfile = \<lparr>ftype = FD_NONE, fref = 0, readable = False, writable = False, fpipe = 0, fip = 0, foff = 0\<rparr>"

definition demo_file :: filest where
  "demo_file = fsst.extend (logst.extend (demo_log (\<lambda>_ _ _. 0)) (fsst.fields (\<lambda>_. demo_inode) demo_sb))
     (filest.fields (\<lambda>_. demo_pipe) (\<lambda>_. demo_kfile))"

lemma demo_file_ok: "quiet demo_file" "runs 0 demo_file" "pipes demo_file = (\<lambda>_. demo_pipe)"
proof -
  have tr: "ptable.truncate demo_file = ptable.truncate (demo_log (\<lambda>_ _ _. 0))"
    by (simp add: demo_file_def fsst.extend_def logst.extend_def ptable.truncate_def)
  show "quiet demo_file"
    using demo_log_ok(1) [of "\<lambda>_ _ _. 0"] tr by (metis quiet_truncate ginv_def bio_ok_def)
  have "runs 0 (demo_log (\<lambda>_ _ _. 0))"
    unfolding demo_log_def binit_runs using demo_runs
    by (simp add: runs_def pt_ready_def lock_free_def mycpu_def cpu_ok_def bio.extend_def ptable.extend_def)
  then show "runs 0 demo_file"
    using tr by (metis runs_truncate)
  show "pipes demo_file = (\<lambda>_. demo_pipe)"
    by (simp add: demo_file_def fsst.extend_def filest.fields_def)
qed

theorem pipewrite_result_witness:
  "\<exists>t. pipewrite 4096 (\<lambda>i. of_nat i + 7) 2 demo_file = Inr (PRet 2, t) \<and> pipe_contents (pipes t 4096) = [7, 8] \<and>
     quiet t"
proof -
  have "pipe_ok demo_pipe" "pipe_len demo_pipe = 0" "pipe_contents demo_pipe = []"
    by (simp_all add: pipe_ok_def pipe_len_def demo_pipe_def pipe_contents_def)
  then show ?thesis
    using pipewrite_result [OF demo_file_ok(1,2), of 4096 2 "\<lambda>i. of_nat i + 7"]
    by (auto simp: demo_file_ok(3) PIPESIZE_def numeral_2_eq_2)
qed

theorem piperead_result_witness:
  "\<exists>t. piperead 4096 5 (upd_pipe 4096 (\<lambda>x. pipe_put 3 (pipe_put 1 x)) demo_file) = Inr (PRet 2, [1, 3], t) \<and>
     pipe_contents (pipes t 4096) = [] \<and> quiet t"
proof -
  let ?s = "upd_pipe 4096 (\<lambda>x. pipe_put 3 (pipe_put 1 x)) demo_file" and ?x = "pipe_put 3 (pipe_put 1 demo_pipe)"
  have d: "pipe_ok demo_pipe" "pipe_len demo_pipe = 0" "pipe_contents demo_pipe = []"
    by (simp_all add: pipe_ok_def pipe_len_def demo_pipe_def pipe_contents_def)
  have x: "pipe_contents ?x = [1, 3]" "pipe_ok ?x"
    using put_all [OF d(1), of "[1, 3]"] d by (simp_all add: PIPESIZE_def)
  have q: "quiet ?s" "runs 0 ?s"
    using demo_file_ok(1,2) by (metis quiet_truncate upd_pipe_sel(1), metis runs_truncate upd_pipe_sel(1))
  show ?thesis
    using piperead_result [OF q, of 4096 5] x by (auto simp: demo_file_ok(3))
qed

end
