(* ===== verification/File.thy ===== *)
theory File
  imports Pipe
begin

text \<open>
  file.c: the table of open files, and reading and writing through a file structure.  The bytes a
  read delivers are part of its result.  A read or write of a pipe may go to sleep, see \<open>piperes\<close>.
  \<open>pipealloc\<close> of pipe.c is here because it uses the file table.
\<close>

definition fileinit :: "'a filest_scheme \<Rightarrow> 'a filest_scheme" where
  "fileinit s = initlock FtableLock ''ftable'' s"

definition filealloc :: "'a filest_scheme \<Rightarrow> (nat option \<times> 'a filest_scheme) res" where
  "filealloc s =
     Rbind (acquire FtableLock s) (\<lambda>s.
     case find (\<lambda>f. fref (ftable s f) = 0) [0..<NFILE] of
       Some f \<Rightarrow> Rbind (release FtableLock (upd_file f (\<lambda>x. x\<lparr>fref := 1\<rparr>) s)) (\<lambda>s. Inr (Some f, s))
     | None \<Rightarrow> Rbind (release FtableLock s) (\<lambda>s. Inr (None, s)))"

definition filedup :: "nat \<Rightarrow> 'a filest_scheme \<Rightarrow> 'a filest_scheme res" where
  "filedup f s =
     Rbind (acquire FtableLock s) (\<lambda>s.
     if fref (ftable s f) < 1 then Inl (Panic ''filedup'')
     else release FtableLock (upd_file f (\<lambda>x. x\<lparr>fref := fref x + 1\<rparr>) s))"

definition fileclose :: "uint \<Rightarrow> nat \<Rightarrow> 'a filest_scheme \<Rightarrow> 'a filest_scheme res" where
  "fileclose kend f s =
     Rbind (acquire FtableLock s) (\<lambda>s.
     if fref (ftable s f) < 1 then Inl (Panic ''fileclose'')
     else
       let s = upd_file f (\<lambda>x. x\<lparr>fref := fref x - 1\<rparr>) s in
       if 0 < fref (ftable s f) then release FtableLock s
       else
         let ff = ftable s f in
         Rbind (release FtableLock (upd_file f (\<lambda>x. x\<lparr>fref := 0, ftype := FD_NONE\<rparr>) s)) (\<lambda>s.
         case ftype ff of
           FD_PIPE \<Rightarrow> pipeclose kend (fpipe ff) (writable ff) s
         | FD_INODE \<Rightarrow> Rbind (begin_op s) (\<lambda>s. Rbind (iput (fip ff) s) end_op)
         | FD_NONE \<Rightarrow> Inr s))"

definition filestat :: "nat \<Rightarrow> 'a filest_scheme \<Rightarrow> (stat option \<times> 'a filest_scheme) res" where
  "filestat f s =
     (let ip = fip (ftable s f) in
      if ftype (ftable s f) = FD_INODE then
        Rbind (ilock ip s) (\<lambda>s.
        let st = stati ip s in
        Rbind (iunlock ip s) (\<lambda>s. Inr (Some st, s)))
      else Inr (None, s))"

definition fileread :: "(nat \<Rightarrow> 'a filest_scheme devsw) \<Rightarrow> nat \<Rightarrow> uint \<Rightarrow> 'a filest_scheme \<Rightarrow>
    (piperes \<times> uchar list \<times> 'a filest_scheme) res" where
  "fileread dv f n s =
     (let x = ftable s f in
      if \<not> readable x then Inr (PRet (- 1), [], s)
      else
        (case ftype x of
           FD_PIPE \<Rightarrow> piperead (fpipe x) (sint n) s
         | FD_INODE \<Rightarrow>
             Rbind (ilock (fip x) s) (\<lambda>s.
             Rbind (readi dv (fip x) (foff x) n s) (\<lambda>(r, bs, s).
             let s = (if 0 < r then upd_file f (\<lambda>x. x\<lparr>foff := foff x + of_int r\<rparr>) s else s) in
             Rbind (iunlock (fip x) s) (\<lambda>s. Inr (PRet r, bs, s))))
         | FD_NONE \<Rightarrow> Inl (Panic ''fileread'')))"

definition filewrite_max :: nat where
  "filewrite_max = (LOGSIZE - 1 - 1 - 2) div 2 * 512"

text \<open>The loop of \<open>filewrite\<close> over \<open>k\<close> bytes: whether all of them were written.\<close>

function filewrite_loop :: "(nat \<Rightarrow> 'a filest_scheme devsw) \<Rightarrow> nat \<Rightarrow> cbuf \<Rightarrow> nat \<Rightarrow> 'a filest_scheme \<Rightarrow>
    (bool \<times> 'a filest_scheme) res" where
  "filewrite_loop dv f addr k s =
     (if k = 0 then Inr (True, s)
      else
        let n1 = min k filewrite_max; ip = fip (ftable s f) in
        Rbind (begin_op s) (\<lambda>s.
        Rbind (ilock ip s) (\<lambda>s.
        Rbind (writei dv ip addr (foff (ftable s f)) (of_nat n1) s) (\<lambda>(r, s).
        let s = (if 0 < r then upd_file f (\<lambda>x. x\<lparr>foff := foff x + of_int r\<rparr>) s else s) in
        Rbind (iunlock ip s) (\<lambda>s.
        Rbind (end_op s) (\<lambda>s.
        if r < 0 then Inr (False, s)
        else if r \<noteq> int n1 then Inl (Panic ''short filewrite'')
        else filewrite_loop dv f (\<lambda>i. addr (i + n1)) (k - n1) s))))))"
  by pat_completeness auto
termination
  by (relation "measure (\<lambda>(dv, f, addr, k, s). k)") (auto simp: filewrite_max_def LOGSIZE_def MAXOPBLOCKS_def)

declare filewrite_loop.simps [simp del]

definition filewrite :: "(nat \<Rightarrow> 'a filest_scheme devsw) \<Rightarrow> nat \<Rightarrow> cbuf \<Rightarrow> int \<Rightarrow> 'a filest_scheme \<Rightarrow>
    (piperes \<times> 'a filest_scheme) res" where
  "filewrite dv f addr n s =
     (let x = ftable s f in
      if \<not> writable x then Inr (PRet (- 1), s)
      else
        (case ftype x of
           FD_PIPE \<Rightarrow> pipewrite (fpipe x) addr n s
         | FD_INODE \<Rightarrow>
             if n < 0 then Inr (PRet (- 1), s)
             else
               Rbind (filewrite_loop dv f addr (nat n) s) (\<lambda>(ok, s).
               Inr (PRet (if ok then n else - 1), s))
         | FD_NONE \<Rightarrow> Inl (Panic ''filewrite'')))"

definition close_opt :: "uint \<Rightarrow> nat option \<Rightarrow> 'a filest_scheme \<Rightarrow> 'a filest_scheme res" where
  "close_opt kend f s = (case f of None \<Rightarrow> Inr s | Some f \<Rightarrow> fileclose kend f s)"

definition pipe_files :: "uint \<Rightarrow> nat \<Rightarrow> nat \<Rightarrow> 'a filest_scheme \<Rightarrow> 'a filest_scheme" where
  "pipe_files p f0 f1 s =
     upd_file f1 (\<lambda>x. x\<lparr>ftype := FD_PIPE, readable := False, writable := True, fpipe := p\<rparr>)
       (upd_file f0 (\<lambda>x. x\<lparr>ftype := FD_PIPE, readable := True, writable := False, fpipe := p\<rparr>) s)"

definition pipealloc :: "uint \<Rightarrow> 'a filest_scheme \<Rightarrow> ((nat \<times> nat) option \<times> 'a filest_scheme) res" where
  "pipealloc kend s =
     Rbind (filealloc s) (\<lambda>(f0, s).
     case f0 of
       None \<Rightarrow> Inr (None, s)
     | Some f0' \<Rightarrow>
         Rbind (filealloc s) (\<lambda>(f1, s).
         case f1 of
           None \<Rightarrow> Rbind (close_opt kend f0 s) (\<lambda>s. Inr (None, s))
         | Some f1' \<Rightarrow>
             Rbind (kalloc s) (\<lambda>(p, s).
             if p = 0 then
               Rbind (close_opt kend f0 s) (\<lambda>s. Rbind (close_opt kend f1 s) (\<lambda>s. Inr (None, s)))
             else
               Inr (Some (f0', f1'), pipe_files p f0' f1' (initlock (PipeLock p) ''pipe'' (upd_pipe p pipe_init s))))))"

end
