(* ===== verification/Console.thy ===== *)
theory Console
  imports File
begin

text \<open>
  console.c: formatted printing, the text screen, and line-buffered input.  The serial port is the
  list of bytes sent to it; the cursor registers of the CGA controller are a field of the state.
  After a panic a CPU that prints spins forever, which is the result \<open>Diverge\<close>.  The arguments of
  \<open>cprintf\<close> are a list; fetching one of the other kind is a fault.
\<close>

record kern = filest +
  umem :: "uint \<Rightarrow> mem"        \<comment> \<open>the user memory that a page directory maps\<close>
  cons_locking :: bool
  panicked :: bool
  uart :: "uchar list"
  crt :: "nat \<Rightarrow> ushort"
  cga_pos :: int
  in_buf :: cbuf
  in_r :: uint
  in_w :: uint
  in_e :: uint
  first_ret :: bool            \<comment> \<open>\<open>first\<close> of \<open>forkret\<close>\<close>
  kbd_shift :: uint            \<comment> \<open>\<open>shift\<close> of \<open>kbdgetc\<close>\<close>

section \<open>Output\<close>

definition BACKSPACE :: nat where "BACKSPACE = 256"

definition cga_scroll :: "int \<Rightarrow> (nat \<Rightarrow> ushort) \<Rightarrow> nat \<Rightarrow> ushort" where
  "cga_scroll pos m =
     (\<lambda>i. if nat pos \<le> i \<and> i < 24 * 80 then 0 else if i < 23 * 80 then m (i + 80) else m i)"

definition cgaputc :: "nat \<Rightarrow> 'a kern_scheme \<Rightarrow> 'a kern_scheme res" where
  "cgaputc c s =
     (let pos = cga_pos s;
          (pos, m) = (if c = 10 then (pos + (80 - pos mod 80), crt s)
                      else if c = BACKSPACE then (if 0 < pos then pos - 1 else pos, crt s)
                      else (pos + 1, (crt s)(nat pos := (of_nat c AND 0xff) OR 0x0700)))
      in if pos < 0 \<or> 25 * 80 < pos then Inl (Panic ''pos under/overflow'')
         else
           let (pos, m) = (if 24 \<le> pos div 80 then (pos - 80, cga_scroll (pos - 80) m) else (pos, m))
           in Inr (s\<lparr>cga_pos := pos, crt := m(nat pos := 0x0720)\<rparr>))"

definition consputc :: "nat \<Rightarrow> 'a kern_scheme \<Rightarrow> 'a kern_scheme res" where
  "consputc c s =
     (if panicked s then Inl Diverge
      else cgaputc c (s\<lparr>uart := uart s @ (if c = BACKSPACE then [8, 32, 8] else [of_nat c])\<rparr>))"

fun consputs :: "string \<Rightarrow> 'a kern_scheme \<Rightarrow> 'a kern_scheme res" where
  "consputs [] s = Inr s"
| "consputs (c # cs) s = Rbind (consputc (of_char c) s) (consputs cs)"

text \<open>The digits of a number, most significant first; the first argument bounds their number.\<close>

fun kdigits :: "nat \<Rightarrow> uint \<Rightarrow> uint \<Rightarrow> string" where
  "kdigits 0 x base = []"
| "kdigits (Suc k) x base =
     (let d = ''0123456789abcdef'' ! unat (x mod base) in
      if x div base = 0 then [d] else kdigits k (x div base) base @ [d])"

definition kprintint :: "uint \<Rightarrow> uint \<Rightarrow> bool \<Rightarrow> string" where
  "kprintint xx base sign =
     (if sign \<and> sint xx < 0 then CHR ''-'' # kdigits 32 (- xx) base else kdigits 32 xx base)"

datatype carg = AInt uint | AStr "string option"

fun cprintf_text :: "string \<Rightarrow> carg list \<Rightarrow> string option" where
  "cprintf_text [] as = Some []"
| "cprintf_text (c # fmt) as =
     (if c \<noteq> CHR ''%'' then map_option (\<lambda>t. c # t) (cprintf_text fmt as)
      else
        (case fmt of
           [] \<Rightarrow> Some []
         | c' # fmt' \<Rightarrow>
             if c' = CHR ''d'' then
               (case as of AInt x # as' \<Rightarrow> map_option (\<lambda>t. kprintint x 10 True @ t) (cprintf_text fmt' as') | _ \<Rightarrow> None)
             else if c' = CHR ''x'' \<or> c' = CHR ''p'' then
               (case as of AInt x # as' \<Rightarrow> map_option (\<lambda>t. kprintint x 16 False @ t) (cprintf_text fmt' as') | _ \<Rightarrow> None)
             else if c' = CHR ''s'' then
               (case as of
                  AStr r # as' \<Rightarrow>
                    map_option (\<lambda>t. (case r of None \<Rightarrow> ''(null)'' | Some str \<Rightarrow> str) @ t) (cprintf_text fmt' as')
                | _ \<Rightarrow> None)
             else if c' = CHR ''%'' then map_option (\<lambda>t. CHR ''%'' # t) (cprintf_text fmt' as)
             else map_option (\<lambda>t. CHR ''%'' # c' # t) (cprintf_text fmt' as)))"

definition cprintf :: "string \<Rightarrow> carg list \<Rightarrow> 'a kern_scheme \<Rightarrow> 'a kern_scheme res" where
  "cprintf fmt as s =
     (let locking = cons_locking s in
      Rbind (if locking then acquire ConsLock s else Inr s) (\<lambda>s.
      Rbind (case cprintf_text fmt as of None \<Rightarrow> Inl Fault | Some t \<Rightarrow> consputs t s) (\<lambda>s.
      if locking then release ConsLock s else Inr s)))"

text \<open>\<open>iinit\<close> of fs.c, which prints the superblock it has read.\<close>

definition iinit :: "uint \<Rightarrow> 'a kern_scheme \<Rightarrow> 'a kern_scheme res" where
  "iinit dev s =
     Rbind (readsb dev (initlock IcacheLock ''icache'' s)) (\<lambda>(sb, s).
     cprintf ''sb: size %d nblocks %d ninodes %d nlog %d logstart %d inodestart %d bmap start %d\<newline>''
       [AInt (sb_size sb), AInt (nblocks sb), AInt (ninodes sb), AInt (nlog sb), AInt (logstart sb),
        AInt (inodestart sb), AInt (bmapstart sb)] (s\<lparr>fsb := sb\<rparr>))"

text \<open>What \<open>panic\<close> prints before it stops the machine; \<open>pcs\<close> are the return addresses it finds.\<close>

definition panic_print :: "string \<Rightarrow> uint list \<Rightarrow> 'a kern_scheme \<Rightarrow> 'a kern_scheme res" where
  "panic_print msg pcs s =
     (let s = upd_cpu (\<lambda>c. c\<lparr>eflags_IF := False\<rparr>) (s\<lparr>cons_locking := False\<rparr>) in
      Rbind (cprintf ''cpu%d: panic: '' [AInt (of_nat (curcpu s))] s) (\<lambda>s.
      Rbind (cprintf msg [] s) (\<lambda>s.
      Rbind (cprintf ''\<newline>'' [] s) (\<lambda>s.
      Rbind (fold (\<lambda>pc r. Rbind r (cprintf '' %p'' [AInt pc])) pcs (Inr s)) (\<lambda>s.
      Inr (s\<lparr>panicked := True\<rparr>))))))"

definition consolewrite :: "nat \<Rightarrow> cbuf \<Rightarrow> uint \<Rightarrow> 'a kern_scheme \<Rightarrow> (int \<times> 'a kern_scheme) res" where
  "consolewrite ip buf n s =
     Rbind (iunlock ip s) (\<lambda>s.
     Rbind (acquire ConsLock s) (\<lambda>s.
     Rbind (fold (\<lambda>i r. Rbind r (consputc (unat (buf i)))) [0..<nat (sint n)] (Inr s)) (\<lambda>s.
     Rbind (release ConsLock s) (\<lambda>s.
     Rbind (ilock ip s) (\<lambda>s. Inr (sint n, s))))))"

section \<open>Input\<close>

definition INPUT_BUF :: nat where "INPUT_BUF = 128"

definition ctl :: "char \<Rightarrow> nat" where
  "ctl c = of_char c - 64"

fun kill_line :: "nat \<Rightarrow> 'a kern_scheme \<Rightarrow> 'a kern_scheme res" where
  "kill_line 0 s = Inl Diverge"
| "kill_line (Suc k) s =
     (if in_e s \<noteq> in_w s \<and> in_buf s (unat (in_e s - 1) mod INPUT_BUF) \<noteq> 10
      then Rbind (consputc BACKSPACE (s\<lparr>in_e := in_e s - 1\<rparr>)) (kill_line k)
      else Inr s)"

record dumps =
  doprocdump :: bool
  doctrlr :: bool
  doctrlf :: bool
  doctrls :: bool
  doctrlz :: bool

definition cons_default :: "nat \<Rightarrow> 'a kern_scheme \<Rightarrow> 'a kern_scheme res" where
  "cons_default c s =
     (if c \<noteq> 0 \<and> in_e s - in_r s < of_nat INPUT_BUF then
        let c = (if c = 13 then 10 else c);
            s = s\<lparr>in_buf := (in_buf s)(unat (in_e s) mod INPUT_BUF := of_nat c), in_e := in_e s + 1\<rparr> in
        Rbind (consputc c s) (\<lambda>s.
        if c = 10 \<or> c = ctl CHR ''D'' \<or> in_e s = in_r s + of_nat INPUT_BUF
        then wakeup InputAddr (s\<lparr>in_w := in_e s\<rparr>)
        else Inr s)
      else Inr s)"

definition cons_char :: "nat \<Rightarrow> dumps \<times> 'a kern_scheme \<Rightarrow> (dumps \<times> 'a kern_scheme) res" where
  "cons_char c = (\<lambda>(d, s).
     if c = ctl CHR ''P'' then Inr (d\<lparr>doprocdump := True\<rparr>, s)
     else if c = ctl CHR ''U'' then Rbind (kill_line (INPUT_BUF + 1) s) (\<lambda>s. Inr (d, s))
     else if c = ctl CHR ''H'' \<or> c = 127 then
       if in_e s \<noteq> in_w s then Rbind (consputc BACKSPACE (s\<lparr>in_e := in_e s - 1\<rparr>)) (\<lambda>s. Inr (d, s))
       else Inr (d, s)
     else if c = ctl CHR ''R'' then Inr (d\<lparr>doctrlr := True\<rparr>, s)
     else if c = ctl CHR ''F'' then Inr (d\<lparr>doctrlf := True\<rparr>, s)
     else if c = ctl CHR ''S'' then Inr (d\<lparr>doctrls := True\<rparr>, s)
     else if c = ctl CHR ''Z'' then Inr (d\<lparr>doctrlz := True\<rparr>, s)
     else Rbind (cons_default c s) (\<lambda>s. Inr (d, s)))"

text \<open>The loop over the characters that \<open>getc\<close> delivers before it returns a negative number.\<close>

fun cons_chars :: "nat list \<Rightarrow> dumps \<times> 'a kern_scheme \<Rightarrow> (dumps \<times> 'a kern_scheme) res" where
  "cons_chars [] ds = Inr ds"
| "cons_chars (c # cs) ds = Rbind (cons_char c ds) (cons_chars cs)"

text \<open>\<open>consoleread\<close>: the bytes, or that it went to sleep after those it has.\<close>

fun console_copy :: "nat \<Rightarrow> bool \<Rightarrow> uchar list \<Rightarrow> 'a kern_scheme \<Rightarrow> (bool \<times> uchar list \<times> 'a kern_scheme)" where
  "console_copy 0 started acc s = (True, acc, s)"
| "console_copy (Suc k) started acc s =
     (if in_r s = in_w s then (False, acc, s)
      else
        let c = in_buf s (unat (in_r s) mod INPUT_BUF); s' = s\<lparr>in_r := in_r s + 1\<rparr> in
        if unat c = ctl CHR ''D'' then (True, acc, if started then s else s')
        else if c = 10 then (True, acc @ [c], s')
        else console_copy k True (acc @ [c]) s')"

definition consoleread_from :: "nat \<Rightarrow> uchar list \<Rightarrow> uint \<Rightarrow> 'a kern_scheme \<Rightarrow> (piperes \<times> uchar list \<times> 'a kern_scheme) res" where
  "consoleread_from ip acc n s =
     (case console_copy (nat (sint n) - length acc) (acc \<noteq> []) acc s of
        (True, bs, s) \<Rightarrow>
          Rbind (release ConsLock s) (\<lambda>s.
          Rbind (ilock ip s) (\<lambda>s. Inr (PRet (int (length bs)), bs, s)))
      | (False, bs, s) \<Rightarrow>
          with_proc (\<lambda>me s.
            if killed (ptab s me) then
              Rbind (release ConsLock s) (\<lambda>s.
              Rbind (ilock ip s) (\<lambda>s. Inr (PRet (- 1), bs, s)))
            else Rbind (sleep InputAddr (Some ConsLock) s) (\<lambda>s. Inr (PSlept (length bs), bs, s))) s)"

definition consoleread :: "nat \<Rightarrow> uint \<Rightarrow> 'a kern_scheme \<Rightarrow> (piperes \<times> uchar list \<times> 'a kern_scheme) res" where
  "consoleread ip n s =
     Rbind (iunlock ip s) (\<lambda>s. Rbind (acquire ConsLock s) (consoleread_from ip [] n))"

definition consoleread_resume :: "nat \<Rightarrow> uchar list \<Rightarrow> uint \<Rightarrow> bool \<Rightarrow> 'a kern_scheme \<Rightarrow> (piperes \<times> uchar list \<times> 'a kern_scheme) res" where
  "consoleread_resume ip acc n ie s = Rbind (sleep_resume ie (Some ConsLock) s) (consoleread_from ip acc n)"

text \<open>The device table as \<open>consoleinit\<close> leaves it; a read that has to wait is \<open>Sleeps\<close> there.\<close>

definition devtab :: "nat \<Rightarrow> 'a kern_scheme devsw" where
  "devtab mj =
     (if mj = 1 then
        \<lparr>dev_read = Some (\<lambda>ip n s. Rbind (consoleread ip n s) (\<lambda>(r, bs, s).
           case r of PRet k \<Rightarrow> Inr (k, bs, s) | PSlept _ \<Rightarrow> Inl (Sleeps InputAddr))),
         dev_write = Some consolewrite\<rparr>
      else \<lparr>dev_read = None, dev_write = None\<rparr>)"

definition consoleinit :: "'a kern_scheme \<Rightarrow> 'a kern_scheme" where
  "consoleinit s = (initlock ConsLock ''console'' s)\<lparr>cons_locking := True\<rparr>"

end
