(* ===== verification/ProcShow.thy ===== *)
theory ProcShow
  imports Console UserLib
begin

text \<open>
  The views of the process table: \<open>procdump\<close> and the control-key listings of proc.c, the system
  call back end \<open>getprocs\<close>, and the console interrupt that triggers the listings.  The return
  addresses that \<open>procdump\<close> finds on the kernel stack of a sleeper are its argument \<open>pcs\<close>.
\<close>

fun states :: "procstate \<Rightarrow> string" where
  "states UNUSED = ''unused''"
| "states EMBRYO = ''embryo''"
| "states SLEEPING = ''sleep ''"
| "states RUNNABLE = ''runble''"
| "states RUNNING = ''run   ''"
| "states ZOMBIE = ''zombie''"

text \<open>The parent's pid, with the first process its own parent; a null parent is followed.\<close>

definition ppid_of :: "nat \<Rightarrow> 'a ptable_scheme \<Rightarrow> uint res" where
  "ppid_of p s =
     (if pid (ptab s p) = 1 then Inr 1
      else (case parent (ptab s p) of None \<Rightarrow> Inl Fault | Some q \<Rightarrow> Inr (pid (ptab s q))))"

definition show_ticks :: "uint \<Rightarrow> carg list" where
  "show_ticks diff =
     (let whole = diff div 1000; ten = (diff - whole * 1000) div 100;
          hundred = (diff - whole * 1000 - ten * 100) div 10;
          thousand = diff - whole * 1000 - ten * 100 - hundred * 10
      in [AInt whole, AInt ten, AInt hundred, AInt thousand])"

fun cprint_pcs :: "uint list \<Rightarrow> 'a kern_scheme \<Rightarrow> 'a kern_scheme res" where
  "cprint_pcs [] s = Inr s"
| "cprint_pcs (pc # pcs) s = (if pc = 0 then Inr s else Rbind (cprintf '' %p'' [AInt pc] s) (cprint_pcs pcs))"

definition tabs :: "string list \<Rightarrow> string" where
  "tabs ws = concat (map (\<lambda>w. w @ [CHR 0x09]) ws)"

definition procdump1 :: "(nat \<Rightarrow> uint list) \<Rightarrow> nat \<Rightarrow> 'a kern_scheme \<Rightarrow> 'a kern_scheme res" where
  "procdump1 pcs p s =
     (let x = ptab s p in
      if state x = UNUSED then Inr s
      else
        Rbind (ppid_of p s) (\<lambda>ppid.
        Rbind (cprintf (tabs [''%d'', ''%s'', ''%d'', ''%d'', ''%d'', ''%d'']) [AInt (pid x), AStr (Some (pname x)), AInt (uid x), AInt (gid x),
          AInt ppid, AInt (of_int (prio x))] s) (\<lambda>s.
        Rbind (cprintf (tabs [''%d.%d%d%d'']) (show_ticks (ticks s - start_ticks x)) s) (\<lambda>s.
        Rbind (cprintf (tabs [''%d.%d%d%d'', ''%s'', ''%d''])
          (show_ticks (cpu_ticks_total x) @ [AStr (Some (states (state x))), AInt (sz x)]) s) (\<lambda>s.
        Rbind (if state x = SLEEPING then cprint_pcs (pcs p) s else Inr s) (cprintf ''\<newline>'' []))))))"

fun procdump_loop :: "(nat \<Rightarrow> uint list) \<Rightarrow> nat list \<Rightarrow> 'a kern_scheme \<Rightarrow> 'a kern_scheme res" where
  "procdump_loop pcs [] s = Inr s"
| "procdump_loop pcs (p # ps) s = Rbind (procdump1 pcs p s) (procdump_loop pcs ps)"

definition procdump :: "(nat \<Rightarrow> uint list) \<Rightarrow> 'a kern_scheme \<Rightarrow> 'a kern_scheme res" where
  "procdump pcs s =
     Rbind (cprintf ''\<newline>'' [] s) (\<lambda>s.
     Rbind (cprintf (tabs [''PID'', ''Name'', ''UID'', ''GID'', ''PPID'', ''Prio'', ''Elapsed'', ''CPU'', ''State'', ''Size''] @ ''PCs\<newline>'') [] s)
       (procdump_loop pcs [0..<NPROC]))"

section \<open>getprocs\<close>

record uproc =
  up_pid :: uint
  up_uid :: uint
  up_gid :: uint
  up_ppid :: uint
  up_elapsed_ticks :: uint
  up_CPU_total_ticks :: uint
  up_state :: string
  up_size :: uint
  up_name :: string
  up_priority :: uint

definition STRMAX :: nat where "STRMAX = 32"
definition UPROC_SIZE :: nat where "UPROC_SIZE = 96"

definition within :: "nat \<Rightarrow> (cbuf \<Rightarrow> cbuf) \<Rightarrow> cbuf \<Rightarrow> cbuf" where
  "within off f d = (\<lambda>i. if i < off then d i else f (\<lambda>j. d (off + j)) (i - off))"

definition put_uproc :: "nat \<Rightarrow> uproc \<Rightarrow> cbuf \<Rightarrow> cbuf" where
  "put_uproc a u d =
     (let str = (\<lambda>t b. safestrcpy b (cstr (map byte_of_char t)) (int STRMAX));
          d = put32 a (up_pid u) d; d = put32 (a + 4) (up_uid u) d; d = put32 (a + 8) (up_gid u) d;
          d = put32 (a + 12) (up_ppid u) d; d = put32 (a + 16) (up_elapsed_ticks u) d;
          d = put32 (a + 20) (up_CPU_total_ticks u) d; d = put32 (a + 56) (up_size u) d;
          d = put32 (a + 92) (up_priority u) d; d = within (a + 60) (str (up_name u)) d
      in within (a + 24) (str (up_state u)) d)"

fun state_name :: "procstate \<Rightarrow> string" where
  "state_name RUNNABLE = ''RUNNABLE''"
| "state_name RUNNING = ''RUNNING''"
| "state_name SLEEPING = ''SLEEPING''"
| "state_name ZOMBIE = ''ZOMBIE''"
| "state_name UNUSED = ''''"
| "state_name EMBRYO = ''''"

definition uproc_of :: "nat \<Rightarrow> 'a ptable_scheme \<Rightarrow> uproc res" where
  "uproc_of p s =
     (let x = ptab s p in
      Rbind (ppid_of p s) (\<lambda>pp.
      Inr \<lparr>up_pid = pid x, up_uid = uid x, up_gid = gid x, up_ppid = pp,
           up_elapsed_ticks = ticks s - start_ticks x, up_CPU_total_ticks = cpu_ticks_total x,
           up_state = state_name (state x), up_size = sz x, up_name = pname x,
           up_priority = of_int (prio x)\<rparr>))"

text \<open>The entries in table order, at most as many as the caller has room for.\<close>

fun getprocs_loop :: "nat \<Rightarrow> nat list \<Rightarrow> 'a ptable_scheme \<Rightarrow> uproc list res" where
  "getprocs_loop k [] s = Inr []"
| "getprocs_loop 0 (p # ps) s = Inr []"
| "getprocs_loop (Suc k) (p # ps) s =
     (if state (ptab s p) \<noteq> UNUSED \<and> state (ptab s p) \<noteq> EMBRYO
      then Rbind (uproc_of p s) (\<lambda>u. Rbind (getprocs_loop k ps s) (\<lambda>us. Inr (u # us)))
      else getprocs_loop (Suc k) ps s)"

fun put_uprocs :: "nat \<Rightarrow> uproc list \<Rightarrow> cbuf \<Rightarrow> cbuf" where
  "put_uprocs i [] d = d"
| "put_uprocs i (u # us) d = put_uprocs (Suc i) us (put_uproc (UPROC_SIZE * i) u d)"

text \<open>The result, the contents of the caller's table, and the state.\<close>

definition getprocs :: "int \<Rightarrow> cbuf \<Rightarrow> 'a ptable_scheme \<Rightarrow> (int \<times> cbuf \<times> 'a ptable_scheme) res" where
  "getprocs mx tab s =
     Rbind (acquire PtableLock s) (\<lambda>s.
     Rbind (getprocs_loop (nat mx) [0..<NPROC] s) (\<lambda>us.
     Rbind (release PtableLock s) (\<lambda>s. Inr (int (length us), put_uprocs 0 us tab, s))))"

section \<open>Control keys\<close>

text \<open>The walks down a list; their fuel is the size of the table.\<close>

fun ctrlr_walk :: "nat \<Rightarrow> nat \<Rightarrow> 'a kern_scheme \<Rightarrow> 'a kern_scheme res" where
  "ctrlr_walk 0 p s = Inl Diverge"
| "ctrlr_walk (Suc k) p s =
     (case pnext (ptab s p) of
        Some q \<Rightarrow> Rbind (cprintf ''(%d, %d) -> '' [AInt (pid (ptab s p)), AInt (budget (ptab s p))] s) (ctrlr_walk k q)
      | None \<Rightarrow> cprintf ''(%d, %d)\<newline>\<newline>'' [AInt (pid (ptab s p)), AInt (budget (ptab s p))] s)"

fun ctrlr_lists :: "int list \<Rightarrow> 'a kern_scheme \<Rightarrow> 'a kern_scheme res" where
  "ctrlr_lists [] s = Inr s"
| "ctrlr_lists (i # is) s =
     (let cur = pLists s (PReady i) in
      Rbind (cprintf ''%d: '' [AInt (of_int i)] s) (\<lambda>s.
      Rbind (case cur of None \<Rightarrow> cprintf ''Empty\<newline>\<newline>'' [] s | Some p \<Rightarrow> ctrlr_walk NPROC p s) (ctrlr_lists is)))"

definition ctrlr :: "'a kern_scheme \<Rightarrow> 'a kern_scheme res" where
  "ctrlr s =
     Rbind (acquire PtableLock s) (\<lambda>s.
     Rbind (cprintf ''Ready List Processes:\<newline>'' [] s) (\<lambda>s.
     Rbind (ctrlr_lists [0..MAXP] s) (release PtableLock)))"

fun ctrlf_count :: "nat \<Rightarrow> nat ptr \<Rightarrow> 'a ptable_scheme \<Rightarrow> nat res" where
  "ctrlf_count k None s = Inr 0"
| "ctrlf_count 0 (Some p) s = Inl Diverge"
| "ctrlf_count (Suc k) (Some p) s = Rbind (ctrlf_count k (pnext (ptab s p)) s) (\<lambda>n. Inr (Suc n))"

definition ctrlf :: "'a kern_scheme \<Rightarrow> 'a kern_scheme res" where
  "ctrlf s =
     Rbind (acquire PtableLock s) (\<lambda>s.
     Rbind (ctrlf_count NPROC (pLists s PFree) s) (\<lambda>n.
     Rbind (cprintf ''Free List Size: %d processes\<newline>'' [AInt (of_nat n)] s) (release PtableLock)))"

fun ctrls_walk :: "nat \<Rightarrow> nat \<Rightarrow> 'a kern_scheme \<Rightarrow> 'a kern_scheme res" where
  "ctrls_walk 0 p s = Inl Diverge"
| "ctrls_walk (Suc k) p s =
     (case pnext (ptab s p) of
        Some q \<Rightarrow> Rbind (cprintf ''%d -> '' [AInt (pid (ptab s p))] s) (ctrls_walk k q)
      | None \<Rightarrow> cprintf ''%d\<newline>'' [AInt (pid (ptab s p))] s)"

definition ctrls :: "'a kern_scheme \<Rightarrow> 'a kern_scheme res" where
  "ctrls s =
     Rbind (acquire PtableLock s) (\<lambda>s.
     let cur = pLists s PSleep in
     Rbind (cprintf ''Sleep List Processes:\<newline>'' [] s) (\<lambda>s.
     Rbind (case cur of None \<Rightarrow> cprintf ''Empty\<newline>'' [] s | Some p \<Rightarrow> ctrls_walk NPROC p s) (release PtableLock)))"

fun ctrlz_walk :: "nat \<Rightarrow> nat \<Rightarrow> 'a kern_scheme \<Rightarrow> 'a kern_scheme res" where
  "ctrlz_walk 0 p s = Inl Diverge"
| "ctrlz_walk (Suc k) p s =
     Rbind (ppid_of p s) (\<lambda>pp.
     case pnext (ptab s p) of
       Some q \<Rightarrow> Rbind (cprintf ''(%d, %d) -> '' [AInt (pid (ptab s p)), AInt pp] s) (ctrlz_walk k q)
     | None \<Rightarrow> cprintf ''(%d, %d)\<newline>'' [AInt (pid (ptab s p)), AInt pp] s)"

definition ctrlz :: "'a kern_scheme \<Rightarrow> 'a kern_scheme res" where
  "ctrlz s =
     Rbind (acquire PtableLock s) (\<lambda>s.
     let cur = pLists s PZombie in
     Rbind (cprintf ''Zombie List Processes:\<newline>'' [] s) (\<lambda>s.
     Rbind (case cur of None \<Rightarrow> cprintf ''Empty\<newline>'' [] s | Some p \<Rightarrow> ctrlz_walk NPROC p s) (release PtableLock)))"

definition consoleintr :: "(nat \<Rightarrow> uint list) \<Rightarrow> nat list \<Rightarrow> 'a kern_scheme \<Rightarrow> 'a kern_scheme res" where
  "consoleintr pcs cs s =
     Rbind (acquire ConsLock s) (\<lambda>s.
     Rbind (cons_chars cs (\<lparr>doprocdump = False, doctrlr = False, doctrlf = False, doctrls = False, doctrlz = False\<rparr>, s)) (\<lambda>(d, s).
     Rbind (release ConsLock s) (\<lambda>s.
     Rbind (if doprocdump d then procdump pcs s else Inr s) (\<lambda>s.
     Rbind (if doctrlr d then ctrlr s else Inr s) (\<lambda>s.
     Rbind (if doctrlf d then ctrlf s else Inr s) (\<lambda>s.
     Rbind (if doctrls d then ctrls s else Inr s) (\<lambda>s.
     if doctrlz d then ctrlz s else Inr s)))))))"

end
