(* ===== verification/FsTx.thy ===== *)
theory FsTx
  imports FsDir LogAtomic
begin

text \<open>
  The laws of the layers below fs.c in the form its proofs use them: locking and unlocking an
  inode in a quiet state, and reading, changing and releasing the blocks of a transaction that
  has room for \<open>k\<close> more blocks in the log.
\<close>

section \<open>Inode locks\<close>

lemma upd_inode_sel [simp]:
  "ptable.truncate (upd_inode ip f s) = ptable.truncate s" "bio.truncate (upd_inode ip f s) = bio.truncate s"
  "icache (upd_inode ip f s) = (icache s)(ip := f (icache s ip))" "fsb (upd_inode ip f s) = fsb s"
  "log (upd_inode ip f s) = log s" "fsst.more (upd_inode ip f s) = fsst.more s"
  "bcache (upd_inode ip f s) = bcache s" "disk (upd_inode ip f s) = disk s" "ptab (upd_inode ip f s) = ptab s"
  "writes (upd_inode ip f s) = writes s" "idequeue (upd_inode ip f s) = idequeue s"
  "havedisk1 (upd_inode ip f s) = havedisk1 s" "ide_err (upd_inode ip f s) = ide_err s"
  by (simp_all add: upd_inode_def ptable.truncate_def bio.truncate_def)

lemma runs_follows: "follows s t \<Longrightarrow> runs p s \<Longrightarrow> runs p t"
  by (auto simp: follows_def quiet_def runs_def pt_ready_def cpu_sim_def tab_sim_def mycpu_def)

lemma more_upd_inode:
  "ptable.more t = ptable.more s \<Longrightarrow> ptable.more (upd_inode ip f t) = ptable.more (upd_inode ip f s)"
  by (cases t; cases s; simp add: upd_inode_def)

lemma iunlock_ok:
  assumes "quiet s" "i_busy (icache s ip)" "1 \<le> i_ref (icache s ip)"
  obtains t where "iunlock ip s = Inr t" "follows s t" "awake (InodeAddr ip) t"
    "ptable.more t = ptable.more (upd_inode ip (\<lambda>x. x\<lparr>i_busy := False\<rparr>) s)"
proof -
  let ?f = "\<lambda>x. x\<lparr>i_busy := False\<rparr>"
  note e = insec_enter [OF assms(1), of IcacheLock]
  have "insec IcacheLock s (upd_inode ip ?f (acquired IcacheLock s))"
    by (rule insec_upper [OF e(2)]) simp
  then obtain u where u: "wakeup (InodeAddr ip) (upd_inode ip ?f (acquired IcacheLock s)) = Inr u" "insec IcacheLock s u"
    "ptable.more u = ptable.more (upd_inode ip ?f (acquired IcacheLock s))" "awake (InodeAddr ip) u"
    by (rule insec_wakeup [where ch = "InodeAddr ip"]) simp_all
  obtain t where t: "release IcacheLock u = Inr t" "follows s t" "ptable.more t = ptable.more u" "ptab t = ptab u"
    by (rule insec_leave [OF u(2)])
  have "iunlock ip s = Inr t"
    using assms(2,3) e(1) u(1) t(1) by (simp add: iunlock_def)
  moreover have "ptable.more t = ptable.more (upd_inode ip ?f s)"
    using t(3) u(3) more_upd_inode [OF e(3), of ip ?f] by simp
  moreover have "awake (InodeAddr ip) t"
    using u(4) t(4) by (simp add: awake_def)
  ultimately show ?thesis
    using that t(2) by blast
qed

lemma ilock_ok:
  assumes "quiet s" "\<not> i_busy (icache s ip)" "1 \<le> i_ref (icache s ip)" "i_valid (icache s ip)"
  obtains t where "ilock ip s = Inr t" "follows s t" "ptable.more t = ptable.more (upd_inode ip (\<lambda>x. x\<lparr>i_busy := True\<rparr>) s)"
    "ptab t = ptab s"
proof -
  let ?f = "\<lambda>x. x\<lparr>i_busy := True\<rparr>"
  note e = insec_enter [OF assms(1), of IcacheLock]
  have "insec IcacheLock s (upd_inode ip ?f (acquired IcacheLock s))"
    by (rule insec_upper [OF e(2)]) simp
  then obtain t where t: "release IcacheLock (upd_inode ip ?f (acquired IcacheLock s)) = Inr t" "follows s t"
    "ptable.more t = ptable.more (upd_inode ip ?f (acquired IcacheLock s))" "ptab t = ptab (upd_inode ip ?f (acquired IcacheLock s))"
    by (rule insec_leave)
  have ic: "icache (acquired IcacheLock s) = icache s" "ptab (acquired IcacheLock s) = ptab s"
    by (simp_all add: acquired_def machine_defs)
  have m: "ptable.more t = ptable.more (upd_inode ip ?f s)"
    using t(3) more_upd_inode [OF e(3), of ip ?f] by simp
  have "icache t ip = ?f (icache s ip)"
    using m by (cases t; cases s; simp add: upd_inode_def)
  then have "ilock ip s = Inr t"
    using assms(2-4) e(1) t(1) ic by (simp add: ilock_def)
  then show ?thesis
    using that t(2,4) m ic by simp
qed

section \<open>Transactions\<close>

text \<open>
  A step of the file system: it takes place in memory only, leaves the log where it is and the
  layers above the inode cache alone.  What it does to the contents of blocks (\<open>fsv\<close>) and to the
  inode cache is said beside it.
\<close>

definition fstep :: "'a fsst_scheme \<Rightarrow> 'a fsst_scheme \<Rightarrow> bool" where
  "fstep s t \<longleftrightarrow> follows s t \<and> log_static (log s) (log t) \<and> disk t = disk s \<and> fsb t = fsb s \<and>
     fsst.more t = fsst.more s"

lemma fstep_trans [trans]: "fstep s t \<Longrightarrow> fstep t u \<Longrightarrow> fstep s u"
  using follows_trans log_static_trans by (auto simp: fstep_def)

lemma in_log_static: "log_static l k \<Longrightarrow> in_log k = in_log l"
  by (auto simp: log_static_def in_log_def)

lemma fstepD:
  assumes "fstep s t"
  shows "fsb t = fsb s" "in_log (log t) = in_log (log s)" "disk t = disk s"
  using assms in_log_static by (auto simp: fstep_def)

lemma fsstep_fstep:
  assumes "fsstep s t" "log_static (log s) (log t)"
  shows "fstep s t" "icache t = icache s"
proof -
  have m: "logst.more t = logst.more s"
    using assms(1) by (simp add: wrote_def)
  have "icache t = icache s \<and> fsb t = fsb s \<and> fsst.more t = fsst.more s"
    using m by (cases t; cases s) simp
  then show "fstep s t" "icache t = icache s"
    using assms by (simp_all add: fstep_def wrote_def)
qed

lemma fsinv_upper:
  assumes "fsinv H s"
  shows "fsinv H (upd_inode ip f s)" "fsv (upd_inode ip f s) = fsv s" "fstep s (upd_inode ip f s)"
proof -
  have q: "quiet s"
    using assms by (simp add: fsinv_def ginv_def bio_ok_def)
  note u = quiet_upper [OF q, of "upd_inode ip f s"]
  show "fsinv H (upd_inode ip f s)"
    using assms u by (simp add: fsinv_def ginv_def bio_ok_def)
  show "fsv (upd_inode ip f s) = fsv s" "fstep s (upd_inode ip f s)"
    using u by (simp_all add: fsv_def fstep_def)
qed

text \<open>
  An open transaction that may write the blocks \<open>M\<close> and \<open>k\<close> further ones: the log and the buffer
  cache have room for all of them.
\<close>

definition tx :: "uint set \<Rightarrow> nat \<Rightarrow> (nat \<Rightarrow> uint option) \<Rightarrow> 'a fsst_scheme \<Rightarrow> bool" where
  "tx M k H s \<longleftrightarrow> fsinv H s \<and> 1 \<le> outstanding (log s) \<and> finite M \<and>
     int (card (logged (log s) \<union> M) + k) < lg_size (log s) - 1 \<and> card (logged (log s) \<union> M) + k + 1 < NBUF"

lemma logged_count: "log_ok l \<Longrightarrow> card (logged l) = nat (lh_n l)"
  unfolding logged_def log_ok_def by (simp add: card_image)

lemma txD:
  assumes "tx M k H s"
  shows "fsinv H s" "nat (lh_n (log s)) + 1 < NBUF" "lh_n (log s) < lg_size (log s) - 1" "1 \<le> outstanding (log s)"
    "lh_n (log s) < int LOGSIZE"
proof -
  have l: "log_ok (log s)"
    using assms by (simp add: tx_def fsinv_def)
  have "card (logged (log s)) \<le> card (logged (log s) \<union> M)"
    using assms logged_card(1) by (intro card_mono) (auto simp: tx_def)
  then have c: "nat (lh_n (log s)) \<le> card (logged (log s) \<union> M)" "0 \<le> lh_n (log s)"
    using logged_count [OF l] l by (auto simp: log_ok_def)
  show "fsinv H s" "1 \<le> outstanding (log s)"
    using assms by (auto simp: tx_def)
  show "nat (lh_n (log s)) + 1 < NBUF" "lh_n (log s) < lg_size (log s) - 1" "lh_n (log s) < int LOGSIZE"
    using assms c by (auto simp: tx_def NBUF_def LOGSIZE_def)
qed

lemma tx_reserve:
  assumes "tx M (Suc k) H s"
  shows "tx (insert b M) k H s"
proof -
  have "card (logged (log s) \<union> insert b M) \<le> Suc (card (logged (log s) \<union> M))"
    using assms by (simp add: card_insert_if tx_def logged_card)
  then show ?thesis
    using assms by (auto simp: tx_def)
qed

lemma tx_less: "tx M (k + j) H s \<Longrightarrow> tx M k H s"
  by (auto simp: tx_def)

lemma tx_cong:
  assumes "tx M k H s" "fsinv H' t" "log t = log s"
  shows "tx M k H' t"
  using assms by (simp add: tx_def)

lemma tx_upper: "tx M k H s \<Longrightarrow> tx M k H (upd_inode ip f s)"
  using fsinv_upper(1) by (auto simp: tx_def)

text \<open>Reading a block, and reading, changing and releasing one.\<close>

lemma see_block:
  assumes "fsinv H s" "bno \<notin> ran H" "bno < of_nat FSSIZE" "nat (lh_n (log s)) + card (dom H) < NBUF"
  obtains b t where "bread ROOTDEV bno s = Inr (b, t)" "fsinv (H(b \<mapsto> bno)) t" "fstep s t" "icache t = icache s"
    "log t = log s" "b \<notin> dom H" "fsv t = fsv s" "data (bcache t b) = fsv s bno"
proof -
  obtain b t where t: "bread ROOTDEV bno s = Inr (b, t)" "fsinv (H(b \<mapsto> bno)) t" "fsstep s t"
    "log t = log s" "b \<notin> dom H" "fsv t = fsv s" "b < NBUF"
    by (rule fs_bread [OF assms])
  moreover have "data (bcache t b) = fsv s bno"
    using held_data(1) [OF fsinvD(1) [OF t(2)], of b bno] t(6) by simp
  moreover have "fstep s t" "icache t = icache s"
    using fsstep_fstep [OF t(3)] t(4) by simp_all
  ultimately show ?thesis
    using that by blast
qed

lemma drop_block:
  assumes "fsinv (H(b \<mapsto> bno)) s" "b \<notin> dom H"
  obtains t where "brelse b s = Inr t" "fsinv H t" "fstep s t" "icache t = icache s" "log t = log s" "fsv t = fsv s"
proof -
  obtain t where t: "brelse b s = Inr t" "fsinv ((H(b \<mapsto> bno))(b := None)) t" "fsstep s t" "log t = log s" "fsv t = fsv s"
    by (rule fs_brelse [OF assms(1), of b bno]) simp
  moreover have "(H(b \<mapsto> bno))(b := None) = H"
    using assms(2) by auto
  moreover have "fstep s t" "icache t = icache s"
    using fsstep_fstep [OF t(3)] t(4) by simp_all
  ultimately show ?thesis
    using that by simp
qed

lemma change_block:
  assumes inv: "tx M k H s" and b: "H b = Some bno" and free: "\<not> in_log (log s) bno" "bno < of_nat FSSIZE" and M: "bno \<in> M"
  obtains t where "log_write b (set_data b d s) = Inr t" "tx M k H t" "fstep s t" "icache t = icache s"
    "fsv t = (fsv s)(bno := d)"
proof -
  note r = txD [OF inv]
  obtain t where t: "log_write b (set_data b d s) = Inr t" "fsinv H t" "fsstep s t"
    "log t = log_add bno (log s)" "fsv t = (fsv s)(bno := d)"
    by (rule fs_log_write [OF r(1) b free r(5,3,4)])
  note a = log_add_ok [OF fsinvD(2) [OF r(1)] free r(5,3)]
  have "insert bno (logged (log s)) \<union> M = logged (log s) \<union> M"
    using M by auto
  then have "tx M k H t"
    using inv t(2) a(2,4) by (simp add: tx_def t(4) log_static_def)
  moreover have "fstep s t" "icache t = icache s"
    using fsstep_fstep [OF t(3)] a(4) t(4) by simp_all
  ultimately show ?thesis
    using that t by blast
qed

lemma update_block:
  assumes tx: "tx M k H s" "card (dom H) \<le> 1" and bno: "bno \<notin> ran H" "\<not> in_log (log s) bno" "bno < of_nat FSSIZE" "bno \<in> M"
  obtains b u where "bread ROOTDEV bno s = Inr (b, u)" "data (bcache u b) = fsv s bno" "icache u = icache s" "fsb u = fsb s"
    "\<forall>d. \<exists>v t. log_write b (set_data b d u) = Inr v \<and> brelse b v = Inr t \<and> tx M k H t \<and> fstep s t \<and>
       icache t = icache s \<and> fsv t = (fsv s)(bno := d)"
proof -
  have room: "nat (lh_n (log s)) + card (dom H) < NBUF"
    using txD(2) [OF tx(1)] tx(2) by simp
  obtain b u where u: "bread ROOTDEV bno s = Inr (b, u)" "fsinv (H(b \<mapsto> bno)) u" "fstep s u" "icache u = icache s"
    "log u = log s" "b \<notin> dom H" "fsv u = fsv s" "data (bcache u b) = fsv s bno"
    by (rule see_block [OF txD(1) [OF tx(1)] bno(1,3) room])
  have txu: "tx M k (H(b \<mapsto> bno)) u"
    by (rule tx_cong [OF tx(1) u(2,5)])
  have "\<exists>v t. log_write b (set_data b d u) = Inr v \<and> brelse b v = Inr t \<and> tx M k H t \<and> fstep s t \<and>
       icache t = icache s \<and> fsv t = (fsv s)(bno := d)" for d
  proof -
    obtain v where v: "log_write b (set_data b d u) = Inr v" "tx M k (H(b \<mapsto> bno)) v" "fstep u v" "icache v = icache u"
      "fsv v = (fsv u)(bno := d)"
      by (rule change_block [OF txu, of b bno]) (use bno u(5) in simp_all)
    obtain t where t: "brelse b v = Inr t" "fsinv H t" "fstep v t" "icache t = icache v" "log t = log v" "fsv t = fsv v"
      by (rule drop_block [OF txD(1) [OF v(2)] u(6)])
    have "fstep s t"
      using fstep_trans [OF fstep_trans [OF u(3) v(3)] t(3)] .
    then show ?thesis
      using v t u tx_cong [OF v(2) t(2,5)] by auto
  qed
  then show ?thesis
    using that u(1,4,8) fstepD(1) [OF u(3)] by blast
qed

end
