(* ===== verification/ConsProps.thy ===== *)
theory ConsProps
  imports ProcShow PipeProps FsTx
begin

text \<open>
  The console: printing never leaves the screen or panics, and the input ring with its three
  wrapping indices implements line-buffered input.
\<close>

section \<open>Printing\<close>

definition SCREEN :: nat where "SCREEN = 24 * 80"

definition on_screen :: "'a kern_scheme \<Rightarrow> bool" where
  "on_screen s \<longleftrightarrow> 0 \<le> cga_pos s \<and> cga_pos s < int SCREEN"

text \<open>\<open>t\<close> is \<open>s\<close> with the bytes \<open>bs\<close> sent to the serial port and the screen changed within its bounds.\<close>

definition printed :: "uchar list \<Rightarrow> 'a kern_scheme \<Rightarrow> 'a kern_scheme \<Rightarrow> bool" where
  "printed bs s t \<longleftrightarrow> (\<exists>p m. t = s\<lparr>uart := uart s @ bs, cga_pos := p, crt := m\<rparr> \<and>
     0 \<le> p \<and> p < int SCREEN \<and> (\<forall>i\<ge>SCREEN. m i = crt s i))"

lemma printed_sel:
  assumes "printed bs s t"
  shows "uart t = uart s @ bs" "panicked t = panicked s" "cons_locking t = cons_locking s" "on_screen t"
    "in_buf t = in_buf s" "in_r t = in_r s" "in_w t = in_w s" "in_e t = in_e s" "umem t = umem s"
    "ptable.truncate t = ptable.truncate s" "ptab t = ptab s" "pLists t = pLists s" "same_machine s t"
    "\<forall>i\<ge>SCREEN. crt t i = crt s i" "filest.truncate t = filest.truncate s"
  using assms by (auto simp: printed_def on_screen_def ptable.truncate_def same_machine_def filest.truncate_def)

lemma printed_trans: "printed bs s t \<Longrightarrow> printed cs t u \<Longrightarrow> printed (bs @ cs) s u"
proof -
  assume "printed bs s t" "printed cs t u"
  then obtain p m q n where "t = s\<lparr>uart := uart s @ bs, cga_pos := p, crt := m\<rparr>"
    "u = t\<lparr>uart := uart t @ cs, cga_pos := q, crt := n\<rparr>" "0 \<le> q" "q < int SCREEN"
    "\<forall>i\<ge>SCREEN. m i = crt s i" "\<forall>i\<ge>SCREEN. n i = crt t i"
    by (auto simp: printed_def)
  then show ?thesis
    unfolding printed_def by (intro exI [of _ q] exI [of _ n]) simp
qed

lemma printed_nil: "on_screen s \<Longrightarrow> printed [] s s"
  unfolding printed_def on_screen_def by (intro exI [of _ "cga_pos s"] exI [of _ "crt s"]) simp

lemma cgaputc_ok:
  assumes "on_screen s"
  obtains p m where "cgaputc c s = Inr (s\<lparr>cga_pos := p, crt := m\<rparr>)" "0 \<le> p" "p < int SCREEN"
    "\<forall>i\<ge>SCREEN. m i = crt s i"
proof -
  define q where "q = (if c = 10 then cga_pos s + (80 - cga_pos s mod 80)
    else if c = BACKSPACE then if 0 < cga_pos s then cga_pos s - 1 else cga_pos s else cga_pos s + 1)"
  define n where "n = (if c = 10 \<or> c = BACKSPACE then crt s
    else (crt s)(nat (cga_pos s) := (of_nat c AND 0xff) OR 0x0700))"
  define p where "p = (if 24 \<le> q div 80 then q - 80 else q)"
  define m where "m = (if 24 \<le> q div 80 then cga_scroll (q - 80) n else n)(nat p := 0x0720)"
  have s: "0 \<le> cga_pos s" "cga_pos s < 1920"
    using assms by (simp_all add: on_screen_def SCREEN_def)
  have line: "cga_pos s + (80 - cga_pos s mod 80) = 80 * (cga_pos s div 80 + 1)"
    by presburger
  have "cga_pos s div 80 \<le> 23" "0 \<le> cga_pos s div 80"
    using s by simp_all
  then have q: "0 \<le> q" "q \<le> 1920"
    unfolding q_def line using s by (simp_all split: if_split)
  have "24 \<le> q div 80 \<longleftrightarrow> 1920 \<le> q"
    by presburger
  then have p: "0 \<le> p" "p < int SCREEN"
    using q unfolding p_def SCREEN_def by (simp_all split: if_split)
  have "nat (cga_pos s) < 1920"
    using s by simp
  then have n: "\<forall>i\<ge>SCREEN. n i = crt s i"
    unfolding n_def SCREEN_def by (simp split: if_split)
  have "nat p < 1920"
    using p by (simp add: SCREEN_def)
  then have "\<forall>i\<ge>SCREEN. m i = crt s i"
    using n unfolding m_def cga_scroll_def SCREEN_def by (simp split: if_split)
  moreover have "cgaputc c s = Inr (s\<lparr>cga_pos := p, crt := m\<rparr>)"
  proof -
    have "(if c = 10 then (cga_pos s + (80 - cga_pos s mod 80), crt s)
      else if c = BACKSPACE then (if 0 < cga_pos s then cga_pos s - 1 else cga_pos s, crt s)
      else (cga_pos s + 1, (crt s)(nat (cga_pos s) := (of_nat c AND 0xff) OR 0x0700))) = (q, n)"
      by (simp add: q_def n_def BACKSPACE_def)
    then show ?thesis
      using q unfolding cgaputc_def p_def m_def Let_def by (simp split: if_split)
  qed
  ultimately show ?thesis
    using that p by blast
qed

definition echo :: "nat \<Rightarrow> uchar list" where
  "echo c = (if c = BACKSPACE then [8, 32, 8] else [of_nat c])"

lemma consputc_ok:
  assumes "on_screen s" "\<not> panicked s"
  obtains t where "consputc c s = Inr t" "printed (echo c) s t"
proof -
  let ?s = "s\<lparr>uart := uart s @ echo c\<rparr>"
  have "on_screen ?s"
    using assms(1) by (simp add: on_screen_def)
  then obtain p m where c: "cgaputc c ?s = Inr (?s\<lparr>cga_pos := p, crt := m\<rparr>)" "0 \<le> p" "p < int SCREEN"
    "\<forall>i\<ge>SCREEN. m i = crt ?s i"
    by (rule cgaputc_ok)
  have "printed (echo c) s (?s\<lparr>cga_pos := p, crt := m\<rparr>)"
    unfolding printed_def using c(2-4) by (intro exI [of _ p] exI [of _ m]) simp
  then show ?thesis
    using that c(1) assms(2) by (simp add: consputc_def echo_def)
qed

definition bytes :: "string \<Rightarrow> uchar list" where
  "bytes str = map (\<lambda>c. of_nat (of_char c)) str"

lemma consputs_ok:
  assumes "on_screen s" "\<not> panicked s"
  obtains t where "consputs str s = Inr t" "printed (bytes str) s t"
proof -
  have "\<exists>t. consputs str s = Inr t \<and> printed (bytes str) s t"
    using assms
  proof (induction str arbitrary: s)
    case Nil
    then show ?case by (simp add: bytes_def printed_nil)
  next
    case (Cons c str)
    obtain t where t: "consputc (of_char c) s = Inr t" "printed (echo (of_char c)) s t"
      by (rule consputc_ok [OF Cons.prems])
    obtain u where u: "consputs str t = Inr u" "printed (bytes str) t u"
      using Cons.IH [of t] printed_sel(2,4) [OF t(2)] Cons.prems by auto
    have "(of_char c :: nat) \<noteq> 256"
      using nat_of_char_less_256 [of c] by linarith
    then have "echo (of_char c) = [of_nat (of_char c)]"
      by (simp add: echo_def BACKSPACE_def)
    then show ?case
      using t u printed_trans [OF t(2) u(2)] by (simp add: bytes_def)
  qed
  then show ?thesis using that by blast
qed

text \<open>
  Inside a section of another lock or outside: the lock of the console is taken and given back.
\<close>

lemma cprintf_ok:
  assumes "on_screen s" "\<not> panicked s" "cprintf_text fmt as = Some str" "lock_free ConsLock s" "cpu_ok s"
  obtains t where "cprintf fmt as s = Inr t" "printed (bytes str) (if cons_locking s then settled s else s) t"
proof (cases "cons_locking s")
  case False
  obtain t where "consputs str s = Inr t" "printed (bytes str) s t"
    by (rule consputs_ok [OF assms(1,2)])
  then show ?thesis
    using that False assms(3) by (simp add: cprintf_def)
next
  case True
  let ?s = "acquired ConsLock s"
  have e: "on_screen ?s" "\<not> panicked ?s" "uart ?s = uart s" "crt ?s = crt s"
    using assms(1,2) by (simp_all add: on_screen_def acquired_def machine_defs)
  obtain t where t: "consputs str ?s = Inr t" "printed (bytes str) ?s t"
    by (rule consputs_ok [OF e(1,2)])
  let ?t = "t\<lparr>cpus := cpus (settled s), locks := locks s\<rparr>"
  have "release ConsLock t = Inr ?t"
    by (rule release_section [OF assms(4,5) printed_sel(13) [OF t(2)]])
  moreover have "printed (bytes str) (settled s) ?t"
  proof -
    obtain p m where "t = ?s\<lparr>uart := uart ?s @ bytes str, cga_pos := p, crt := m\<rparr>" "0 \<le> p" "p < int SCREEN"
      "\<forall>i\<ge>SCREEN. m i = crt ?s i"
      using t(2) by (auto simp: printed_def)
    then show ?thesis
      unfolding printed_def using e
      by (intro exI [of _ p] exI [of _ m]) (simp add: settled_def machine_defs acquired_def)
  qed
  ultimately show ?thesis
    using that True assms(3,4) t(1) by (simp add: cprintf_def)
qed

lemma quiet_settled:
  assumes "quiet s"
  shows "follows s (settled s)" "ptable.more (settled s) = ptable.more s" "ptab (settled s) = ptab s"
proof -
  have "release ConsLock (acquired ConsLock s) = Inr (settled s)"
    using assms by (intro release_acquired) (simp_all add: quiet_def)
  then show "follows s (settled s)"
    by (metis insec_leave [OF insec_enter(2) [OF assms]] sum.inject(2))
  show "ptable.more (settled s) = ptable.more s" "ptab (settled s) = ptab s"
    by (simp_all add: settled_def machine_defs)
qed

lemma quiet_cprintf:
  assumes "on_screen s" "\<not> panicked s" "cprintf_text fmt as = Some str" "quiet s"
  obtains t where "cprintf fmt as s = Inr t" "follows s t" "printed (bytes str) s (t\<lparr>cpus := cpus s\<rparr>)"
proof -
  let ?s = "if cons_locking s then settled s else s"
  obtain t where t: "cprintf fmt as s = Inr t" "printed (bytes str) ?s t"
    by (rule cprintf_ok [OF assms(1-3)]) (use assms(4) in \<open>simp_all add: quiet_def\<close>)
  have f: "follows s ?s"
    using quiet_settled(1) [OF assms(4)] assms(4) by simp
  have "follows ?s t"
    using quiet_upper(2) [OF follows_quiet [OF f] printed_sel(10) [OF t(2)]] .
  then have "follows s t"
    by (rule follows_trans [OF f])
  moreover obtain p m where "t = ?s\<lparr>uart := uart ?s @ bytes str, cga_pos := p, crt := m\<rparr>" "0 \<le> p" "p < int SCREEN"
      "\<forall>i\<ge>SCREEN. m i = crt ?s i"
    using t(2) by (auto simp: printed_def)
  then have "printed (bytes str) s (t\<lparr>cpus := cpus s\<rparr>)"
    unfolding printed_def by (intro exI [of _ p] exI [of _ m]) (simp add: settled_def machine_defs)
  ultimately show ?thesis
    using that t(1) by blast
qed

text \<open>
  C30. \<open>cprintf\<close> is safe and complete: with the cursor on the 24 lines of the screen it returns
  without reaching the panic of \<open>cgaputc\<close>, sends exactly the formatted bytes to the serial port,
  leaves the cursor on the screen again, writes no cell of the video memory beyond the screen,
  also when it scrolls, and gives the lock of the console back.
\<close>

theorem cprintf_prints:
  assumes "on_screen s" "\<not> panicked s" "cprintf_text fmt as = Some str" "quiet s"
  shows "\<exists>t. cprintf fmt as s = Inr t \<and> quiet t \<and> uart t = uart s @ bytes str \<and> on_screen t \<and>
    (\<forall>i\<ge>SCREEN. crt t i = crt s i) \<and> umem t = umem s \<and> in_buf t = in_buf s"
proof -
  obtain t where t: "cprintf fmt as s = Inr t" "follows s t" "printed (bytes str) s (t\<lparr>cpus := cpus s\<rparr>)"
    by (rule quiet_cprintf [OF assms])
  note p = printed_sel [OF t(3)]
  have "uart t = uart s @ bytes str" "on_screen t" "\<forall>i\<ge>SCREEN. crt t i = crt s i" "umem t = umem s"
    "in_buf t = in_buf s"
    using p(1,4,5,9,14) by (simp_all add: on_screen_def)
  then show ?thesis
    using t(1) follows_quiet [OF t(2)] by blast
qed

section \<open>Line-buffered input\<close>

text \<open>The bytes of the input ring from index \<open>a\<close> on.\<close>

definition in_ring :: "'a kern_scheme \<Rightarrow> uint \<Rightarrow> nat \<Rightarrow> uchar list" where
  "in_ring s a n = map (\<lambda>j. in_buf s ((unat a + j) mod INPUT_BUF)) [0..<n]"

text \<open>The abstraction: the bytes a reader may take, and those of the line being edited.\<close>

definition lines :: "'a kern_scheme \<Rightarrow> uchar list \<times> uchar list" where
  "lines s = (in_ring s (in_r s) (unat (in_w s - in_r s)), in_ring s (in_w s) (unat (in_e s - in_w s)))"

definition in_ok :: "'a kern_scheme \<Rightarrow> bool" where
  "in_ok s \<longleftrightarrow> unat (in_w s - in_r s) + unat (in_e s - in_w s) \<le> INPUT_BUF \<and> 10 \<notin> set (snd (lines s))"

text \<open>What a key does: the specification of the line discipline.\<close>

definition listing_key :: "nat \<Rightarrow> bool" where
  "listing_key c \<longleftrightarrow> c \<in> ctl ` set ''PRFSZ''"

definition line_char :: "nat \<Rightarrow> uchar list \<times> uchar list \<Rightarrow> uchar list \<times> uchar list" where
  "line_char c = (\<lambda>(rd, ed).
     if c = ctl CHR ''U'' then (rd, [])
     else if c = ctl CHR ''H'' \<or> c = 127 then (rd, butlast ed)
     else if listing_key c \<or> c = 0 \<or> INPUT_BUF \<le> length rd + length ed then (rd, ed)
     else
       let b = of_nat (if c = 13 then 10 else c) in
       if b = 10 \<or> b = 4 \<or> length rd + length ed + 1 = INPUT_BUF then (rd @ ed @ [b], [])
       else (rd, ed @ [b]))"

lemma ring_slot: "unat (a + of_nat i :: uint) mod INPUT_BUF = (unat a + i) mod INPUT_BUF"
  by (rule wrap_slot) (simp add: INPUT_BUF_def)

lemma ring_cong: "in_buf t = in_buf s \<Longrightarrow> in_ring t = in_ring s"
  by (auto simp: in_ring_def fun_eq_iff)

lemma length_ring [simp]: "length (in_ring s a n) = n"
  by (simp add: in_ring_def)

lemma ring_append: "in_ring s a (m + n) = in_ring s a m @ in_ring s (a + of_nat m) n"
proof (rule nth_equalityI)
  fix i assume "i < length (in_ring s a (m + n))"
  then have i: "i < m + n" by simp
  show "in_ring s a (m + n) ! i = (in_ring s a m @ in_ring s (a + of_nat m) n) ! i"
  proof (cases "i < m")
    case True
    then show ?thesis using i by (simp add: in_ring_def nth_append)
  next
    case False
    then obtain j where j: "i = m + j" "j < n"
      using i by (metis add_diff_inverse_nat nat_add_left_cancel_less)
    have "(unat (a + of_nat m :: uint) + j) mod INPUT_BUF = (unat a + i) mod INPUT_BUF"
      unfolding j using ring_slot [of a m] by (metis add.assoc mod_add_left_eq)
    then show ?thesis using j by (simp add: in_ring_def nth_append)
  qed
qed simp

lemma ring_snoc: "in_ring s a (Suc n) = in_ring s a n @ [in_buf s (unat (a + of_nat n) mod INPUT_BUF)]"
  by (simp add: in_ring_def ring_slot)

lemma ring_put:
  assumes "k + n < INPUT_BUF"
  shows "in_ring (s\<lparr>in_buf := (in_buf s)(unat (a + of_nat (k + n)) mod INPUT_BUF := c)\<rparr>) (a + of_nat k) n = in_ring s (a + of_nat k) n"
proof -
  have "(unat (a + of_nat k :: uint) + j) mod INPUT_BUF \<noteq> unat (a + of_nat (k + n)) mod INPUT_BUF" if "j < n" for j
    using slots_apart [of j n INPUT_BUF "unat (a + of_nat k)"] that assms ring_slot [of "a + of_nat k" n]
    by (simp add: add.assoc)
  then show ?thesis
    by (simp add: in_ring_def)
qed

text \<open>The abstraction written with the lengths of the two parts.\<close>

lemma lines_upd:
  "lines (s\<lparr>in_r := r, in_w := w, in_e := e\<rparr>) = (in_ring s r (unat (w - r)), in_ring s w (unat (e - w)))"
  by (simp add: lines_def in_ring_def)

lemma ring_restrict: "in_ring s a n = in_ring t a n" if "in_buf s = in_buf t"
  using that by (simp add: in_ring_def)

lemma in_ok_full: "in_ok s \<Longrightarrow> unat (in_e s - in_r s) = unat (in_w s - in_r s) + unat (in_e s - in_w s)"
proof -
  assume "in_ok s"
  then have "unat (in_w s - in_r s) + unat (in_e s - in_w s) < 2 ^ 32"
    by (simp add: in_ok_def INPUT_BUF_def)
  from unat_add_small [OF this] show ?thesis
    by simp
qed

text \<open>Adding a byte to the line being edited, committing the line, and taking a byte back.\<close>

lemma lines_put:
  assumes "in_ok s" "unat (in_e s - in_r s) < INPUT_BUF" "c \<noteq> 10 \<or> eol"
  defines "u \<equiv> s\<lparr>in_buf := (in_buf s)(unat (in_e s) mod INPUT_BUF := c), in_e := in_e s + 1\<rparr>"
  defines "t \<equiv> if eol then u\<lparr>in_w := in_e u\<rparr> else u"
  shows "lines t = (if eol then (fst (lines s) @ snd (lines s) @ [c], []) else (fst (lines s), snd (lines s) @ [c]))"
    "in_ok t"
proof -
  define a b where "a = unat (in_w s - in_r s)" and "b = unat (in_e s - in_w s)"
  have ab: "a + b < INPUT_BUF"
    using in_ok_full [OF assms(1)] assms(2) by (simp add: a_def b_def)
  have w: "in_w s = in_r s + of_nat a" "in_e s = in_w s + of_nat b" "in_e s = in_r s + of_nat (a + b)"
    by (simp_all add: a_def b_def)
  have l: "lines s = (in_ring s (in_r s) a, in_ring s (in_w s) b)"
    by (simp add: lines_def a_def b_def)
  have keep: "in_ring u (in_r s) (a + b) = in_ring s (in_r s) (a + b)"
    using ring_put [of 0 "a + b" s "in_r s" c] ab w(3) by (simp add: u_def in_ring_def)
  then have parts: "in_ring u (in_r s) a = in_ring s (in_r s) a" "in_ring u (in_w s) b = in_ring s (in_w s) b"
    unfolding ring_append w(1) by simp_all
  have new: "in_buf u (unat (in_e s) mod INPUT_BUF) = c"
    by (simp add: u_def)
  have snoc: "in_ring u (in_w s) (Suc b) = in_ring s (in_w s) b @ [c]"
    "in_ring u (in_r s) (Suc (a + b)) = in_ring s (in_r s) a @ in_ring s (in_w s) b @ [c]"
    unfolding ring_snoc using parts keep new w ring_append [of s "in_r s" a b] by (simp_all add: add.assoc)
  have len: "unat (in_e s + 1 - in_w s) = Suc b" "unat (in_e s + 1 - in_r s) = Suc (a + b)"
  proof -
    have "in_e s + 1 - in_w s = of_nat (Suc b)" "in_e s + 1 - in_r s = of_nat (Suc (a + b))"
      using w by simp_all
    then show "unat (in_e s + 1 - in_w s) = Suc b" "unat (in_e s + 1 - in_r s) = Suc (a + b)"
      using ab by (simp_all add: unat_of_nat INPUT_BUF_def del: of_nat_Suc)
  qed
  show g: "lines t = (if eol then (fst (lines s) @ snd (lines s) @ [c], []) else (fst (lines s), snd (lines s) @ [c]))"
  proof (cases eol)
    case True
    then have "t = u\<lparr>in_w := in_e s + 1\<rparr>"
      by (simp add: t_def u_def)
    then have "lines t = (in_ring u (in_r s) (Suc (a + b)), [])"
      using len by (simp add: lines_def in_ring_def u_def)
    then show ?thesis
      using True snoc l by simp
  next
    case False
    then have "lines t = (in_ring u (in_r s) a, in_ring u (in_w s) (Suc b))"
      using len by (simp add: lines_def t_def u_def a_def in_ring_def)
    then show ?thesis
      using False snoc parts l by simp
  qed
  show "in_ok t"
    using assms(1,3) ab g len l by (cases eol) (auto simp: in_ok_def t_def u_def a_def)
qed

lemma lines_back:
  assumes "in_ok s" "in_e s \<noteq> in_w s"
  shows "lines (s\<lparr>in_e := in_e s - 1\<rparr>) = (fst (lines s), butlast (snd (lines s)))" "in_ok (s\<lparr>in_e := in_e s - 1\<rparr>)"
    "snd (lines s) \<noteq> []" "in_buf s (unat (in_e s - 1) mod INPUT_BUF) = last (snd (lines s))"
proof -
  define b where "b = unat (in_e s - in_w s) - 1"
  have b: "unat (in_e s - in_w s) = Suc b" "unat (in_e s - 1 - in_w s) = b"
  proof -
    have ne: "in_e s - in_w s \<noteq> 0"
      using assms(2) by simp
    then show "unat (in_e s - in_w s) = Suc b"
      by (simp add: b_def unat_gt_0)
    show "unat (in_e s - 1 - in_w s) = b"
      unfolding b_def using unat_minus_one [OF ne] by (metis diff_right_commute)
  qed
  have l: "snd (lines s) = in_ring s (in_w s) b @ [in_buf s (unat (in_w s + of_nat b) mod INPUT_BUF)]"
    unfolding lines_def b(1) by (simp add: ring_snoc)
  have "in_e s - 1 = in_w s + of_nat b"
    unfolding b(2) [symmetric] by simp
  then show "snd (lines s) \<noteq> []" "in_buf s (unat (in_e s - 1) mod INPUT_BUF) = last (snd (lines s))"
    using l by simp_all
  show g: "lines (s\<lparr>in_e := in_e s - 1\<rparr>) = (fst (lines s), butlast (snd (lines s)))"
    unfolding l using b by (simp add: lines_def in_ring_def)
  show "in_ok (s\<lparr>in_e := in_e s - 1\<rparr>)"
    using assms(1) b g unfolding in_ok_def by (auto dest: in_set_butlastD)
qed

section \<open>The keys\<close>

lemma kern_more:
  assumes "ptable.more t = ptable.more s"
  shows "in_buf t = in_buf s" "in_r t = in_r s" "in_w t = in_w s" "in_e t = in_e s" "panicked t = panicked s"
    "cga_pos t = cga_pos s" "uart t = uart s" "umem t = umem s" "cons_locking t = cons_locking s" "crt t = crt s"
    "icache t = icache s" "ftable t = ftable s" "pipes t = pipes s"
  using assms by (cases t; cases s; simp)+

lemma lines_cong:
  "in_buf t = in_buf s \<Longrightarrow> in_r t = in_r s \<Longrightarrow> in_w t = in_w s \<Longrightarrow> in_e t = in_e s \<Longrightarrow> lines t = lines s"
  "in_buf t = in_buf s \<Longrightarrow> in_r t = in_r s \<Longrightarrow> in_w t = in_w s \<Longrightarrow> in_e t = in_e s \<Longrightarrow> in_ok t = in_ok s"
  by (simp_all add: lines_def in_ok_def in_ring_def)

text \<open>Inside the section of the console, with a screen that can be written to.\<close>

definition con :: "'a kern_scheme \<Rightarrow> 'a kern_scheme \<Rightarrow> bool" where
  "con b s \<longleftrightarrow> insec ConsLock b s \<and> on_screen s \<and> \<not> panicked s \<and> in_ok s"

lemma con_upd:
  assumes "con b s" "in_ok (s\<lparr>in_buf := f, in_w := w, in_e := e\<rparr>)"
  shows "con b (s\<lparr>in_buf := f, in_w := w, in_e := e\<rparr>)"
proof -
  have "insec ConsLock b (s\<lparr>in_buf := f, in_w := w, in_e := e\<rparr>)"
    by (rule insec_upper [of ConsLock b s]) (use assms(1) in \<open>simp_all add: con_def ptable.truncate_def\<close>)
  then show ?thesis
    using assms by (simp add: con_def on_screen_def)
qed

lemma con_putc:
  assumes "con b s"
  obtains t where "consputc c s = Inr t" "con b t" "lines t = lines s" "ptab t = ptab s" "in_e t = in_e s" "in_r t = in_r s"
proof -
  have s: "on_screen s" "\<not> panicked s"
    using assms by (simp_all add: con_def)
  obtain t where t: "consputc c s = Inr t" "printed (echo c) s t"
    by (rule consputc_ok [OF s])
  note p = printed_sel [OF t(2)]
  have "con b t"
    using assms p insec_upper [OF _ p(10)] lines_cong(2) [OF p(5-8)] by (simp add: con_def)
  then show ?thesis
    using that [OF t(1)] p lines_cong(1) [OF p(5-8)] by simp
qed

lemma con_wakeup:
  assumes "con b s"
  obtains t where "wakeup InputAddr s = Inr t" "con b t" "lines t = lines s" "awake InputAddr t"
proof -
  have i: "insec ConsLock b s"
    using assms by (simp add: con_def)
  obtain t where t: "wakeup InputAddr s = Inr t" "insec ConsLock b t" "ptable.more t = ptable.more s" "awake InputAddr t"
    by (rule insec_wakeup [OF i, of InputAddr]) simp
  note m = kern_more [OF t(3)]
  have "con b t"
    using assms t(2) m lines_cong(2) [OF m(1-4)] by (simp add: con_def on_screen_def)
  then show ?thesis
    using that [OF t(1)] t(4) lines_cong(1) [OF m(1-4)] by simp
qed

lemma con_erase:
  assumes "con b s" "in_e s \<noteq> in_w s"
  obtains t where "consputc BACKSPACE (s\<lparr>in_e := in_e s - 1\<rparr>) = Inr t" "con b t" "ptab t = ptab s"
    "lines t = (fst (lines s), butlast (snd (lines s)))"
proof -
  have ok: "in_ok s"
    using assms(1) by (simp add: con_def)
  note l = lines_back [OF ok assms(2)]
  have "con b (s\<lparr>in_buf := in_buf s, in_w := in_w s, in_e := in_e s - 1\<rparr>)"
    by (rule con_upd [OF assms(1)]) (use l(2) in simp)
  then have "con b (s\<lparr>in_e := in_e s - 1\<rparr>)"
    by simp
  then obtain t where t: "consputc BACKSPACE (s\<lparr>in_e := in_e s - 1\<rparr>) = Inr t" "con b t"
    "lines t = lines (s\<lparr>in_e := in_e s - 1\<rparr>)" "ptab t = ptab (s\<lparr>in_e := in_e s - 1\<rparr>)"
    by (rule con_putc)
  then show ?thesis
    using that [OF t(1,2)] l(1) by simp
qed

lemma edit_empty: "in_e s = in_w s \<longleftrightarrow> snd (lines s) = []"
  by (auto simp: lines_def in_ring_def unat_eq_0)

lemma kill_line_ok:
  assumes "con b s" "length (snd (lines s)) < n"
  shows "\<exists>t. kill_line n s = Inr t \<and> con b t \<and> lines t = (fst (lines s), []) \<and> ptab t = ptab s"
  using assms
proof (induction n arbitrary: s)
  case (Suc n)
  have ok: "in_ok s"
    using Suc.prems by (simp add: con_def)
  show ?case
  proof (cases "in_e s = in_w s")
    case True
    then have "lines s = (fst (lines s), [])"
      using edit_empty [of s] by (metis prod.collapse)
    then show ?thesis
      using True Suc.prems by auto
  next
    case False
    note l = lines_back [OF ok False]
    have "last (snd (lines s)) \<noteq> 10"
      using ok l(3) by (metis in_ok_def last_in_set)
    obtain t where t: "consputc BACKSPACE (s\<lparr>in_e := in_e s - 1\<rparr>) = Inr t" "con b t" "ptab t = ptab s"
      "lines t = (fst (lines s), butlast (snd (lines s)))"
      by (rule con_erase [OF Suc.prems(1) False])
    have "length (snd (lines t)) < n"
      using t(4) Suc.prems(2) l(3) by (cases "snd (lines s)" rule: rev_cases) simp_all
    then obtain u where u: "kill_line n t = Inr u" "con b u" "lines u = (fst (lines t), [])" "ptab u = ptab t"
      using Suc.IH [OF t(2)] by blast
    then show ?thesis
      using t False l(4) \<open>last (snd (lines s)) \<noteq> 10\<close> by simp
  qed
qed simp

lemma lines_len: "in_ok s \<Longrightarrow> unat (in_e s - in_r s) = length (fst (lines s)) + length (snd (lines s))"
  using in_ok_full [of s] by (simp add: lines_def)

lemma cons_default_ok:
  assumes "con b s" "c < 256"
  defines "x \<equiv> (if c = 13 then 10 else c)"
  shows "\<exists>t. cons_default c s = Inr t \<and> con b t \<and>
    lines t = (if c = 0 \<or> INPUT_BUF \<le> length (fst (lines s)) + length (snd (lines s)) then lines s
      else if x = 10 \<or> x = 4 \<or> length (fst (lines s)) + length (snd (lines s)) + 1 = INPUT_BUF
      then (fst (lines s) @ snd (lines s) @ [of_nat x], []) else (fst (lines s), snd (lines s) @ [of_nat x])) \<and>
    (awake InputAddr s \<or> fst (lines t) \<noteq> fst (lines s) \<longrightarrow> awake InputAddr t)"
proof -
  have ok: "in_ok s"
    using assms(1) by (simp add: con_def)
  define len where "len = length (fst (lines s)) + length (snd (lines s))"
  have len: "unat (in_e s - in_r s) = len"
    using lines_len [OF ok] by (simp add: len_def)
  then have fullness: "in_e s - in_r s < of_nat INPUT_BUF \<longleftrightarrow> len < INPUT_BUF"
    by (simp add: word_less_nat_alt INPUT_BUF_def)
  show ?thesis
  proof (cases "c = 0 \<or> INPUT_BUF \<le> len")
    case True
    then have "cons_default c s = Inr s"
      using fullness by (auto simp: cons_default_def)
    then show ?thesis
      using True assms(1) len_def by auto
  next
    case False
    define eol where "eol \<longleftrightarrow> x = 10 \<or> x = 4 \<or> len + 1 = INPUT_BUF"
    let ?u = "s\<lparr>in_buf := (in_buf s)(unat (in_e s) mod INPUT_BUF := of_nat x), in_e := in_e s + 1\<rparr>"
    have ux: "unat (of_nat x :: uchar) = x"
      using assms(2) by (simp add: x_def unat_of_nat)
    have "x = 10" if "of_nat x = (10 :: uchar)"
      using ux unfolding that by simp
    then have x: "of_nat x \<noteq> (10 :: uchar) \<or> eol"
      unfolding eol_def by blast
    define w where "w = (if eol then in_e s + 1 else in_w s)"
    have put: "lines (?u\<lparr>in_w := w\<rparr>) = (if eol then (fst (lines s) @ snd (lines s) @ [of_nat x], [])
        else (fst (lines s), snd (lines s) @ [of_nat x]))" "in_ok (?u\<lparr>in_w := w\<rparr>)"
      using lines_put [OF ok _ x] len False by (cases eol; simp add: w_def)+
    have scr: "on_screen ?u" "\<not> panicked ?u"
      using assms(1) by (simp_all add: con_def on_screen_def)
    obtain t where t: "consputc x ?u = Inr t" "printed (echo x) ?u t"
      by (rule consputc_ok [OF scr])
    note p = printed_sel [OF t(2)]
    have con: "con b (t\<lparr>in_w := w\<rparr>)" and l: "lines (t\<lparr>in_w := w\<rparr>) = lines (?u\<lparr>in_w := w\<rparr>)"
    proof -
      have "ptable.truncate (t\<lparr>in_w := w\<rparr>) = ptable.truncate s"
        using p(10) by (simp add: ptable.truncate_def)
      then have "insec ConsLock b (t\<lparr>in_w := w\<rparr>)"
        using insec_upper [of ConsLock b s] assms(1) by (simp add: con_def)
      moreover have "in_ok (t\<lparr>in_w := w\<rparr>)" "lines (t\<lparr>in_w := w\<rparr>) = lines (?u\<lparr>in_w := w\<rparr>)"
        using put(2) p(5-8) lines_cong [of "t\<lparr>in_w := w\<rparr>" "?u\<lparr>in_w := w\<rparr>"] by simp_all
      ultimately show "con b (t\<lparr>in_w := w\<rparr>)" "lines (t\<lparr>in_w := w\<rparr>) = lines (?u\<lparr>in_w := w\<rparr>)"
        using p(2,4) scr by (simp_all add: con_def on_screen_def)
    qed
    have e: "in_e t = in_r t + of_nat INPUT_BUF \<longleftrightarrow> len + 1 = INPUT_BUF"
    proof -
      have "in_e t = in_r t + of_nat INPUT_BUF \<longleftrightarrow> (in_e s - in_r s) + 1 = of_nat INPUT_BUF"
        using p(6,8) by (auto simp: algebra_simps)
      also have "\<dots> \<longleftrightarrow> unat ((in_e s - in_r s) + 1) = INPUT_BUF"
        by (auto simp: INPUT_BUF_def word_unat_eq_iff)
      also have "unat ((in_e s - in_r s) + 1) = len + 1"
        using unat_add_small [of "in_e s - in_r s" 1] len False by (simp add: INPUT_BUF_def)
      finally show ?thesis .
    qed
    have D: "ctl CHR ''D'' = 4"
      by (simp add: ctl_def)
    have run: "cons_default c s = (if eol then wakeup InputAddr (t\<lparr>in_w := in_e t\<rparr>) else Inr t)"
      using False fullness t(1) e unfolding eol_def D cons_default_def x_def [symmetric] Let_def by simp
    show ?thesis
    proof (cases eol)
      case True
      then have w: "w = in_e t"
        using p(8) by (simp add: w_def)
      obtain v where v: "wakeup InputAddr (t\<lparr>in_w := in_e t\<rparr>) = Inr v" "con b v" "lines v = lines (t\<lparr>in_w := in_e t\<rparr>)"
        "awake InputAddr v"
        by (rule con_wakeup [OF con [unfolded w]])
      then show ?thesis
        using run True l put(1) False unfolding w len_def eol_def by simp
    next
      case no: False
      have "t\<lparr>in_w := w\<rparr> = t"
        using p(7) no by (simp add: w_def)
      then show ?thesis
        using run no con l put(1) False p(11) unfolding len_def eol_def by (simp add: awake_def)
    qed
  qed
qed

definition key_ok :: "'a kern_scheme \<Rightarrow> 'a kern_scheme \<Rightarrow> nat list \<Rightarrow> 'a kern_scheme \<Rightarrow> bool" where
  "key_ok b s cs t \<longleftrightarrow> con b t \<and> lines t = fold line_char cs (lines s) \<and>
     (awake InputAddr s \<or> fst (lines t) \<noteq> fst (lines s) \<longrightarrow> awake InputAddr t)"

lemma ctl_keys [simp]:
  "ctl CHR ''P'' = 16" "ctl CHR ''U'' = 21" "ctl CHR ''H'' = 8" "ctl CHR ''R'' = 18" "ctl CHR ''F'' = 6"
  "ctl CHR ''S'' = 19" "ctl CHR ''Z'' = 26" "ctl CHR ''D'' = 4"
  by (simp_all add: ctl_def)

lemma listing_key_iff: "listing_key c \<longleftrightarrow> c = 16 \<or> c = 18 \<or> c = 6 \<or> c = 19 \<or> c = 26"
  by (simp add: listing_key_def)

lemma cons_char_ok:
  assumes "con b s" "c < 256"
  shows "\<exists>e t. cons_char c (d, s) = Inr (e, t) \<and> key_ok b s [c] t \<and> (\<not> listing_key c \<longrightarrow> e = d)"
proof -
  have ok: "in_ok s"
    using assms(1) by (simp add: con_def)
  obtain rd ed where l: "lines s = (rd, ed)" by fastforce
  consider (list) "listing_key c" | (kill) "c = 21" | (erase) "c = 8 \<or> c = 127"
    | (char) "\<not> listing_key c" "c \<noteq> 21" "c \<noteq> 8" "c \<noteq> 127"
    by blast
  then show ?thesis
  proof cases
    case list
    then have "line_char c (lines s) = lines s"
      by (auto simp: line_char_def listing_key_iff l)
    then have "key_ok b s [c] s"
      using assms(1) by (simp add: key_ok_def)
    moreover have "\<exists>e. cons_char c (d, s) = Inr (e, s)"
      using list by (auto simp: cons_char_def listing_key_iff)
    ultimately show ?thesis
      using list by blast
  next
    case kill
    have "length (snd (lines s)) < INPUT_BUF + 1"
      using ok by (simp add: in_ok_def lines_def)
    then obtain t where t: "kill_line (INPUT_BUF + 1) s = Inr t" "con b t" "lines t = (fst (lines s), [])" "ptab t = ptab s"
      using kill_line_ok [OF assms(1)] by blast
    then have "key_ok b s [c] t"
      using kill l by (simp add: key_ok_def line_char_def awake_def)
    moreover have "cons_char c (d, s) = Inr (d, t)"
      using kill t(1) by (simp add: cons_char_def del: kill_line.simps)
    ultimately show ?thesis
      by blast
  next
    case erase
    show ?thesis
    proof (cases "in_e s = in_w s")
      case True
      then have "key_ok b s [c] s"
        using assms(1) l erase edit_empty [of s] by (auto simp: key_ok_def line_char_def)
      moreover have "cons_char c (d, s) = Inr (d, s)"
        using erase True by (auto simp: cons_char_def)
      ultimately show ?thesis
        by blast
    next
      case False
      obtain t where t: "consputc BACKSPACE (s\<lparr>in_e := in_e s - 1\<rparr>) = Inr t" "con b t" "ptab t = ptab s"
        "lines t = (fst (lines s), butlast (snd (lines s)))"
        by (rule con_erase [OF assms(1) False])
      then have "key_ok b s [c] t"
        using l erase by (auto simp: key_ok_def line_char_def awake_def)
      moreover have "cons_char c (d, s) = Inr (d, t)"
        using erase False t(1) by (auto simp: cons_char_def)
      ultimately show ?thesis
        by blast
    qed
  next
    case char
    obtain t where t: "cons_default c s = Inr t" "con b t"
      "lines t = (if c = 0 \<or> INPUT_BUF \<le> length (fst (lines s)) + length (snd (lines s)) then lines s
        else if (if c = 13 then 10 else c) = 10 \<or> (if c = 13 then 10 else c) = 4 \<or>
          length (fst (lines s)) + length (snd (lines s)) + 1 = INPUT_BUF
        then (fst (lines s) @ snd (lines s) @ [of_nat (if c = 13 then 10 else c)], [])
        else (fst (lines s), snd (lines s) @ [of_nat (if c = 13 then 10 else c)]))"
      "awake InputAddr s \<or> fst (lines t) \<noteq> fst (lines s) \<longrightarrow> awake InputAddr t"
      using cons_default_ok [OF assms] by blast
    have byte: "(of_nat (if c = 13 then 10 else c) = (n :: uchar)) = ((if c = 13 then 10 else c) = unat n)" for n
      using assms(2) by (simp add: word_unat_eq_iff unat_of_nat)
    have "lines t = line_char c (lines s)"
      unfolding t(3) line_char_def l Let_def byte using char by (simp add: listing_key_iff)
    then have "key_ok b s [c] t"
      using t(2,4) by (simp add: key_ok_def)
    moreover have "cons_char c (d, s) = Inr (d, t)"
      using char t(1) by (simp add: cons_char_def listing_key_iff)
    ultimately show ?thesis
      by blast
  qed
qed

lemma cons_chars_ok:
  assumes "con b s" "\<forall>c\<in>set cs. c < 256 \<and> \<not> listing_key c"
  shows "\<exists>t. cons_chars cs (d, s) = Inr (d, t) \<and> key_ok b s cs t"
  using assms
proof (induction cs arbitrary: s)
  case (Cons c cs)
  obtain t where t: "cons_char c (d, s) = Inr (d, t)" "key_ok b s [c] t"
    using cons_char_ok [OF Cons.prems(1)] Cons.prems(2) by fastforce
  moreover obtain u where "cons_chars cs (d, t) = Inr (d, u)" "key_ok b t cs u"
    using Cons.IH [of t] t(2) Cons.prems(2) by (auto simp: key_ok_def)
  ultimately show ?case
    by (auto simp: key_ok_def)
qed (simp add: key_ok_def)

lemma con_enter:
  assumes "quiet s" "on_screen s" "\<not> panicked s" "in_ok s"
  shows "con s (acquired ConsLock s)" "lines (acquired ConsLock s) = lines s" "ptab (acquired ConsLock s) = ptab s"
proof -
  note e = insec_enter [OF assms(1), of ConsLock]
  note m = kern_more [OF e(3)]
  show "con s (acquired ConsLock s)" "lines (acquired ConsLock s) = lines s"
    using e(2) assms m lines_cong [OF m(1-4)] by (simp_all add: con_def on_screen_def)
  show "ptab (acquired ConsLock s) = ptab s"
    by (simp add: acquired_def machine_defs)
qed

text \<open>
  C28. The console interrupt implements line editing.  For characters other than the keys of the
  process listings, \<open>consoleintr\<close> returns, and the ring buffer with its three wrapping indices goes
  through the steps of the specification: a character is added to the line being edited, backspace
  and control-U take back only what has not been committed, and a newline, a control-D or a full
  buffer makes the line available to readers, none of which is left asleep.
\<close>

theorem consoleintr_edits_lines:
  assumes "quiet s" "on_screen s" "\<not> panicked s" "in_ok s" "\<forall>c\<in>set cs. c < 256 \<and> \<not> listing_key c"
  shows "\<exists>t. consoleintr pcs cs s = Inr t \<and> quiet t \<and> on_screen t \<and> in_ok t \<and>
    lines t = fold line_char cs (lines s) \<and> (fst (lines t) \<noteq> fst (lines s) \<longrightarrow> awake InputAddr t)"
proof -
  let ?d = "\<lparr>doprocdump = False, doctrlr = False, doctrlf = False, doctrls = False, doctrlz = False\<rparr>"
  note c = con_enter [OF assms(1-4)]
  obtain t where t: "cons_chars cs (?d, acquired ConsLock s) = Inr (?d, t)" "key_ok s (acquired ConsLock s) cs t"
    using cons_chars_ok [OF c(1) assms(5)] by blast
  have "insec ConsLock s t"
    using t(2) by (simp add: key_ok_def con_def)
  then obtain u where u: "release ConsLock t = Inr u" "follows s u" "ptable.more u = ptable.more t" "ptab u = ptab t"
    by (rule insec_leave)
  note m = kern_more [OF u(3)]
  have "consoleintr pcs cs s = Inr u"
    using insec_enter(1) [OF assms(1)] t(1) u(1) by (simp add: consoleintr_def)
  moreover have "lines u = fold line_char cs (lines s)" "in_ok u" "on_screen u"
    using t(2) c(2) m lines_cong [OF m(1-4)] by (simp_all add: key_ok_def con_def on_screen_def)
  moreover have "fst (lines u) \<noteq> fst (lines s) \<longrightarrow> awake InputAddr u"
    using t(2) c(2) u(4) lines_cong(1) [OF m(1-4)] by (simp add: key_ok_def awake_def)
  ultimately show ?thesis
    using follows_quiet [OF u(2)] by blast
qed

section \<open>Reading\<close>

text \<open>
  What a reader of \<open>k\<close> bytes takes from the committed bytes: whether it is done, the bytes it gets,
  and what is left.  It stops after a newline and before a control-D, which it takes only if it
  has got nothing yet.
\<close>

fun take_line :: "nat \<Rightarrow> bool \<Rightarrow> uchar list \<Rightarrow> bool \<times> uchar list \<times> uchar list" where
  "take_line 0 started rd = (True, [], rd)"
| "take_line (Suc k) started [] = (False, [], [])"
| "take_line (Suc k) started (c # rd) =
     (if c = 4 then (True, [], if started then c # rd else rd)
      else if c = 10 then (True, [c], rd)
      else case take_line k True rd of (dn, bs, lf) \<Rightarrow> (dn, c # bs, lf))"

lemma lines_next:
  assumes "in_ok s" "in_r s \<noteq> in_w s"
  defines "t \<equiv> s\<lparr>in_r := in_r s + 1\<rparr>"
  shows "fst (lines s) = in_buf s (unat (in_r s) mod INPUT_BUF) # fst (lines t)" "snd (lines t) = snd (lines s)" "in_ok t"
proof -
  define a where "a = unat (in_w s - in_r s) - 1"
  have ne: "in_w s - in_r s \<noteq> 0"
    using assms(2) by simp
  have a: "unat (in_w s - in_r s) = 1 + a" "unat (in_w s - (in_r s + 1)) = a"
    unfolding diff_diff_eq [symmetric] using unat_minus_one [OF ne] ne by (simp_all add: a_def unat_gt_0)
  show "fst (lines s) = in_buf s (unat (in_r s) mod INPUT_BUF) # fst (lines t)"
    unfolding lines_def a(1) ring_append using a(2) by (simp add: t_def in_ring_def)
  show s: "snd (lines t) = snd (lines s)"
    by (simp add: lines_def t_def in_ring_def)
  show "in_ok t"
    using assms(1) a s by (simp add: in_ok_def t_def)
qed

lemma ready_empty: "in_r s = in_w s \<longleftrightarrow> fst (lines s) = []"
  by (auto simp: lines_def in_ring_def unat_eq_0)

lemma console_copy_ok:
  assumes "in_ok s" "take_line k started (fst (lines s)) = (dn, bs, lf)"
  shows "\<exists>r. console_copy k started acc s = (dn, acc @ bs, s\<lparr>in_r := r\<rparr>) \<and>
    lines (s\<lparr>in_r := r\<rparr>) = (lf, snd (lines s)) \<and> in_ok (s\<lparr>in_r := r\<rparr>)"
  using assms
proof (induction k arbitrary: started acc s bs)
  case 0
  then show ?case
    by (intro exI [of _ "in_r s"]) auto
next
  case (Suc k)
  show ?case
  proof (cases "in_r s = in_w s")
    case True
    then have e: "fst (lines s) = []" and c: "console_copy (Suc k) started acc s = (False, acc, s)"
      using ready_empty [of s] by simp_all
    then have "dn = False" "bs = []" "lf = []"
      using Suc.prems(2) by simp_all
    moreover have "lines s = ([], snd (lines s))"
      using e by (metis prod.collapse)
    ultimately show ?thesis
      using c Suc.prems(1) by (intro exI [of _ "in_r s"]) simp
  next
    case False
    let ?s = "s\<lparr>in_r := in_r s + 1\<rparr>" and ?c = "in_buf s (unat (in_r s) mod INPUT_BUF)"
    note n = lines_next [OF Suc.prems(1) False]
    have D: "unat ?c = 4 \<longleftrightarrow> ?c = 4"
      by (simp add: word_unat_eq_iff)
    consider "?c = 4" | "?c = 10" | "?c \<noteq> 4" "?c \<noteq> 10"
      by blast
    then show ?thesis
    proof cases
      case 1
      then show ?thesis
        using Suc.prems False n D
        by (intro exI [of _ "if started then in_r s else in_r s + 1"]) (auto simp: Let_def prod_eq_iff)
    next
      case 2
      then show ?thesis
        using Suc.prems False n D by (intro exI [of _ "in_r s + 1"]) (auto simp: Let_def prod_eq_iff)
    next
      case 3
      obtain bs' where b: "take_line k True (fst (lines ?s)) = (dn, bs', lf)" "bs = ?c # bs'"
        using Suc.prems(2) 3 n(1) by (auto split: prod.splits)
      obtain r where "console_copy k True (acc @ [?c]) ?s = (dn, (acc @ [?c]) @ bs', ?s\<lparr>in_r := r\<rparr>)"
        "lines (?s\<lparr>in_r := r\<rparr>) = (lf, snd (lines ?s))" "in_ok (?s\<lparr>in_r := r\<rparr>)"
        using Suc.IH [OF n(3) b(1)] by blast
      then show ?thesis
        using 3 D False b(2) n(2) by (intro exI [of _ r]) (simp add: Let_def)
    qed
  qed
qed

lemma con_sleep:
  assumes "con b s" "runs me b"
  obtains t where "sleep InputAddr (Some ConsLock) s = Inr t" "state (ptab t me) = SLEEPING" "pchan (ptab t me) = InputAddr"
    "lock_free ConsLock t" "lines t = lines s"
proof -
  have i: "insec ConsLock b s"
    using assms(1) by (simp add: con_def)
  obtain t where t: "sleep InputAddr (Some ConsLock) s = Inr t" "state (ptab t me) = SLEEPING" "pchan (ptab t me) = InputAddr"
    "lock_free ConsLock t" "holding PtableLock t" "ptable.more t = ptable.more s"
    by (rule insec_sleep [OF i _ assms(2), of InputAddr]) simp
  note m = kern_more [OF t(6)]
  show ?thesis
    using that t lines_cong(1) [OF m(1-4)] by blast
qed

text \<open>
  C29. \<open>consoleread\<close> delivers lines.  With the inode of the console locked, a read of \<open>n\<close> bytes gives
  the bytes of the committed input up to and including the first newline, but not beyond \<open>n\<close> bytes
  or a control-D, which is taken as the end of file only when nothing precedes it; the bytes not
  taken, and the line being edited, stay.  Without a complete answer the process sleeps with the
  lock of the console given up, or gets -1 when it has been killed.  The inode is locked again on
  every return.
\<close>

theorem consoleread_line:
  fixes s :: "'a kern_scheme"
  assumes q: "quiet s" and me: "runs me s" and scr: "on_screen s" "\<not> panicked s" "in_ok s"
    and ip: "i_busy (icache s ip)" "1 \<le> i_ref (icache s ip)" "i_valid (icache s ip)"
    and n: "take_line (nat (sint n)) False (fst (lines s)) = (dn, bs, lf)"
  shows "if dn then \<exists>t. consoleread ip n s = Inr (PRet (int (length bs)), bs, t) \<and> quiet t \<and>
           lines t = (lf, snd (lines s)) \<and> i_busy (icache t ip)
         else if killed (ptab s me) then \<exists>t. consoleread ip n s = Inr (PRet (- 1), bs, t) \<and> quiet t \<and>
           lines t = (lf, snd (lines s)) \<and> i_busy (icache t ip)
         else \<exists>t. consoleread ip n s = Inr (PSlept (length bs), bs, t) \<and> state (ptab t me) = SLEEPING \<and>
           pchan (ptab t me) = InputAddr \<and> lock_free ConsLock t \<and> lines t = (lf, snd (lines s))"
proof -
  obtain u where u: "iunlock ip s = Inr u" "follows s u"
    "ptable.more u = ptable.more (upd_inode ip (\<lambda>x. x\<lparr>i_busy := False\<rparr>) s)"
    using iunlock_ok [OF q ip(1,2)] by metis
  have uq: "quiet u" "runs me u"
    using follows_quiet [OF u(2)] runs_follows [OF u(2) me] .
  note m = kern_more [OF u(3)]
  have up: "in_buf u = in_buf s" "in_r u = in_r s" "in_w u = in_w s" "in_e u = in_e s" "on_screen u" "\<not> panicked u"
    "icache u ip = (icache s ip)\<lparr>i_busy := False\<rparr>"
    using m scr by (simp_all add: upd_inode_def on_screen_def)
  note lu = lines_cong [OF up(1-4)]
  have oku: "in_ok u"
    using lu(2) scr(3) by simp
  note e = con_enter [OF uq(1) up(5,6) oku]
  let ?a = "acquired ConsLock u"
  have oka: "in_ok ?a"
    using e(1) by (simp add: con_def)
  obtain r where r: "console_copy (nat (sint n)) False [] ?a = (dn, bs, ?a\<lparr>in_r := r\<rparr>)"
    "lines (?a\<lparr>in_r := r\<rparr>) = (lf, snd (lines s))" "in_ok (?a\<lparr>in_r := r\<rparr>)"
    using console_copy_ok [OF oka, of "nat (sint n)" False dn bs lf "[]"] n e(2) lu(1) by auto
  let ?t = "?a\<lparr>in_r := r\<rparr>"
  have ct: "con u ?t"
    using e(1) r(3) insec_upper [of ConsLock u ?a ?t] by (simp add: con_def on_screen_def ptable.truncate_def)
  have run: "consoleread ip n s = consoleread_from ip [] n ?a"
    using u(1) insec_enter(1) [OF uq(1)] by (simp add: consoleread_def)
  have "insec ConsLock u ?t"
    using ct by (simp add: con_def)
  then obtain v where v: "release ConsLock ?t = Inr v" "follows u v" "ptable.more v = ptable.more ?t"
    by (rule insec_leave)
  note mv = kern_more [OF v(3)]
  have iv: "icache v ip = (icache s ip)\<lparr>i_busy := False\<rparr>"
    using mv(11) up(7) kern_more(11) [OF insec_enter(3) [OF uq(1)], of ConsLock] by simp
  then have "\<not> i_busy (icache v ip)" "1 \<le> i_ref (icache v ip)" "i_valid (icache v ip)"
    using ip(2,3) by simp_all
  then obtain w where w: "ilock ip v = Inr w" "follows v w"
    "ptable.more w = ptable.more (upd_inode ip (\<lambda>x. x\<lparr>i_busy := True\<rparr>) v)"
    using ilock_ok [OF follows_quiet [OF v(2)], of ip] by metis
  note mw = kern_more [OF w(3)]
  have "in_buf w = in_buf ?t" "in_r w = in_r ?t" "in_w w = in_w ?t" "in_e w = in_e ?t"
    using mw(1-4) mv(1-4) by (simp_all add: upd_inode_def)
  then have lw: "lines w = (lf, snd (lines s))"
    using lines_cong(1) r(2) by metis
  have bw: "i_busy (icache w ip)"
    using mw(11) by (simp add: upd_inode_def)
  have p: "cproc (mycpu ?t) = Some me" "killed (ptab ?t me) = killed (ptab s me)"
  proof -
    show "cproc (mycpu ?t) = Some me"
      using uq(2) by (simp add: runs_def mycpu_def)
    have "core (ptab u me) = core (ptab s me)"
      using u(2) by (simp add: follows_def tab_sim_def)
    then have "killed (ptab u me) = killed (ptab s me)"
      by (rule core_sel(9))
    then show "killed (ptab ?t me) = killed (ptab s me)"
      using e(3) by simp
  qed
  show ?thesis
  proof (cases "dn \<or> killed (ptab s me)")
    case True
    then have "consoleread ip n s = Inr (PRet (if dn then int (length bs) else - 1), bs, w)"
      unfolding run consoleread_from_def using r(1) v(1) w(1) p by (auto simp: with_proc_def)
    then show ?thesis
      using True follows_quiet [OF w(2)] lw bw by auto
  next
    case False
    obtain x where x: "sleep InputAddr (Some ConsLock) ?t = Inr x" "state (ptab x me) = SLEEPING"
      "pchan (ptab x me) = InputAddr" "lock_free ConsLock x" "lines x = lines ?t"
      by (rule con_sleep [OF ct uq(2)])
    have "consoleread ip n s = Inr (PSlept (length bs), bs, x)"
      unfolding run consoleread_from_def using r(1) x(1) p False by (simp add: with_proc_def)
    then show ?thesis
      using False x(2-5) r(2) by simp
  qed
qed

section \<open>Witnesses\<close>

text \<open>A state whose input indices are about to wrap around.\<close>

definition demo_kern :: kern where
  "demo_kern = filest.extend demo_file
     (kern.fields (\<lambda>_ _. 0) True False [] (\<lambda>_. 0) 1919 (\<lambda>i. if i = 126 then 104 else if i = 127 then 105 else 10)
        (- 2) (- 2) (- 2) True 0)"

lemma demo_kern_sel:
  "cga_pos demo_kern = 1919" "panicked demo_kern = False" "cons_locking demo_kern = True" "uart demo_kern = []"
  "in_buf demo_kern = (\<lambda>i. if i = 126 then 104 else if i = 127 then 105 else 10)"
  "in_r demo_kern = - 2" "in_w demo_kern = - 2" "in_e demo_kern = - 2" "umem demo_kern = (\<lambda>_ _. 0)"
  "ptable.truncate demo_kern = ptable.truncate demo_file" "filest.truncate demo_kern = demo_file"
  by (simp_all add: demo_kern_def filest.extend_def kern.fields_def ptable.truncate_def filest.truncate_def)

lemma demo_kern_ok: "quiet demo_kern" "runs 0 demo_kern" "on_screen demo_kern" "in_ok demo_kern" "lines demo_kern = ([], [])"
proof -
  show "quiet demo_kern" "runs 0 demo_kern"
    using demo_file_ok(1,2) demo_kern_sel(10) quiet_truncate runs_truncate by metis+
  show "on_screen demo_kern" "in_ok demo_kern" "lines demo_kern = ([], [])"
    by (simp_all add: on_screen_def SCREEN_def in_ok_def lines_def in_ring_def demo_kern_sel)
qed

theorem cprintf_prints_witness:
  "\<exists>t. cprintf ''x=%d\<newline>'' [AInt (- 5)] demo_kern = Inr t \<and> uart t = bytes ''x=-5\<newline>'' \<and> on_screen t \<and> quiet t"
proof -
  have "cprintf_text ''x=%d\<newline>'' [AInt (- 5)] = Some ''x=-5\<newline>''"
    by code_simp
  from cprintf_prints [OF demo_kern_ok(3) _ this demo_kern_ok(1)] show ?thesis
    by (auto simp: demo_kern_sel)
qed

theorem consoleintr_edits_lines_witness:
  "\<exists>t. consoleintr (\<lambda>_. []) [97, 8, 98, 99, 13, 100] demo_kern = Inr t \<and> lines t = ([98, 99, 10], [100]) \<and>
     awake InputAddr t"
proof -
  have "\<forall>c\<in>set [97, 8, 98, 99, 13, 100]. c < 256 \<and> \<not> listing_key c"
    by (simp add: listing_key_iff)
  from consoleintr_edits_lines [OF demo_kern_ok(1,3) _ demo_kern_ok(4) this, of "\<lambda>_. []"]
  obtain t where t: "consoleintr (\<lambda>_. []) [97, 8, 98, 99, 13, 100] demo_kern = Inr t"
    "lines t = fold line_char [97, 8, 98, 99, 13, 100] (lines demo_kern)"
    "fst (lines t) \<noteq> fst (lines demo_kern) \<longrightarrow> awake InputAddr t"
    by (auto simp: demo_kern_sel)
  moreover have "fold line_char [97, 8, 98, 99, 13, 100] ([], []) = ([98, 99, 10], [100])"
    by (simp add: line_char_def listing_key_iff INPUT_BUF_def)
  ultimately show ?thesis
    using demo_kern_ok(5) by simp
qed

theorem consoleread_line_witness:
  "\<exists>(s :: kern) t. consoleread 0 10 s = Inr (PRet 3, [104, 105, 10], t) \<and> lines s = ([104, 105, 10, 10], []) \<and>
     lines t = ([10], []) \<and> i_busy (icache t 0)"
proof -
  let ?s = "upd_inode 0 (\<lambda>x. x\<lparr>i_ref := 1, i_busy := True, i_valid := True\<rparr>) (demo_kern\<lparr>in_w := 2, in_e := 2\<rparr>)"
  have tr: "ptable.truncate ?s = ptable.truncate demo_kern"
    by (simp add: ptable.truncate_def upd_inode_def)
  have q: "quiet ?s" "runs 0 ?s"
    using demo_kern_ok(1,2) tr quiet_truncate runs_truncate by metis+
  have f: "in_r ?s = - 2" "in_w ?s = 2" "in_e ?s = 2" "in_buf ?s = in_buf demo_kern" "cga_pos ?s = cga_pos demo_kern"
    "panicked ?s = panicked demo_kern"
    by (simp_all add: upd_inode_def demo_kern_sel)
  have l: "lines ?s = ([104, 105, 10, 10], [])"
    by (simp add: lines_def in_ring_def f demo_kern_sel INPUT_BUF_def upt_rec)
  have ok: "on_screen ?s" "\<not> panicked ?s" "in_ok ?s"
    using demo_kern_ok(3) l by (simp_all add: on_screen_def f demo_kern_sel in_ok_def INPUT_BUF_def)
  have tk: "take_line (nat (sint (10 :: uint))) False (fst (lines ?s)) = (True, [104, 105, 10], [10])"
  proof -
    have n: "nat (sint (10 :: uint)) = Suc (Suc (Suc 7))"
      by simp
    show ?thesis
      unfolding l n fst_conv take_line.simps by simp
  qed
  have i: "i_busy (icache ?s 0)" "1 \<le> i_ref (icache ?s 0)" "i_valid (icache ?s 0)"
    by simp_all
  show ?thesis
    using consoleread_line [OF q ok i tk] l by auto
qed

end
