(* ===== verification/ProcLife.thy ===== *)
theory ProcLife
  imports ProcShow
begin

text \<open>
  The life of a process from end to end, over the file system: \<open>userinit\<close>, \<open>fork\<close>, \<open>exit\<close> and
  \<open>forkret\<close> of proc.c.  The parts that touch only the process table are in ProcTable.
\<close>

definition SEG_UCODE :: uint where "SEG_UCODE = 4"
definition SEG_UDATA :: uint where "SEG_UDATA = 5"
definition DPL_USER :: uint where "DPL_USER = 3"
definition FL_IF :: uint where "FL_IF = 0x200"

definition user_tf :: trapframe where
  "user_tf = \<lparr>tf_eax = 0, tf_esp = PGSIZE, tf_eip = 0, tf_cs = push_bit 3 SEG_UCODE OR DPL_USER,
     tf_ds = push_bit 3 SEG_UDATA OR DPL_USER, tf_es = push_bit 3 SEG_UDATA OR DPL_USER,
     tf_ss = push_bit 3 SEG_UDATA OR DPL_USER, tf_eflags = FL_IF, tf_trapno = 0, tf_err = 0\<rparr>"

text \<open>The last section of \<open>userinit\<close>: it makes the list of priority 0 the new process alone.\<close>

definition userinit_publish :: "nat \<Rightarrow> 'a ptable_scheme \<Rightarrow> 'a ptable_scheme res" where
  "userinit_publish p s =
     Rbind (acquire PtableLock s) (\<lambda>s.
     Rbind (unlink p EMBRYO PEmbryo ''Error removing from embryo list'' s) (\<lambda>s.
     let s = set_head (PReady 0) (Some p) (set_state p RUNNABLE s) in
     release PtableLock (upd_proc p (\<lambda>x. x\<lparr>pnext := None\<rparr>) s)))"

definition userinit :: "'a kern_scheme vmops \<Rightarrow> 'a kern_scheme \<Rightarrow> 'a kern_scheme res" where
  "userinit vm s =
     Rbind (init_lists s) (\<lambda>s.
     Rbind (allocproc s) (\<lambda>(q, s).
     let s = s\<lparr>initproc := q\<rparr> in
     case q of
       None \<Rightarrow> Inl Fault
     | Some p \<Rightarrow>
         let s = upd_proc p (\<lambda>x. x\<lparr>uid := DEFUID, gid := DEFGID\<rparr>) s in
         Rbind (setupkvm vm s) (\<lambda>(pd, s).
         let s = upd_proc p (\<lambda>x. x\<lparr>pgdir := pd\<rparr>) s in
         if pd = 0 then Inl (Panic ''userinit: out of memory?'')
         else
           Rbind (inituvm vm pd s) (\<lambda>s.
           let s = upd_proc p (\<lambda>x. x\<lparr>sz := PGSIZE, tf := user_tf, pname := ''initcode''\<rparr>) s in
           Rbind (namei devtab [SLASH] s) (\<lambda>(ip, s).
           userinit_publish p (upd_proc p (\<lambda>x. x\<lparr>cwd := ip\<rparr>) s))))))"

text \<open>The descriptors a child gets: a reference of its own to each open file of its parent.\<close>

fun dup_files :: "nat \<Rightarrow> nat \<Rightarrow> nat list \<Rightarrow> 'a filest_scheme \<Rightarrow> 'a filest_scheme res" where
  "dup_files me np [] s = Inr s"
| "dup_files me np (i # is) s =
     (case ofile (ptab s me) i of
        None \<Rightarrow> dup_files me np is s
      | Some f \<Rightarrow>
          Rbind (filedup f s) (\<lambda>s.
          dup_files me np is (upd_proc np (\<lambda>x. x\<lparr>ofile := (ofile x)(i := Some f)\<rparr>) s)))"

definition fork_copy :: "nat \<Rightarrow> nat \<Rightarrow> 'a ptable_scheme \<Rightarrow> 'a ptable_scheme" where
  "fork_copy me np s =
     upd_proc np (\<lambda>x. x\<lparr>sz := sz (ptab s me), parent := Some me, tf := (tf (ptab s me))\<lparr>tf_eax := 0\<rparr>,
       uid := uid (ptab s me), gid := gid (ptab s me)\<rparr>) s"

definition fork :: "uint \<Rightarrow> 'a kern_scheme vmops \<Rightarrow> 'a kern_scheme \<Rightarrow> (int \<times> 'a kern_scheme) res" where
  "fork kend vm s =
     Rbind (allocproc s) (\<lambda>(q, s).
     case q of
       None \<Rightarrow> Inr (- 1, s)
     | Some np \<Rightarrow>
         with_proc (\<lambda>me s.
           Rbind (copyuvm vm (pgdir (ptab s me)) (sz (ptab s me)) s) (\<lambda>(pd, s).
           let s = upd_proc np (\<lambda>x. x\<lparr>pgdir := pd\<rparr>) s in
           if pd = 0 then
             Rbind (kfree kend (kstack (ptab s np)) s) (\<lambda>s.
             Rbind (free_embryo np (upd_proc np (\<lambda>x. x\<lparr>kstack := 0\<rparr>) s)) (\<lambda>s. Inr (- 1, s)))
           else
             Rbind (dup_files me np [0..<NOFILE] (fork_copy me np s)) (\<lambda>s.
             case cwd (ptab s me) of
               None \<Rightarrow> Inl Fault
             | Some d \<Rightarrow>
                 Rbind (idup d s) (\<lambda>(d, s).
                 let s = upd_proc np (\<lambda>x. x\<lparr>cwd := Some d, pname := pname (ptab s me)\<rparr>) s;
                     n = sint (pid (ptab s np)) in
                 Rbind (fork_publish np s) (\<lambda>s. Inr (n, s)))))) s)"

fun close_files :: "uint \<Rightarrow> nat \<Rightarrow> nat list \<Rightarrow> 'a filest_scheme \<Rightarrow> 'a filest_scheme res" where
  "close_files kend me [] s = Inr s"
| "close_files kend me (fd # fds) s =
     (case ofile (ptab s me) fd of
        None \<Rightarrow> close_files kend me fds s
      | Some f \<Rightarrow>
          Rbind (fileclose kend f s) (\<lambda>s.
          close_files kend me fds (upd_proc me (\<lambda>x. x\<lparr>ofile := (ofile x)(fd := None)\<rparr>) s)))"

definition exit :: "uint \<Rightarrow> 'a filest_scheme \<Rightarrow> 'a filest_scheme res" where
  "exit kend s =
     with_proc (\<lambda>me s.
       if Some me = initproc s then Inl (Panic ''init exiting'')
       else
         Rbind (close_files kend me [0..<NOFILE] s) (\<lambda>s.
         Rbind (begin_op s) (\<lambda>s.
         case cwd (ptab s me) of
           None \<Rightarrow> Inl Fault
         | Some d \<Rightarrow>
             Rbind (iput d s) (\<lambda>s.
             Rbind (end_op s) (\<lambda>s.
             exit_locked (upd_proc me (\<lambda>x. x\<lparr>cwd := None\<rparr>) s)))))) s"

definition forkret :: "'a kern_scheme \<Rightarrow> 'a kern_scheme res" where
  "forkret s =
     Rbind (release PtableLock s) (\<lambda>s.
     if first_ret s then Rbind (iinit ROOTDEV (s\<lparr>first_ret := False\<rparr>)) (initlog ROOTDEV)
     else Inr s)"

end
