(* ===== verification/Syscall.thy ===== *)
theory Syscall
  imports ProcLife
begin

text \<open>
  syscall.c and sysproc.c: fetching the arguments of a system call from user memory, and the calls
  on processes.  A fetch that fails gives \<open>None\<close>, where the code returns -1.  The result of a call is
  the value for the user's \<open>%eax\<close>, or \<open>Switched\<close> when the process has gone to sleep or exited
  inside the call.
\<close>

section \<open>Arguments\<close>

definition user_mem :: "nat \<Rightarrow> 'a kern_scheme \<Rightarrow> mem" where
  "user_mem p s = umem s (pgdir (ptab s p))"

definition fetchint :: "uint \<Rightarrow> 'a kern_scheme \<Rightarrow> uint option res" where
  "fetchint addr =
     with_proc (\<lambda>p s.
       if sz (ptab s p) \<le> addr \<or> sz (ptab s p) < addr + 4 then Inr None
       else Inr (Some (get32 (at (user_mem p s) addr) 0)))"

text \<open>The bytes of the string; their number is what the code returns.\<close>

definition fetchstr :: "uint \<Rightarrow> 'a kern_scheme \<Rightarrow> uchar list option res" where
  "fetchstr addr =
     with_proc (\<lambda>p s.
       if sz (ptab s p) \<le> addr then Inr None
       else
         let bs = map (at (user_mem p s) addr) [0..<unat (sz (ptab s p) - addr)] in
         if 0 \<in> set bs then Inr (Some (takeWhile (\<lambda>c. c \<noteq> 0) bs)) else Inr None)"

definition argint :: "nat \<Rightarrow> 'a kern_scheme \<Rightarrow> uint option res" where
  "argint n = with_proc (\<lambda>p s. fetchint (tf_esp (tf (ptab s p)) + 4 + 4 * of_nat n) s)"

definition argptr :: "nat \<Rightarrow> int \<Rightarrow> 'a kern_scheme \<Rightarrow> uint option res" where
  "argptr n len s =
     Rbind (argint n s) (\<lambda>r.
     case r of
       None \<Rightarrow> Inr None
     | Some i \<Rightarrow>
         with_proc (\<lambda>p s.
           if sz (ptab s p) \<le> i \<or> sz (ptab s p) < i + of_int len then Inr None else Inr (Some i)) s)"

definition argstr :: "nat \<Rightarrow> 'a kern_scheme \<Rightarrow> uchar list option res" where
  "argstr n s = Rbind (argint n s) (\<lambda>r. case r of None \<Rightarrow> Inr None | Some addr \<Rightarrow> fetchstr addr s)"

text \<open>Storing bytes at an address of the current process.\<close>

definition put_user :: "uint \<Rightarrow> uchar list \<Rightarrow> 'a kern_scheme \<Rightarrow> 'a kern_scheme res" where
  "put_user addr bs =
     with_proc (\<lambda>p s.
       let pd = pgdir (ptab s p); m = umem s pd in
       Inr (s\<lparr>umem := (umem s)(pd := (\<lambda>a. if unat (a - addr) < length bs then bs ! unat (a - addr) else m a))\<rparr>))"

section \<open>Results\<close>

datatype sysres = SRet uint | Switched

definition needs :: "'b option res \<Rightarrow> 's \<Rightarrow> ('b \<Rightarrow> (sysres \<times> 's) res) \<Rightarrow> (sysres \<times> 's) res" where
  "needs m s f = Rbind m (\<lambda>r. case r of None \<Rightarrow> Inr (SRet (- 1), s) | Some x \<Rightarrow> f x)"

definition returns :: "(int \<times> 's) res \<Rightarrow> (sysres \<times> 's) res" where
  "returns m = Rbind m (\<lambda>(r, s). Inr (SRet (of_int r), s))"

section \<open>sysproc.c\<close>

definition sys_fork :: "uint \<Rightarrow> 'a kern_scheme vmops \<Rightarrow> 'a kern_scheme \<Rightarrow> (sysres \<times> 'a kern_scheme) res" where
  "sys_fork kend vm s = returns (fork kend vm s)"

definition sys_exit :: "uint \<Rightarrow> 'a kern_scheme \<Rightarrow> (sysres \<times> 'a kern_scheme) res" where
  "sys_exit kend s = Rbind (exit kend s) (\<lambda>s. Inr (Switched, s))"

definition sys_wait :: "uint \<Rightarrow> 'a kern_scheme vmops \<Rightarrow> 'a kern_scheme \<Rightarrow> (sysres \<times> 'a kern_scheme) res" where
  "sys_wait kend vm s =
     Rbind (wait kend vm s) (\<lambda>(r, s). Inr (case r of WaitRet n \<Rightarrow> SRet (of_int n) | WaitSlept \<Rightarrow> Switched, s))"

definition sys_kill :: "'a kern_scheme \<Rightarrow> (sysres \<times> 'a kern_scheme) res" where
  "sys_kill s = needs (argint 0 s) s (\<lambda>n. returns (kill n s))"

definition sys_getpid :: "'a kern_scheme \<Rightarrow> (sysres \<times> 'a kern_scheme) res" where
  "sys_getpid = with_proc (\<lambda>p s. Inr (SRet (pid (ptab s p)), s))"

definition sys_sbrk :: "'a kern_scheme vmops \<Rightarrow> 'a kern_scheme \<Rightarrow> (sysres \<times> 'a kern_scheme) res" where
  "sys_sbrk vm s =
     needs (argint 0 s) s (\<lambda>n.
     with_proc (\<lambda>p s.
       let addr = sz (ptab s p) in
       Rbind (growproc vm (sint n) s) (\<lambda>(r, s).
       Inr (SRet (if r < 0 then - 1 else addr), s))) s)"

text \<open>One turn of the loop of \<open>sys_sleep\<close>, which ends, or sleeps until the next tick.\<close>

definition sys_sleep_from :: "uint \<Rightarrow> uint \<Rightarrow> 'a kern_scheme \<Rightarrow> (sysres \<times> 'a kern_scheme) res" where
  "sys_sleep_from n ticks0 s =
     (if ticks s - ticks0 < n then
        with_proc (\<lambda>p s.
          if killed (ptab s p) then Inr (SRet (- 1), s)
          else Rbind (sleep TicksAddr None s) (\<lambda>s. Inr (Switched, s))) s
      else Inr (SRet 0, s))"

definition sys_sleep :: "'a kern_scheme \<Rightarrow> (sysres \<times> 'a kern_scheme) res" where
  "sys_sleep s = needs (argint 0 s) s (\<lambda>n. sys_sleep_from n (ticks s) s)"

definition sys_sleep_resume :: "uint \<Rightarrow> uint \<Rightarrow> bool \<Rightarrow> 'a kern_scheme \<Rightarrow> (sysres \<times> 'a kern_scheme) res" where
  "sys_sleep_resume n ticks0 ie s = Rbind (sleep_resume ie None s) (sys_sleep_from n ticks0)"

definition sys_uptime :: "'a kern_scheme \<Rightarrow> (sysres \<times> 'a kern_scheme) res" where
  "sys_uptime s = Inr (SRet (ticks s), s)"

definition sys_halt :: "'a kern_scheme \<Rightarrow> (sysres \<times> 'a kern_scheme) res" where
  "sys_halt s = Rbind (cprintf ''Shutting down ...\<newline>'' [] s) (\<lambda>s. Inr (SRet 0, s))"

text \<open>The clock chip, lapic.c's \<open>cmostime\<close>, is an argument: the bytes of the date it gives.\<close>

definition sys_date :: "uchar list \<Rightarrow> 'a kern_scheme \<Rightarrow> (sysres \<times> 'a kern_scheme) res" where
  "sys_date date s = needs (argptr 0 24 s) s (\<lambda>d. Rbind (put_user d date s) (\<lambda>s. Inr (SRet 0, s)))"

definition sys_getuid :: "'a kern_scheme \<Rightarrow> (sysres \<times> 'a kern_scheme) res" where
  "sys_getuid = with_proc (\<lambda>p s. Inr (SRet (uid (ptab s p)), s))"

definition sys_getgid :: "'a kern_scheme \<Rightarrow> (sysres \<times> 'a kern_scheme) res" where
  "sys_getgid = with_proc (\<lambda>p s. Inr (SRet (gid (ptab s p)), s))"

definition sys_getppid :: "'a kern_scheme \<Rightarrow> (sysres \<times> 'a kern_scheme) res" where
  "sys_getppid =
     with_proc (\<lambda>p s.
       if pid (ptab s p) = 1 then Inr (SRet (pid (ptab s p)), s)
       else if pid (ptab s p) < 1 then Inr (SRet (- 1), s)
       else (case parent (ptab s p) of None \<Rightarrow> Inl Fault | Some q \<Rightarrow> Inr (SRet (pid (ptab s q)), s)))"

definition sys_setuid :: "'a kern_scheme \<Rightarrow> (sysres \<times> 'a kern_scheme) res" where
  "sys_setuid s =
     needs (argint 0 s) s (\<lambda>u.
     if sint u < 0 \<or> 32767 < sint u then Inr (SRet (- 1), s)
     else with_proc (\<lambda>p s. Inr (SRet 0, upd_proc p (\<lambda>x. x\<lparr>uid := u\<rparr>) s)) s)"

definition sys_setgid :: "'a kern_scheme \<Rightarrow> (sysres \<times> 'a kern_scheme) res" where
  "sys_setgid s =
     needs (argint 0 s) s (\<lambda>g.
     if sint g < 0 \<or> 32767 < sint g then Inr (SRet (- 1), s)
     else with_proc (\<lambda>p s. Inr (SRet 0, upd_proc p (\<lambda>x. x\<lparr>gid := g\<rparr>) s)) s)"

definition sys_getprocs :: "'a kern_scheme \<Rightarrow> (sysres \<times> 'a kern_scheme) res" where
  "sys_getprocs s =
     needs (argint 0 s) s (\<lambda>mx.
     needs (argptr 1 (int UPROC_SIZE) s) s (\<lambda>a.
     with_proc (\<lambda>p s.
       Rbind (getprocs (sint mx) (at (user_mem p s) a) s) (\<lambda>(n, d, s).
       Rbind (put_user a (map d [0..<UPROC_SIZE * nat n]) s) (\<lambda>s. Inr (SRet (of_int n), s)))) s))"

definition sys_setpriority :: "'a kern_scheme \<Rightarrow> (sysres \<times> 'a kern_scheme) res" where
  "sys_setpriority s =
     needs (argint 0 s) s (\<lambda>n. needs (argint 1 s) s (\<lambda>pr. returns (setpriority n (sint pr) s)))"

end
