(* ===== verification/SysFile.thy ===== *)
theory SysFile
  imports Syscall
begin

text \<open>
  sysfile.c: the system calls on files.  A path buffer \<open>name\<close> that \<open>nameiparent\<close> fills starts with
  zeros.  The labels \<open>bad\<close> of the code are definitions of their own.
\<close>

definition O_RDONLY :: uint where "O_RDONLY = 0x000"
definition O_WRONLY :: uint where "O_WRONLY = 0x001"
definition O_RDWR :: uint where "O_RDWR = 0x002"
definition O_CREATE :: uint where "O_CREATE = 0x200"

definition argfd :: "nat \<Rightarrow> 'a kern_scheme \<Rightarrow> (nat \<times> nat) option res" where
  "argfd n s =
     Rbind (argint n s) (\<lambda>r.
     case r of
       None \<Rightarrow> Inr None
     | Some fd \<Rightarrow>
         if sint fd < 0 \<or> int NOFILE \<le> sint fd then Inr None
         else with_proc (\<lambda>p s. Inr (map_option (\<lambda>f. (unat fd, f)) (ofile (ptab s p) (unat fd)))) s)"

definition set_ofile :: "nat \<Rightarrow> nat ptr \<Rightarrow> nat \<Rightarrow> 'a ptable_scheme \<Rightarrow> 'a ptable_scheme" where
  "set_ofile fd f p s = upd_proc p (\<lambda>x. x\<lparr>ofile := (ofile x)(fd := f)\<rparr>) s"

definition fdalloc :: "nat \<Rightarrow> 'a ptable_scheme \<Rightarrow> (nat option \<times> 'a ptable_scheme) res" where
  "fdalloc f =
     with_proc (\<lambda>p s.
       case find (\<lambda>fd. ofile (ptab s p) fd = None) [0..<NOFILE] of
         Some fd \<Rightarrow> Inr (Some fd, set_ofile fd (Some f) p s)
       | None \<Rightarrow> Inr (None, s))"

definition sys_dup :: "'a kern_scheme \<Rightarrow> (sysres \<times> 'a kern_scheme) res" where
  "sys_dup s =
     needs (argfd 0 s) s (\<lambda>(_, f).
     Rbind (fdalloc f s) (\<lambda>(r, s).
     case r of
       None \<Rightarrow> Inr (SRet (- 1), s)
     | Some fd \<Rightarrow> Rbind (filedup f s) (\<lambda>s. Inr (SRet (of_nat fd), s))))"

definition rw_result :: "piperes \<Rightarrow> sysres" where
  "rw_result r = (case r of PRet n \<Rightarrow> SRet (of_int n) | PSlept _ \<Rightarrow> Switched)"

definition sys_read :: "'a kern_scheme \<Rightarrow> (sysres \<times> 'a kern_scheme) res" where
  "sys_read s =
     needs (argfd 0 s) s (\<lambda>(_, f).
     needs (argint 2 s) s (\<lambda>n.
     needs (argptr 1 (sint n) s) s (\<lambda>p.
     Rbind (fileread devtab f n s) (\<lambda>(r, bs, s).
     Rbind (put_user p bs s) (\<lambda>s. Inr (rw_result r, s))))))"

definition sys_write :: "'a kern_scheme \<Rightarrow> (sysres \<times> 'a kern_scheme) res" where
  "sys_write s =
     needs (argfd 0 s) s (\<lambda>(_, f).
     needs (argint 2 s) s (\<lambda>n.
     needs (argptr 1 (sint n) s) s (\<lambda>p.
     with_proc (\<lambda>me s.
       Rbind (filewrite devtab f (at (user_mem me s) p) (sint n) s) (\<lambda>(r, s).
       Inr (rw_result r, s))) s)))"

definition sys_close :: "uint \<Rightarrow> 'a kern_scheme \<Rightarrow> (sysres \<times> 'a kern_scheme) res" where
  "sys_close kend s =
     needs (argfd 0 s) s (\<lambda>(fd, f).
     with_proc (\<lambda>p s.
       Rbind (fileclose kend f (set_ofile fd None p s)) (\<lambda>s. Inr (SRet 0, s))) s)"

text \<open>The bytes of \<open>struct stat\<close>, padding as it was.\<close>

definition STAT_SIZE :: nat where "STAT_SIZE = 28"

definition put_stat :: "stat \<Rightarrow> cbuf \<Rightarrow> cbuf" where
  "put_stat st d =
     put32 24 (st_mode st) (put16 22 (st_gid st) (put16 20 (st_uid st) (put32 16 (st_size st)
       (put16 12 (st_nlink st) (put16 0 (st_type st) (put32 8 (st_ino st) (put32 4 (st_dev st) d)))))))"

definition sys_fstat :: "'a kern_scheme \<Rightarrow> (sysres \<times> 'a kern_scheme) res" where
  "sys_fstat s =
     needs (argfd 0 s) s (\<lambda>(_, f).
     needs (argptr 1 (int STAT_SIZE) s) s (\<lambda>a.
     Rbind (filestat f s) (\<lambda>(r, s).
     case r of
       None \<Rightarrow> Inr (SRet (- 1), s)
     | Some st \<Rightarrow>
         with_proc (\<lambda>p s.
           Rbind (put_user a (map (put_stat st (at (user_mem p s) a)) [0..<STAT_SIZE]) s) (\<lambda>s. Inr (SRet 0, s))) s)))"

section \<open>Directories\<close>

definition ends :: "sysres \<Rightarrow> 'a kern_scheme \<Rightarrow> (sysres \<times> 'a kern_scheme) res" where
  "ends r s = Rbind (end_op s) (\<lambda>s. Inr (r, s))"

definition upd_nlink :: "nat \<Rightarrow> int \<Rightarrow> 'a fsst_scheme \<Rightarrow> 'a fsst_scheme" where
  "upd_nlink ip k s = upd_din ip (\<lambda>x. x\<lparr>d_nlink := d_nlink x + of_int k\<rparr>) s"

definition link_bad :: "nat \<Rightarrow> 'a kern_scheme \<Rightarrow> (sysres \<times> 'a kern_scheme) res" where
  "link_bad ip s =
     Rbind (ilock ip s) (\<lambda>s.
     Rbind (iupdate ip (upd_nlink ip (- 1) s)) (\<lambda>s.
     Rbind (iunlockput ip s) (ends (SRet (- 1)))))"

definition sys_link :: "'a kern_scheme \<Rightarrow> (sysres \<times> 'a kern_scheme) res" where
  "sys_link s =
     needs (argstr 0 s) s (\<lambda>old.
     needs (argstr 1 s) s (\<lambda>new.
     Rbind (begin_op s) (\<lambda>s.
     Rbind (namei devtab old s) (\<lambda>(r, s).
     case r of
       None \<Rightarrow> ends (SRet (- 1)) s
     | Some ip \<Rightarrow>
         Rbind (ilock ip s) (\<lambda>s.
         if d_type (din (icache s ip)) = T_DIR then Rbind (iunlockput ip s) (ends (SRet (- 1)))
         else
           Rbind (iupdate ip (upd_nlink ip 1 s)) (\<lambda>s.
           Rbind (iunlock ip s) (\<lambda>s.
           Rbind (nameiparent devtab new (\<lambda>_. 0) s) (\<lambda>(r, name, s).
           case r of
             None \<Rightarrow> link_bad ip s
           | Some dp \<Rightarrow>
               Rbind (ilock dp s) (\<lambda>s.
               Rbind (if i_dev (icache s dp) \<noteq> i_dev (icache s ip) then Inr (- 1, s)
                      else dirlink devtab dp name (i_inum (icache s ip)) s) (\<lambda>(r, s).
               if r < 0 then Rbind (iunlockput dp s) (link_bad ip)
               else
                 Rbind (iunlockput dp s) (\<lambda>s.
                 Rbind (iput ip s) (ends (SRet 0)))))))))))))"

fun isdirempty_from :: "nat \<Rightarrow> (nat \<Rightarrow> 'a fsst_scheme devsw) \<Rightarrow> nat \<Rightarrow> uint \<Rightarrow> 'a fsst_scheme \<Rightarrow> (bool \<times> 'a fsst_scheme) res" where
  "isdirempty_from 0 dv dp off s = Inl Diverge"
| "isdirempty_from (Suc k) dv dp off s =
     (if off < d_size (din (icache s dp)) then
        Rbind (readi dv dp off (of_nat DIRENT_SIZE) s) (\<lambda>(r, de, s).
        if r \<noteq> int DIRENT_SIZE then Inl (Panic ''isdirempty: readi'')
        else if dirent_inum de \<noteq> 0 then Inr (False, s)
        else isdirempty_from k dv dp (off + of_nat DIRENT_SIZE) s)
      else Inr (True, s))"

definition isdirempty :: "(nat \<Rightarrow> 'a fsst_scheme devsw) \<Rightarrow> nat \<Rightarrow> 'a fsst_scheme \<Rightarrow> (bool \<times> 'a fsst_scheme) res" where
  "isdirempty dv dp s =
     isdirempty_from (unat (d_size (din (icache s dp))) div DIRENT_SIZE + 2) dv dp (of_nat (2 * DIRENT_SIZE)) s"

definition unlink_bad :: "nat \<Rightarrow> 'a kern_scheme \<Rightarrow> (sysres \<times> 'a kern_scheme) res" where
  "unlink_bad dp s = Rbind (iunlockput dp s) (ends (SRet (- 1)))"

definition unlink_entry :: "nat \<Rightarrow> nat \<Rightarrow> uint \<Rightarrow> 'a kern_scheme \<Rightarrow> (sysres \<times> 'a kern_scheme) res" where
  "unlink_entry dp ip off s =
     Rbind (writei devtab dp (\<lambda>_. 0) off (of_nat DIRENT_SIZE) s) (\<lambda>(r, s).
     if r \<noteq> int DIRENT_SIZE then Inl (Panic ''unlink: writei'')
     else
       Rbind (if d_type (din (icache s ip)) = T_DIR then iupdate dp (upd_nlink dp (- 1) s) else Inr s) (\<lambda>s.
       Rbind (iunlockput dp s) (\<lambda>s.
       Rbind (iupdate ip (upd_nlink ip (- 1) s)) (\<lambda>s.
       Rbind (iunlockput ip s) (ends (SRet 0))))))"

definition DOT :: "uchar list" where "DOT = [46]"
definition DOTDOT :: "uchar list" where "DOTDOT = [46, 46]"

definition sys_unlink :: "'a kern_scheme \<Rightarrow> (sysres \<times> 'a kern_scheme) res" where
  "sys_unlink s =
     needs (argstr 0 s) s (\<lambda>path.
     Rbind (begin_op s) (\<lambda>s.
     Rbind (nameiparent devtab path (\<lambda>_. 0) s) (\<lambda>(r, name, s).
     case r of
       None \<Rightarrow> ends (SRet (- 1)) s
     | Some dp \<Rightarrow>
         Rbind (ilock dp s) (\<lambda>s.
         if namecmp name (cstr DOT) = 0 \<or> namecmp name (cstr DOTDOT) = 0 then unlink_bad dp s
         else
           Rbind (dirlookup devtab dp name s) (\<lambda>(r, s).
           case r of
             None \<Rightarrow> unlink_bad dp s
           | Some (ip, off) \<Rightarrow>
               Rbind (ilock ip s) (\<lambda>s.
               if sint (d_nlink (din (icache s ip))) < 1 then Inl (Panic ''unlink: nlink < 1'')
               else
                 Rbind (if d_type (din (icache s ip)) = T_DIR then isdirempty devtab ip s else Inr (True, s)) (\<lambda>(empty, s).
                 if \<not> empty then Rbind (iunlockput ip s) (unlink_bad dp)
                 else unlink_entry dp ip off s)))))))"

definition create_dots :: "nat \<Rightarrow> nat \<Rightarrow> 'a kern_scheme \<Rightarrow> 'a kern_scheme res" where
  "create_dots dp ip s =
     Rbind (iupdate dp (upd_nlink dp 1 s)) (\<lambda>s.
     Rbind (dirlink devtab ip (cstr DOT) (i_inum (icache s ip)) s) (\<lambda>(r, s).
     if r < 0 then Inl (Panic ''create dots'')
     else
       Rbind (dirlink devtab ip (cstr DOTDOT) (i_inum (icache s dp)) s) (\<lambda>(r, s).
       if r < 0 then Inl (Panic ''create dots'') else Inr s)))"

definition create :: "uchar list \<Rightarrow> ushort \<Rightarrow> ushort \<Rightarrow> ushort \<Rightarrow> 'a kern_scheme \<Rightarrow> (nat option \<times> 'a kern_scheme) res" where
  "create path ty mj mn s =
     Rbind (nameiparent devtab path (\<lambda>_. 0) s) (\<lambda>(r, name, s).
     case r of
       None \<Rightarrow> Inr (None, s)
     | Some dp \<Rightarrow>
         Rbind (ilock dp s) (\<lambda>s.
         Rbind (dirlookup devtab dp name s) (\<lambda>(r, s).
         case r of
           Some (ip, _) \<Rightarrow>
             Rbind (iunlockput dp s) (\<lambda>s.
             Rbind (ilock ip s) (\<lambda>s.
             if ty = T_FILE \<and> d_type (din (icache s ip)) = T_FILE then Inr (Some ip, s)
             else Rbind (iunlockput ip s) (\<lambda>s. Inr (None, s))))
         | None \<Rightarrow>
             Rbind (ialloc (i_dev (icache s dp)) ty s) (\<lambda>(ip, s).
             Rbind (ilock ip s) (\<lambda>s.
             Rbind (iupdate ip (upd_din ip (\<lambda>x. x\<lparr>d_major := mj, d_minor := mn, d_nlink := 1\<rparr>) s)) (\<lambda>s.
             Rbind (if ty = T_DIR then create_dots dp ip s else Inr s) (\<lambda>s.
             Rbind (dirlink devtab dp name (i_inum (icache s ip)) s) (\<lambda>(r, s).
             if r < 0 then Inl (Panic ''create: dirlink'')
             else Rbind (iunlockput dp s) (\<lambda>s. Inr (Some ip, s))))))))))"

section \<open>Opening\<close>

definition open_inode :: "uchar list \<Rightarrow> uint \<Rightarrow> 'a kern_scheme \<Rightarrow> (nat option \<times> 'a kern_scheme) res" where
  "open_inode path omode s =
     (if omode AND O_CREATE \<noteq> 0 then create path T_FILE 0 0 s
      else
        Rbind (namei devtab path s) (\<lambda>(r, s).
        case r of
          None \<Rightarrow> Inr (None, s)
        | Some ip \<Rightarrow>
            Rbind (ilock ip s) (\<lambda>s.
            if d_type (din (icache s ip)) = T_DIR \<and> omode \<noteq> O_RDONLY
            then Rbind (iunlockput ip s) (\<lambda>s. Inr (None, s))
            else Inr (Some ip, s))))"

definition open_fail :: "nat \<Rightarrow> 'a kern_scheme \<Rightarrow> (sysres \<times> 'a kern_scheme) res" where
  "open_fail ip s = Rbind (iunlockput ip s) (ends (SRet (- 1)))"

definition open_file :: "nat \<Rightarrow> uint \<Rightarrow> kfile \<Rightarrow> kfile" where
  "open_file ip omode x = x\<lparr>ftype := FD_INODE, fip := ip, foff := 0, readable := (omode AND O_WRONLY = 0),
     writable := (omode AND O_WRONLY \<noteq> 0 \<or> omode AND O_RDWR \<noteq> 0)\<rparr>"

definition sys_open :: "uint \<Rightarrow> 'a kern_scheme \<Rightarrow> (sysres \<times> 'a kern_scheme) res" where
  "sys_open kend s =
     needs (argstr 0 s) s (\<lambda>path.
     needs (argint 1 s) s (\<lambda>omode.
     Rbind (begin_op s) (\<lambda>s.
     Rbind (open_inode path omode s) (\<lambda>(r, s).
     case r of
       None \<Rightarrow> ends (SRet (- 1)) s
     | Some ip \<Rightarrow>
         Rbind (filealloc s) (\<lambda>(r, s).
         case r of
           None \<Rightarrow> open_fail ip s
         | Some f \<Rightarrow>
             Rbind (fdalloc f s) (\<lambda>(r, s).
             case r of
               None \<Rightarrow> Rbind (fileclose kend f s) (open_fail ip)
             | Some fd \<Rightarrow>
                 Rbind (iunlock ip s) (\<lambda>s.
                 Rbind (end_op s) (\<lambda>s.
                 Inr (SRet (of_nat fd), upd_file f (open_file ip omode) s)))))))))"

definition made :: "'a kern_scheme \<Rightarrow> nat option \<Rightarrow> (sysres \<times> 'a kern_scheme) res" where
  "made s r = (case r of None \<Rightarrow> ends (SRet (- 1)) s | Some ip \<Rightarrow> Rbind (iunlockput ip s) (ends (SRet 0)))"

definition sys_mkdir :: "'a kern_scheme \<Rightarrow> (sysres \<times> 'a kern_scheme) res" where
  "sys_mkdir s =
     Rbind (begin_op s) (\<lambda>s.
     Rbind (argstr 0 s) (\<lambda>a.
     case a of
       None \<Rightarrow> ends (SRet (- 1)) s
     | Some path \<Rightarrow> Rbind (create path T_DIR 0 0 s) (\<lambda>(r, s). made s r)))"

definition sys_mknod :: "'a kern_scheme \<Rightarrow> (sysres \<times> 'a kern_scheme) res" where
  "sys_mknod s =
     Rbind (begin_op s) (\<lambda>s.
     Rbind (argstr 0 s) (\<lambda>a.
     Rbind (argint 1 s) (\<lambda>b.
     Rbind (argint 2 s) (\<lambda>c.
     case (a, b, c) of
       (Some path, Some mj, Some mn) \<Rightarrow> Rbind (create path T_DEV (ucast mj) (ucast mn) s) (\<lambda>(r, s). made s r)
     | _ \<Rightarrow> ends (SRet (- 1)) s))))"

definition sys_chdir :: "'a kern_scheme \<Rightarrow> (sysres \<times> 'a kern_scheme) res" where
  "sys_chdir s =
     Rbind (begin_op s) (\<lambda>s.
     Rbind (argstr 0 s) (\<lambda>a.
     case a of
       None \<Rightarrow> ends (SRet (- 1)) s
     | Some path \<Rightarrow>
         Rbind (namei devtab path s) (\<lambda>(r, s).
         case r of
           None \<Rightarrow> ends (SRet (- 1)) s
         | Some ip \<Rightarrow>
             Rbind (ilock ip s) (\<lambda>s.
             if d_type (din (icache s ip)) \<noteq> T_DIR then Rbind (iunlockput ip s) (ends (SRet (- 1)))
             else
               Rbind (iunlock ip s) (with_proc (\<lambda>p s.
                 case cwd (ptab s p) of
                   None \<Rightarrow> Inl Fault
                 | Some d \<Rightarrow>
                     Rbind (iput d s) (\<lambda>s.
                     Rbind (end_op s) (\<lambda>s.
                     Inr (SRet 0, upd_proc p (\<lambda>x. x\<lparr>cwd := Some ip\<rparr>) s)))))))))"

definition sys_pipe :: "uint \<Rightarrow> 'a kern_scheme \<Rightarrow> (sysres \<times> 'a kern_scheme) res" where
  "sys_pipe kend s =
     needs (argptr 0 8 s) s (\<lambda>a.
     Rbind (pipealloc kend s) (\<lambda>(r, s).
     case r of
       None \<Rightarrow> Inr (SRet (- 1), s)
     | Some (f0, f1) \<Rightarrow>
         let fail = (\<lambda>s. Rbind (fileclose kend f0 s) (\<lambda>s. Rbind (fileclose kend f1 s) (\<lambda>s. Inr (SRet (- 1), s)))) in
         Rbind (fdalloc f0 s) (\<lambda>(r0, s).
         case r0 of
           None \<Rightarrow> fail s
         | Some fd0 \<Rightarrow>
             Rbind (fdalloc f1 s) (\<lambda>(r1, s).
             case r1 of
               None \<Rightarrow> with_proc (\<lambda>p s. fail (set_ofile fd0 None p s)) s
             | Some fd1 \<Rightarrow>
                 Rbind (put_user a (map (put32 4 (of_nat fd1) (put32 0 (of_nat fd0) (\<lambda>_. 0))) [0..<8]) s) (\<lambda>s.
                 Inr (SRet 0, s))))))"

section \<open>Modes and owners\<close>

definition set_inode :: "uchar list \<Rightarrow> (dinode \<Rightarrow> dinode) \<Rightarrow> 'a kern_scheme \<Rightarrow> (sysres \<times> 'a kern_scheme) res" where
  "set_inode path f s =
     Rbind (begin_op s) (\<lambda>s.
     Rbind (namei devtab path s) (\<lambda>(r, s).
     case r of
       None \<Rightarrow> ends (SRet (- 1)) s
     | Some ip \<Rightarrow>
         Rbind (ilock ip s) (\<lambda>s.
         Rbind (iupdate ip (upd_din ip f s)) (\<lambda>s.
         Rbind (iunlock ip s) (\<lambda>s.
         Rbind (iput ip s) (ends (SRet 0)))))))"

definition sys_chmod :: "'a kern_scheme \<Rightarrow> (sysres \<times> 'a kern_scheme) res" where
  "sys_chmod s =
     needs (argstr 0 s) s (\<lambda>path. needs (argint 1 s) s (\<lambda>m.
     if sint m < 0 \<or> 1023 < sint m then Inr (SRet (- 1), s) else set_inode path (\<lambda>x. x\<lparr>d_mode := m\<rparr>) s))"

definition sys_chown :: "'a kern_scheme \<Rightarrow> (sysres \<times> 'a kern_scheme) res" where
  "sys_chown s =
     needs (argstr 0 s) s (\<lambda>path. needs (argint 1 s) s (\<lambda>u.
     if sint u < 0 \<or> 32767 < sint u then Inr (SRet (- 1), s) else set_inode path (\<lambda>x. x\<lparr>d_uid := ucast u\<rparr>) s))"

definition sys_chgrp :: "'a kern_scheme \<Rightarrow> (sysres \<times> 'a kern_scheme) res" where
  "sys_chgrp s =
     needs (argstr 0 s) s (\<lambda>path. needs (argint 1 s) s (\<lambda>g.
     if sint g < 0 \<or> 32767 < sint g then Inr (SRet (- 1), s) else set_inode path (\<lambda>x. x\<lparr>d_gid := ucast g\<rparr>) s))"

end
