(* ===== verification/Exec.thy ===== *)
theory Exec
  imports SysFile
begin

text \<open>
  exec.c, \<open>sys_exec\<close>, and the system call table and dispatcher of syscall.c.  The functions of vm.c that \<open>exec\<close> calls
  are the arguments \<open>vm\<close> and \<open>xo\<close>.
\<close>

section \<open>exec\<close>

record 's execops =
  loaduvm :: "uint \<Rightarrow> uint \<Rightarrow> nat \<Rightarrow> uint \<Rightarrow> uint \<Rightarrow> 's \<Rightarrow> (int \<times> 's) res"
  clearpteu :: "uint \<Rightarrow> uint \<Rightarrow> 's \<Rightarrow> 's res"
  copyout :: "uint \<Rightarrow> uint \<Rightarrow> uchar list \<Rightarrow> 's \<Rightarrow> (int \<times> 's) res"

definition ELF_MAGIC :: uint where "ELF_MAGIC = 0x464C457F"
definition ELF_PROG_LOAD :: uint where "ELF_PROG_LOAD = 1"
definition ELFHDR_SIZE :: nat where "ELFHDR_SIZE = 52"
definition PROGHDR_SIZE :: nat where "PROGHDR_SIZE = 32"

text \<open>The execute bits of the mode, by their place in the bit field.\<close>

definition mode_o_x :: "uint \<Rightarrow> bool" where "mode_o_x m = bit m 0"
definition mode_g_x :: "uint \<Rightarrow> bool" where "mode_g_x m = bit m 3"
definition mode_u_x :: "uint \<Rightarrow> bool" where "mode_u_x m = bit m 6"
definition mode_setuid :: "uint \<Rightarrow> bool" where "mode_setuid m = bit m 9"

definition exec_check :: "stat \<Rightarrow> uint \<Rightarrow> uint \<Rightarrow> bool" where
  "exec_check st puid pgid =
     (let check = (ucast (st_uid st) = puid \<and> mode_u_x (st_mode st));
          check = (if \<not> check \<and> ucast (st_gid st) = pgid \<and> mode_g_x (st_mode st) then True else check)
      in if \<not> check \<and> puid \<noteq> ucast (st_uid st) \<and> pgid \<noteq> ucast (st_gid st) \<and> mode_o_x (st_mode st)
         then True else check)"

definition exec_bad :: "'a kern_scheme vmops \<Rightarrow> uint \<Rightarrow> nat option \<Rightarrow> 'a kern_scheme \<Rightarrow> (int \<times> 'a kern_scheme) res" where
  "exec_bad vm pd ip s =
     Rbind (if pd \<noteq> 0 then freevm vm pd s else Inr s) (\<lambda>s.
     Rbind (case ip of None \<Rightarrow> Inr s | Some ip \<Rightarrow> Rbind (iunlockput ip s) end_op) (\<lambda>s. Inr (- 1, s)))"

text \<open>The loop over the program headers: the size of the image, or that it failed.\<close>

fun exec_load :: "'a kern_scheme vmops \<Rightarrow> 'a kern_scheme execops \<Rightarrow> nat \<Rightarrow> uint \<Rightarrow> nat \<Rightarrow> uint \<Rightarrow> uint \<Rightarrow>
    'a kern_scheme \<Rightarrow> (uint option \<times> 'a kern_scheme) res" where
  "exec_load vm xo ip pd 0 off sz0 s = Inr (Some sz0, s)"
| "exec_load vm xo ip pd (Suc k) off sz0 s =
     Rbind (readi devtab ip off (of_nat PROGHDR_SIZE) s) (\<lambda>(r, bs, s).
     if r \<noteq> int PROGHDR_SIZE then Inr (None, s)
     else
       let ph = (\<lambda>i. bs ! i); ty = get32 ph 0; poff = get32 ph 4; va = get32 ph 8; filesz = get32 ph 16; memsz = get32 ph 20 in
       if ty \<noteq> ELF_PROG_LOAD then exec_load vm xo ip pd k (off + of_nat PROGHDR_SIZE) sz0 s
       else if memsz < filesz then Inr (None, s)
       else
         Rbind (allocuvm vm pd sz0 (va + memsz) s) (\<lambda>(sz1, s).
         if sz1 = 0 then Inr (None, s)
         else
           Rbind (loaduvm xo pd va ip poff filesz s) (\<lambda>(r, s).
           if r < 0 then Inr (None, s)
           else exec_load vm xo ip pd k (off + of_nat PROGHDR_SIZE) sz1 s)))"

text \<open>Pushing the argument strings: the stack pointer and the addresses of the strings.\<close>

fun exec_args :: "'a kern_scheme execops \<Rightarrow> uint \<Rightarrow> nat \<Rightarrow> uchar list list \<Rightarrow> uint \<Rightarrow> uint list \<Rightarrow>
    'a kern_scheme \<Rightarrow> ((uint \<times> uint list) option \<times> 'a kern_scheme) res" where
  "exec_args xo pd argc [] sp us s = Inr (Some (sp, us), s)"
| "exec_args xo pd argc (a # as) sp us s =
     (if MAXARG \<le> argc then Inr (None, s)
      else
        let sp = (sp - (of_nat (length a) + 1)) AND NOT 3 in
        Rbind (copyout xo pd sp (a @ [0]) s) (\<lambda>(r, s).
        if r < 0 then Inr (None, s) else exec_args xo pd (Suc argc) as sp (us @ [sp]) s))"

definition le_bytes :: "uint list \<Rightarrow> uchar list" where
  "le_bytes ws = concat (map (\<lambda>w. map (put32 0 w (\<lambda>_. 0)) [0..<4]) ws)"

definition last_elem :: "uchar list \<Rightarrow> uchar list" where
  "last_elem path = rev (takeWhile (\<lambda>c. c \<noteq> SLASH) (rev path))"

definition char_of_uchar :: "uchar \<Rightarrow> char" where
  "char_of_uchar c = char_of (unat c)"

definition exec_commit :: "'a kern_scheme vmops \<Rightarrow> uchar list \<Rightarrow> uint \<Rightarrow> uint \<Rightarrow> uint \<Rightarrow> uint \<Rightarrow> uint option \<Rightarrow>
    'a kern_scheme \<Rightarrow> (int \<times> 'a kern_scheme) res" where
  "exec_commit vm path pd sz1 entry sp suid =
     with_proc (\<lambda>p s.
       let old = pgdir (ptab s p);
           s = upd_proc p (\<lambda>x. x\<lparr>pname := map char_of_uchar (take 15 (last_elem path)), pgdir := pd, sz := sz1,
             tf := (tf x)\<lparr>tf_eip := entry, tf_esp := sp\<rparr>\<rparr>) s in
       Rbind (switchuvm vm p s) (\<lambda>s.
       Rbind (freevm vm old s) (\<lambda>s.
       Inr (0, case suid of None \<Rightarrow> s | Some u \<Rightarrow> upd_proc p (\<lambda>x. x\<lparr>uid := u\<rparr>) s))))"

definition exec_stack :: "'a kern_scheme vmops \<Rightarrow> 'a kern_scheme execops \<Rightarrow> uchar list \<Rightarrow> uchar list list \<Rightarrow> uint \<Rightarrow> uint \<Rightarrow>
    uint \<Rightarrow> uint option \<Rightarrow> 'a kern_scheme \<Rightarrow> (int \<times> 'a kern_scheme) res" where
  "exec_stack vm xo path argv pd sz0 entry suid s =
     (let sz1 = PGROUNDUP sz0 in
      Rbind (allocuvm vm pd sz1 (sz1 + 2 * PGSIZE) s) (\<lambda>(sz2, s).
      if sz2 = 0 then exec_bad vm pd None s
      else
        Rbind (clearpteu xo pd (sz2 - 2 * PGSIZE) s) (\<lambda>s.
        Rbind (exec_args xo pd 0 argv sz2 [] s) (\<lambda>(r, s).
        case r of
          None \<Rightarrow> exec_bad vm pd None s
        | Some (sp, us) \<Rightarrow>
            let argc = of_nat (length us); ustack = [0xffffffff, argc, sp - (argc + 1) * 4] @ us @ [0];
                sp = sp - (3 + argc + 1) * 4 in
            Rbind (copyout xo pd sp (le_bytes ustack) s) (\<lambda>(r, s).
            if r < 0 then exec_bad vm pd None s
            else exec_commit vm path pd sz2 entry sp suid s)))))"

text \<open>
  The code compares what \<open>readi\<close> returns, an \<open>int\<close>, with the unsigned \<open>sizeof(elf)\<close>: a read that
  fails passes the comparison, and the header it goes on with was never written (\<open>Fault\<close> here).
\<close>

definition exec :: "'a kern_scheme vmops \<Rightarrow> 'a kern_scheme execops \<Rightarrow> uchar list \<Rightarrow> uchar list list \<Rightarrow> 'a kern_scheme \<Rightarrow>
    (int \<times> 'a kern_scheme) res" where
  "exec vm xo path argv s =
     Rbind (begin_op s) (\<lambda>s.
     Rbind (namei devtab path s) (\<lambda>(r, s).
     case r of
       None \<Rightarrow> Rbind (end_op s) (\<lambda>s. Inr (- 1, s))
     | Some ip \<Rightarrow>
         Rbind (ilock ip s) (with_proc (\<lambda>p s.
           let st = stati ip s in
           if \<not> exec_check st (uid (ptab s p)) (gid (ptab s p)) then exec_bad vm 0 (Some ip) s
           else
             let suid = (if mode_setuid (st_mode st) then Some (ucast (d_uid (din (icache s ip)))) else None) in
             Rbind (readi devtab ip 0 (of_nat ELFHDR_SIZE) s) (\<lambda>(r, bs, s).
             if (of_int r :: uint) < of_nat ELFHDR_SIZE then exec_bad vm 0 (Some ip) s
             else if r < 0 then Inl Fault
             else
               let elf = (\<lambda>i. bs ! i) in
               if get32 elf 0 \<noteq> ELF_MAGIC then exec_bad vm 0 (Some ip) s
               else
                 Rbind (setupkvm vm s) (\<lambda>(pd, s).
                 if pd = 0 then exec_bad vm 0 (Some ip) s
                 else
                   Rbind (exec_load vm xo ip pd (unat (get16 elf 44)) (get32 elf 28) 0 s) (\<lambda>(r, s).
                   case r of
                     None \<Rightarrow> exec_bad vm pd (Some ip) s
                   | Some sz0 \<Rightarrow>
                       Rbind (iunlockput ip s) (\<lambda>s.
                       Rbind (end_op s) (exec_stack vm xo path argv pd sz0 (get32 elf 24) suid)))))))))"

fun fetch_argv :: "nat \<Rightarrow> uint \<Rightarrow> nat \<Rightarrow> 'a kern_scheme \<Rightarrow> uchar list list option res" where
  "fetch_argv 0 uargv i s = Inr None"
| "fetch_argv (Suc k) uargv i s =
     Rbind (fetchint (uargv + 4 * of_nat i) s) (\<lambda>r.
     case r of
       None \<Rightarrow> Inr None
     | Some uarg \<Rightarrow>
         if uarg = 0 then Inr (Some [])
         else
           Rbind (fetchstr uarg s) (\<lambda>r.
           case r of
             None \<Rightarrow> Inr None
           | Some a \<Rightarrow> Rbind (fetch_argv k uargv (Suc i) s) (\<lambda>r. Inr (map_option (\<lambda>as. a # as) r))))"

definition sys_exec :: "'a kern_scheme vmops \<Rightarrow> 'a kern_scheme execops \<Rightarrow> 'a kern_scheme \<Rightarrow> (sysres \<times> 'a kern_scheme) res" where
  "sys_exec vm xo s =
     needs (argstr 0 s) s (\<lambda>path.
     needs (argint 1 s) s (\<lambda>uargv.
     needs (fetch_argv MAXARG uargv 0 s) s (\<lambda>argv. returns (exec vm xo path argv s))))"

section \<open>The system call table\<close>

text \<open>What the kernel gets from outside: the end of its image, vm.c, the clock.\<close>

record 's env =
  env_kend :: uint
  env_vm :: "'s vmops"
  env_xo :: "'s execops"
  env_date :: "uchar list"

definition syscalls :: "'a kern_scheme env \<Rightarrow> ('a kern_scheme \<Rightarrow> (sysres \<times> 'a kern_scheme) res) list" where
  "syscalls en =
     (let k = env_kend en; vm = env_vm en in
      [sys_fork k vm, sys_exit k, sys_wait k vm, sys_pipe k, sys_read, sys_kill, sys_exec vm (env_xo en), sys_fstat,
       sys_chdir, sys_dup, sys_getpid, sys_sbrk vm, sys_sleep, sys_uptime, sys_open k, sys_write, sys_mknod, sys_unlink,
       sys_link, sys_mkdir, sys_close k, sys_halt, sys_date (env_date en), sys_getuid, sys_getgid, sys_getppid,
       sys_setuid, sys_setgid, sys_getprocs, sys_setpriority, sys_chmod, sys_chown, sys_chgrp])"

definition set_eax :: "uint \<Rightarrow> nat \<Rightarrow> 'a ptable_scheme \<Rightarrow> 'a ptable_scheme" where
  "set_eax r p s = upd_proc p (\<lambda>x. x\<lparr>tf := (tf x)\<lparr>tf_eax := r\<rparr>\<rparr>) s"

text \<open>Whether the call came back to the caller.\<close>

definition syscall :: "'a kern_scheme env \<Rightarrow> 'a kern_scheme \<Rightarrow> (bool \<times> 'a kern_scheme) res" where
  "syscall en =
     with_proc (\<lambda>p s.
       let num = sint (tf_eax (tf (ptab s p))) in
       if 0 < num \<and> num \<le> int (length (syscalls en)) then
         Rbind ((syscalls en ! (nat num - 1)) s) (\<lambda>(r, s).
         case r of SRet v \<Rightarrow> Inr (True, set_eax v p s) | Switched \<Rightarrow> Inr (False, s))
       else
         Rbind (cprintf ''%d %s: unknown sys call %d\<newline>''
           [AInt (pid (ptab s p)), AStr (Some (pname (ptab s p))), AInt (of_int num)] s) (\<lambda>s.
         Inr (True, set_eax (- 1) p s)))"

end
