(* ===== verification/Kbd.thy ===== *)
theory Kbd
  imports ProcShow
begin

text \<open>
  kbd.h and kbd.c: the key maps and \<open>kbdgetc\<close>.  What the controller has to give, a byte or nothing,
  is an argument.
\<close>

section \<open>Key maps\<close>

definition KSHIFT :: uint where "KSHIFT = 1"
definition CTL :: uint where "CTL = 2"
definition ALT :: uint where "ALT = 4"
definition CAPSLOCK :: uint where "CAPSLOCK = 8"
definition NUMLOCK :: uint where "NUMLOCK = 16"
definition SCROLLLOCK :: uint where "SCROLLLOCK = 32"
definition E0ESC :: uint where "E0ESC = 64"

definition shiftcode :: "uint \<Rightarrow> uint" where
  "shiftcode d =
     (if d = 0x1D \<or> d = 0x9D then CTL
      else if d = 0x2A \<or> d = 0x36 then KSHIFT
      else if d = 0x38 \<or> d = 0xB8 then ALT
      else 0)"

definition togglecode :: "uint \<Rightarrow> uint" where
  "togglecode d =
     (if d = 0x3A then CAPSLOCK else if d = 0x45 then NUMLOCK else if d = 0x46 then SCROLLLOCK else 0)"

definition codes :: "string \<Rightarrow> uchar list" where
  "codes cs = map of_char cs"

definition ctrl_codes :: "string \<Rightarrow> uchar list" where
  "ctrl_codes cs = map (\<lambda>c. of_char c - 64) cs"

text \<open>The keys behind an escape byte, with the codes of the keypad's enter and slash.\<close>

definition special_key :: "uchar \<Rightarrow> uchar \<Rightarrow> nat \<Rightarrow> uchar" where
  "special_key enter slash d =
     (if d = 0x9C then enter
      else if d = 0xB5 then slash
      else if d = 0xC8 then 0xE2
      else if d = 0xD0 then 0xE3
      else if d = 0xC9 then 0xE6
      else if d = 0xD1 then 0xE7
      else if d = 0xCB then 0xE4
      else if d = 0xCD then 0xE5
      else if d = 0x97 then 0xE0
      else if d = 0xCF then 0xE1
      else if d = 0xD2 then 0xE8
      else if d = 0xD3 then 0xE9
      else 0)"

definition key_table :: "uchar list \<Rightarrow> uchar \<Rightarrow> uchar \<Rightarrow> nat \<Rightarrow> uchar" where
  "key_table rows enter slash d = (if d < length rows then rows ! d else special_key enter slash d)"

definition normalmap :: "nat \<Rightarrow> uchar" where
  "normalmap = key_table
     ([0, 0x1B] @ codes ''1234567890-='' @ [8, 9] @ codes ''qwertyuiop[]'' @ [10, 0] @
      codes ''asdfghjkl;'' @ [39, 96, 0, 92] @ codes ''zxcvbnm,./'' @ [0, 42, 0, 32] @
      replicate 13 0 @ codes ''789-456+1230.'' @ replicate 4 0) 10 47"

definition shiftmap :: "nat \<Rightarrow> uchar" where
  "shiftmap = key_table
     ([0, 0x1B] @ codes ''!@#$%^&*()_+'' @ [8, 9] @ codes ''QWERTYUIOP{}'' @ [10, 0] @
      codes ''ASDFGHJKL:'' @ [34, 126, 0, 124] @ codes ''ZXCVBNM<>?'' @ [0, 42, 0, 32] @
      replicate 13 0 @ codes ''789-456+1230.'' @ replicate 4 0) 10 47"

definition ctlmap :: "nat \<Rightarrow> uchar" where
  "ctlmap = key_table
     (replicate 16 0 @ ctrl_codes ''QWERTYUIOP'' @ [0, 0, 13, 0] @ ctrl_codes ''ASDFGHJKL'' @
      [0, 0, 0, 0, 28] @ ctrl_codes ''ZXCVBNM'' @ [0, 0, 47 - 64, 0, 0]) 13 (47 - 64)"

section \<open>kbdgetc\<close>

definition charcode :: "uint \<Rightarrow> nat \<Rightarrow> uchar" where
  "charcode sh =
     (if sh AND (CTL OR KSHIFT) = 0 then normalmap
      else if sh AND (CTL OR KSHIFT) = 1 then shiftmap
      else ctlmap)"

definition kbd_caps :: "uint \<Rightarrow> nat \<Rightarrow> nat" where
  "kbd_caps sh c =
     (if sh AND CAPSLOCK \<noteq> 0 then
        if 97 \<le> c \<and> c \<le> 122 then c - 32 else if 65 \<le> c \<and> c \<le> 90 then c + 32 else c
      else c)"

text \<open>The character, \<open>None\<close> for -1, and the new value of \<open>shift\<close>.\<close>

definition kbdgetc :: "uchar option \<Rightarrow> uint \<Rightarrow> nat option \<times> uint" where
  "kbdgetc port sh =
     (case port of
        None \<Rightarrow> (None, sh)
      | Some b \<Rightarrow>
          let d = ucast b :: uint in
          if d = 0xE0 then (Some 0, sh OR E0ESC)
          else if d AND 0x80 \<noteq> 0 then
            let d = (if sh AND E0ESC \<noteq> 0 then d else d AND 0x7F) in
            (Some 0, sh AND NOT (shiftcode d OR E0ESC))
          else
            let esc = (sh AND E0ESC \<noteq> 0);
                d = (if esc then d OR 0x80 else d);
                sh = (if esc then sh AND NOT E0ESC else sh);
                sh = sh OR shiftcode d;
                sh = sh XOR togglecode d in
            (Some (kbd_caps sh (unat (charcode sh (unat d)))), sh))"

text \<open>The characters \<open>consoleintr\<close> gets from the bytes waiting in the controller.\<close>

fun kbd_chars :: "uchar list \<Rightarrow> uint \<Rightarrow> nat list \<times> uint" where
  "kbd_chars [] sh = ([], sh)"
| "kbd_chars (b # bs) sh =
     (case kbdgetc (Some b) sh of
        (None, sh) \<Rightarrow> ([], sh)
      | (Some c, sh) \<Rightarrow> (case kbd_chars bs sh of (cs, sh) \<Rightarrow> (c # cs, sh)))"

definition kbdintr :: "(nat \<Rightarrow> uint list) \<Rightarrow> uchar list \<Rightarrow> 'a kern_scheme \<Rightarrow> 'a kern_scheme res" where
  "kbdintr pcs bs s =
     (case kbd_chars bs (kbd_shift s) of (cs, sh) \<Rightarrow> consoleintr pcs cs (s\<lparr>kbd_shift := sh\<rparr>))"

text \<open>uart.c's \<open>uartintr\<close>: the bytes waiting in the serial port go to the console.\<close>

definition uartintr :: "(nat \<Rightarrow> uint list) \<Rightarrow> uchar list \<Rightarrow> 'a kern_scheme \<Rightarrow> 'a kern_scheme res" where
  "uartintr pcs bs s = consoleintr pcs (map unat bs) s"

end
