(* ===== verification/Trap.thy ===== *)
theory Trap
  imports Exec Kbd
begin

text \<open>
  trap.c: the handler of system calls, interrupts and faults.  The result says whether the handler
  has come back to the code it interrupted; a process that sleeps, yields or exits inside goes on
  in \<open>trap_syscall_end\<close> or \<open>trap_resume\<close> when it is scheduled again.
\<close>

definition T_SYSCALL :: uint where "T_SYSCALL = 64"
definition T_IRQ0 :: uint where "T_IRQ0 = 32"
definition IRQ_TIMER :: uint where "IRQ_TIMER = 0"
definition IRQ_KBD :: uint where "IRQ_KBD = 1"
definition IRQ_COM1 :: uint where "IRQ_COM1 = 4"
definition IRQ_IDE :: uint where "IRQ_IDE = 14"
definition IRQ_SPURIOUS :: uint where "IRQ_SPURIOUS = 31"
definition SCHED_INTERVAL :: uint where "SCHED_INTERVAL = 1000 div 100"

text \<open>What the devices have at the time of the trap.\<close>

record devin =
  kbd_in :: "uchar list"
  uart_in :: "uchar list"
  cr2 :: uint
  kstacks :: "nat \<Rightarrow> uint list"

definition proc_killed :: "'a ptable_scheme \<Rightarrow> bool" where
  "proc_killed s = (case cproc (mycpu s) of None \<Rightarrow> False | Some p \<Rightarrow> killed (ptab s p))"

definition trap_syscall_end :: "uint \<Rightarrow> 'a kern_scheme \<Rightarrow> (bool \<times> 'a kern_scheme) res" where
  "trap_syscall_end kend =
     with_proc (\<lambda>p s. if killed (ptab s p) then Rbind (exit kend s) (\<lambda>s. Inr (False, s)) else Inr (True, s))"

definition trap_syscall :: "'a kern_scheme env \<Rightarrow> trapframe \<Rightarrow> 'a kern_scheme \<Rightarrow> (bool \<times> 'a kern_scheme) res" where
  "trap_syscall en f =
     with_proc (\<lambda>p s.
       if killed (ptab s p) then Rbind (exit (env_kend en) s) (\<lambda>s. Inr (False, s))
       else
         Rbind (syscall en (upd_proc p (\<lambda>x. x\<lparr>tf := f\<rparr>) s)) (\<lambda>(back, s).
         if back then trap_syscall_end (env_kend en) s else Inr (False, s)))"

definition trap_fault :: "trapframe \<Rightarrow> uint \<Rightarrow> 'a kern_scheme \<Rightarrow> 'a kern_scheme res" where
  "trap_fault f fa s =
     (case cproc (mycpu s) of
        None \<Rightarrow> Inl (Panic ''trap'')
      | Some p \<Rightarrow>
          if tf_cs f AND 3 = 0 then Inl (Panic ''trap'')
          else
            Rbind (cprintf ''pid %d %s: trap %d err %d on cpu %d eip 0x%x addr 0x%x--kill proc\<newline>''
              [AInt (pid (ptab s p)), AStr (Some (pname (ptab s p))), AInt (tf_trapno f), AInt (tf_err f),
               AInt (of_nat (curcpu s)), AInt (tf_eip f), AInt fa] s) (\<lambda>s.
            Inr (upd_proc p (\<lambda>x. x\<lparr>killed := True\<rparr>) s)))"

definition trap_dispatch :: "devin \<Rightarrow> trapframe \<Rightarrow> 'a kern_scheme \<Rightarrow> 'a kern_scheme res" where
  "trap_dispatch dv f s =
     (let no = tf_trapno f in
      if no = T_IRQ0 + IRQ_TIMER then
        if curcpu s = 0 then wakeup TicksAddr (s\<lparr>ticks := ticks s + 1\<rparr>) else Inr s
      else if no = T_IRQ0 + IRQ_IDE then ideintr s
      else if no = T_IRQ0 + IRQ_IDE + 1 then Inr s
      else if no = T_IRQ0 + IRQ_KBD then kbdintr (kstacks dv) (kbd_in dv) s
      else if no = T_IRQ0 + IRQ_COM1 then uartintr (kstacks dv) (uart_in dv) s
      else if no = T_IRQ0 + 7 \<or> no = T_IRQ0 + IRQ_SPURIOUS then
        cprintf ''cpu%d: spurious interrupt at %x:%x\<newline>'' [AInt (of_nat (curcpu s)), AInt (tf_cs f), AInt (tf_eip f)] s
      else trap_fault f (cr2 dv) s)"

definition trap_exit :: "uint \<Rightarrow> trapframe \<Rightarrow> 'a kern_scheme \<Rightarrow> (bool \<times> 'a kern_scheme) res" where
  "trap_exit kend f s =
     (if proc_killed s \<and> tf_cs f AND 3 = DPL_USER
      then Rbind (exit kend s) (\<lambda>s. Inr (False, s)) else Inr (True, s))"

definition proc_running :: "'a ptable_scheme \<Rightarrow> bool" where
  "proc_running s = (case cproc (mycpu s) of None \<Rightarrow> False | Some p \<Rightarrow> state (ptab s p) = RUNNING)"

definition trap :: "'a kern_scheme env \<Rightarrow> devin \<Rightarrow> trapframe \<Rightarrow> 'a kern_scheme \<Rightarrow> (bool \<times> 'a kern_scheme) res" where
  "trap en dv f s =
     (if tf_trapno f = T_SYSCALL then trap_syscall en f s
      else
        Rbind (trap_dispatch dv f s) (\<lambda>s.
        Rbind (trap_exit (env_kend en) f s) (\<lambda>(back, s).
        if \<not> back then Inr (False, s)
        else if proc_running s \<and> tf_trapno f = T_IRQ0 + IRQ_TIMER \<and> ticks s mod SCHED_INTERVAL = 0
        then Rbind (yield s) (\<lambda>s. Inr (False, s))
        else trap_exit (env_kend en) f s)))"

definition trap_resume :: "uint \<Rightarrow> trapframe \<Rightarrow> bool \<Rightarrow> 'a kern_scheme \<Rightarrow> (bool \<times> 'a kern_scheme) res" where
  "trap_resume kend f ie s = Rbind (yield_resume ie s) (trap_exit kend f)"

end
