(* ===== verification/Sh.thy ===== *)
theory Sh
  imports UserLib
begin

text \<open>
  sh.c, the shell: its commands, the recursive descent parser, and the interpreter.  The line is
  the string before the null byte; a pointer into it is an index, and the end \<open>es\<close> its length.  A
  call of \<open>panic\<close> prints its message and ends the process, here the result \<open>ShPanic\<close>.  The parser
  functions that call each other carry a bound on the depth of their calls, \<open>ShDeep\<close> being the
  result of running out of it.
\<close>

section \<open>Commands\<close>

definition MAXARGS :: nat where "MAXARGS = 10"

datatype cmd =
    EXEC "(nat \<times> nat) list"     \<comment> \<open>the starts and ends of the arguments\<close>
  | REDIR cmd nat nat int int    \<comment> \<open>file, efile, mode, fd\<close>
  | PIPE cmd cmd
  | LIST cmd cmd
  | BACK cmd

datatype sherr = ShPanic string | ShDeep

type_synonym 'a shres = "sherr + 'a"

definition Sbind :: "'a shres \<Rightarrow> ('a \<Rightarrow> 'b shres) \<Rightarrow> 'b shres" where
  "Sbind m f = (case m of Inl e \<Rightarrow> Inl e | Inr x \<Rightarrow> f x)"

lemma Sbind_simps [simp]: "Sbind (Inl e) f = Inl e" "Sbind (Inr x) f = f x"
  by (simp_all add: Sbind_def)

lemma Sbind_cong [fundef_cong]:
  "m = n \<Longrightarrow> (\<And>x. n = Inr x \<Longrightarrow> f x = g x) \<Longrightarrow> Sbind m f = Sbind n g"
  by (cases n) auto

section \<open>Tokens\<close>

definition chr_at :: "string \<Rightarrow> nat \<Rightarrow> char" where
  "chr_at b i = (if i < length b then b ! i else CHR 0x00)"

definition whitespace :: string where
  "whitespace = [CHR 0x20, CHR 0x09, CHR 0x0D, CHR 0x0A, CHR 0x0B]"

definition symbols :: string where
  "symbols = ''<|>&;()''"

function skip_while :: "(char \<Rightarrow> bool) \<Rightarrow> string \<Rightarrow> nat \<Rightarrow> nat" where
  "skip_while P b i = (if i < length b \<and> P (b ! i) then skip_while P b (Suc i) else i)"
  by pat_completeness auto
termination
  by (relation "measure (\<lambda>(P, b, i). length b - i)") auto

declare skip_while.simps [simp del]

definition blank :: "char \<Rightarrow> bool" where
  "blank c \<longleftrightarrow> c \<in> set whitespace"

definition word_char :: "char \<Rightarrow> bool" where
  "word_char c \<longleftrightarrow> c \<notin> set whitespace \<and> c \<notin> set symbols"

text \<open>The kind of token at \<open>q\<close>, and where it ends.\<close>

definition token_at :: "string \<Rightarrow> nat \<Rightarrow> char \<times> nat" where
  "token_at b q =
     (let c = chr_at b q in
      if c = CHR 0x00 then (CHR 0x00, q)
      else if c \<in> set ''|();&<'' then (c, Suc q)
      else if c = CHR ''>'' then
        if chr_at b (Suc q) = CHR ''>'' then (CHR ''+'', Suc (Suc q)) else (CHR ''>'', Suc q)
      else (CHR ''a'', skip_while word_char b q))"

definition gettoken :: "string \<Rightarrow> nat \<Rightarrow> char \<times> nat \<times> nat \<times> nat" where
  "gettoken b i =
     (let q = skip_while blank b i; (ret, eq) = token_at b q in (ret, q, eq, skip_while blank b eq))"

definition peek :: "string \<Rightarrow> nat \<Rightarrow> string \<Rightarrow> nat \<times> bool" where
  "peek b i toks =
     (let s = skip_while blank b i in (s, chr_at b s \<noteq> CHR 0x00 \<and> chr_at b s \<in> set toks))"

lemma skip_while_le: "i \<le> skip_while P b i"
  by (induction P b i rule: skip_while.induct) (subst skip_while.simps, auto)

lemma skip_while_len: "i \<le> length b \<Longrightarrow> skip_while P b i \<le> length b"
  by (induction P b i rule: skip_while.induct) (subst skip_while.simps, auto)

lemma skip_while_stop: "skip_while P b i < length b \<Longrightarrow> \<not> P (b ! skip_while P b i)"
  by (induction P b i rule: skip_while.induct) (subst (asm) skip_while.simps, subst skip_while.simps, auto split: if_splits)

lemma skip_while_in: "i \<le> j \<Longrightarrow> j < skip_while P b i \<Longrightarrow> j < length b \<and> P (b ! j)"
proof (induction P b i rule: skip_while.induct)
  case (1 P b i)
  note e = skip_while.simps [of P b i]
  show ?case
  proof (cases "i < length b \<and> P (b ! i)")
    case True
    then have "j < skip_while P b (Suc i)"
      using 1(3) unfolding e by simp
    then show ?thesis
      using 1(1) [OF True] 1(2) True by (cases "i = j") simp_all
  next
    case False
    then show ?thesis
      using 1(2,3) unfolding e by (simp split: if_splits)
  qed
qed

section \<open>The parser\<close>

text \<open>
  \<open>parseredirs\<close> gives the redirections it finds, file, mode and descriptor; \<open>redirs\<close> wraps a command
  in them, the last one outermost.  The arguments of an \<open>EXEC\<close> node are filled in by \<open>parseexec\<close>
  after redirections have been wrapped around it, so the model builds the node last.
\<close>

definition redirs :: "cmd \<Rightarrow> (nat \<times> nat \<times> int \<times> int) list \<Rightarrow> cmd" where
  "redirs c rs = foldl (\<lambda>c (q, eq, mode, fd). REDIR c q eq mode fd) c rs"

lemma token_at_le: "q \<le> snd (token_at b q)"
  by (simp add: token_at_def Let_def skip_while_le)

lemma token_at_progress: "chr_at b q \<noteq> CHR 0x00 \<Longrightarrow> \<not> blank (chr_at b q) \<Longrightarrow> q < snd (token_at b q)"
proof -
  assume a: "chr_at b q \<noteq> CHR 0x00" "\<not> blank (chr_at b q)"
  then have q: "q < length b" "chr_at b q = b ! q"
    by (auto simp: chr_at_def split: if_splits)
  have "q < skip_while word_char b q" if "b ! q \<notin> set symbols"
  proof -
    have "word_char (b ! q)"
      using a q that by (simp add: word_char_def blank_def)
    then have "skip_while word_char b q = skip_while word_char b (Suc q)"
      using q by (simp add: skip_while.simps [of _ b q])
    then show ?thesis
      using skip_while_le [of "Suc q" word_char b] by simp
  qed
  then show ?thesis
    using a q by (auto simp: token_at_def Let_def symbols_def)
qed

lemma gettoken_sel:
  "fst (gettoken b i) = fst (token_at b (skip_while blank b i))"
  "fst (snd (gettoken b i)) = skip_while blank b i"
  "fst (snd (snd (gettoken b i))) = snd (token_at b (skip_while blank b i))"
  "snd (snd (snd (gettoken b i))) = skip_while blank b (snd (token_at b (skip_while blank b i)))"
  by (simp_all add: gettoken_def Let_def split_beta)

lemma gettoken_le: "i \<le> snd (snd (snd (gettoken b i)))"
  unfolding gettoken_sel using skip_while_le token_at_le order_trans by meson

text \<open>A byte that \<open>peek\<close> found is not a blank, so taking the token there moves on.\<close>

lemma peek_token:
  assumes "peek b i toks = (j, True)" "set toks \<inter> set whitespace = {}"
  shows "i \<le> j" "j < length b" "j < snd (snd (snd (gettoken b j)))"
proof -
  have j: "j = skip_while blank b i" "chr_at b j \<noteq> CHR 0x00" "chr_at b j \<in> set toks"
    using assms(1) by (auto simp: peek_def Let_def)
  then show "i \<le> j" "j < length b"
    by (auto simp: skip_while_le chr_at_def split: if_splits)
  have nb: "\<not> blank (chr_at b j)"
    using j(3) assms(2) by (auto simp: blank_def)
  then have "skip_while blank b j = j"
    using \<open>j < length b\<close> by (subst skip_while.simps) (simp add: chr_at_def)
  then show "j < snd (snd (snd (gettoken b j)))"
    unfolding gettoken_sel
    using token_at_progress [OF j(2) nb] skip_while_le [of "snd (token_at b j)" blank b] by simp
qed

lemma angle_ws [simp]: "set ''<>'' \<inter> set whitespace = {}" "set ''&'' \<inter> set whitespace = {}"
    "set '';'' \<inter> set whitespace = {}" "set ''|'' \<inter> set whitespace = {}" "set ''('' \<inter> set whitespace = {}"
    "set '')'' \<inter> set whitespace = {}"
  by (simp_all add: whitespace_def)

definition redir_mode :: "char \<Rightarrow> int \<times> int" where
  "redir_mode tok = (if tok = CHR ''<'' then (0, 0) else (0x201, 1))"

lemma peek_step:
  assumes "peek b i toks = (j, True)" "set toks \<inter> set whitespace = {}" "gettoken b j = (t, q, e, k)"
  shows "i \<le> j" "j < length b" "j < k"
  using peek_token [OF assms(1,2)] assms(3) by simp_all

lemma redir_step:
  assumes "peek b i ''<>'' = (j, True)" "gettoken b j = (tok, q0, e0, k)" "gettoken b k = (t, q, eq, k')"
  shows "length b - k' < length b - i"
  using peek_step [OF assms(1) angle_ws(1) assms(2)] gettoken_le [of k b] assms(3) by simp

lemma back_step:
  assumes "peek b i ''&'' = (j, True)" "gettoken b j = (t, q, e, k)"
  shows "length b - k < length b - i"
  using peek_step [OF assms(1) angle_ws(2) assms(2)] by simp

function parseredirs :: "string \<Rightarrow> nat \<Rightarrow> ((nat \<times> nat \<times> int \<times> int) list \<times> nat) shres" where
  "parseredirs b i =
     (case peek b i ''<>'' of
        (j, False) \<Rightarrow> Inr ([], j)
      | (j, True) \<Rightarrow>
          (case gettoken b j of (tok, _, _, k) \<Rightarrow>
          (case gettoken b k of (t, q, eq, k') \<Rightarrow>
             if t \<noteq> CHR ''a'' then Inl (ShPanic ''missing file for redirection'')
             else Sbind (parseredirs b k') (\<lambda>(rs, n). Inr ((q, eq, redir_mode tok) # rs, n)))))"
  by pat_completeness auto
termination
  by (relation "measure (\<lambda>(b, i). length b - i)") (auto dest: redir_step [OF sym sym sym])

declare parseredirs.simps [simp del]

text \<open>The arguments; \<open>k\<close> is how many may still come.\<close>

fun parse_args :: "nat \<Rightarrow> string \<Rightarrow> nat \<Rightarrow> (nat \<times> nat) list \<Rightarrow> (nat \<times> nat \<times> int \<times> int) list \<Rightarrow>
    ((nat \<times> nat) list \<times> (nat \<times> nat \<times> int \<times> int) list \<times> nat) shres" where
  "parse_args 0 b i argv rs = Inl (ShPanic ''too many args'')"
| "parse_args (Suc k) b i argv rs =
     (case peek b i ''|)&;'' of
        (j, True) \<Rightarrow> Inr (argv, rs, j)
      | (j, False) \<Rightarrow>
          (case gettoken b j of (tok, q, eq, n) \<Rightarrow>
             if tok = CHR 0x00 then Inr (argv, rs, n)
             else if tok \<noteq> CHR ''a'' then Inl (ShPanic ''syntax'')
             else if k = 0 then Inl (ShPanic ''too many args'')
             else
               Sbind (parseredirs b n) (\<lambda>(rs', n).
               parse_args k b n (argv @ [(q, eq)]) (rs @ rs'))))"

function parse_back :: "string \<Rightarrow> nat \<Rightarrow> cmd \<Rightarrow> cmd \<times> nat" where
  "parse_back b i c =
     (case peek b i ''&'' of
        (j, True) \<Rightarrow> (case gettoken b j of (_, _, _, k) \<Rightarrow> parse_back b k (BACK c))
      | (j, False) \<Rightarrow> (c, j))"
  by pat_completeness auto
termination
  by (relation "measure (\<lambda>(b, i, c). length b - i)") (auto dest: back_step [OF sym sym])

declare parse_back.simps [simp del]

fun parseline :: "nat \<Rightarrow> string \<Rightarrow> nat \<Rightarrow> (cmd \<times> nat) shres"
  and parsepipe :: "nat \<Rightarrow> string \<Rightarrow> nat \<Rightarrow> (cmd \<times> nat) shres"
  and parseexec :: "nat \<Rightarrow> string \<Rightarrow> nat \<Rightarrow> (cmd \<times> nat) shres"
  and parseblock :: "nat \<Rightarrow> string \<Rightarrow> nat \<Rightarrow> (cmd \<times> nat) shres" where
  "parseline 0 b i = Inl ShDeep"
| "parseline (Suc d) b i =
     Sbind (parsepipe d b i) (\<lambda>(c, i).
     case parse_back b i c of (c, i) \<Rightarrow>
     case peek b i '';'' of
       (j, True) \<Rightarrow>
         (case gettoken b j of (_, _, _, k) \<Rightarrow> Sbind (parseline d b k) (\<lambda>(r, n). Inr (LIST c r, n)))
     | (j, False) \<Rightarrow> Inr (c, j))"
| "parsepipe 0 b i = Inl ShDeep"
| "parsepipe (Suc d) b i =
     Sbind (parseexec d b i) (\<lambda>(c, i).
     case peek b i ''|'' of
       (j, True) \<Rightarrow>
         (case gettoken b j of (_, _, _, k) \<Rightarrow> Sbind (parsepipe d b k) (\<lambda>(r, n). Inr (PIPE c r, n)))
     | (j, False) \<Rightarrow> Inr (c, j))"
| "parseexec 0 b i = Inl ShDeep"
| "parseexec (Suc d) b i =
     (case peek b i ''('' of
        (j, True) \<Rightarrow> parseblock d b j
      | (j, False) \<Rightarrow>
          Sbind (parseredirs b j) (\<lambda>(rs, n).
          Sbind (parse_args MAXARGS b n [] rs) (\<lambda>(argv, rs, n). Inr (redirs (EXEC argv) rs, n))))"
| "parseblock 0 b i = Inl ShDeep"
| "parseblock (Suc d) b i =
     (case peek b i ''('' of
        (j, False) \<Rightarrow> Inl (ShPanic ''parseblock'')
      | (j, True) \<Rightarrow>
          (case gettoken b j of (_, _, _, k) \<Rightarrow>
             Sbind (parseline d b k) (\<lambda>(c, n).
             case peek b n '')'' of
               (m, False) \<Rightarrow> Inl (ShPanic ''syntax - missing )'')
             | (m, True) \<Rightarrow>
                 (case gettoken b m of (_, _, _, n) \<Rightarrow>
                    Sbind (parseredirs b n) (\<lambda>(rs, n). Inr (redirs c rs, n))))))"

primrec nulterminate :: "cmd \<Rightarrow> string \<Rightarrow> string" where
  "nulterminate (EXEC argv) b = fold (\<lambda>(q, eq) b. b[eq := CHR 0x00]) argv b"
| "nulterminate (REDIR c q eq mode fd) b = (nulterminate c b)[eq := CHR 0x00]"
| "nulterminate (PIPE l r) b = nulterminate r (nulterminate l b)"
| "nulterminate (LIST l r) b = nulterminate r (nulterminate l b)"
| "nulterminate (BACK c) b = nulterminate c b"

text \<open>The depth that is always enough, and the command with the line as \<open>nulterminate\<close> leaves it.\<close>

definition parse_depth :: "string \<Rightarrow> nat" where
  "parse_depth b = 4 * length b + 4"

definition parsecmd :: "string \<Rightarrow> (cmd \<times> string) shres" where
  "parsecmd b =
     Sbind (parseline (parse_depth b) b 0) (\<lambda>(c, i).
     case peek b i [] of (s, _) \<Rightarrow>
     if s \<noteq> length b then Inl (ShPanic (''leftovers: '' @ drop s b @ ''\<newline>syntax'')) else Inr (c, nulterminate c b))"

end
