(* ===== verification/ShProps.thy ===== *)
theory ShProps
  imports Sh
begin

text \<open>
  The parser of the shell: it always returns, and the strings it hands to the interpreter are the
  words of the line, all of them.
\<close>

section \<open>Words\<close>

text \<open>A maximal piece of the line without blanks and symbols.\<close>

definition is_word :: "string \<Rightarrow> nat \<Rightarrow> nat \<Rightarrow> bool" where
  "is_word b q eq \<longleftrightarrow> q < eq \<and> eq \<le> length b \<and> (\<forall>j. q \<le> j \<and> j < eq \<longrightarrow> word_char (b ! j)) \<and>
     (0 < q \<longrightarrow> \<not> word_char (b ! (q - 1))) \<and> (eq < length b \<longrightarrow> \<not> word_char (b ! eq))"

text \<open>A position of the line that is not inside a word.\<close>

definition edge :: "string \<Rightarrow> nat \<Rightarrow> bool" where
  "edge b i \<longleftrightarrow> i \<le> length b \<and>
     (0 < i \<longrightarrow> i < length b \<longrightarrow> word_char (b ! i) \<longrightarrow> \<not> word_char (b ! (i - 1)))"

lemma edge_le: "edge b i \<Longrightarrow> i \<le> length b"
  by (simp add: edge_def)

lemma edge_0 [simp]: "edge b 0"
  by (simp add: edge_def)

text \<open>The words that start in a stretch of the line.\<close>

definition words_in :: "string \<Rightarrow> nat \<Rightarrow> nat \<Rightarrow> (nat \<times> nat) set" where
  "words_in b i j = {(q, eq). is_word b q eq \<and> i \<le> q \<and> q < j}"

lemma words_in_split: "i \<le> j \<Longrightarrow> j \<le> k \<Longrightarrow> words_in b i k = words_in b i j \<union> words_in b j k"
  by (auto simp: words_in_def)

lemma words_in_none:
  assumes "\<And>j. i \<le> j \<Longrightarrow> j < k \<Longrightarrow> \<not> word_char (b ! j)"
  shows "words_in b i k = {}"
  using assms by (fastforce simp: words_in_def is_word_def)

lemma words_in_one:
  assumes "is_word b q e"
  shows "words_in b q e = {(q, e)}"
proof (intro equalityI subrelI)
  fix q' e' assume "(q', e') \<in> words_in b q e"
  then have w: "is_word b q' e'" "q \<le> q'" "q' < e"
    by (auto simp: words_in_def)
  have "\<not> q < q'"
  proof
    assume "q < q'"
    then have "q \<le> q' - 1" "q' - 1 < e" "0 < q'"
      using w(3) by auto
    then show False
      using assms w(1) unfolding is_word_def by blast
  qed
  then have q: "q' = q"
    using w(2) by simp
  have "\<not> e < e'" "\<not> e' < e"
    using assms w(1) unfolding q is_word_def by (metis less_imp_le_nat order_less_le_trans)+
  then show "(q', e') \<in> {(q, e)}"
    using q by simp
qed (use assms in \<open>auto simp: words_in_def is_word_def\<close>)

lemma skip_blank:
  assumes "edge b i"
  shows "edge b (skip_while blank b i)" "words_in b i (skip_while blank b i) = {}"
proof -
  let ?k = "skip_while blank b i"
  have nw: "\<not> word_char (b ! j)" if "i \<le> j" "j < ?k" for j
    using skip_while_in [OF that] by (simp add: blank_def word_char_def)
  then show "words_in b i ?k = {}"
    by (rule words_in_none)
  show "edge b ?k"
  proof (cases "?k = i")
    case False
    then have "i < ?k"
      using skip_while_le [of i blank b] by simp
    then have "\<not> word_char (b ! (?k - 1))"
      by (intro nw) auto
    then show ?thesis
      using skip_while_len [OF edge_le [OF assms]] by (simp add: edge_def)
  qed (use assms in simp)
qed

lemma token_at_len: "q \<le> length b \<Longrightarrow> snd (token_at b q) \<le> length b"
  by (auto simp: token_at_def Let_def chr_at_def skip_while_len Suc_le_eq split: if_splits)

lemma token_at_word:
  assumes "fst (token_at b q) = CHR ''a''" "edge b q" "q < length b \<Longrightarrow> \<not> blank (b ! q)"
  shows "is_word b q (snd (token_at b q))"
proof -
  have c: "chr_at b q \<noteq> CHR 0x00" "chr_at b q \<notin> set symbols" "snd (token_at b q) = skip_while word_char b q"
    using assms(1) by (auto simp: token_at_def Let_def symbols_def split: if_splits)
  then have q: "q < length b"
    by (auto simp: chr_at_def split: if_splits)
  have "q < snd (token_at b q)"
    using token_at_progress [OF c(1)] assms(3) q by (simp add: chr_at_def)
  moreover have "0 < q \<longrightarrow> \<not> word_char (b ! (q - 1))"
    using assms(2,3) c(2) q by (auto simp: edge_def chr_at_def word_char_def blank_def)
  ultimately show ?thesis
    unfolding is_word_def c(3)
    using skip_while_len [OF edge_le [OF assms(2)], of word_char] skip_while_in [of q _ word_char b]
      skip_while_stop [of word_char b q]
    by blast
qed

lemma token_at_symbol:
  assumes "fst (token_at b q) \<noteq> CHR ''a''" "q \<le> j" "j < snd (token_at b q)"
  shows "\<not> word_char (b ! j)"
proof -
  have "chr_at b j \<in> set symbols"
    using assms by (auto simp: token_at_def Let_def symbols_def less_Suc_eq le_Suc_eq split: if_splits)
  then show ?thesis
    by (auto simp: chr_at_def symbols_def word_char_def split: if_splits)
qed

lemma gettoken_ok:
  assumes "gettoken b i = (t, q, e, k)" "edge b i"
  shows "i \<le> q" "q \<le> e" "e \<le> k" "edge b k" "words_in b i k = (if t = CHR ''a'' then {(q, e)} else {})"
proof -
  have s: "t = fst (token_at b q)" "q = skip_while blank b i" "e = snd (token_at b q)" "k = skip_while blank b e"
    using assms(1) gettoken_sel [of b i] by auto
  show le: "i \<le> q" "q \<le> e" "e \<le> k"
    using skip_while_le token_at_le s by metis+
  have q: "edge b q" "words_in b i q = {}"
    using skip_blank [OF assms(2)] s(2) by simp_all
  have el: "e \<le> length b"
    using token_at_len [OF edge_le [OF q(1)]] s(3) by simp
  have w: "is_word b q e" if "t = CHR ''a''"
    unfolding s(3) using that s q skip_while_stop [of blank b i] by (intro token_at_word) auto
  have n: "\<not> word_char (b ! j)" if "t \<noteq> CHR ''a''" "q \<le> j" "j < e" for j
    using token_at_symbol [of b q j] that s(1,3) by simp
  have "edge b e"
  proof (cases "t = CHR ''a''")
    case True
    then show ?thesis
      using w el by (auto simp: edge_def is_word_def)
  next
    case False
    then show ?thesis
      using n [of "e - 1"] le(2) q(1) el by (cases "q = e") (auto simp: edge_def)
  qed
  then have k: "edge b k" "words_in b e k = {}"
    using skip_blank [of b e] s(4) by simp_all
  then show "edge b k" by simp
  have "words_in b q e = (if t = CHR ''a'' then {(q, e)} else {})"
    using words_in_one [OF w] words_in_none [OF n] by auto
  then show "words_in b i k = (if t = CHR ''a'' then {(q, e)} else {})"
    using words_in_split [of i q k b] words_in_split [of q e k b] le q(2) k(2) by simp
qed

lemma peek_ok:
  assumes "peek b i toks = (j, p)" "edge b i"
  shows "i \<le> j" "edge b j" "words_in b i j = {}"
  using assms skip_while_le [of i blank b] skip_blank [OF assms(2)] by (auto simp: peek_def Let_def)

text \<open>What \<open>peek\<close> found among the symbols, \<open>gettoken\<close> takes as a symbol.\<close>

lemma peek_symbol:
  assumes pk: "peek b i toks = (j, p)" p and sy: "set toks \<subseteq> set symbols" and ed: "edge b i"
    and gt: "gettoken b j = (t, q, e, k)"
  shows "i \<le> k" "edge b k" "words_in b i k = {}" "j < length b" "i < k"
proof -
  have sw: "set symbols \<inter> set whitespace = {}"
    by (simp add: symbols_def whitespace_def)
  then have ws: "set toks \<inter> set whitespace = {}"
    using sy by blast
  have pt: "peek b i toks = (j, True)"
    using pk by simp
  note st = peek_step [OF pt ws gt]
  note j = peek_ok [OF pk(1) ed]
  note g = gettoken_ok [OF gt j(2)]
  have c: "chr_at b j \<in> set symbols" "chr_at b j \<noteq> CHR 0x00"
    using pt sy by (auto simp: peek_def Let_def)
  then have "skip_while blank b j = j"
    using sw st(2) by (subst skip_while.simps) (auto simp: chr_at_def blank_def)
  then have "t \<noteq> CHR ''a''"
    using c gettoken_sel(1) [of b j] gt by (auto simp: token_at_def Let_def symbols_def)
  then show "words_in b i k = {}"
    using words_in_split [of i j k b] j g by simp
  show "i \<le> k" "edge b k" "j < length b" "i < k"
    using st g by simp_all
qed

section \<open>What the parser functions return\<close>

fun cmd_toks :: "cmd \<Rightarrow> (nat \<times> nat) list" where
  "cmd_toks (EXEC argv) = argv"
| "cmd_toks (REDIR c q eq mode fd) = cmd_toks c @ [(q, eq)]"
| "cmd_toks (PIPE l r) = cmd_toks l @ cmd_toks r"
| "cmd_toks (LIST l r) = cmd_toks l @ cmd_toks r"
| "cmd_toks (BACK c) = cmd_toks c"

definition redir_toks :: "(nat \<times> nat \<times> int \<times> int) list \<Rightarrow> (nat \<times> nat) list" where
  "redir_toks rs = map (\<lambda>(q, eq, _). (q, eq)) rs"

lemma redir_toks_simps [simp]:
  "redir_toks [] = []" "redir_toks ((q, e, m) # rs) = (q, e) # redir_toks rs" "redir_toks (rs @ us) = redir_toks rs @ redir_toks us"
  by (simp_all add: redir_toks_def)

lemma cmd_toks_redirs [simp]: "cmd_toks (redirs c rs) = cmd_toks c @ redir_toks rs"
  unfolding redirs_def by (induction rs arbitrary: c) auto

text \<open>
  A result that is not out of depth, and if it is a command has for tokens the words of the
  stretch it was parsed from, and ends further on.
\<close>

definition good :: "string \<Rightarrow> nat \<Rightarrow> (cmd \<times> nat) shres \<Rightarrow> bool" where
  "good b i r \<longleftrightarrow> r \<noteq> Inl ShDeep \<and>
     (\<forall>c n. r = Inr (c, n) \<longrightarrow> set (cmd_toks c) = words_in b i n \<and> i \<le> n \<and> edge b n)"

definition redirs_at :: "string \<Rightarrow> nat \<Rightarrow> bool" where
  "redirs_at b i \<longleftrightarrow> parseredirs b i \<noteq> Inl ShDeep \<and>
     (\<forall>rs n. parseredirs b i = Inr (rs, n) \<longrightarrow> set (redir_toks rs) = words_in b i n \<and> i \<le> n \<and> edge b n)"

lemma parseredirs_ok: "edge b i \<Longrightarrow> redirs_at b i"
proof (induction b i rule: parseredirs.induct)
  case (1 b i)
  obtain j p where p: "peek b i ''<>'' = (j, p)" by fastforce
  obtain tok q0 e0 k where k: "gettoken b j = (tok, q0, e0, k)" by (metis prod_cases4)
  obtain t q e k' where k': "gettoken b k = (t, q, e, k')" by (metis prod_cases4)
  note j = peek_ok [OF p "1.prems"]
  show ?case
  proof (cases p)
    case True
    have "set ''<>'' \<subseteq> set symbols"
      by (simp add: symbols_def)
    note s = peek_symbol [OF p True this "1.prems" k]
    note g = gettoken_ok [OF k' s(2)]
    have e: "parseredirs b i = (if t \<noteq> CHR ''a'' then Inl (ShPanic ''missing file for redirection'')
        else Sbind (parseredirs b k') (\<lambda>(rs, n). Inr ((q, e, redir_mode tok) # rs, n)))"
      using True p k k' by (simp add: parseredirs.simps [of b i])
    show ?thesis
    proof (cases "t = CHR ''a''")
      case a: True
      have IH: "redirs_at b k'"
        using "1.IH" [OF p [symmetric] _ k [symmetric] refl refl k' [symmetric] refl refl] True a g(4) by simp
      have "words_in b i n = insert (q, e) (words_in b k' n)" if "k' \<le> n" for n
        using words_in_split [of i k n b] words_in_split [of k k' n b] s(1,3) g a that by simp
      then show ?thesis
        using IH a s(1) g(1-3) unfolding redirs_at_def e
        by (cases "parseredirs b k'") (auto simp: redir_mode_def)
    qed (simp add: redirs_at_def e)
  next
    case False
    then show ?thesis
      using p j by (simp add: redirs_at_def parseredirs.simps [of b i])
  qed
qed

lemma parse_args_eq:
  assumes "peek b i ''|)&;'' = (j, p)" "gettoken b j = (t, q, e, m)"
  shows "parse_args (Suc k) b i argv rs =
    (if p then Inr (argv, rs, j)
     else if t = CHR 0x00 then Inr (argv, rs, m)
     else if t \<noteq> CHR ''a'' then Inl (ShPanic ''syntax'')
     else if k = 0 then Inl (ShPanic ''too many args'')
     else Sbind (parseredirs b m) (\<lambda>(us, n). parse_args k b n (argv @ [(q, e)]) (rs @ us)))"
  using assms by (cases p) simp_all

declare parse_args.simps(2) [simp del]

lemma parse_args_ok:
  assumes "edge b i"
  shows "parse_args k b i argv rs \<noteq> Inl ShDeep \<and>
    (\<forall>as us n. parse_args k b i argv rs = Inr (as, us, n) \<longrightarrow>
       set as \<union> set (redir_toks us) = set argv \<union> set (redir_toks rs) \<union> words_in b i n \<and> i \<le> n \<and> edge b n)"
  using assms
proof (induction k arbitrary: i argv rs)
  case (Suc k)
  obtain j p where p: "peek b i ''|)&;'' = (j, p)" by fastforce
  obtain t q e m where m: "gettoken b j = (t, q, e, m)" by (metis prod_cases4)
  note j = peek_ok [OF p Suc.prems(1)]
  note g = gettoken_ok [OF m j(2)]
  note r = parseredirs_ok [OF g(4)]
  have le: "i \<le> m"
    using j g by linarith
  have wm: "words_in b i m = (if t = CHR ''a'' then {(q, e)} else {})"
    using words_in_split [of i j m b] j g by simp
  show ?case
  proof (cases "\<not> p \<and> t = CHR ''a'' \<and> k \<noteq> 0")
    case True
    have e: "parse_args (Suc k) b i argv rs =
      Sbind (parseredirs b m) (\<lambda>(us, n). parse_args k b n (argv @ [(q, e)]) (rs @ us))"
      using True by (simp add: parse_args_eq [OF p m])
    show ?thesis
    proof (cases "parseredirs b m")
      case (Inr x)
      obtain us n where x: "x = (us, n)" by fastforce
      have n: "set (redir_toks us) = words_in b m n" "m \<le> n" "edge b n"
        using r Inr x by (auto simp: redirs_at_def)
      have w: "words_in b i n' = {(q, e)} \<union> set (redir_toks us) \<union> words_in b n n'" if "n \<le> n'" for n'
        using words_in_split [of i m n' b] words_in_split [of m n n' b] wm True le n that by simp
      show ?thesis
        unfolding e Inr x Sbind_simps prod.case
        using Suc.IH [OF n(3), of "argv @ [(q, e)]" "rs @ us"] w le n(2) by auto
    next
      case (Inl x)
      then show ?thesis
        unfolding e using r by (simp add: redirs_at_def)
    qed
  next
    case False
    then have e: "parse_args (Suc k) b i argv rs =
      (if p then Inr (argv, rs, j) else if t = CHR 0x00 then Inr (argv, rs, m)
       else if t \<noteq> CHR ''a'' then Inl (ShPanic ''syntax'') else Inl (ShPanic ''too many args''))"
      unfolding parse_args_eq [OF p m] by (cases p; cases "k = 0"; simp)
    show ?thesis
      unfolding e using Suc.prems le j g(4) wm by (simp split: if_split)
  qed
qed simp

lemma parse_back_ok:
  assumes "parse_back b i c = (c', n)" "edge b i"
  shows "cmd_toks c' = cmd_toks c \<and> i \<le> n \<and> edge b n \<and> words_in b i n = {}"
  using assms
proof (induction b i c rule: parse_back.induct)
  case (1 b i c)
  obtain j p where p: "peek b i ''&'' = (j, p)" by fastforce
  obtain t q e k where k: "gettoken b j = (t, q, e, k)" by (metis prod_cases4)
  note j = peek_ok [OF p "1.prems"(2)]
  show ?case
  proof (cases p)
    case True
    have "set ''&'' \<subseteq> set symbols"
      by (simp add: symbols_def)
    note s = peek_symbol [OF p True this "1.prems"(2) k]
    have "parse_back b k (BACK c) = (c', n)"
      using True "1.prems"(1) p k by (simp add: parse_back.simps [of b i c])
    then have "cmd_toks c' = cmd_toks (BACK c) \<and> k \<le> n \<and> edge b n \<and> words_in b k n = {}"
      using "1.IH" [OF p [symmetric] _ k [symmetric] refl refl] True s(2) by simp
    then show ?thesis
      using s words_in_split [of i k n b] by simp
  next
    case False
    then show ?thesis
      using "1.prems"(1) p j by (simp add: parse_back.simps [of b i c])
  qed
qed

lemma goodI: "set (cmd_toks c) = words_in b i n \<Longrightarrow> i \<le> n \<Longrightarrow> edge b n \<Longrightarrow> good b i (Inr (c, n))"
  by (simp add: good_def)

lemma good_panic [simp]: "good b i (Inl (ShPanic m))"
  by (simp add: good_def)

lemma good_skip:
  assumes "good b j r" "i \<le> j" "words_in b i j = {}"
  shows "good b i r"
proof -
  have "words_in b i n = words_in b j n" if "j \<le> n" for n
    using words_in_split [OF assms(2) that] assms(3) by simp
  then show ?thesis
    using assms(1,2) unfolding good_def by auto
qed

lemma goodE:
  assumes "good b i r"
  obtains m where "r = Inl (ShPanic m)" | c n where "r = Inr (c, n)" "set (cmd_toks c) = words_in b i n" "i \<le> n" "edge b n"
proof (cases r)
  case (Inl e)
  then show thesis using assms that(1) by (cases e) (auto simp: good_def)
next
  case (Inr x)
  then show thesis using assms that(2) by (cases x) (auto simp: good_def)
qed

text \<open>The step shared by the two binary operators: an operand, the operator, and the rest.\<close>

lemma good_binary:
  assumes tok: "peek b n op = (j, p)" "gettoken b j = (t, q, e, k)" "set op \<subseteq> set symbols"
    and left: "set (cmd_toks c) = words_in b i n" "i \<le> n" "edge b n"
    and rest: "p \<Longrightarrow> n < length b \<Longrightarrow> n < k \<Longrightarrow> edge b k \<Longrightarrow> good b k r"
    and toks: "\<And>d. cmd_toks (f c d) = cmd_toks c @ cmd_toks d"
  shows "good b i (if p then Sbind r (\<lambda>(d, m). Inr (f c d, m)) else Inr (c, j))"
proof (cases p)
  case True
  note s = peek_symbol [OF tok(1) True tok(3) left(3) tok(2)]
  have "good b k r"
    using rest True s edge_le [OF s(2)] peek_ok(1) [OF tok(1) left(3)] by simp
  then show ?thesis
  proof (cases rule: goodE)
    case (2 d m)
    have "words_in b i m = words_in b i n \<union> words_in b k m"
      using words_in_split [of i n m b] words_in_split [of n k m b] left(2) s(1,3) 2(3) by simp
    then show ?thesis
      using True 2 left s(1) toks by (auto intro!: goodI)
  qed (use True in simp)
next
  case False
  note j = peek_ok [OF tok(1) left(3)]
  show ?thesis
    using False j left words_in_split [of i n j b] by (auto intro!: goodI)
qed

lemma parse_eqs:
  assumes "peek b n op = (j, p)" "gettoken b j = (t, q, e, k)"
  shows "op = '';'' \<Longrightarrow> parsepipe d b i = Inr (c, m) \<Longrightarrow> parse_back b m c = (c', n) \<Longrightarrow> parseline (Suc d) b i =
      (if p then Sbind (parseline d b k) (\<lambda>(r, m). Inr (LIST c' r, m)) else Inr (c', j))"
    "op = ''|'' \<Longrightarrow> parseexec d b i = Inr (c, n) \<Longrightarrow> parsepipe (Suc d) b i =
      (if p then Sbind (parsepipe d b k) (\<lambda>(r, m). Inr (PIPE c r, m)) else Inr (c, j))"
    "op = ''('' \<Longrightarrow> parseexec (Suc d) b n =
      (if p then parseblock d b j
       else Sbind (parseredirs b j) (\<lambda>(rs, n).
            Sbind (parse_args MAXARGS b n [] rs) (\<lambda>(argv, rs, n). Inr (redirs (EXEC argv) rs, n))))"
  using assms by (cases p; simp)+

lemma redirs_good:
  assumes "set (cmd_toks c) = words_in b i n" "i \<le> n" "edge b n"
  shows "good b i (Sbind (parseredirs b n) (\<lambda>(rs, n). Inr (redirs c rs, n)))"
proof (cases "parseredirs b n")
  case (Inr x)
  obtain rs m where x: "x = (rs, m)" by fastforce
  have m: "set (redir_toks rs) = words_in b n m" "n \<le> m" "edge b m"
    using parseredirs_ok [OF assms(3)] Inr x by (auto simp: redirs_at_def)
  show ?thesis
    unfolding Inr x Sbind_simps prod.case
    using assms m words_in_split [OF assms(2) m(2), of b] by (intro goodI) simp_all
next
  case (Inl e)
  then show ?thesis
    using parseredirs_ok [OF assms(3)] by (cases e) (simp_all add: redirs_at_def)
qed

lemma exec_good:
  assumes "edge b n"
  shows "good b n (Sbind (parseredirs b n) (\<lambda>(rs, n).
    Sbind (parse_args MAXARGS b n [] rs) (\<lambda>(argv, rs, n). Inr (redirs (EXEC argv) rs, n))))"
proof (cases "parseredirs b n")
  case (Inr x)
  obtain rs m where x: "x = (rs, m)" by fastforce
  have m: "set (redir_toks rs) = words_in b n m" "n \<le> m" "edge b m"
    using parseredirs_ok [OF assms(1)] Inr x by (auto simp: redirs_at_def)
  note a = parse_args_ok [OF m(3), of MAXARGS "[]" rs]
  show ?thesis
  proof (cases "parse_args MAXARGS b m [] rs")
    case (Inr y)
    obtain argv us k where y: "y = (argv, us, k)" by (cases y)
    have k: "set argv \<union> set (redir_toks us) = words_in b n m \<union> words_in b m k" "m \<le> k" "edge b k"
      using a Inr y m(1) by simp_all
    show ?thesis
      unfolding \<open>parseredirs b n = Inr x\<close> x Sbind_simps prod.case Inr y
      using k m(2) words_in_split [of n m k b] by (intro goodI) simp_all
  next
    case (Inl e)
    then have "e \<noteq> ShDeep"
      using a by blast
    then show ?thesis
      unfolding \<open>parseredirs b n = Inr x\<close> x Sbind_simps prod.case Inl by (cases e) simp_all
  qed
next
  case (Inl e)
  then show ?thesis
    using parseredirs_ok [OF assms(1)] by (cases e) (simp_all add: redirs_at_def)
qed

lemma op_symbols: "set '';'' \<subseteq> set symbols" "set ''|'' \<subseteq> set symbols" "set ''('' \<subseteq> set symbols" "set '')'' \<subseteq> set symbols"
  by (simp_all add: symbols_def)

text \<open>The depth each function needs, as a function of what is left of the line.\<close>

lemma parse_good:
  "edge b i \<Longrightarrow> 4 * (length b - i) + 4 \<le> d \<Longrightarrow> good b i (parseline d b i)"
  "edge b i \<Longrightarrow> 4 * (length b - i) + 3 \<le> d \<Longrightarrow> good b i (parsepipe d b i)"
  "edge b i \<Longrightarrow> 4 * (length b - i) + 2 \<le> d \<Longrightarrow> good b i (parseexec d b i)"
  "edge b i \<Longrightarrow> 4 * (length b - i) + 1 \<le> d \<Longrightarrow> good b i (parseblock d b i)"
proof (induction d arbitrary: i)
  case (Suc d)
  note dl = Suc.IH(1) and dp = Suc.IH(2) and de = Suc.IH(3) and db = Suc.IH(4)
  {
    case 1
    then have "good b i (parsepipe d b i)"
      using dp by simp
    then show ?case
    proof (cases rule: goodE)
      case (2 c m)
      obtain c' n where n: "parse_back b m c = (c', n)" by fastforce
      note n' = parse_back_ok [OF n 2(4)]
      obtain j p where p: "peek b n '';'' = (j, p)" by fastforce
      obtain t q e k where k: "gettoken b j = (t, q, e, k)" by (metis prod_cases4)
      have "good b i (if p then Sbind (parseline d b k) (\<lambda>(r, m). Inr (LIST c' r, m)) else Inr (c', j))"
        by (rule good_binary [OF p k op_symbols(1)])
          (use 1 2 n' dl words_in_split [of i m n b] in auto)
      then show ?thesis
        using parse_eqs(1) [OF p k refl 2(1) n] by simp
    qed simp
  next
    case 2
    then have "good b i (parseexec d b i)"
      using de by simp
    then show ?case
    proof (cases rule: goodE)
      case h: (2 c n)
      obtain j p where p: "peek b n ''|'' = (j, p)" by fastforce
      obtain t q e k where k: "gettoken b j = (t, q, e, k)" by (metis prod_cases4)
      have "good b i (if p then Sbind (parsepipe d b k) (\<lambda>(r, m). Inr (PIPE c r, m)) else Inr (c, j))"
        by (rule good_binary [OF p k op_symbols(2)]) (use 2 h dp in auto)
      then show ?thesis
        using parse_eqs(2) [OF p k refl h(1)] by simp
    qed simp
  next
    case 3
    obtain j p where p: "peek b i ''('' = (j, p)" by fastforce
    obtain t q e k where k: "gettoken b j = (t, q, e, k)" by (metis prod_cases4)
    note j = peek_ok [OF p 3(1)]
    have "4 * (length b - j) + 1 \<le> d"
      using 3(2) j(1) by simp
    then have "good b j (parseblock d b j)"
      by (rule db [OF j(2)])
    then have "good b j (parseexec (Suc d) b i)"
      unfolding parse_eqs(3) [OF p k refl] using exec_good [OF j(2)] by simp
    then show ?case
      by (rule good_skip [OF _ j(1,3)])
  next
    case 4
    obtain j p where p: "peek b i ''('' = (j, p)" by fastforce
    obtain t q e k where k: "gettoken b j = (t, q, e, k)" by (metis prod_cases4)
    show ?case
    proof (cases p)
      case True
      then have p': "peek b i ''('' = (j, True)" using p by simp
      note s = peek_symbol [OF p' TrueI op_symbols(3) 4(1) k]
      have "good b k (parseline d b k)"
        using dl [OF s(2)] 4 s edge_le [OF s(2)] by auto
      then show ?thesis
      proof (cases rule: goodE)
        case h: (2 c n)
        obtain m r where m: "peek b n '')'' = (m, r)" by fastforce
        obtain t' q' e' k' where k': "gettoken b m = (t', q', e', k')" by (metis prod_cases4)
        show ?thesis
        proof (cases r)
          case r: True
          note g = peek_symbol [OF m r op_symbols(4) h(4) k']
          have "words_in b i k' = words_in b k n"
            using words_in_split [of i k k' b] words_in_split [of k n k' b] s g h(3) by simp
          then have "good b i (Sbind (parseredirs b k') (\<lambda>(rs, n). Inr (redirs c rs, n)))"
            using g h s by (intro redirs_good) auto
          then show ?thesis
            using p' k h(1) m k' r by simp
        qed (use p' k h(1) m in simp)
      qed (use p' k in simp)
    qed (use p in simp)
  }
qed simp_all

lemma parsecmd_good: "good b 0 (parseline (parse_depth b) b 0)"
  by (rule parse_good(1)) (simp_all add: parse_depth_def)

section \<open>Properties\<close>

text \<open>
  C39. The parser terminates on every line: the calls of \<open>parseline\<close>, \<open>parsepipe\<close>, \<open>parseexec\<close> and
  \<open>parseblock\<close> never nest deeper than four times the length of the line and four, so that \<open>parsecmd\<close>
  gives a command or reports an error.
\<close>

theorem parsecmd_terminates:
  "(\<exists>c b'. parsecmd b = Inr (c, b')) \<or> (\<exists>msg. parsecmd b = Inl (ShPanic msg))"
  using parsecmd_good [of b] by (cases rule: goodE) (auto simp: parsecmd_def split: prod.split)

text \<open>The line after \<open>nulterminate\<close>: null bytes at the ends of the tokens.\<close>

lemma fold_nul:
  "length (fold (\<lambda>(q, eq) b. b[eq := CHR 0x00]) ts b) = length b \<and>
   (j < length b \<longrightarrow> fold (\<lambda>(q, eq) b. b[eq := CHR 0x00]) ts b ! j = (if j \<in> snd ` set ts then CHR 0x00 else b ! j))"
proof (induction ts arbitrary: b)
  case (Cons x ts)
  obtain q e where x: "x = (q, e)" by fastforce
  show ?case
    using Cons [of "b[e := CHR 0x00]"] unfolding x by (simp add: nth_list_update)
qed simp

lemma nulterminate_fold: "nulterminate c b = fold (\<lambda>(q, eq) b. b[eq := CHR 0x00]) (cmd_toks c) b"
  by (induction c arbitrary: b) simp_all

definition str_at :: "string \<Rightarrow> nat \<Rightarrow> string" where
  "str_at b q = takeWhile (\<lambda>c. c \<noteq> CHR 0x00) (drop q b)"

lemma str_at_token:
  assumes w: "\<forall>(q, eq)\<in>set (cmd_toks c). is_word b q eq" and t: "(q, eq) \<in> set (cmd_toks c)" and b: "CHR 0x00 \<notin> set b"
  shows "str_at (nulterminate c b) q = take (eq - q) (drop q b)"
proof -
  let ?b = "nulterminate c b"
  have n: "length ?b = length b"
    "\<And>j. j < length b \<Longrightarrow> ?b ! j = (if j \<in> snd ` set (cmd_toks c) then CHR 0x00 else b ! j)"
    using fold_nul [of "cmd_toks c" b] unfolding nulterminate_fold by auto
  have q: "q < eq" "eq \<le> length b" "\<And>j. q \<le> j \<Longrightarrow> j < eq \<Longrightarrow> word_char (b ! j)"
    using w t by (auto simp: is_word_def)
  have inner: "?b ! j = b ! j" if "q \<le> j" "j < eq" for j
  proof -
    have "j \<notin> snd ` set (cmd_toks c)"
    proof
      assume "j \<in> snd ` set (cmd_toks c)"
      then obtain p where "is_word b p j"
        using w by auto
      then show False
        using that q by (auto simp: is_word_def)
    qed
    then show ?thesis
      using n(2) that q(2) by simp
  qed
  have stop: "?b ! eq = CHR 0x00" if "eq < length b"
    using n(2) [OF that] t by force
  have e: "drop q ?b = take (eq - q) (drop q b) @ drop eq ?b"
  proof (rule nth_equalityI)
    fix i assume i: "i < length (drop q ?b)"
    show "drop q ?b ! i = (take (eq - q) (drop q b) @ drop eq ?b) ! i"
      using i n(1) q inner [of "q + i"] by (cases "i < eq - q") (auto simp: nth_append add.commute)
  qed (use n(1) q in simp)
  have "takeWhile (\<lambda>c. c \<noteq> CHR 0x00) (drop eq ?b) = []"
  proof (cases "eq < length b")
    case True
    then have "drop eq ?b = CHR 0x00 # drop (Suc eq) ?b"
      using stop n(1) by (metis Cons_nth_drop_Suc)
    then show ?thesis by simp
  qed (use n(1) in simp)
  moreover have "\<forall>x\<in>set (take (eq - q) (drop q b)). x \<noteq> CHR 0x00"
    using b by (metis in_set_dropD in_set_takeD)
  ultimately show ?thesis
    unfolding str_at_def e by (simp add: takeWhile_append)
qed

text \<open>
  C38. The strings of the parsed command: its arguments and file names are exactly the words of
  the line, a word being a run of non-blank, non-symbol bytes that is maximal on both sides, so
  none is lost, cut or made up; and in the line that \<open>nulterminate\<close> leaves, the C string at the
  start of each is exactly that run: the null bytes written for one word never cut another.
\<close>

theorem parsecmd_strings:
  assumes "parsecmd b = Inr (c, b')" "CHR 0x00 \<notin> set b"
  shows "set (cmd_toks c) = {(q, eq). is_word b q eq} \<and>
    (\<forall>(q, eq)\<in>set (cmd_toks c). str_at b' q = take (eq - q) (drop q b))"
proof -
  obtain n where n: "parseline (parse_depth b) b 0 = Inr (c, n)" "fst (peek b n []) = length b"
    "b' = nulterminate c b"
    using assms(1) by (auto simp: parsecmd_def Sbind_def split: sum.splits prod.splits if_splits)
  have g: "set (cmd_toks c) = words_in b 0 n" "edge b n"
    using parsecmd_good [of b] n(1) by (auto simp: good_def)
  obtain p where "peek b n [] = (length b, p)"
    using n(2) by (cases "peek b n []") simp
  note e = peek_ok [OF this g(2)]
  have "words_in b 0 n = words_in b 0 (length b)"
    using words_in_split [of 0 n "length b" b] e(1,3) by simp
  also have "\<dots> = {(q, eq). is_word b q eq}"
    by (auto simp: words_in_def is_word_def)
  finally have w: "set (cmd_toks c) = {(q, eq). is_word b q eq}"
    using g(1) by simp
  then show ?thesis
    using str_at_token [of c b, OF _ _ assms(2)] n(3) by auto
qed

definition demo_line :: string where
  "demo_line = ''ls>a|(wc);x&''"

definition demo_cmd :: cmd where
  "demo_cmd = LIST (PIPE (REDIR (EXEC [(0, 2)]) 3 4 0x201 1) (EXEC [(6, 8)])) (BACK (EXEC [(10, 11)]))"

lemma demo_parse: "parsecmd demo_line = Inr (demo_cmd, nulterminate demo_cmd demo_line)"
  by code_simp

theorem parsecmd_strings_witness:
  "\<exists>c b'. parsecmd demo_line = Inr (c, b') \<and> cmd_toks c = [(0, 2), (3, 4), (6, 8), (10, 11)] \<and>
     {(q, eq). is_word demo_line q eq} = {(0, 2), (3, 4), (6, 8), (10, 11)} \<and>
     str_at b' 6 = ''wc'' \<and> str_at b' 0 = ''ls''"
proof -
  have t: "cmd_toks demo_cmd = [(0, 2), (3, 4), (6, 8), (10, 11)]" "CHR 0x00 \<notin> set demo_line"
    by (simp_all add: demo_cmd_def demo_line_def)
  have w: "{(q, eq). is_word demo_line q eq} = {(0, 2), (3, 4), (6, 8), (10, 11)}"
    using parsecmd_strings [OF demo_parse t(2)] unfolding t(1) by simp
  have "str_at (nulterminate demo_cmd demo_line) 6 = take (8 - 6) (drop 6 demo_line)"
    "str_at (nulterminate demo_cmd demo_line) 0 = take (2 - 0) (drop 0 demo_line)"
    using parsecmd_strings [OF demo_parse t(2)] unfolding t(1) by simp_all
  then show ?thesis
    using demo_parse t(1) w by (simp add: demo_line_def)
qed

end
