(* ===== verification/ShRun.thy ===== *)
theory ShRun
  imports ShProps
begin

text \<open>
  sh.c, the interpreter: what a shell process does with a parsed command, as the tree of system
  calls it makes.  A node is a call, its subtrees what follows for each result; \<open>Return\<close> is going
  back to the loop of \<open>main\<close>.  The strings are those of the line as the parser leaves it.
\<close>

section \<open>The calls of a command\<close>

datatype prog =
    Exit
  | Return
  | Exec string "string list" prog         \<comment> \<open>followed by what happens when it fails\<close>
  | Print string prog
  | PrintInt int prog                      \<comment> \<open>\<open>%d\<close> and a newline\<close>
  | Close int prog
  | Open string int "int \<Rightarrow> prog"
  | MkPipe "int \<Rightarrow> int \<Rightarrow> int \<Rightarrow> prog"      \<comment> \<open>the result and the two descriptors\<close>
  | Dup int prog
  | Fork "int \<Rightarrow> prog"
  | Wait prog
  | Chdir string "int \<Rightarrow> prog"
  | Setuid int prog
  | Setgid int prog
  | Getuid "int \<Rightarrow> prog"
  | Getgid "int \<Rightarrow> prog"

definition sh_panic :: "string \<Rightarrow> prog" where
  "sh_panic m = Print (m @ ''\<newline>'') Exit"

definition fork1 :: "(int \<Rightarrow> prog) \<Rightarrow> prog" where
  "fork1 k = Fork (\<lambda>pid. if pid = - 1 then sh_panic ''fork'' else k pid)"

primrec runcmd :: "cmd \<Rightarrow> string \<Rightarrow> prog" where
  "runcmd (EXEC argv) b =
     (if argv = [] then Exit
      else
        let as = map (\<lambda>(q, _). str_at b q) argv in
        Exec (hd as) as (Print (''exec '' @ hd as @ '' failed\<newline>'') Exit))"
| "runcmd (REDIR c q eq mode fd) b =
     Close fd (Open (str_at b q) mode (\<lambda>r.
       if r < 0 then Print (''open '' @ str_at b q @ '' failed\<newline>'') Exit else runcmd c b))"
| "runcmd (LIST l r) b = fork1 (\<lambda>pid. if pid = 0 then runcmd l b else Wait (runcmd r b))"
| "runcmd (PIPE l r) b =
     MkPipe (\<lambda>res p0 p1.
       if res < 0 then sh_panic ''pipe''
       else
         fork1 (\<lambda>pid. if pid = 0 then Close 1 (Dup p1 (Close p0 (Close p1 (runcmd l b))))
         else
           fork1 (\<lambda>pid. if pid = 0 then Close 0 (Dup p0 (Close p0 (Close p1 (runcmd r b))))
           else Close p0 (Close p1 (Wait (Wait Exit))))))"
| "runcmd (BACK c) b = fork1 (\<lambda>pid. if pid = 0 then runcmd c b else Exit)"

section \<open>Built-in commands and the loop\<close>

fun sh_strncmp :: "string \<Rightarrow> string \<Rightarrow> nat \<Rightarrow> int" where
  "sh_strncmp p q 0 = 0"
| "sh_strncmp p q (Suc n) =
     (let a = (if p = [] then CHR 0x00 else hd p); c = (if q = [] then CHR 0x00 else hd q) in
      if a \<noteq> CHR 0x00 \<and> a = c then sh_strncmp (tl p) (tl q) n else of_char a - of_char c)"

fun makeint :: "uint \<Rightarrow> string \<Rightarrow> uint" where
  "makeint val [] = val"
| "makeint val (c # p) =
     (if CHR ''0'' \<le> c \<and> c \<le> CHR ''9'' then makeint (10 * val + (of_char c - 48)) p else val)"

definition chomp :: "string \<Rightarrow> string" where
  "chomp p = dropWhile (\<lambda>c. sh_strncmp [c] '' '' 1 = 0) p"

definition setbuiltin :: "string \<Rightarrow> prog \<Rightarrow> prog" where
  "setbuiltin p k =
     (let p = chomp (drop 4 p) in
      if sh_strncmp ''uid'' p 3 = 0 then Setuid (sint (makeint 0 (chomp (drop 3 p)))) k
      else if sh_strncmp ''gid'' p 3 = 0 then Setgid (sint (makeint 0 (chomp (drop 3 p)))) k
      else Print ''Invalid _set parameter\<newline>'' k)"

definition getbuiltin :: "string \<Rightarrow> prog \<Rightarrow> prog" where
  "getbuiltin p k =
     (let p = chomp (drop 4 p) in
      if sh_strncmp ''uid'' p 3 = 0 then Getuid (\<lambda>u. PrintInt u k)
      else if sh_strncmp ''gid'' p 3 = 0 then Getgid (\<lambda>g. PrintInt g k)
      else Print ''Invalid _get parameter\<newline>'' k)"

definition dobuiltin :: "string \<Rightarrow> prog \<Rightarrow> prog" where
  "dobuiltin cmd k =
     (let k = (if sh_strncmp cmd ''_get'' 4 = 0 then getbuiltin cmd k else k) in
      if sh_strncmp cmd ''_set'' 4 = 0 then setbuiltin cmd k else k)"

text \<open>One turn of the loop of \<open>main\<close>, for the line \<open>getcmd\<close> has read.\<close>

definition main_turn :: "string \<Rightarrow> prog" where
  "main_turn buf =
     (if take 3 buf = ''cd '' then
        let dir = drop 3 (butlast buf) in
        Chdir dir (\<lambda>r. if r < 0 then Print (''cannot cd '' @ dir @ ''\<newline>'') Return else Return)
      else if take 1 buf = ''_'' then dobuiltin buf Return
      else
        fork1 (\<lambda>pid.
          if pid = 0 then
            (case parsecmd buf of
               Inl (ShPanic m) \<Rightarrow> sh_panic m
             | Inl ShDeep \<Rightarrow> Exit
             | Inr (c, b) \<Rightarrow> runcmd c b)
          else Wait Return))"

section \<open>Pipelines\<close>

text \<open>
  The descriptors of the processes that run a tree: a new one is the lowest that is free, as in
  the kernel, and a child starts with those of its parent.
\<close>

datatype fobj = Given nat | PipeR | PipeW | Opened string

type_synonym fdtab = "int \<Rightarrow> fobj option"

definition low_fd :: "fdtab \<Rightarrow> nat option" where
  "low_fd T = find (\<lambda>i. T (int i) = None) [0..<NOFILE]"

inductive sh_step :: "prog \<times> fdtab \<Rightarrow> prog \<times> fdtab \<Rightarrow> bool" where
  close: "sh_step (Close fd p, T) (p, T(fd := None))"
| dup: "T fd = Some x \<Longrightarrow> low_fd T = Some n \<Longrightarrow> sh_step (Dup fd p, T) (p, T(int n \<mapsto> x))"
| pipe: "low_fd T = Some a \<Longrightarrow> low_fd (T(int a \<mapsto> PipeR)) = Some c \<Longrightarrow>
    sh_step (MkPipe k, T) (k 0 (int a) (int c), T(int a \<mapsto> PipeR, int c \<mapsto> PipeW))"
| child: "sh_step (Fork k, T) (k 0, T)"
| parent: "0 < pid \<Longrightarrow> sh_step (Fork k, T) (k pid, T)"
| opened: "low_fd T = Some n \<Longrightarrow> sh_step (Open f m k, T) (k (int n), T(int n \<mapsto> Opened f))"
| waited: "sh_step (Wait p, T) (p, T)"
| printed: "sh_step (Print m p, T) (p, T)"

lemma low_fd_Some: "low_fd T = Some n \<longleftrightarrow> n < NOFILE \<and> T (int n) = None \<and> (\<forall>i<n. T (int i) \<noteq> None)"
  by (auto simp: low_fd_def find_Some_iff)

lemma low_fd_0: "T 0 = None \<Longrightarrow> low_fd T = Some 0"
  by (simp add: low_fd_Some NOFILE_def)

lemma low_fd_1: "T 0 \<noteq> None \<Longrightarrow> T 1 = None \<Longrightarrow> low_fd T = Some 1"
  by (simp add: low_fd_Some NOFILE_def)

text \<open>What a child does before its command: one end of the pipe becomes descriptor \<open>n\<close>.\<close>

declare rtranclp.rtrancl_into_rtrancl [trans]

lemma child_wire:
  assumes "low_fd (T(int n := None)) = Some n" "T x = Some ob" "x \<noteq> int n"
  shows "sh_step\<^sup>*\<^sup>* (Close (int n) (Dup x (Close a (Close c p))), T) (p, T(int n \<mapsto> ob, a := None, c := None))"
proof -
  let ?T = "T(int n := None)"
  have "sh_step\<^sup>*\<^sup>* (Close (int n) (Dup x (Close a (Close c p))), T) (Dup x (Close a (Close c p)), ?T)"
    by (intro r_into_rtranclp sh_step.close)
  also have "sh_step (Dup x (Close a (Close c p)), ?T) (Close a (Close c p), ?T(int n \<mapsto> ob))"
    using assms by (intro sh_step.dup) simp_all
  also have "sh_step (Close a (Close c p), ?T(int n \<mapsto> ob)) (Close c p, ?T(int n \<mapsto> ob, a := None))"
    by (rule sh_step.close)
  also have "sh_step (Close c p, ?T(int n \<mapsto> ob, a := None)) (p, ?T(int n \<mapsto> ob, a := None, c := None))"
    by (rule sh_step.close)
  finally show ?thesis
    by simp
qed

lemma fork1_step: "pid \<noteq> - 1 \<Longrightarrow> 0 \<le> pid \<Longrightarrow> sh_step (fork1 k, T) (k pid, T)"
  using sh_step.child [of "\<lambda>pid. if pid = - 1 then sh_panic ''fork'' else k pid" T]
    sh_step.parent [of pid "\<lambda>pid. if pid = - 1 then sh_panic ''fork'' else k pid" T]
  by (cases "pid = 0") (simp_all add: fork1_def)

text \<open>
  C40. The wiring of a pipeline: from a process with descriptors 0 and 1 open and two free,
  \<open>runcmd\<close> of \<open>l | r\<close> runs \<open>l\<close> in a child whose standard output is the write end of the pipe, and \<open>r\<close>
  in one whose standard input is the read end, all other descriptors as before and no other copy
  of the pipe left open; the parent waits twice with its descriptors as they were.
\<close>

theorem runcmd_pipe_wiring:
  assumes "T 0 \<noteq> None" "T 1 \<noteq> None" "low_fd T = Some p0" "low_fd (T(int p0 \<mapsto> PipeR)) = Some p1"
  shows "sh_step\<^sup>*\<^sup>* (runcmd (PIPE l r) b, T) (runcmd l b, T(1 \<mapsto> PipeW)) \<and>
    sh_step\<^sup>*\<^sup>* (runcmd (PIPE l r) b, T) (runcmd r b, T(0 \<mapsto> PipeR)) \<and>
    sh_step\<^sup>*\<^sup>* (runcmd (PIPE l r) b, T) (Wait (Wait Exit), T)"
proof -
  let ?T = "T(int p0 \<mapsto> PipeR, int p1 \<mapsto> PipeW)"
  define left where "left = Close 1 (Dup (int p1) (Close (int p0) (Close (int p1) (runcmd l b))))"
  define right where "right = Close 0 (Dup (int p0) (Close (int p0) (Close (int p1) (runcmd r b))))"
  define rest where "rest = Close (int p0) (Close (int p1) (Wait (Wait Exit)))"
  have free: "T (int p0) = None" "T (int p1) = None" "int p0 \<noteq> int p1"
    using assms(3,4) by (auto simp: low_fd_Some split: if_splits)
  have low: "int p0 \<noteq> 0" "int p0 \<noteq> 1" "int p1 \<noteq> 0" "int p1 \<noteq> 1"
    using free(1,2) assms(1,2) by metis+
  have "sh_step (runcmd (PIPE l r) b, T) (fork1 (\<lambda>pid. if pid = 0 then left
      else fork1 (\<lambda>pid. if pid = 0 then right else rest)), ?T)"
    unfolding left_def right_def rest_def
    using sh_step.pipe [OF assms(3,4), of "\<lambda>res p0 p1. if res < 0 then sh_panic ''pipe'' else fork1 (\<lambda>pid.
      if pid = 0 then Close 1 (Dup p1 (Close p0 (Close p1 (runcmd l b))))
      else fork1 (\<lambda>pid. if pid = 0 then Close 0 (Dup p0 (Close p0 (Close p1 (runcmd r b))))
           else Close p0 (Close p1 (Wait (Wait Exit)))))"]
    by simp
  then have start: "sh_step\<^sup>*\<^sup>* (runcmd (PIPE l r) b, T) (left, ?T)"
      "sh_step\<^sup>*\<^sup>* (runcmd (PIPE l r) b, T) (fork1 (\<lambda>pid. if pid = 0 then right else rest), ?T)"
    using fork1_step [of 0 "\<lambda>pid. if pid = 0 then left else fork1 (\<lambda>pid. if pid = 0 then right else rest)" ?T]
      fork1_step [of 1 "\<lambda>pid. if pid = 0 then left else fork1 (\<lambda>pid. if pid = 0 then right else rest)" ?T]
    by (simp_all add: converse_rtranclp_into_rtranclp)
  have forks: "sh_step (fork1 (\<lambda>pid. if pid = 0 then right else rest), ?T) (right, ?T)"
      "sh_step (fork1 (\<lambda>pid. if pid = 0 then right else rest), ?T) (rest, ?T)"
    using fork1_step [of 0 "\<lambda>pid. if pid = 0 then right else rest" ?T]
      fork1_step [of 1 "\<lambda>pid. if pid = 0 then right else rest" ?T] by simp_all
  have "sh_step\<^sup>*\<^sup>* (left, ?T) (runcmd l b, ?T(int 1 \<mapsto> PipeW, int p0 := None, int p1 := None))"
    unfolding left_def using assms(1) low free child_wire [of ?T 1 "int p1" PipeW "int p0" "int p1" "runcmd l b"]
    by (simp add: low_fd_1)
  moreover have "?T(int 1 \<mapsto> PipeW, int p0 := None, int p1 := None) = T(1 \<mapsto> PipeW)"
    using low free by (auto simp: fun_eq_iff)
  moreover have "sh_step\<^sup>*\<^sup>* (right, ?T) (runcmd r b, ?T(int 0 \<mapsto> PipeR, int p0 := None, int p1 := None))"
    unfolding right_def using low free child_wire [of ?T 0 "int p0" PipeR "int p0" "int p1" "runcmd r b"]
    by (simp add: low_fd_0)
  moreover have "?T(int 0 \<mapsto> PipeR, int p0 := None, int p1 := None) = T(0 \<mapsto> PipeR)"
    using low free by (auto simp: fun_eq_iff)
  moreover have "sh_step\<^sup>*\<^sup>* (rest, ?T) (Wait (Wait Exit), ?T(int p0 := None, int p1 := None))"
    unfolding rest_def by (meson converse_rtranclp_into_rtranclp r_into_rtranclp sh_step.close)
  moreover have "?T(int p0 := None, int p1 := None) = T"
    using free by (auto simp: fun_eq_iff)
  ultimately show ?thesis
    using start forks by (metis (no_types, lifting) rtranclp.rtrancl_into_rtrancl rtranclp_trans)
qed

theorem runcmd_pipe_wiring_witness:
  "sh_step\<^sup>*\<^sup>* (runcmd (PIPE (EXEC [(0, 2)]) (EXEC [(3, 5)])) ''ls|wc'', \<lambda>i. if i \<in> {0, 1, 2} then Some (Given (nat i)) else None)
     (runcmd (EXEC [(0, 2)]) ''ls|wc'', (\<lambda>i. if i \<in> {0, 1, 2} then Some (Given (nat i)) else None)(1 \<mapsto> PipeW))"
proof -
  let ?T = "\<lambda>i :: int. if i \<in> {0, 1, 2} then Some (Given (nat i)) else None"
  have "low_fd ?T = Some 3" "low_fd (?T(int 3 \<mapsto> PipeR)) = Some 4"
    by (auto simp: low_fd_Some NOFILE_def)
  then show ?thesis
    using runcmd_pipe_wiring [of ?T 3 4 "EXEC [(0, 2)]" "EXEC [(3, 5)]" "''ls|wc''"] by simp
qed

end
