(* ===== verification/FsAlloc.thy ===== *)
theory FsAlloc
  imports FsTx
begin

text \<open>
  The block allocator of fs.c: the bits of the free map, the condition \<open>disk_ok\<close> on the layout of
  the disk, and what \<open>balloc\<close> gives.
\<close>

section \<open>The free map\<close>

definition bit_used :: "cbuf \<Rightarrow> nat \<Rightarrow> bool" where
  "bit_used d bi \<longleftrightarrow> d (bi div 8) AND bmask bi \<noteq> 0"

lemma bit_used_iff: "bit_used d bi \<longleftrightarrow> bit (d (bi div 8)) (bi mod 8)"
proof -
  have m: "bit (bmask bi) k \<longleftrightarrow> k = bi mod 8" for k
    by (auto simp: bmask_def bit_simps)
  have lt: "bi mod 8 < 8"
    by simp
  have "d (bi div 8) AND bmask bi = 0 \<longleftrightarrow> \<not> bit (d (bi div 8)) (bi mod 8)"
    unfolding bit_eq_iff by (simp add: bit_simps m) (use lt in blast)
  then show ?thesis
    by (simp add: bit_used_def)
qed

lemma bit_used_set:
  "bit_used (d(bi div 8 := d (bi div 8) OR bmask bi)) bj \<longleftrightarrow> bj = bi \<or> bit_used d bj"
proof -
  have m: "bit (bmask bi) k \<longleftrightarrow> k = bi mod 8" for k
    by (auto simp: bmask_def bit_simps)
  have "bj = bi \<longleftrightarrow> bj div 8 = bi div 8 \<and> bj mod 8 = bi mod 8"
    by (metis div_mult_mod_eq)
  then show ?thesis
    by (auto simp: bit_used_iff bit_simps m)
qed

text \<open>Whether block \<open>b\<close> is in use, and the blocks that are not.\<close>

definition used :: "'a fsst_scheme \<Rightarrow> uint \<Rightarrow> bool" where
  "used s b \<longleftrightarrow> bit_used (fsv s (bmapstart (fsb s))) (unat b)"

definition free_blocks :: "'a fsst_scheme \<Rightarrow> uint set" where
  "free_blocks s = {b. b < sb_size (fsb s) \<and> \<not> used s b}"

text \<open>
  The disk has at most \<open>FSSIZE\<close> blocks, so one block holds the free map; block 0, the free map and
  the log are in use.
\<close>

definition disk_ok :: "'a fsst_scheme \<Rightarrow> bool" where
  "disk_ok s \<longleftrightarrow> sb_size (fsb s) \<le> of_nat FSSIZE \<and> bmapstart (fsb s) < sb_size (fsb s) \<and>
     \<not> in_log (log s) (bmapstart (fsb s)) \<and> used s 0 \<and> used s (bmapstart (fsb s)) \<and>
     (\<forall>b. in_log (log s) b \<longrightarrow> used s b)"

lemma disk_ok_size:
  assumes "disk_ok s" "b < sb_size (fsb s)"
  shows "b < of_nat FSSIZE" "BBLOCK b (fsb s) = bmapstart (fsb s)" "unat (sb_size (fsb s)) \<le> FSSIZE"
proof -
  show 1: "b < of_nat FSSIZE"
    using assms by (auto simp: disk_ok_def)
  have "unat (b div of_nat BPB) = 0"
    using 1 by (simp add: unat_div_distrib FSSIZE_def BPB_def word_less_nat_alt)
  then have "b div of_nat BPB = 0"
    by (simp only: unsigned_eq_0_iff)
  then show "BBLOCK b (fsb s) = bmapstart (fsb s)"
    by (simp add: BBLOCK_def)
  show "unat (sb_size (fsb s)) \<le> FSSIZE"
    using assms(1) by (simp add: disk_ok_def word_le_nat_alt FSSIZE_def)
qed

section \<open>Allocation\<close>

definition zeroed :: "cbuf \<Rightarrow> cbuf" where
  "zeroed d = (\<lambda>i. if i < BSIZE then 0 else d i)"

lemma bzero_ok:
  assumes "tx M k H s" "card (dom H) \<le> 1" "bno \<notin> ran H" "\<not> in_log (log s) bno" "bno < of_nat FSSIZE" "bno \<in> M"
  obtains t where "bzero ROOTDEV bno s = Inr t" "tx M k H t" "fstep s t" "icache t = icache s"
    "fsv t = (fsv s)(bno := zeroed (fsv s bno))"
proof -
  obtain b u where u: "bread ROOTDEV bno s = Inr (b, u)" "data (bcache u b) = fsv s bno" "icache u = icache s" "fsb u = fsb s"
    "\<forall>d. \<exists>v t. log_write b (set_data b d u) = Inr v \<and> brelse b v = Inr t \<and> tx M k H t \<and> fstep s t \<and>
       icache t = icache s \<and> fsv t = (fsv s)(bno := d)"
    by (rule update_block [OF assms])
  show ?thesis
    using u(1,2) u(5) [rule_format, of "zeroed (fsv s bno)"] that unfolding bzero_def zeroed_def [symmetric] by auto
qed

text \<open>The block that \<open>balloc\<close> takes: the lowest one not in use.\<close>

definition lowest_free :: "'a fsst_scheme \<Rightarrow> nat option" where
  "lowest_free s = find (\<lambda>b. \<not> used s (of_nat b)) [0..<unat (sb_size (fsb s))]"

lemma lowest_free_bit:
  assumes "disk_ok s"
  shows "free_bit (fsv s (bmapstart (fsb s))) (min BPB (unat (sb_size (fsb s)))) = lowest_free s"
proof -
  have "unat (sb_size (fsb s)) \<le> FSSIZE"
    using assms by (simp add: disk_ok_def word_le_nat_alt FSSIZE_def)
  then have "min BPB (unat (sb_size (fsb s))) = unat (sb_size (fsb s))"
    "b < unat (sb_size (fsb s)) \<Longrightarrow> unat (of_nat b :: uint) = b" for b
    by (simp_all add: BPB_def FSSIZE_def unat_of_nat)
  then show ?thesis
    unfolding free_bit_def lowest_free_def used_def bit_used_def by (auto intro!: find_cong)
qed

lemma lowest_free_Some:
  assumes "lowest_free s = Some n" "disk_ok s"
  shows "of_nat n < sb_size (fsb s)" "\<not> used s (of_nat n)" "unat (of_nat n :: uint) = n" "n < unat (sb_size (fsb s))"
    "\<not> in_log (log s) (of_nat n)" "(of_nat n :: uint) \<noteq> bmapstart (fsb s)" "(of_nat n :: uint) \<noteq> 0"
proof -
  show n: "n < unat (sb_size (fsb s))" "\<not> used s (of_nat n)"
    using find_pred [OF assms(1) [unfolded lowest_free_def]] by auto
  have "n < 2 ^ 32"
    using n(1) unsigned_less [of "sb_size (fsb s)", where 'a = nat] by simp
  then show u: "unat (of_nat n :: uint) = n"
    by (simp add: unat_of_nat)
  then show "of_nat n < sb_size (fsb s)"
    using n(1) by (simp add: word_less_nat_alt)
  show "\<not> in_log (log s) (of_nat n)" "(of_nat n :: uint) \<noteq> bmapstart (fsb s)" "(of_nat n :: uint) \<noteq> 0"
    using n(2) assms(2) by (auto simp: disk_ok_def)
qed

definition mark :: "nat \<Rightarrow> cbuf \<Rightarrow> cbuf" where
  "mark n d = d(n div 8 := d (n div 8) OR bmask n)"

lemma balloc_ok:
  assumes s: "disk_ok s" "tx M (Suc k) H s" "card (dom H) \<le> 1" "bmapstart (fsb s) \<in> M" "bmapstart (fsb s) \<notin> ran H"
    "\<forall>b\<in>ran H. used s b" and n: "lowest_free s = Some n"
  obtains t where "balloc ROOTDEV s = Inr (of_nat n, t)" "tx (insert (of_nat n) M) k H t" "fstep s t" "icache t = icache s"
    "fsv t = (fsv s)(bmapstart (fsb s) := mark n (fsv s (bmapstart (fsb s))), of_nat n := zeroed (fsv s (of_nat n)))"
proof -
  let ?m = "bmapstart (fsb s)" and ?b = "of_nat n :: uint"
  note b = lowest_free_Some [OF n s(1)]
  have tx: "tx (insert ?b M) k H s"
    by (rule tx_reserve [OF s(2)])
  have m: "\<not> in_log (log s) ?m" "?m < of_nat FSSIZE" "?m \<in> insert ?b M"
    using s(1,4) by (auto simp: disk_ok_def)
  obtain p u where u: "bread ROOTDEV ?m s = Inr (p, u)" "data (bcache u p) = fsv s ?m" "icache u = icache s" "fsb u = fsb s"
    "\<forall>d. \<exists>v t. log_write p (set_data p d u) = Inr v \<and> brelse p v = Inr t \<and> tx (insert ?b M) k H t \<and> fstep s t \<and>
       icache t = icache s \<and> fsv t = (fsv s)(?m := d)"
    by (rule update_block [OF tx s(3,5) m])
  obtain v w where v: "log_write p (set_data p (mark n (fsv s ?m)) u) = Inr v" "brelse p v = Inr w"
    "tx (insert ?b M) k H w" "fstep s w" "icache w = icache s" "fsv w = (fsv s)(?m := mark n (fsv s ?m))"
    using u(5) [rule_format, of "mark n (fsv s ?m)"] by blast
  have bw: "?b \<notin> ran H" "\<not> in_log (log w) ?b" "?b < of_nat FSSIZE" "?b \<in> insert ?b M"
    using b(2,5) s(6) disk_ok_size(1) [OF s(1) b(1)] fstepD(2) [OF v(4)] by auto
  obtain t where t: "bzero ROOTDEV ?b w = Inr t" "tx (insert ?b M) k H t" "fstep w t" "icache t = icache w"
    "fsv t = (fsv w)(?b := zeroed (fsv w ?b))"
    by (rule bzero_ok [OF v(3) s(3) bw])
  have pos: "0 < sb_size (fsb s)"
    using b(1,7) by (simp add: word_less_nat_alt)
  have "free_bit (fsv s ?m) (min BPB (unat (sb_size (fsb s) - 0))) = Some n"
    using lowest_free_bit [OF s(1)] n by simp
  moreover obtain j where "unat (sb_size (fsb s)) div BPB + 2 = Suc j"
    by simp
  ultimately have "balloc ROOTDEV s = Inr (?b, t)"
    using pos u(1,2,4) v(1,2) t(1) disk_ok_size(2) [OF s(1) pos] by (simp add: balloc_def mark_def)
  moreover have "fsv t = (fsv s)(?m := mark n (fsv s ?m), ?b := zeroed (fsv s ?b))"
    using t(5) v(6) b(6) by simp
  ultimately show ?thesis
    using that t(2,4) v(5) fstep_trans [OF v(4) t(3)] by simp
qed

lemma balloc_full:
  assumes s: "disk_ok s" "tx M k H s" "card (dom H) \<le> 1" "bmapstart (fsb s) \<notin> ran H" and n: "lowest_free s = None"
  shows "balloc ROOTDEV s = Inl (Panic ''balloc: out of blocks'')"
proof -
  let ?m = "bmapstart (fsb s)"
  have pos: "0 < sb_size (fsb s)"
    using s(1) by (auto simp: disk_ok_def word_less_nat_alt)
  have m: "?m < of_nat FSSIZE" "nat (lh_n (log s)) + card (dom H) < NBUF"
    using s(1,3) txD(2) [OF s(2)] by (auto simp: disk_ok_def)
  obtain p u where u: "bread ROOTDEV ?m s = Inr (p, u)" "fsinv (H(p \<mapsto> ?m)) u" "fstep s u" "icache u = icache s"
    "log u = log s" "p \<notin> dom H" "fsv u = fsv s" "data (bcache u p) = fsv s ?m"
    by (rule see_block [OF txD(1) [OF s(2)] s(4) m])
  obtain t where t: "brelse p u = Inr t" "fsinv H t" "fstep u t" "icache t = icache u" "log t = log u" "fsv t = fsv u"
    by (rule drop_block [OF u(2,6)])
  have "\<not> of_nat BPB < sb_size (fsb t)"
    using disk_ok_size(3) [OF s(1) pos] fstepD(1) [OF u(3)] fstepD(1) [OF t(3)]
    by (simp add: word_less_nat_alt FSSIZE_def BPB_def)
  moreover have "free_bit (fsv s ?m) (min BPB (unat (sb_size (fsb s) - 0))) = None"
    using lowest_free_bit [OF s(1)] n by simp
  ultimately show ?thesis
    using pos u(1,8) t(1) fstepD(1) [OF u(3)] disk_ok_size(2) [OF s(1) pos] by (simp add: balloc_def)
qed

text \<open>The free map after an allocation.\<close>

lemma marked_used:
  assumes "fsv t (bmapstart (fsb t)) = mark n (fsv s (bmapstart (fsb s)))" "unat (of_nat n :: uint) = n"
  shows "used t b \<longleftrightarrow> b = of_nat n \<or> used s b"
proof -
  have "b = of_nat n \<longleftrightarrow> unat b = n"
    using assms(2) unsigned_word_eqI by metis
  then show ?thesis
    using assms(1) by (auto simp: used_def mark_def bit_used_set)
qed

end
