(* ===== verification/FsFile.thy ===== *)
theory FsFile
  imports FsAlloc
begin

text \<open>
  The contents of a file: the block map of an inode as a function from block numbers to disk
  blocks, the bytes of the file through it, the well-formedness \<open>file_wf\<close> of a file, and what
  \<open>bmap\<close>, \<open>iupdate\<close>, \<open>readi\<close> and \<open>writei\<close> do to them.
\<close>

section \<open>The block map\<close>

text \<open>
  Slot \<open>i < MAXFILE\<close> is the block that holds block \<open>i\<close> of the file, slot \<open>MAXFILE\<close> the indirect
  block; 0 stands for a block not allocated, whose bytes count as zero.
\<close>

definition slot :: "(uint \<Rightarrow> cbuf) \<Rightarrow> dinode \<Rightarrow> nat \<Rightarrow> uint" where
  "slot V x i = (if i < NDIRECT then d_addrs x i else if i = MAXFILE then d_addrs x NDIRECT
     else if d_addrs x NDIRECT = 0 then 0 else get32 (V (d_addrs x NDIRECT)) (4 * (i - NDIRECT)))"

abbreviation fslot :: "'a fsst_scheme \<Rightarrow> nat \<Rightarrow> nat \<Rightarrow> uint" where
  "fslot s ip \<equiv> slot (fsv s) (din (icache s ip))"

abbreviation indirect :: "'a fsst_scheme \<Rightarrow> nat \<Rightarrow> uint" where
  "indirect s ip \<equiv> d_addrs (din (icache s ip)) NDIRECT"

abbreviation iblock :: "'a fsst_scheme \<Rightarrow> nat \<Rightarrow> uint" where
  "iblock s ip \<equiv> IBLOCK (i_inum (icache s ip)) (fsb s)"

definition fbyte :: "'a fsst_scheme \<Rightarrow> nat \<Rightarrow> nat \<Rightarrow> uchar" where
  "fbyte s ip i = (let a = fslot s ip (i div BSIZE) in if a = 0 then 0 else fsv s a (i mod BSIZE))"

text \<open>A block of the disk that is in use, and not the boot block, in the log or the free map.\<close>

definition own_block :: "'a fsst_scheme \<Rightarrow> uint \<Rightarrow> bool" where
  "own_block s b \<longleftrightarrow> b \<noteq> 0 \<and> b < sb_size (fsb s) \<and> used s b \<and> \<not> in_log (log s) b \<and> b \<noteq> bmapstart (fsb s)"

definition file_wf :: "'a fsst_scheme \<Rightarrow> nat \<Rightarrow> bool" where
  "file_wf s ip \<longleftrightarrow> disk_ok s \<and> i_dev (icache s ip) = ROOTDEV \<and> own_block s (iblock s ip) \<and>
     (\<forall>i\<le>MAXFILE. fslot s ip i \<noteq> 0 \<longrightarrow> own_block s (fslot s ip i) \<and> fslot s ip i \<noteq> iblock s ip) \<and>
     (\<forall>i\<le>MAXFILE. \<forall>j\<le>MAXFILE. fslot s ip i = fslot s ip j \<and> fslot s ip i \<noteq> 0 \<longrightarrow> i = j)"

lemma slot_simps:
  "i < NDIRECT \<Longrightarrow> slot V x i = d_addrs x i" "slot V x MAXFILE = d_addrs x NDIRECT"
  "NDIRECT \<le> i \<Longrightarrow> i < MAXFILE \<Longrightarrow> d_addrs x NDIRECT = 0 \<Longrightarrow> slot V x i = 0"
  "NDIRECT \<le> i \<Longrightarrow> i < MAXFILE \<Longrightarrow> d_addrs x NDIRECT \<noteq> 0 \<Longrightarrow>
     slot V x i = get32 (V (d_addrs x NDIRECT)) (4 * (i - NDIRECT))"
  by (auto simp: slot_def MAXFILE_def)

lemma file_wfD:
  assumes "file_wf s ip"
  shows "disk_ok s" "i_dev (icache s ip) = ROOTDEV" "own_block s (iblock s ip)"
    "i \<le> MAXFILE \<Longrightarrow> fslot s ip i \<noteq> 0 \<Longrightarrow> own_block s (fslot s ip i) \<and> fslot s ip i \<noteq> iblock s ip"
    "i \<le> MAXFILE \<Longrightarrow> j \<le> MAXFILE \<Longrightarrow> fslot s ip i = fslot s ip j \<Longrightarrow> fslot s ip i \<noteq> 0 \<Longrightarrow> i = j"
  using assms by (auto simp: file_wf_def)

lemma own_blockD:
  assumes "disk_ok s" "own_block s b"
  shows "b < of_nat FSSIZE" "used s b" "\<not> in_log (log s) b" "b \<noteq> bmapstart (fsb s)"
  using assms disk_ok_size(1) by (auto simp: own_block_def)

text \<open>The free map determines which blocks are in use; a step keeps the layout.\<close>

lemma keeps_layout:
  assumes "fstep s t" "\<forall>x. used t x \<longleftrightarrow> x = b \<or> used s x"
  shows "disk_ok s \<Longrightarrow> disk_ok t" "own_block s x \<Longrightarrow> own_block t x"
  using assms(2) by (auto simp: disk_ok_def own_block_def fstepD [OF assms(1)])

lemma same_map:
  assumes "fstep s t" "fsv t (bmapstart (fsb s)) = fsv s (bmapstart (fsb s))"
  shows "used t = used s" "disk_ok t = disk_ok s" "own_block t = own_block s" "free_blocks t = free_blocks s"
proof -
  show u: "used t = used s"
    using assms fstepD(1) [OF assms(1)] by (auto simp: used_def)
  show "disk_ok t = disk_ok s" "own_block t = own_block s" "free_blocks t = free_blocks s"
    using fstepD [OF assms(1)] by (auto simp: disk_ok_def own_block_def free_blocks_def u)
qed

section \<open>Allocation for a file\<close>

definition fresh :: "'a fsst_scheme \<Rightarrow> uint \<Rightarrow> bool" where
  "fresh s b \<longleftrightarrow> b < sb_size (fsb s) \<and> \<not> used s b \<and> \<not> in_log (log s) b \<and> b \<noteq> bmapstart (fsb s) \<and> b \<noteq> 0"

lemma finite_free: "finite (free_blocks s)"
  by simp

lemma free_lowest:
  assumes "free_blocks s \<noteq> {}"
  obtains n where "lowest_free s = Some n"
proof -
  obtain b where b: "b < sb_size (fsb s)" "\<not> used s b"
    using assms by (auto simp: free_blocks_def)
  then have "unat b \<in> set [0..<unat (sb_size (fsb s))]" "\<not> used s (of_nat (unat b))"
    by (simp_all add: word_less_nat_alt)
  then have "lowest_free s \<noteq> None"
    unfolding lowest_free_def find_None_iff by blast
  then show ?thesis
    using that by blast
qed

lemma balloc_fresh:
  assumes s: "disk_ok s" "tx M (Suc k) H s" "card (dom H) \<le> 1" "bmapstart (fsb s) \<in> M" "bmapstart (fsb s) \<notin> ran H"
    "\<forall>b\<in>ran H. used s b" and free: "free_blocks s \<noteq> {}"
  obtains b t where "balloc ROOTDEV s = Inr (b, t)" "fresh s b" "tx (insert b M) k H t" "fstep s t" "icache t = icache s"
    "\<forall>x. used t x \<longleftrightarrow> x = b \<or> used s x" "card (free_blocks t) = card (free_blocks s) - 1"
    "\<forall>i<BSIZE. fsv t b i = 0" "\<forall>x. x \<noteq> b \<and> x \<noteq> bmapstart (fsb s) \<longrightarrow> fsv t x = fsv s x"
proof -
  obtain n where n: "lowest_free s = Some n"
    using free_lowest [OF free] .
  let ?b = "of_nat n :: uint"
  note l = lowest_free_Some [OF n s(1)]
  obtain t where t: "balloc ROOTDEV s = Inr (?b, t)" "tx (insert ?b M) k H t" "fstep s t" "icache t = icache s"
    "fsv t = (fsv s)(bmapstart (fsb s) := mark n (fsv s (bmapstart (fsb s))), ?b := zeroed (fsv s ?b))"
    by (rule balloc_ok [OF s n])
  note f = fstepD [OF t(3)]
  have u: "\<forall>x. used t x \<longleftrightarrow> x = ?b \<or> used s x"
    using marked_used [of t n s, OF _ l(3)] t(5) l(6) f(1) by simp
  then have "free_blocks t = free_blocks s - {?b}" "?b \<in> free_blocks s"
    using l(1,2) f(1) by (auto simp: free_blocks_def)
  then have "card (free_blocks t) = card (free_blocks s) - 1"
    by simp
  moreover have "\<forall>i<BSIZE. fsv t ?b i = 0" "\<forall>x. x \<noteq> ?b \<and> x \<noteq> bmapstart (fsb s) \<longrightarrow> fsv t x = fsv s x"
    using t(5) by (simp_all add: zeroed_def)
  moreover have "fresh s ?b"
    using l by (simp add: fresh_def)
  ultimately show ?thesis
    using that t(1-4) u by blast
qed

text \<open>
  What a call of \<open>bmap\<close> for block \<open>bn\<close> of the file does: it gives the disk block, allocating it
  if need be, and changes neither the contents of the file nor any other block in use.
\<close>

definition mapped :: "'a fsst_scheme \<Rightarrow> nat \<Rightarrow> nat \<Rightarrow> uint \<Rightarrow> 'a fsst_scheme \<Rightarrow> bool" where
  "mapped s ip bn a t \<longleftrightarrow> file_wf t ip \<and> fstep s t \<and> fslot t ip bn = a \<and> a \<noteq> 0 \<and>
     (\<forall>i\<le>MAXFILE. fslot s ip i \<noteq> 0 \<longrightarrow> fslot t ip i = fslot s ip i) \<and>
     (\<forall>i<MAXFILE * BSIZE. fbyte t ip i = fbyte s ip i) \<and> (\<forall>b. used s b \<longrightarrow> used t b) \<and>
     (\<forall>i\<le>MAXFILE. fslot t ip i \<noteq> fslot s ip i \<longrightarrow> \<not> used s (fslot t ip i)) \<and>
     (\<forall>b. used s b \<and> b \<noteq> bmapstart (fsb s) \<and> b \<noteq> indirect s ip \<longrightarrow> fsv t b = fsv s b) \<and>
     (\<exists>f. icache t = (icache s)(ip := (icache s ip)\<lparr>din := (din (icache s ip))\<lparr>d_addrs := f\<rparr>\<rparr>)) \<and>
     (fslot s ip bn \<noteq> 0 \<longrightarrow> fsv t = fsv s \<and> icache t = icache s)"

lemma mappedD:
  assumes "mapped s ip bn a t"
  shows "file_wf t ip" "fstep s t" "fslot t ip bn = a" "a \<noteq> 0"
    "i \<le> MAXFILE \<Longrightarrow> fslot s ip i \<noteq> 0 \<Longrightarrow> fslot t ip i = fslot s ip i"
    "i < MAXFILE * BSIZE \<Longrightarrow> fbyte t ip i = fbyte s ip i" "used s b \<Longrightarrow> used t b"
    "i \<le> MAXFILE \<Longrightarrow> fslot t ip i \<noteq> fslot s ip i \<Longrightarrow> \<not> used s (fslot t ip i)"
    "used s b \<Longrightarrow> b \<noteq> bmapstart (fsb s) \<Longrightarrow> b \<noteq> indirect s ip \<Longrightarrow> fsv t b = fsv s b"
    "\<exists>f. icache t = (icache s)(ip := (icache s ip)\<lparr>din := (din (icache s ip))\<lparr>d_addrs := f\<rparr>\<rparr>)"
    "fslot s ip bn \<noteq> 0 \<Longrightarrow> fsv t = fsv s \<and> icache t = icache s"
  using assms unfolding mapped_def by blast+

text \<open>A fresh block in an empty slot.\<close>

lemma file_wf_grow:
  assumes s: "file_wf s ip" "fresh s b" and t: "fstep s t" "\<forall>x. used t x \<longleftrightarrow> x = b \<or> used s x"
    and ic: "i_dev (icache t ip) = i_dev (icache s ip)" "i_inum (icache t ip) = i_inum (icache s ip)"
    and sl: "j \<le> MAXFILE" "fslot s ip j = 0" "\<forall>i\<le>MAXFILE. fslot t ip i = (if i = j then b else fslot s ip i)"
  shows "file_wf t ip"
proof -
  note w = file_wfD [OF s(1)] and f = fstepD [OF t(1)] and k = keeps_layout [OF t]
  have b: "own_block t b" "b \<noteq> iblock s ip" "b \<noteq> 0"
    using s(2) t(2) w(3) f by (auto simp: own_block_def fresh_def)
  have nb: "fslot s ip i \<noteq> b" if "i \<le> MAXFILE" for i
    using w(4) [OF that] s(2) b(3) by (auto simp: own_block_def fresh_def)
  have "i = k" if "i \<le> MAXFILE" "k \<le> MAXFILE" "fslot t ip i = fslot t ip k" "fslot t ip i \<noteq> 0" for i k
    using that sl(3) nb [OF that(1)] nb [OF that(2)] w(5) [OF that(1,2)] by (auto split: if_splits)
  moreover have "own_block t (fslot t ip i) \<and> fslot t ip i \<noteq> iblock t ip" if "i \<le> MAXFILE" "fslot t ip i \<noteq> 0" for i
    using that sl(3) b w(4) [OF that(1)] k(2) f(1) ic(2) by (auto split: if_splits)
  ultimately show ?thesis
    using w(1-3) k ic f(1) by (auto simp: file_wf_def)
qed

lemma fbyte_grow:
  assumes sl: "fslot s ip j = 0" "\<forall>i<MAXFILE. fslot t ip i = (if i = j then b else fslot s ip i)"
    and V: "\<forall>i<BSIZE. fsv t b i = 0" "\<forall>i<MAXFILE. fslot s ip i \<noteq> 0 \<longrightarrow> fsv t (fslot s ip i) = fsv s (fslot s ip i)"
    and i: "i < MAXFILE * BSIZE"
  shows "fbyte t ip i = fbyte s ip i"
proof -
  have "i div BSIZE < MAXFILE" "i mod BSIZE < BSIZE"
    using i by (auto simp: less_mult_imp_div_less BSIZE_def)
  then show ?thesis
    using sl V by (auto simp: fbyte_def Let_def)
qed

lemma mapped_grow:
  assumes s: "file_wf s ip" "fresh s b" and t: "fstep s t" "\<forall>x. used t x \<longleftrightarrow> x = b \<or> used s x"
    and ic: "icache t = (icache s)(ip := (icache s ip)\<lparr>din := (din (icache s ip))\<lparr>d_addrs := f\<rparr>\<rparr>)"
    and sl: "j \<le> MAXFILE" "fslot s ip j = 0" "\<forall>i\<le>MAXFILE. fslot t ip i = (if i = j then b else fslot s ip i)"
    and V: "\<forall>i<BSIZE. fsv t b i = 0"
      "\<forall>x. used s x \<and> x \<noteq> bmapstart (fsb s) \<and> x \<noteq> indirect s ip \<longrightarrow> fsv t x = fsv s x"
  shows "mapped s ip j b t"
proof -
  note w = file_wfD [OF s(1)]
  have wf: "file_wf t ip"
    by (rule file_wf_grow [OF s t _ _ sl]) (simp_all add: ic)
  have "fsv t (fslot s ip i) = fsv s (fslot s ip i)" if "i < MAXFILE" "fslot s ip i \<noteq> 0" for i
  proof -
    have "fslot s ip i \<noteq> indirect s ip"
      using w(5) [of i MAXFILE] that by (auto simp: slot_simps)
    then show ?thesis
      using V(2) w(4) [of i] that by (auto simp: own_block_def)
  qed
  then have "\<forall>i<MAXFILE * BSIZE. fbyte t ip i = fbyte s ip i"
    using fbyte_grow [of s ip j t b] sl V(1) by (auto simp del: not_gr_zero)
  moreover have "b \<noteq> 0" "\<not> used s b"
    using s(2) by (auto simp: fresh_def)
  ultimately show ?thesis
    using wf t ic sl V(2) by (auto simp: mapped_def)
qed

section \<open>bmap\<close>

lemma file_wf_same:
  assumes "file_wf s ip" "fstep s t" "icache t = icache s" "fsv t = fsv s"
  shows "file_wf t ip" "fbyte t ip = fbyte s ip"
proof -
  have "fsv t (bmapstart (fsb s)) = fsv s (bmapstart (fsb s))"
    using assms(4) by simp
  note m = same_map [OF assms(2) this] fstepD(1) [OF assms(2)]
  show "file_wf t ip"
    using assms(1) unfolding file_wf_def m assms(3,4) .
  show "fbyte t ip = fbyte s ip"
    unfolding fbyte_def assms(3,4) ..
qed

lemma bmap_words:
  assumes "bn < MAXFILE"
  shows "unat (of_nat bn :: uint) = bn" "(of_nat bn :: uint) < of_nat NDIRECT \<longleftrightarrow> bn < NDIRECT"
    "NDIRECT \<le> bn \<Longrightarrow> unat (of_nat bn - of_nat NDIRECT :: uint) = bn - NDIRECT"
    "NDIRECT \<le> bn \<Longrightarrow> (of_nat bn - of_nat NDIRECT :: uint) < of_nat NINDIRECT"
proof -
  have b: "bn < 138"
    using assms by (simp add: MAXFILE_def NDIRECT_def NINDIRECT_def)
  then show u: "unat (of_nat bn :: uint) = bn"
    by (simp add: unat_of_nat)
  then show "(of_nat bn :: uint) < of_nat NDIRECT \<longleftrightarrow> bn < NDIRECT"
    by (simp add: word_less_nat_alt NDIRECT_def)
  assume d: "NDIRECT \<le> bn"
  have "(of_nat bn - of_nat NDIRECT :: uint) = of_nat (bn - NDIRECT)"
    using d by (simp add: of_nat_diff)
  then show v: "unat (of_nat bn - of_nat NDIRECT :: uint) = bn - NDIRECT"
    using b by (simp add: unat_of_nat)
  show "(of_nat bn - of_nat NDIRECT :: uint) < of_nat NINDIRECT"
    using b d unfolding word_less_nat_alt v by (simp add: NINDIRECT_def NDIRECT_def)
qed

lemma bmap_direct:
  assumes "bn < NDIRECT"
  shows "bmap ip (of_nat bn) s =
    (let addr = fslot s ip bn in
     if addr = 0 then Rbind (balloc (i_dev (icache s ip)) s) (\<lambda>(addr, s). Inr (addr, set_addr ip bn addr s))
     else Inr (addr, s))"
proof -
  have "bn < MAXFILE"
    using assms by (simp add: MAXFILE_def)
  note w = bmap_words(1,2) [OF this]
  show ?thesis
    unfolding bmap_def w using assms by (simp add: slot_simps)
qed

lemma bmap_indirect:
  assumes "NDIRECT \<le> bn" "bn < MAXFILE" "indirect s ip \<noteq> 0"
  shows "bmap ip (of_nat bn) s =
    Rbind (bread (i_dev (icache s ip)) (indirect s ip) s) (\<lambda>(bp, u).
    let addr = get32 (data (bcache u bp)) (4 * (bn - NDIRECT)) in
    Rbind (if addr = 0 then
             Rbind (balloc (i_dev (icache s ip)) u) (\<lambda>(addr, v).
             Rbind (log_write bp (set_data bp (put32 (4 * (bn - NDIRECT)) addr (data (bcache v bp))) v)) (\<lambda>w.
             Inr (addr, w)))
           else Inr (addr, u)) (\<lambda>(addr, u).
    Rbind (brelse bp u) (\<lambda>t. Inr (addr, t))))"
proof -
  note w = bmap_words(1,2) [OF assms(2)] bmap_words(3,4) [OF assms(2,1)]
  show ?thesis
    unfolding bmap_def w Let_def using assms w(4) by simp
qed

lemma bmap_indirect0:
  assumes "NDIRECT \<le> bn" "bn < MAXFILE" "indirect s ip = 0" "balloc (i_dev (icache s ip)) s = Inr (a, t)"
    "icache t = icache s" "a \<noteq> 0"
  shows "bmap ip (of_nat bn) s = bmap ip (of_nat bn) (set_addr ip NDIRECT a t)"
proof -
  have i: "indirect (set_addr ip NDIRECT a t) ip = a" "i_dev (icache (set_addr ip NDIRECT a t) ip) = i_dev (icache s ip)"
    using assms(5) by (simp_all add: set_addr_def upd_din_def)
  note w = bmap_words(1,2) [OF assms(2)] bmap_words(3,4) [OF assms(2,1)]
  have "indirect (set_addr ip NDIRECT a t) ip \<noteq> 0"
    using i(1) assms(6) by simp
  note b = bmap_indirect [OF assms(1,2) this]
  show ?thesis
    unfolding b i unfolding bmap_def w Let_def using assms w(4) by simp
qed

text \<open>A block that is there is found, and nothing changes.\<close>

lemma bmap_present:
  assumes s: "file_wf s ip" "fsinv Map.empty s" "nat (lh_n (log s)) < NBUF" and bn: "bn < MAXFILE" "fslot s ip bn \<noteq> 0"
  obtains t where "bmap ip (of_nat bn) s = Inr (fslot s ip bn, t)" "fsinv Map.empty t" "fstep s t" "icache t = icache s"
    "log t = log s" "fsv t = fsv s"
proof (cases "bn < NDIRECT")
  case True
  have "fstep s s"
    using s(2) by (simp add: fstep_def fsinv_def ginv_def bio_ok_def)
  then show ?thesis
    using that [of s] s(2) bn(2) by (simp add: bmap_direct [OF True] Let_def)
next
  case False
  then have d: "NDIRECT \<le> bn" and i: "indirect s ip \<noteq> 0"
    using bn slot_simps(3) [of bn] by auto
  note w = file_wfD [OF s(1)]
  have a: "own_block s (indirect s ip)"
    using w(4) [of MAXFILE] i by (simp add: slot_simps)
  obtain b u where u: "bread ROOTDEV (indirect s ip) s = Inr (b, u)" "fsinv (Map.empty(b \<mapsto> indirect s ip)) u" "fstep s u"
    "icache u = icache s" "log u = log s" "b \<notin> dom Map.empty" "fsv u = fsv s" "data (bcache u b) = fsv s (indirect s ip)"
    by (rule see_block [OF s(2) _ own_blockD(1) [OF w(1) a]]) (use s(3) in simp_all)
  obtain t where t: "brelse b u = Inr t" "fsinv Map.empty t" "fstep u t" "icache t = icache u" "log t = log u" "fsv t = fsv u"
    by (rule drop_block [where H = Map.empty, OF u(2)]) simp_all
  have g: "get32 (fsv s (indirect s ip)) (4 * (bn - NDIRECT)) = fslot s ip bn"
    using slot_simps(4) [OF d bn(1) i] by simp
  have "bmap ip (of_nat bn) s = Inr (fslot s ip bn, t)"
    unfolding bmap_indirect [OF d bn(1) i] using u(1,8) t(1) w(2) g bn(2) by (simp add: Let_def)
  then show ?thesis
    using that t u fstep_trans [OF u(3) t(3)] by simp
qed

text \<open>
  Room for \<open>k\<close> more blocks of the file: in the log, next to the free map, the inode, the indirect
  block and the blocks \<open>A\<close>, and on the disk.
\<close>

definition need :: "'a fsst_scheme \<Rightarrow> nat \<Rightarrow> nat" where
  "need s ip = (if indirect s ip = 0 then 1 else 0)"

definition room :: "uint set \<Rightarrow> nat \<Rightarrow> 'a fsst_scheme \<Rightarrow> nat \<Rightarrow> bool" where
  "room A k s ip \<longleftrightarrow> (\<exists>M. tx M (k + need s ip) Map.empty s \<and> {bmapstart (fsb s), iblock s ip} \<union> A \<subseteq> M \<and>
     (indirect s ip \<noteq> 0 \<longrightarrow> indirect s ip \<in> M)) \<and> k + need s ip \<le> card (free_blocks s)"

lemma room_less: "room A (k + j) s ip \<Longrightarrow> room A k s ip"
  using tx_less [of _ "k + need s ip" j] by (auto simp: room_def add.commute add.left_commute)

lemma bmap_add_direct:
  assumes s: "file_wf s ip" "room {} (Suc k) s ip" and bn: "bn < NDIRECT" "fslot s ip bn = 0"
  shows "\<exists>a t. bmap ip (of_nat bn) s = Inr (a, t) \<and> mapped s ip bn a t \<and> room {a} k t ip"
proof -
  note w = file_wfD [OF s(1)]
  obtain M where M: "tx M (Suc (k + need s ip)) Map.empty s" "bmapstart (fsb s) \<in> M" "iblock s ip \<in> M"
    "indirect s ip \<noteq> 0 \<longrightarrow> indirect s ip \<in> M" "Suc (k + need s ip) \<le> card (free_blocks s)"
    using s(2) by (auto simp: room_def)
  have fr: "free_blocks s \<noteq> {}"
    using M(5) by auto
  obtain b u where u: "balloc ROOTDEV s = Inr (b, u)" "fresh s b" "tx (insert b M) (k + need s ip) Map.empty u"
    "fstep s u" "icache u = icache s" "\<forall>x. used u x \<longleftrightarrow> x = b \<or> used s x" "card (free_blocks u) = card (free_blocks s) - 1"
    "\<forall>i<BSIZE. fsv u b i = 0" "\<forall>x. x \<noteq> b \<and> x \<noteq> bmapstart (fsb s) \<longrightarrow> fsv u x = fsv s x"
    by (rule balloc_fresh [OF w(1) M(1) _ M(2) _ _ fr]) simp_all
  let ?t = "set_addr ip bn b u"
  have t: "fstep s ?t" "fsv ?t = fsv u" "tx (insert b M) (k + need s ip) Map.empty ?t"
    using fstep_trans [OF u(4)] fsinv_upper(2,3) [OF txD(1) [OF u(3)]] tx_upper [OF u(3)]
    by (auto simp: set_addr_def upd_din_def)
  note f = fstepD [OF t(1)]
  have us: "used ?t = used u" "free_blocks ?t = free_blocks u"
    using t(2) f(1) fstepD(1) [OF u(4)] by (auto simp: used_def free_blocks_def)
  have nd: "bn \<noteq> NDIRECT" "bn \<le> MAXFILE" "bn \<noteq> MAXFILE"
    using bn(1) by (auto simp: MAXFILE_def)
  have ic: "icache ?t = (icache s)(ip := (icache s ip)\<lparr>din := (din (icache s ip))\<lparr>d_addrs := (d_addrs (din (icache s ip)))(bn := b)\<rparr>\<rparr>)"
    using u(5) by (simp add: set_addr_def upd_din_def)
  have ind: "indirect ?t ip = indirect s ip" "need ?t ip = need s ip" "iblock ?t ip = iblock s ip"
    using nd(1) f(1) by (simp_all add: ic need_def)
  have keep: "fsv ?t x = fsv s x" if "used s x" "x \<noteq> bmapstart (fsb s)" for x
    using that t(2) u(2,9) by (auto simp: fresh_def)
  have a: "own_block s (indirect s ip)" if "indirect s ip \<noteq> 0"
    using w(4) [of MAXFILE] that by (simp add: slot_simps)
  have "fsv ?t (indirect s ip) = fsv s (indirect s ip)" if "indirect s ip \<noteq> 0"
    using keep own_blockD [OF w(1) a [OF that]] by blast
  then have "\<forall>i\<le>MAXFILE. fslot ?t ip i = (if i = bn then b else fslot s ip i)"
    using nd ind(1) bn(1) by (auto simp: slot_def ic)
  then have "mapped s ip bn b ?t"
    using mapped_grow [OF s(1) u(2) t(1) _ ic nd(2) bn(2)] us u(6,8) t(2) keep by simp
  moreover have "room {b} k ?t ip"
    unfolding room_def ind unfolding f(1) us u(7) using M t(3) by (auto intro!: exI [of _ "insert b M"])
  moreover have "bmap ip (of_nat bn) s = Inr (b, ?t)"
    unfolding bmap_direct [OF bn(1)] using bn(2) u(1) w(2) by (simp add: Let_def)
  ultimately show ?thesis
    by blast
qed

lemma slot_put:
  assumes "NDIRECT \<le> bn" "bn < MAXFILE" "d_addrs x NDIRECT \<noteq> 0"
    "V' (d_addrs x NDIRECT) = put32 (4 * (bn - NDIRECT)) b (V (d_addrs x NDIRECT))"
  shows "slot V' x i = (if i = bn then b else slot V x i)"
proof -
  have "get32 (V' (d_addrs x NDIRECT)) (4 * (i - NDIRECT)) =
      (if i = bn then b else get32 (V (d_addrs x NDIRECT)) (4 * (i - NDIRECT)))" if "NDIRECT \<le> i"
    using get_put32_slot [of "bn - NDIRECT" "i - NDIRECT" 0] assms(1,4) that by (cases "i = bn") simp_all
  then show ?thesis
    using assms(1-3) by (auto simp: slot_def)
qed

lemma bmap_add_indirect:
  assumes s: "file_wf s ip" "room {} (Suc k) s ip" and bn: "NDIRECT \<le> bn" "bn < MAXFILE" "fslot s ip bn = 0"
    and ind: "indirect s ip \<noteq> 0"
  shows "\<exists>a t. bmap ip (of_nat bn) s = Inr (a, t) \<and> mapped s ip bn a t \<and> room {a} k t ip"
proof -
  let ?i = "indirect s ip" and ?j = "4 * (bn - NDIRECT)"
  note w = file_wfD [OF s(1)]
  have n0: "need s ip = 0"
    using ind by (simp add: need_def)
  obtain M where M: "tx M (Suc k) Map.empty s" "bmapstart (fsb s) \<in> M" "iblock s ip \<in> M" "?i \<in> M"
    "Suc k \<le> card (free_blocks s)"
    using s(2) ind by (auto simp: room_def n0)
  have own: "own_block s ?i"
    using w(4) [of MAXFILE] ind by (simp add: slot_simps)
  note o = own_blockD [OF w(1) own]
  obtain p u where u: "bread ROOTDEV ?i s = Inr (p, u)" "fsinv (Map.empty(p \<mapsto> ?i)) u" "fstep s u" "icache u = icache s"
    "log u = log s" "fsv u = fsv s" "data (bcache u p) = fsv s ?i"
    by (rule see_block [OF txD(1) [OF M(1)] _ o(1)]) (use txD(2) [OF M(1)] in simp_all)
  note fu = fstepD [OF u(3)]
  have us: "disk_ok u" "used u = used s" "free_blocks u = free_blocks s"
    using same_map [OF u(3)] u(6) w(1) by simp_all
  have txu: "tx M (Suc k) (Map.empty(p \<mapsto> ?i)) u"
    by (rule tx_cong [OF M(1) u(2,5)])
  have fr: "free_blocks u \<noteq> {}"
    using M(5) us(3) by auto
  obtain b v where v: "balloc ROOTDEV u = Inr (b, v)" "fresh u b" "tx (insert b M) k (Map.empty(p \<mapsto> ?i)) v"
    "fstep u v" "icache v = icache u" "\<forall>x. used v x \<longleftrightarrow> x = b \<or> used u x" "card (free_blocks v) = card (free_blocks u) - 1"
    "\<forall>i<BSIZE. fsv v b i = 0" "\<forall>x. x \<noteq> b \<and> x \<noteq> bmapstart (fsb u) \<longrightarrow> fsv v x = fsv u x"
    by (rule balloc_fresh [OF us(1) txu _ _ _ _ fr]) (use o us(2) fu(1) M(2) in simp_all)
  have b: "fresh s b" "b \<noteq> ?i"
    using v(2) o(2) us(2) fu by (auto simp: fresh_def)
  have sv: "fstep s v" "fsv v ?i = fsv s ?i"
    using fstep_trans [OF u(3) v(4)] v(9) b(2) o(4) fu(1) u(6) by auto
  have dv: "data (bcache v p) = fsv s ?i"
    using held_data(1) [OF fsinvD(1) [OF txD(1) [OF v(3)]], of p ?i] sv(2) by simp
  obtain x where x: "log_write p (set_data p (put32 ?j b (fsv s ?i)) v) = Inr x" "tx (insert b M) k (Map.empty(p \<mapsto> ?i)) x"
    "fstep v x" "icache x = icache v" "fsv x = (fsv v)(?i := put32 ?j b (fsv s ?i))"
    by (rule change_block [OF v(3), of p ?i]) (use o M(4) fstepD(2) [OF sv(1)] in simp_all)
  obtain t where t: "brelse p x = Inr t" "fsinv Map.empty t" "fstep x t" "icache t = icache x" "log t = log x" "fsv t = fsv x"
    by (rule drop_block [where H = Map.empty, OF txD(1) [OF x(2)]]) simp_all
  have st: "fstep s t" "icache t = icache s" "fsv t = (fsv v)(?i := put32 ?j b (fsv s ?i))" "tx (insert b M) k Map.empty t"
    using fstep_trans [OF sv(1) fstep_trans [OF x(3) t(3)]] t x v(5) u(4) tx_cong [OF x(2) t(2,5)] by simp_all
  note f = fstepD [OF st(1)]
  have ut: "used t = used v" "free_blocks t = free_blocks v"
    using same_map [OF fstep_trans [OF x(3) t(3)]] st(3) o(4) fstepD(1) [OF sv(1)] by simp_all
  have "\<forall>y. used t y \<longleftrightarrow> y = b \<or> used s y"
    using v(6) us(2) ut(1) by simp
  moreover have "\<forall>i\<le>MAXFILE. fslot t ip i = (if i = bn then b else fslot s ip i)"
    using slot_put [OF bn(1,2) ind, of "fsv t" b "fsv s"] st(2,3) by simp
  moreover have "\<forall>y. used s y \<and> y \<noteq> bmapstart (fsb s) \<and> y \<noteq> ?i \<longrightarrow> fsv t y = fsv s y" "\<forall>i<BSIZE. fsv t b i = 0"
    using v(8,9) b st(3) fu(1) u(6) by (auto simp: fresh_def)
  ultimately have "mapped s ip bn b t"
    using mapped_grow [OF s(1) b(1) st(1) _ _ _ bn(3), of "d_addrs (din (icache s ip))"] bn(2) st(2) by simp
  moreover have "room {b} k t ip"
    using M st(2,4) n0 ind ut(2) v(7) us(3) f(1) by (auto simp: room_def need_def intro!: exI [of _ "insert b M"])
  moreover have "bmap ip (of_nat bn) s = Inr (b, t)"
    unfolding bmap_indirect [OF bn(1,2) ind]
    using u(1,7) v(1) dv x(1) t(1) w(2) bn(3) slot_simps(4) [OF bn(1,2) ind, of "fsv s"] by (simp add: Let_def)
  ultimately show ?thesis
    by blast
qed

text \<open>The indirect block allocated before the first block behind it.\<close>

lemma mapped_trans:
  assumes s: "file_wf s ip" and u: "mapped s ip MAXFILE c u" "indirect s ip = 0"
    and t: "mapped u ip bn a t" and bn: "bn < MAXFILE" "fslot s ip bn = 0"
  shows "mapped s ip bn a t"
proof -
  note p = mappedD [OF u(1)] and q = mappedD [OF t]
  have c: "indirect u ip = c" "\<not> used s c" "fsb u = fsb s"
    using p(3,4) p(8) [of MAXFILE] u(2) fstepD(1) [OF p(2)] by (auto simp: slot_simps)
  have slots: "fslot s ip i \<noteq> 0 \<Longrightarrow> fslot t ip i = fslot s ip i" "fslot t ip i \<noteq> fslot s ip i \<Longrightarrow> \<not> used s (fslot t ip i)"
    if "i \<le> MAXFILE" for i
    using p(5,8) [of i] p(7) [of "fslot t ip i"] q(5,8) [of i] that by metis+
  have "fsv t b = fsv s b" if "used s b" "b \<noteq> bmapstart (fsb s)" "b \<noteq> indirect s ip" for b
    using p(7,9) [of b] q(9) [of b] that c by auto
  moreover have "\<exists>f. icache t = (icache s)(ip := (icache s ip)\<lparr>din := (din (icache s ip))\<lparr>d_addrs := f\<rparr>\<rparr>)"
    using p(10) q(10) by auto
  ultimately show ?thesis
    unfolding mapped_def using q(1,3,4) p(6,7) q(6,7) fstep_trans [OF p(2) q(2)] slots bn(2) by auto
qed

lemma bmap_add:
  assumes s: "file_wf s ip" "room {} (Suc k) s ip" and bn: "bn < MAXFILE" "fslot s ip bn = 0"
  shows "\<exists>a t. bmap ip (of_nat bn) s = Inr (a, t) \<and> mapped s ip bn a t \<and> room {a} k t ip"
proof -
  consider "bn < NDIRECT" | "NDIRECT \<le> bn" "indirect s ip \<noteq> 0" | "NDIRECT \<le> bn" "indirect s ip = 0"
    by linarith
  then show ?thesis
  proof cases
    case 3
    note w = file_wfD [OF s(1)]
    obtain M where M: "tx M (Suc (Suc k)) Map.empty s" "bmapstart (fsb s) \<in> M" "iblock s ip \<in> M"
      "Suc (Suc k) \<le> card (free_blocks s)"
      using s(2) 3(2) by (auto simp: room_def need_def)
    have fr: "free_blocks s \<noteq> {}"
      using M(4) by auto
    obtain b u where u: "balloc ROOTDEV s = Inr (b, u)" "fresh s b" "tx (insert b M) (Suc k) Map.empty u"
      "fstep s u" "icache u = icache s" "\<forall>x. used u x \<longleftrightarrow> x = b \<or> used s x" "card (free_blocks u) = card (free_blocks s) - 1"
      "\<forall>i<BSIZE. fsv u b i = 0" "\<forall>x. x \<noteq> b \<and> x \<noteq> bmapstart (fsb s) \<longrightarrow> fsv u x = fsv s x"
      by (rule balloc_fresh [OF w(1) M(1) _ M(2) _ _ fr]) simp_all
    let ?t = "set_addr ip NDIRECT b u"
    have t: "fstep s ?t" "fsv ?t = fsv u" "tx (insert b M) (Suc k) Map.empty ?t"
      using fstep_trans [OF u(4)] fsinv_upper(2,3) [OF txD(1) [OF u(3)]] tx_upper [OF u(3)]
      by (auto simp: set_addr_def upd_din_def)
    note f = fstepD [OF t(1)]
    have us: "used ?t = used u" "free_blocks ?t = free_blocks u"
      using t(2) f(1) fstepD(1) [OF u(4)] by (auto simp: used_def free_blocks_def)
    have ic: "icache ?t = (icache s)(ip := (icache s ip)\<lparr>din := (din (icache s ip))\<lparr>d_addrs := (d_addrs (din (icache s ip)))(NDIRECT := b)\<rparr>\<rparr>)"
      using u(5) by (simp add: set_addr_def upd_din_def)
    have b: "b \<noteq> 0" "indirect ?t ip = b" "need ?t ip = 0" "iblock ?t ip = iblock s ip"
      using u(2) f(1) by (simp_all add: ic need_def fresh_def)
    have z: "get32 (fsv u b) (4 * (i - NDIRECT)) = 0" if "i < MAXFILE" for i
      using u(8) that by (simp add: get32_def BSIZE_def MAXFILE_def NDIRECT_def NINDIRECT_def)
    have "\<forall>i\<le>MAXFILE. fslot ?t ip i = (if i = MAXFILE then b else fslot s ip i)"
      using 3(2) b(1) z t(2) by (auto simp: slot_def ic MAXFILE_def)
    moreover have "\<forall>x. used s x \<and> x \<noteq> bmapstart (fsb s) \<and> x \<noteq> indirect s ip \<longrightarrow> fsv ?t x = fsv s x"
      using u(2,9) t(2) by (auto simp: fresh_def)
    ultimately have m: "mapped s ip MAXFILE b ?t"
      using mapped_grow [OF s(1) u(2) t(1) _ ic, of MAXFILE] us(1) u(6,8) t(2) 3(2) by (simp add: slot_simps)
    then have wt: "file_wf ?t ip" "fslot ?t ip bn = 0"
      using bn 3 b(1) z t(2) by (auto simp: mapped_def slot_def ic)
    have ni: "indirect ?t ip \<noteq> 0"
      using b(1,2) by simp
    have "room {} (Suc k) ?t ip"
      unfolding room_def b unfolding f(1) us u(7) using M t(3) by (auto intro!: exI [of _ "insert b M"])
    then obtain a v where v: "bmap ip (of_nat bn) ?t = Inr (a, v)" "mapped ?t ip bn a v" "room {a} k v ip"
      using bmap_add_indirect [OF wt(1) _ 3(1) bn(1) wt(2) ni] by blast
    moreover have "bmap ip (of_nat bn) s = bmap ip (of_nat bn) ?t"
      using bmap_indirect0 [OF 3(1) bn(1) 3(2) _ u(5) b(1)] u(1) w(2) by simp
    ultimately show ?thesis
      using mapped_trans [OF s(1) m 3(2) v(2) bn] by auto
  qed (use bmap_add_direct [OF s _ bn(2)] bmap_add_indirect [OF s _ bn] in blast)+
qed

lemma bmap_ok:
  assumes s: "file_wf s ip" "room {} (Suc k) s ip" and bn: "bn < MAXFILE"
  shows "\<exists>a t. bmap ip (of_nat bn) s = Inr (a, t) \<and> mapped s ip bn a t \<and> room {a} k t ip"
proof (cases "fslot s ip bn = 0")
  case False
  let ?a = "fslot s ip bn"
  obtain M where M: "tx M (Suc (k + need s ip)) Map.empty s" "bmapstart (fsb s) \<in> M" "iblock s ip \<in> M"
    "indirect s ip \<noteq> 0 \<longrightarrow> indirect s ip \<in> M" "Suc (k + need s ip) \<le> card (free_blocks s)"
    using s(2) by (auto simp: room_def)
  obtain t where t: "bmap ip (of_nat bn) s = Inr (?a, t)" "fsinv Map.empty t" "fstep s t" "icache t = icache s"
    "log t = log s" "fsv t = fsv s"
    by (rule bmap_present [OF s(1) txD(1) [OF M(1)] _ bn False]) (use txD(2) [OF M(1)] in simp_all)
  note k = same_map [OF t(3)] file_wf_same [OF s(1) t(3,4,6)]
  have "tx (insert ?a M) (k + need s ip) Map.empty t"
    using tx_reserve [OF tx_cong [OF M(1) t(2,5)]] by simp
  then have "room {?a} k t ip"
    using M t(4,6) k(4) fstepD(1) [OF t(3)] by (auto simp: room_def need_def intro!: exI [of _ "insert ?a M"])
  moreover have "mapped s ip bn ?a t"
    using t k False by (auto simp: mapped_def intro!: exI [of _ "d_addrs (din (icache s ip))"])
  ultimately show ?thesis
    using t(1) by blast
qed (rule bmap_add [OF s bn])

end
