(* ===== verification/FsRw.thy ===== *)
theory FsRw
  imports FsFile
begin

text \<open>
  Reading and writing files: \<open>readi\<close> gives the bytes of the file, \<open>writei\<close> replaces them, and
  neither touches any other file.
\<close>

section \<open>Reading\<close>

lemma file_words:
  assumes "off < MAXFILE * BSIZE"
  shows "unat (of_nat off :: uint) = off" "(of_nat off :: uint) div of_nat BSIZE = of_nat (off div BSIZE)"
    "off div BSIZE < MAXFILE"
proof -
  have o: "off < 70656"
    using assms by (simp add: MAXFILE_def NDIRECT_def NINDIRECT_def BSIZE_def)
  then show u: "unat (of_nat off :: uint) = off"
    by (simp add: unat_of_nat)
  have "off div BSIZE < 2 ^ 32"
    using o by (simp add: BSIZE_def)
  then have "unat (of_nat (off div BSIZE) :: uint) = off div BSIZE"
    by (simp add: unat_of_nat)
  moreover have "unat ((of_nat off :: uint) div of_nat BSIZE) = off div BSIZE"
    unfolding unat_div_distrib u by (simp add: BSIZE_def)
  ultimately show "(of_nat off :: uint) div of_nat BSIZE = of_nat (off div BSIZE)"
    using unsigned_word_eqI by metis
  show "off div BSIZE < MAXFILE"
    using assms by (simp add: less_mult_imp_div_less)
qed

definition chunk :: "nat \<Rightarrow> nat \<Rightarrow> nat" where
  "chunk off k = min k (BSIZE - off mod BSIZE)"

lemma in_chunk:
  assumes "i < chunk off k"
  shows "(off + i) div BSIZE = off div BSIZE" "(off + i) mod BSIZE = off mod BSIZE + i"
proof -
  have r: "off mod BSIZE + i < BSIZE"
    using assms unfolding chunk_def min_less_iff_conj by linarith
  have e: "off + i = (off mod BSIZE + i) + off div BSIZE * BSIZE"
    using div_mult_mod_eq [of off BSIZE] by linarith
  show "(off + i) div BSIZE = off div BSIZE"
    unfolding e using r by (subst div_mult_self1) (simp_all add: BSIZE_def)
  show "(off + i) mod BSIZE = off mod BSIZE + i"
    unfolding e using r by (subst mod_mult_self1) simp
qed

lemma chunk_iff:
  assumes "m = chunk off n"
  shows "off \<le> i \<and> i < off + m \<longleftrightarrow> i div BSIZE = off div BSIZE \<and> off mod BSIZE \<le> i mod BSIZE \<and> i mod BSIZE < off mod BSIZE + m"
    "i div BSIZE = off div BSIZE \<Longrightarrow> i - off = i mod BSIZE - off mod BSIZE"
proof -
  have e: "i = i div BSIZE * BSIZE + i mod BSIZE" "off = off div BSIZE * BSIZE + off mod BSIZE"
    by simp_all
  show d: "i - off = i mod BSIZE - off mod BSIZE" if "i div BSIZE = off div BSIZE"
    using e(1) [unfolded that] e(2) by linarith
  show "off \<le> i \<and> i < off + m \<longleftrightarrow> i div BSIZE = off div BSIZE \<and> off mod BSIZE \<le> i mod BSIZE \<and> i mod BSIZE < off mod BSIZE + m"
  proof
    assume "off \<le> i \<and> i < off + m"
    then obtain j where "i = off + j" "j < chunk off n"
      using assms by (auto simp: le_iff_add)
    then show "i div BSIZE = off div BSIZE \<and> off mod BSIZE \<le> i mod BSIZE \<and> i mod BSIZE < off mod BSIZE + m"
      using in_chunk [of j off n] assms by simp
  next
    assume a: "i div BSIZE = off div BSIZE \<and> off mod BSIZE \<le> i mod BSIZE \<and> i mod BSIZE < off mod BSIZE + m"
    then show "off \<le> i \<and> i < off + m"
      using e(1) [unfolded conjunct1 [OF a]] e(2) by linarith
  qed
qed

lemma chunk_pos: "0 < k \<Longrightarrow> 0 < chunk off k" "chunk off k \<le> k"
  by (simp_all add: chunk_def BSIZE_def)

lemma readi_loop_ok:
  assumes "file_wf s ip" "fsinv Map.empty s" "nat (lh_n (log s)) < NBUF" "off + k \<le> MAXFILE * BSIZE"
    "\<forall>i. off \<le> i \<and> i < off + k \<longrightarrow> fslot s ip (i div BSIZE) \<noteq> 0"
  shows "\<exists>t. readi_loop ip (of_nat off) k s = Inr (map (fbyte s ip) [off..<off + k], t) \<and> fsinv Map.empty t \<and>
    fstep s t \<and> icache t = icache s \<and> log t = log s \<and> fsv t = fsv s"
  using assms
proof (induction k arbitrary: off s rule: less_induct)
  case (less k)
  show ?case
  proof (cases "k = 0")
    case True
    have "fstep s s"
      using less.prems(2) by (simp add: fstep_def fsinv_def ginv_def bio_ok_def)
    then show ?thesis
      using less.prems(2) True by (simp add: readi_loop.simps)
  next
    case False
    let ?m = "chunk off k" and ?a = "fslot s ip (off div BSIZE)"
    have m: "0 < ?m" "?m \<le> k"
      using chunk_pos False by auto
    note w = file_words [of off] and wf = file_wfD [OF less.prems(1)]
    have off: "off < MAXFILE * BSIZE"
      using less.prems(4) False by simp
    have a: "?a \<noteq> 0"
      using less.prems(5) False by simp
    obtain u where u: "bmap ip (of_nat (off div BSIZE)) s = Inr (?a, u)" "fsinv Map.empty u" "fstep s u" "icache u = icache s"
      "log u = log s" "fsv u = fsv s"
      by (rule bmap_present [OF less.prems(1-3) w(3) [OF off] a])
    have "own_block s ?a"
      using wf(4) [of "off div BSIZE"] w(3) [OF off] a by simp
    then have "?a < of_nat FSSIZE"
      using own_blockD(1) [OF wf(1)] by blast
    then obtain b v where v: "bread ROOTDEV ?a u = Inr (b, v)" "fsinv (Map.empty(b \<mapsto> ?a)) v" "fstep u v" "icache v = icache u"
      "log v = log u" "fsv v = fsv u" "data (bcache v b) = fsv u ?a"
      using see_block [OF u(2), of ?a thesis] less.prems(3) u(5) by simp
    obtain x where x: "brelse b v = Inr x" "fsinv Map.empty x" "fstep v x" "icache x = icache v" "log x = log v" "fsv x = fsv v"
      by (rule drop_block [where H = Map.empty, OF v(2)]) simp_all
    have sx: "fstep s x" "icache x = icache s" "fsv x = fsv s" "log x = log s"
      using fstep_trans [OF u(3) fstep_trans [OF v(3) x(3)]] x v u by simp_all
    note xw = file_wf_same [OF less.prems(1) sx(1-3)]
    obtain t where t: "readi_loop ip (of_nat (off + ?m)) (k - ?m) x =
        Inr (map (fbyte s ip) [off + ?m..<off + ?m + (k - ?m)], t)" "fsinv Map.empty t" "fstep x t" "icache t = icache x"
        "log t = log x" "fsv t = fsv x"
      using less.IH [of "k - ?m" x "off + ?m"] m x(2) xw sx less.prems(3-5) by auto
    have bytes: "map (\<lambda>i. fsv s ?a (off mod BSIZE + i)) [0..<?m] = map (fbyte s ip) [off..<off + ?m]"
      using a in_chunk [of _ off k] by (auto intro!: nth_equalityI simp: fbyte_def Let_def)
    have split: "[off..<off + k] = [off..<off + ?m] @ [off + ?m..<off + ?m + (k - ?m)]"
      using m upt_add_eq_append [of off "off + ?m" "k - ?m"] by simp
    have "readi_loop ip (of_nat off) k s = Inr (map (fbyte s ip) [off..<off + k], t)"
      unfolding readi_loop.simps [of ip "of_nat off" k s] w(1,2) [OF off] Let_def
      unfolding chunk_def [symmetric] split map_append bytes [symmetric]
      using False u(1,4,6) v(1,7) wf(2) x(1) t(1) by simp
    then show ?thesis
      using t fstep_trans [OF sx(1) t(3)] sx by auto
  qed
qed

text \<open>A regular file or directory without holes.\<close>

definition file_ok :: "'a fsst_scheme \<Rightarrow> nat \<Rightarrow> bool" where
  "file_ok s ip \<longleftrightarrow> file_wf s ip \<and> d_type (din (icache s ip)) \<noteq> T_DEV \<and>
     unat (d_size (din (icache s ip))) \<le> MAXFILE * BSIZE \<and>
     (\<forall>i<unat (d_size (din (icache s ip))). fslot s ip (i div BSIZE) \<noteq> 0)"

lemma no_wrap: "off + n \<ge> off \<Longrightarrow> unat (off + n) = unat off + unat n" for off n :: uint
  by (metis unat_plus_simple)

lemma sint_small:
  fixes n :: uint
  assumes "unat n = m" "m \<le> 70656"
  shows "sint n = int m"
proof -
  have "uint n = int m"
    unfolding assms(1) [symmetric] by simp
  then show ?thesis
    using assms(2) by (simp add: sint_uint signed_take_bit_int_eq_self)
qed

lemma readi_ok:
  assumes s: "file_ok s ip" "fsinv Map.empty s" "nat (lh_n (log s)) < NBUF"
    and off: "off \<le> d_size (din (icache s ip))" "off \<le> off + n"
    and m: "m = min (unat n) (unat (d_size (din (icache s ip))) - unat off)"
  shows "\<exists>t. readi dv ip off n s = Inr (int m, map (fbyte s ip) [unat off..<unat off + m], t) \<and> fsinv Map.empty t \<and>
    fstep s t \<and> icache t = icache s \<and> log t = log s \<and> fsv t = fsv s"
proof -
  let ?sz = "d_size (din (icache s ip))" and ?x = "din (icache s ip)"
  define n' where "n' = (if ?sz < off + n then ?sz - off else n)"
  have sz: "unat ?sz \<le> 70656" "unat off \<le> unat ?sz"
    using s(1) off(1) by (auto simp: file_ok_def MAXFILE_def NDIRECT_def NINDIRECT_def BSIZE_def word_le_nat_alt)
  have n': "unat n' = m"
    using no_wrap [OF off(2)] off(1) unfolding n'_def m by (auto simp: unat_sub word_less_nat_alt min_def)
  have mm: "m \<le> 70656" "unat off + m \<le> unat ?sz"
    using sz by (auto simp: m)
  have "sint n' = int m"
    by (rule sint_small [OF n' mm(1)])
  moreover have "(of_nat (unat off) :: uint) = off"
    by simp
  moreover have "\<exists>t. readi_loop ip (of_nat (unat off)) m s = Inr (map (fbyte s ip) [unat off..<unat off + m], t) \<and>
    fsinv Map.empty t \<and> fstep s t \<and> icache t = icache s \<and> log t = log s \<and> fsv t = fsv s"
    by (rule readi_loop_ok) (use s mm in \<open>auto simp: file_ok_def\<close>)
  ultimately show ?thesis
    using s(1) off n' unfolding readi_def n'_def [symmetric] by (auto simp: file_ok_def Let_def n'_def [symmetric])
qed

section \<open>Writing\<close>

text \<open>A block written that is not part of the block map.\<close>

lemma write_slot:
  assumes s: "file_wf s ip" and t: "fstep s t" "icache t = icache s" "fsv t = (fsv s)(c := d)"
    and c: "c \<noteq> bmapstart (fsb s)" "c = indirect s ip \<longrightarrow> c = 0"
  shows "fslot t ip i = fslot s ip i" "used t = used s" "free_blocks t = free_blocks s" "file_wf t ip"
    "fbyte t ip i = (if fslot s ip (i div BSIZE) = c \<and> c \<noteq> 0 then d (i mod BSIZE) else fbyte s ip i)"
proof -
  have sl: "fslot t ip = fslot s ip"
    unfolding t(2,3) slot_def using c(2) by auto
  then show "fslot t ip i = fslot s ip i"
    by simp
  have "fsv t (bmapstart (fsb s)) = fsv s (bmapstart (fsb s))"
    using t(3) c(1) by simp
  note m = same_map [OF t(1) this] fstepD(1) [OF t(1)]
  show "used t = used s" "free_blocks t = free_blocks s"
    using m by simp_all
  show "file_wf t ip"
    using s unfolding file_wf_def sl unfolding m t(2) .
  show "fbyte t ip i = (if fslot s ip (i div BSIZE) = c \<and> c \<noteq> 0 then d (i mod BSIZE) else fbyte s ip i)"
    unfolding fbyte_def sl unfolding t(3) by (simp add: Let_def)
qed

lemma room_write:
  assumes s: "file_wf s ip" "room A k s ip" and c: "own_block s c" "c \<in> insert (iblock s ip) A" "c = indirect s ip \<longrightarrow> c = 0"
  obtains b u where "bread ROOTDEV c s = Inr (b, u)" "data (bcache u b) = fsv s c" "icache u = icache s" "fsb u = fsb s"
    "\<forall>d. \<exists>v t. log_write b (set_data b d u) = Inr v \<and> brelse b v = Inr t \<and> fstep s t \<and>
       icache t = icache s \<and> fsv t = (fsv s)(c := d) \<and> room A k t ip"
proof -
  note w = file_wfD(1) [OF s(1)]
  obtain M where M: "tx M (k + need s ip) Map.empty s" "{bmapstart (fsb s), iblock s ip} \<union> A \<subseteq> M"
    "indirect s ip \<noteq> 0 \<longrightarrow> indirect s ip \<in> M" "k + need s ip \<le> card (free_blocks s)"
    using s(2) by (auto simp: room_def)
  note o = own_blockD [OF w c(1)]
  obtain b u where u: "bread ROOTDEV c s = Inr (b, u)" "data (bcache u b) = fsv s c" "icache u = icache s" "fsb u = fsb s"
    "\<forall>d. \<exists>v t. log_write b (set_data b d u) = Inr v \<and> brelse b v = Inr t \<and> tx M (k + need s ip) Map.empty t \<and> fstep s t \<and>
       icache t = icache s \<and> fsv t = (fsv s)(c := d)"
    by (rule update_block [OF M(1) _ _ o(3,1)]) (use c M in auto)
  have "\<exists>v t. log_write b (set_data b d u) = Inr v \<and> brelse b v = Inr t \<and> fstep s t \<and>
       icache t = icache s \<and> fsv t = (fsv s)(c := d) \<and> room A k t ip" for d
  proof -
    obtain v t where v: "log_write b (set_data b d u) = Inr v" "brelse b v = Inr t" "tx M (k + need s ip) Map.empty t"
      "fstep s t" "icache t = icache s" "fsv t = (fsv s)(c := d)"
      using u(5) by blast
    have "free_blocks t = free_blocks s"
      by (rule write_slot(3) [OF s(1) v(4-6) o(4) c(3)])
    then have "room A k t ip"
      unfolding room_def need_def v(5) fstepD(1) [OF v(4)] using M v(3) unfolding need_def by auto
    then show ?thesis
      using v by blast
  qed
  then show ?thesis
    using that u(1-4) by blast
qed

text \<open>The state after the bytes of \<open>src\<close> are written at \<open>off\<close>, in memory and log.\<close>

definition written :: "'a fsst_scheme \<Rightarrow> nat \<Rightarrow> cbuf \<Rightarrow> nat \<Rightarrow> nat \<Rightarrow> 'a fsst_scheme \<Rightarrow> bool" where
  "written s ip src off k t \<longleftrightarrow> file_wf t ip \<and> fstep s t \<and>
     (\<forall>i<MAXFILE * BSIZE. fbyte t ip i = (if off \<le> i \<and> i < off + k then src (i - off) else fbyte s ip i)) \<and>
     (\<forall>i\<le>MAXFILE. fslot s ip i \<noteq> 0 \<longrightarrow> fslot t ip i = fslot s ip i) \<and>
     (\<forall>i\<le>MAXFILE. fslot t ip i \<noteq> fslot s ip i \<longrightarrow> \<not> used s (fslot t ip i)) \<and>
     (\<forall>i. off \<le> i \<and> i < off + k \<longrightarrow> fslot t ip (i div BSIZE) \<noteq> 0) \<and> (\<forall>b. used s b \<longrightarrow> used t b) \<and>
     (\<forall>b. used s b \<and> b \<noteq> bmapstart (fsb s) \<and> b \<notin> fslot s ip ` {..MAXFILE} \<longrightarrow> fsv t b = fsv s b) \<and>
     (\<exists>f. icache t = (icache s)(ip := (icache s ip)\<lparr>din := (din (icache s ip))\<lparr>d_addrs := f\<rparr>\<rparr>)) \<and>
     ((\<forall>i. off \<le> i \<and> i < off + k \<longrightarrow> fslot s ip (i div BSIZE) \<noteq> 0) \<longrightarrow> icache t = icache s)"

lemma writtenD:
  assumes "written s ip src off k t"
  shows "file_wf t ip" "fstep s t"
    "i < MAXFILE * BSIZE \<Longrightarrow> fbyte t ip i = (if off \<le> i \<and> i < off + k then src (i - off) else fbyte s ip i)"
    "i \<le> MAXFILE \<Longrightarrow> fslot s ip i \<noteq> 0 \<Longrightarrow> fslot t ip i = fslot s ip i"
    "i \<le> MAXFILE \<Longrightarrow> fslot t ip i \<noteq> fslot s ip i \<Longrightarrow> \<not> used s (fslot t ip i)"
    "off \<le> i \<Longrightarrow> i < off + k \<Longrightarrow> fslot t ip (i div BSIZE) \<noteq> 0" "used s b \<Longrightarrow> used t b"
    "used s b \<Longrightarrow> b \<noteq> bmapstart (fsb s) \<Longrightarrow> b \<notin> fslot s ip ` {..MAXFILE} \<Longrightarrow> fsv t b = fsv s b"
    "\<exists>f. icache t = (icache s)(ip := (icache s ip)\<lparr>din := (din (icache s ip))\<lparr>d_addrs := f\<rparr>\<rparr>)"
    "(\<And>i. off \<le> i \<Longrightarrow> i < off + k \<Longrightarrow> fslot s ip (i div BSIZE) \<noteq> 0) \<Longrightarrow> icache t = icache s"
  using assms unfolding written_def by blast+

text \<open>One round of the loop of \<open>writei\<close>: the part of one block.\<close>

lemma write_chunk:
  assumes s: "file_wf s ip" "room {} (Suc k) s ip" and off: "off < MAXFILE * BSIZE" and m: "m = chunk off n" "0 < n"
  obtains a u b v x t where "bmap ip (of_nat (off div BSIZE)) s = Inr (a, u)" "i_dev (icache u ip) = ROOTDEV"
    "bread ROOTDEV a u = Inr (b, v)"
    "log_write b (set_data b (\<lambda>i. if off mod BSIZE \<le> i \<and> i < off mod BSIZE + m then src (i - off mod BSIZE)
       else data (bcache v b) i) v) = Inr x" "brelse b x = Inr t" "written s ip src off m t" "room {} k t ip"
proof -
  let ?bn = "off div BSIZE"
  have bn: "?bn < MAXFILE"
    using file_words(3) [OF off] .
  obtain a u where u: "bmap ip (of_nat ?bn) s = Inr (a, u)" "mapped s ip ?bn a u" "room {a} k u ip"
    using bmap_ok [OF s bn] by blast
  note p = mappedD [OF u(2)]
  note w = file_wfD [OF p(1)]
  let ?d = "\<lambda>i. if off mod BSIZE \<le> i \<and> i < off mod BSIZE + m then src (i - off mod BSIZE) else fsv u a i"
  have ow: "own_block u a" "a \<noteq> iblock u ip"
    using w(4) [of ?bn] bn p(3,4) by auto
  have ai: "a \<noteq> indirect u ip"
    using w(5) [of ?bn MAXFILE] bn p(3,4) by (auto simp: slot_simps)
  obtain b v where v: "bread ROOTDEV a u = Inr (b, v)" "data (bcache v b) = fsv u a" "icache v = icache u" "fsb v = fsb u"
    "\<forall>d. \<exists>x t. log_write b (set_data b d v) = Inr x \<and> brelse b x = Inr t \<and> fstep u t \<and>
       icache t = icache u \<and> fsv t = (fsv u)(a := d) \<and> room {a} k t ip"
    by (rule room_write [OF p(1) u(3) ow(1)]) (use ai in simp_all)
  obtain x t where t: "log_write b (set_data b ?d v) = Inr x" "brelse b x = Inr t" "fstep u t"
       "icache t = icache u" "fsv t = (fsv u)(a := ?d)" "room {a} k t ip"
    using v(5) by blast
  have am: "a \<noteq> bmapstart (fsb u)"
    using ow(1) by (simp add: own_block_def)
  note q = write_slot [OF p(1) t(3-5) am impI]
  have q5: "fbyte t ip i = (if i div BSIZE = ?bn then ?d (i mod BSIZE) else fbyte u ip i)" if "i < MAXFILE * BSIZE" for i
  proof -
    have "fslot u ip (i div BSIZE) = a \<longleftrightarrow> i div BSIZE = ?bn"
      using w(5) [of "i div BSIZE" ?bn] file_words(3) [OF that] bn p(3,4) by auto
    then show ?thesis
      using q(5) [of i] ai p(4) by simp
  qed
  have c: "off \<le> i \<and> i < off + m \<longleftrightarrow> i div BSIZE = ?bn \<and> off mod BSIZE \<le> i mod BSIZE \<and> i mod BSIZE < off mod BSIZE + m"
    "i div BSIZE = ?bn \<Longrightarrow> i - off = i mod BSIZE - off mod BSIZE" for i
    using chunk_iff [OF m(1)] by blast+
  have bytes: "fbyte t ip i = (if off \<le> i \<and> i < off + m then src (i - off) else fbyte s ip i)" if "i < MAXFILE * BSIZE" for i
  proof (cases "i div BSIZE = ?bn")
    case True
    have "fsv u a (i mod BSIZE) = fbyte s ip i"
      using p(3,4) p(6) [OF that] True by (simp add: fbyte_def Let_def)
    then show ?thesis
      unfolding q5 [OF that] c(1) c(2) [OF True] using True by simp
  next
    case False
    then show ?thesis
      using q5 [OF that] c(1) p(6) [OF that] by simp
  qed
  have frame: "fsv t y = fsv s y" if "used s y" "y \<noteq> bmapstart (fsb s)" "y \<notin> fslot s ip ` {..MAXFILE}" for y
  proof -
    have "y \<noteq> a"
      using p(3) p(8) [of ?bn] bn that(1,3) by (cases "fslot u ip ?bn = fslot s ip ?bn") auto
    moreover have "y \<noteq> indirect s ip"
      using that(3) slot_simps(2) [of "fsv s" "din (icache s ip)"] by (metis atMost_iff image_eqI order_refl)
    ultimately show ?thesis
      using t(5) p(9) [OF that(1,2)] by simp
  qed
  have sl: "fslot t ip i = fslot u ip i" and us: "used t = used u" for i
    using q(1,2) ai by simp_all
  have bl: "off \<le> i \<Longrightarrow> i < off + m \<Longrightarrow> i div BSIZE = ?bn" for i
    using c(1) by blast
  have ic: "icache t = icache s" if "\<forall>i. off \<le> i \<and> i < off + m \<longrightarrow> fslot s ip (i div BSIZE) \<noteq> 0"
    using that [rule_format, of off] chunk_pos(1) [OF m(2)] m(1) p(11) t(4) by simp
  have "written s ip src off m t"
    unfolding written_def sl us
  proof (intro conjI)
    show "file_wf t ip" "fstep s t"
      using q(4) ai fstep_trans [OF p(2) t(3)] by simp_all
    show "\<exists>f. icache t = (icache s)(ip := (icache s ip)\<lparr>din := (din (icache s ip))\<lparr>d_addrs := f\<rparr>\<rparr>)"
      unfolding t(4) by (rule p(10))
    show "\<forall>i. off \<le> i \<and> i < off + m \<longrightarrow> fslot u ip (i div BSIZE) \<noteq> 0"
      using bl p(3,4) by metis
  qed (use bytes frame p(5,7,8) ic in blast)+
  then show ?thesis
    using that [OF u(1) w(2) v(1) t(1) [folded v(2)] t(2)] t(6) by (auto simp: room_def)
qed

definition span :: "nat \<Rightarrow> nat \<Rightarrow> nat" where
  "span off k = (if k = 0 then 0 else (off + k - 1) div BSIZE - off div BSIZE + 1)"

lemma span_chunk:
  assumes "0 < k"
  shows "span off k = Suc (span (off + chunk off k) (k - chunk off k))"
proof (cases "k \<le> BSIZE - off mod BSIZE")
  case True
  then have "chunk off k = k"
    by (simp add: chunk_def)
  moreover have "(off + k - 1) div BSIZE = off div BSIZE"
    using in_chunk(1) [of "k - 1" off k] True assms by (simp add: chunk_def)
  ultimately show ?thesis
    using assms by (simp add: span_def)
next
  case False
  let ?q = "off div BSIZE"
  have r: "off mod BSIZE < BSIZE"
    by (simp add: BSIZE_def)
  have m1: "chunk off k = BSIZE - off mod BSIZE"
    using False by (simp add: chunk_def)
  have "off + (BSIZE - off mod BSIZE) = ?q * BSIZE + BSIZE"
    using r div_mult_mod_eq [of off BSIZE] by linarith
  then have m2: "off + (BSIZE - off mod BSIZE) = (?q + 1) * BSIZE"
    by simp
  note m = m1 m2
  have "(off + chunk off k) div BSIZE = ?q + 1"
    unfolding m by (simp add: BSIZE_def)
  moreover have "?q + 1 \<le> (off + k - 1) div BSIZE"
  proof -
    have "(?q + 1) * BSIZE \<le> off + k - 1"
      using m(2) False by linarith
    then show ?thesis
      using div_le_mono [of "(?q + 1) * BSIZE" "off + k - 1" BSIZE] by (simp add: BSIZE_def)
  qed
  moreover have "off + chunk off k + (k - chunk off k) = off + k"
    using chunk_pos(2) by simp
  ultimately show ?thesis
    using False assms m(1) by (simp add: span_def)
qed

lemma written_trans:
  assumes u: "written s ip src off m u" and t: "written u ip (\<lambda>i. src (i + m)) (off + m) k t"
    and lim: "off + (m + k) \<le> MAXFILE * BSIZE"
  shows "written s ip src off (m + k) t"
proof -
  note p = writtenD [OF u] and q = writtenD [OF t]
  have f: "fsb u = fsb s"
    using fstepD(1) [OF p(2)] .
  have range: "off \<le> i \<and> i < off + (m + k) \<longleftrightarrow> off \<le> i \<and> i < off + m \<or> off + m \<le> i \<and> i < off + m + k" for i
    by linarith
  have bytes: "fbyte t ip i = (if off \<le> i \<and> i < off + (m + k) then src (i - off) else fbyte s ip i)" if "i < MAXFILE * BSIZE" for i
    using p(3) [OF that] q(3) [OF that] by auto
  have slots: "fslot s ip i \<noteq> 0 \<Longrightarrow> fslot t ip i = fslot s ip i" "fslot t ip i \<noteq> fslot s ip i \<Longrightarrow> \<not> used s (fslot t ip i)"
    if "i \<le> MAXFILE" for i
    using p(4,5) [of i] p(7) [of "fslot t ip i"] q(4,5) [of i] that by metis+
  have frame: "fsv t b = fsv s b" if b: "used s b" "b \<noteq> bmapstart (fsb s)" "b \<notin> fslot s ip ` {..MAXFILE}" for b
  proof -
    have "b \<noteq> fslot u ip i" if "i \<le> MAXFILE" for i
      using p(5) [of i] that b(1,3) by (cases "fslot u ip i = fslot s ip i") auto
    then have "b \<notin> fslot u ip ` {..MAXFILE}"
      by auto
    then show ?thesis
      using p(7) [of b] p(8) [of b] q(8) [of b] b f by auto
  qed
  have touched: "fslot t ip (i div BSIZE) \<noteq> 0" if "off \<le> i" "i < off + (m + k)" for i
  proof (cases "i < off + m")
    case True
    then have "fslot u ip (i div BSIZE) \<noteq> 0"
      using p(6) that(1) by blast
    then show ?thesis
      using q(4) [of "i div BSIZE"] file_words(3) [of i] lim that(2) by simp
  next
    case False
    then show ?thesis
      using q(6) [of i] that by simp
  qed
  have ic: "icache t = icache s" if a: "\<forall>i. off \<le> i \<and> i < off + (m + k) \<longrightarrow> fslot s ip (i div BSIZE) \<noteq> 0"
  proof -
    have "fslot u ip (i div BSIZE) \<noteq> 0" if "off + m \<le> i" "i < off + m + k" for i
      using a [rule_format, of i] p(4) [of "i div BSIZE"] file_words(3) [of i] lim that by simp
    then have "icache t = icache u"
      using q(10) by blast
    moreover have "icache u = icache s"
      using p(10) a by (simp add: range)
    ultimately show ?thesis
      by simp
  qed
  have "\<exists>f. icache t = (icache s)(ip := (icache s ip)\<lparr>din := (din (icache s ip))\<lparr>d_addrs := f\<rparr>\<rparr>)"
    using p(9) q(9) by auto
  then show ?thesis
    unfolding written_def using q(1) fstep_trans [OF p(2) q(2)] bytes slots touched p(7) q(7) frame ic by blast
qed

lemma writei_loop_ok:
  assumes "file_wf s ip" "room {} (span off k + j) s ip" "off + k \<le> MAXFILE * BSIZE"
  shows "\<exists>t. writei_loop ip src (of_nat off) k s = Inr (of_nat (off + k), t) \<and> written s ip src off k t \<and> room {} j t ip"
  using assms
proof (induction k arbitrary: off s src rule: less_induct)
  case (less k)
  show ?case
  proof (cases "k = 0")
    case True
    have "quiet s"
      using less.prems(2) by (auto simp: room_def tx_def fsinv_def ginv_def bio_ok_def)
    then have "fstep s s"
      by (simp add: fstep_def)
    then have "written s ip src off 0 s"
      using less.prems(1) by (auto simp: written_def intro!: exI [of _ "d_addrs (din (icache s ip))"])
    then show ?thesis
      using less.prems(2) True by (simp add: writei_loop.simps span_def)
  next
    case False
    let ?m = "chunk off k"
    have m: "0 < ?m" "?m \<le> k"
      using chunk_pos False by auto
    have off: "off < MAXFILE * BSIZE"
      using less.prems(3) False by simp
    have rm: "room {} (Suc (span (off + ?m) (k - ?m) + j)) s ip"
      using less.prems(2) span_chunk [of k off] False by simp
    obtain a u b v x t where t: "bmap ip (of_nat (off div BSIZE)) s = Inr (a, u)" "i_dev (icache u ip) = ROOTDEV"
      "bread ROOTDEV a u = Inr (b, v)"
      "log_write b (set_data b (\<lambda>i. if off mod BSIZE \<le> i \<and> i < off mod BSIZE + ?m then src (i - off mod BSIZE)
         else data (bcache v b) i) v) = Inr x" "brelse b x = Inr t" "written s ip src off ?m t"
      "room {} (span (off + ?m) (k - ?m) + j) t ip"
      by (rule write_chunk [OF less.prems(1) rm off refl, where src = src]) (use False in auto)
    obtain y where y: "writei_loop ip (\<lambda>i. src (i + ?m)) (of_nat (off + ?m)) (k - ?m) t =
        Inr (of_nat (off + ?m + (k - ?m)), y)" "written t ip (\<lambda>i. src (i + ?m)) (off + ?m) (k - ?m) y" "room {} j y ip"
      using less.IH [of "k - ?m" t "off + ?m" "\<lambda>i. src (i + ?m)"] m less.prems(3) t(7) writtenD(1) [OF t(6)] by auto
    have "written s ip src off (?m + (k - ?m)) y"
      by (rule written_trans [OF t(6) y(2)]) (use m less.prems(3) in simp)
    moreover have "writei_loop ip src (of_nat off) k s = Inr (of_nat (off + k), y)"
      unfolding writei_loop.simps [of ip src "of_nat off" k s] file_words(1,2) [OF off] Let_def
      unfolding chunk_def [symmetric]
      using False t(1-5) y(1) m by simp
    ultimately show ?thesis
      using y(3) m by auto
  qed
qed

section \<open>The inode on the disk\<close>

definition disk_inode :: "'a fsst_scheme \<Rightarrow> uint \<Rightarrow> dinode" where
  "disk_inode s j = get_dinode (fsv s (IBLOCK j (fsb s))) (dinode_at j)"

lemma same_dinode_refl [simp]: "same_dinode x x"
  by (simp add: same_dinode_def)

lemma dinode_apart:
  assumes "i \<noteq> j" "IBLOCK i sb = IBLOCK j sb"
  shows "dinode_at i + 64 \<le> dinode_at j \<or> dinode_at j + 64 \<le> dinode_at i"
proof -
  have "i div 8 = j div 8"
    using assms(2) by (simp add: IBLOCK_def IPB_def DINODE_SIZE_def)
  then have "unat (i div 8) = unat (j div 8)"
    by simp
  then have "unat i div 8 = unat j div 8"
    by (simp add: unat_div_distrib)
  then have "unat i mod 8 \<noteq> unat j mod 8"
    using assms(1) by (metis div_mult_mod_eq unsigned_word_eqI)
  then show ?thesis
    unfolding dinode_at_def IPB_def DINODE_SIZE_def by simp linarith
qed

lemma iupdate_ok:
  assumes s: "file_wf s ip" "room A k s ip"
  shows "\<exists>t. iupdate ip s = Inr t \<and> fstep s t \<and> icache t = icache s \<and> room A k t ip \<and> file_wf t ip \<and>
    (\<forall>i. fslot t ip i = fslot s ip i) \<and> (\<forall>i<MAXFILE * BSIZE. fbyte t ip i = fbyte s ip i) \<and> used t = used s \<and>
    (\<forall>b. b \<noteq> iblock s ip \<longrightarrow> fsv t b = fsv s b) \<and>
    same_dinode (disk_inode t (i_inum (icache s ip))) (din (icache s ip)) \<and>
    (\<forall>j. j \<noteq> i_inum (icache s ip) \<longrightarrow> same_dinode (disk_inode t j) (disk_inode s j))"
proof -
  note w = file_wfD [OF s(1)]
  let ?c = "iblock s ip" and ?n = "i_inum (icache s ip)"
  have c: "?c = indirect s ip \<longrightarrow> ?c = 0" "?c \<noteq> bmapstart (fsb s)"
    using w(4) [of MAXFILE, unfolded slot_simps(2)] w(3) order_refl unfolding own_block_def by metis+
  let ?d = "put_dinode (dinode_at ?n) (din (icache s ip)) (fsv s ?c)"
  obtain b u where u: "bread ROOTDEV ?c s = Inr (b, u)" "data (bcache u b) = fsv s ?c" "icache u = icache s" "fsb u = fsb s"
    "\<forall>d. \<exists>v t. log_write b (set_data b d u) = Inr v \<and> brelse b v = Inr t \<and> fstep s t \<and>
       icache t = icache s \<and> fsv t = (fsv s)(?c := d) \<and> room A k t ip"
    by (rule room_write [OF s w(3) _ c(1)]) simp
  obtain v t where t: "log_write b (set_data b ?d u) = Inr v" "brelse b v = Inr t" "fstep s t"
    "icache t = icache s" "fsv t = (fsv s)(?c := ?d)" "room A k t ip"
    using u(5) by blast
  note q = write_slot [OF s(1) t(3-5) c(2,1)] and f = fstepD(1) [OF t(3)]
  have "iupdate ip s = Inr t"
    using u t w(2) by (simp add: iupdate_def Let_def)
  moreover have "fbyte t ip i = fbyte s ip i" if "i < MAXFILE * BSIZE" for i
    using q(5) [of i] w(4) [of "i div BSIZE"] file_words(3) [OF that] by auto
  moreover have "same_dinode (disk_inode t ?n) (din (icache s ip))"
    using dinode_roundtrip(1) f t(5) by (simp add: disk_inode_def)
  moreover have "same_dinode (disk_inode t j) (disk_inode s j)" if "j \<noteq> ?n" for j
    using dinode_roundtrip(2) dinode_apart [OF that, of "fsb s"] f t(5) by (auto simp: disk_inode_def)
  ultimately show ?thesis
    using t q(1,2,4) by auto
qed

section \<open>writei\<close>

lemma file_wf_size:
  fixes s :: "'a fsst_scheme" and n :: uint
  assumes s: "file_wf s ip" "room A k s ip"
  defines "t \<equiv> upd_din ip (\<lambda>x. x\<lparr>d_size := n\<rparr>) s"
  shows "file_wf t ip" "room A k t ip" "fstep s t" "fsv t = fsv s" "fslot t ip i = fslot s ip i"
    "fbyte t ip i = fbyte s ip i" "used t = used s"
    "icache t = (icache s)(ip := (icache s ip)\<lparr>din := (din (icache s ip))\<lparr>d_size := n\<rparr>\<rparr>)"
proof -
  obtain M where M: "tx M (k + need s ip) Map.empty s" "{bmapstart (fsb s), iblock s ip} \<union> A \<subseteq> M"
    "indirect s ip \<noteq> 0 \<longrightarrow> indirect s ip \<in> M" "k + need s ip \<le> card (free_blocks s)"
    using s(2) by (auto simp: room_def)
  show f: "fstep s t" "fsv t = fsv s"
    using fsinv_upper(2,3) [OF txD(1) [OF M(1)]] by (auto simp: t_def upd_din_def)
  show ic: "icache t = (icache s)(ip := (icache s ip)\<lparr>din := (din (icache s ip))\<lparr>d_size := n\<rparr>\<rparr>)"
    by (simp add: t_def upd_din_def)
  have sl: "fslot t ip = fslot s ip"
    by (auto simp: slot_def f(2) ic)
  then show "fslot t ip i = fslot s ip i"
    by simp
  have same: "fsv t (bmapstart (fsb s)) = fsv s (bmapstart (fsb s))"
    using f(2) by simp
  note m = same_map [OF f(1) same] fstepD(1) [OF f(1)]
  show "used t = used s"
    using m by simp
  show "fbyte t ip i = fbyte s ip i"
    unfolding fbyte_def sl unfolding f(2) ..
  have e: "i_dev (icache t ip) = i_dev (icache s ip)" "i_inum (icache t ip) = i_inum (icache s ip)" "indirect t ip = indirect s ip"
    by (simp_all add: ic)
  show "file_wf t ip"
    using s(1) unfolding file_wf_def sl unfolding m e .
  show "room A k t ip"
    unfolding room_def need_def e m
    using M tx_upper [OF M(1), of ip] unfolding need_def t_def upd_din_def by (intro conjI exI [of _ M]) auto
qed

text \<open>
  The file after \<open>writei\<close>: its new size and bytes; the blocks of other files, and the inodes of
  other files on the disk, are as before.
\<close>

definition file_written :: "'a fsst_scheme \<Rightarrow> nat \<Rightarrow> cbuf \<Rightarrow> nat \<Rightarrow> nat \<Rightarrow> 'a fsst_scheme \<Rightarrow> bool" where
  "file_written s ip src off n t \<longleftrightarrow> file_ok t ip \<and> fstep s t \<and>
     unat (d_size (din (icache t ip))) = max (unat (d_size (din (icache s ip)))) (off + n) \<and>
     (\<forall>i<unat (d_size (din (icache t ip))). fbyte t ip i = (if off \<le> i \<and> i < off + n then src (i - off) else fbyte s ip i)) \<and>
     (\<forall>b. used s b \<and> b \<noteq> bmapstart (fsb s) \<and> b \<noteq> iblock s ip \<and> b \<notin> fslot s ip ` {..MAXFILE} \<longrightarrow>
        used t b \<and> fsv t b = fsv s b) \<and>
     (\<forall>j. j \<noteq> i_inum (icache s ip) \<and> own_block s (IBLOCK j (fsb s)) \<and> IBLOCK j (fsb s) \<notin> fslot s ip ` {..MAXFILE} \<longrightarrow>
        same_dinode (disk_inode t j) (disk_inode s j)) \<and>
     (\<forall>jp. jp \<noteq> ip \<longrightarrow> icache t jp = icache s jp) \<and>
     (same_dinode (disk_inode s (i_inum (icache s ip))) (din (icache s ip)) \<longrightarrow>
        same_dinode (disk_inode t (i_inum (icache s ip))) (din (icache t ip)))"

lemma written_file:
  assumes s: "file_ok s ip" and t: "written s ip src off n t" and lim: "off + n \<le> unat (d_size (din (icache s ip)))"
  shows "file_written s ip src off n t"
proof -
  have wf: "file_wf s ip"
    using s by (simp add: file_ok_def)
  note p = writtenD [OF t] and w = file_wfD [OF wf] and f = fstepD [OF writtenD(2) [OF t]]
  have lt: "i div BSIZE < MAXFILE" "i < MAXFILE * BSIZE" if "i < unat (d_size (din (icache s ip)))" for i
    using s that file_words(3) [of i] by (auto simp: file_ok_def)
  have ic: "icache t = icache s"
    using p(10) s lim by (auto simp: file_ok_def)
  have ok: "file_ok t ip"
    using s p(1) p(4) lt(1) unfolding file_ok_def ic by (metis less_imp_le)
  have "fslot s ip i \<noteq> iblock s ip" if "i \<le> MAXFILE" for i
    using w(3) w(4) [OF that] unfolding own_block_def by metis
  then have ib: "iblock s ip \<notin> fslot s ip ` {..MAXFILE}"
    by force
  have inode: "same_dinode (disk_inode t j) (disk_inode s j)"
    if "own_block s (IBLOCK j (fsb s))" "IBLOCK j (fsb s) \<notin> fslot s ip ` {..MAXFILE}" for j
    using p(8) [of "IBLOCK j (fsb s)"] that f(1) by (simp add: disk_inode_def own_block_def)
  have "disk_inode t (i_inum (icache s ip)) = disk_inode s (i_inum (icache s ip))"
    using p(8) [OF _ _ ib] w(3) f(1) by (simp add: disk_inode_def own_block_def)
  moreover have "fbyte t ip i = (if off \<le> i \<and> i < off + n then src (i - off) else fbyte s ip i)"
    if "i < unat (d_size (din (icache s ip)))" for i
    using p(3) lt(2) [OF that] by blast
  ultimately show ?thesis
    unfolding file_written_def using ok p(2,7,8) inode lim by (auto simp: ic max_def)
qed

text \<open>The same after the new size has been stored.\<close>

lemma written_grow:
  fixes s :: "'a fsst_scheme"
  assumes s: "file_ok s ip" "off \<le> unat (d_size (din (icache s ip)))" "unat (d_size (din (icache s ip))) < off + n"
    and u: "written s ip src off n u" "room {} k u ip" and lim: "off + n \<le> MAXFILE * BSIZE"
  shows "\<exists>t. iupdate ip (upd_din ip (\<lambda>x. x\<lparr>d_size := of_nat (off + n)\<rparr>) u) = Inr t \<and> file_written s ip src off n t \<and> room {} k t ip"
proof -
  have wf: "file_wf s ip"
    using s by (simp add: file_ok_def)
  let ?v = "upd_din ip (\<lambda>x. x\<lparr>d_size := of_nat (off + n)\<rparr>) u"
  note p = writtenD [OF u(1)] and w = file_wfD [OF wf] and g = fstepD [OF writtenD(2) [OF u(1)]]
  note v = file_wf_size [OF p(1) u(2), where n = "of_nat (off + n)"]
  obtain t where t: "iupdate ip ?v = Inr t" "fstep ?v t" "icache t = icache ?v" "room {} k t ip" "file_wf t ip"
    "\<forall>i. fslot t ip i = fslot ?v ip i" "\<forall>i<MAXFILE * BSIZE. fbyte t ip i = fbyte ?v ip i" "used t = used ?v"
    "\<forall>b. b \<noteq> iblock ?v ip \<longrightarrow> fsv t b = fsv ?v b"
    "same_dinode (disk_inode t (i_inum (icache ?v ip))) (din (icache ?v ip))"
    "\<forall>j. j \<noteq> i_inum (icache ?v ip) \<longrightarrow> same_dinode (disk_inode t j) (disk_inode ?v j)"
    using iupdate_ok [OF v(1,2)] by blast
  obtain f where f: "icache u = (icache s)(ip := (icache s ip)\<lparr>din := (din (icache s ip))\<lparr>d_addrs := f\<rparr>\<rparr>)"
    using p(9) by blast
  have ic: "i_inum (icache ?v ip) = i_inum (icache s ip)" "d_type (din (icache ?v ip)) = d_type (din (icache s ip))"
    "d_size (din (icache ?v ip)) = of_nat (off + n)" "jp \<noteq> ip \<Longrightarrow> icache ?v jp = icache s jp" for jp
    unfolding v(8) by (simp_all add: f del: of_nat_add)
  have fv: "fsb ?v = fsb s" "fstep s t"
    using g(1) fstepD(1) [OF v(3)] fstep_trans [OF p(2) fstep_trans [OF v(3) t(2)]] by simp_all
  have sz: "unat (of_nat (off + n) :: uint) = off + n"
    using lim by (simp add: unat_of_nat MAXFILE_def NDIRECT_def NINDIRECT_def BSIZE_def del: of_nat_add)
  have present: "fslot t ip (i div BSIZE) \<noteq> 0" if "i < off + n" for i
  proof (cases "off \<le> i")
    case True
    then show ?thesis
      using p(6) that t(6) v(5) by simp
  next
    case False
    then have "fslot s ip (i div BSIZE) \<noteq> 0"
      using s by (simp add: file_ok_def)
    then show ?thesis
      using p(4) [of "i div BSIZE"] file_words(3) [of i] that lim t(6) v(5) by simp
  qed
  have ok: "file_ok t ip"
    using s(1) t(5) present lim sz unfolding file_ok_def t(3) ic by simp
  have blocks: "used t b \<and> fsv t b = fsv s b"
    if "used s b" "b \<noteq> bmapstart (fsb s)" "b \<noteq> iblock s ip" "b \<notin> fslot s ip ` {..MAXFILE}" for b
    using p(7,8) [of b] that t(8,9) v(4,7) ic(1) fv(1) by simp
  have inode: "same_dinode (disk_inode t j) (disk_inode s j)"
    if j: "j \<noteq> i_inum (icache s ip)" "own_block s (IBLOCK j (fsb s))" "IBLOCK j (fsb s) \<notin> fslot s ip ` {..MAXFILE}" for j
  proof -
    have "disk_inode ?v j = disk_inode s j"
      using p(8) [of "IBLOCK j (fsb s)"] j fv(1) v(4) by (simp add: disk_inode_def own_block_def)
    then show ?thesis
      using t(11) j(1) ic(1) by auto
  qed
  have bytes: "fbyte t ip i = (if off \<le> i \<and> i < off + n then src (i - off) else fbyte s ip i)" if "i < off + n" for i
    using p(3) [of i] t(7) v(6) that lim by simp
  have "file_written s ip src off n t"
    unfolding file_written_def t(3) ic sz using ok fv(2) s(3) bytes blocks inode ic(4) t(10) ic(1) by auto
  then show ?thesis
    using t(1,4) by blast
qed

lemma writei_ok:
  assumes s: "file_ok s ip" "room {} (span (unat off) (unat n) + k) s ip"
    and off: "off \<le> d_size (din (icache s ip))" "off \<le> off + n" "unat off + unat n \<le> MAXFILE * BSIZE"
  shows "\<exists>t. writei dv ip src off n s = Inr (int (unat n), t) \<and> file_written s ip src (unat off) (unat n) t \<and> room {} k t ip"
proof -
  let ?x = "din (icache s ip)"
  have wf: "file_wf s ip" "d_type ?x \<noteq> T_DEV"
    using s(1) by (simp_all add: file_ok_def)
  obtain u where u: "writei_loop ip src off (unat n) s = Inr (off + n, u)" "written s ip src (unat off) (unat n) u" "room {} k u ip"
    using writei_loop_ok [OF wf(1) s(2) off(3), of src] by (auto simp: of_nat_add)
  have lim: "unat off + unat n \<le> 70656" "unat (off + n) = unat off + unat n"
    using off(3) no_wrap [OF off(2)] by (simp_all add: MAXFILE_def NDIRECT_def NINDIRECT_def BSIZE_def)
  have c: "\<not> d_size ?x < off" "\<not> off + n < off" "\<not> of_nat (MAXFILE * BSIZE) < off + n"
    using off(1,2) lim by (auto simp: word_less_nat_alt word_le_nat_alt MAXFILE_def NDIRECT_def NINDIRECT_def BSIZE_def)
  have n: "sint n = int (unat n)"
    by (rule sint_small) (use lim(1) in simp_all)
  have sz: "d_size (din (icache u ip)) = d_size ?x"
    using writtenD(9) [OF u(2)] by auto
  show ?thesis
  proof (cases "d_size ?x < off + n")
    case True
    have "0 < n"
      using True off(1) by (cases "n = 0") (auto simp: word_neq_0_conv)
    have of: "of_nat (unat off + unat n) = off + n"
      by simp
    have g: "unat off \<le> unat (d_size ?x)" "unat (d_size ?x) < unat off + unat n"
      using off(1) True lim(2) by (simp_all add: word_le_nat_alt word_less_nat_alt)
    obtain t where t: "iupdate ip (upd_din ip (\<lambda>x. x\<lparr>d_size := off + n\<rparr>) u) = Inr t" "file_written s ip src (unat off) (unat n) t"
      "room {} k t ip"
      using written_grow [OF s(1) g u(2,3) off(3)] unfolding of by blast
    then show ?thesis
      using wf(2) c u(1) True \<open>0 < n\<close> n sz by (auto simp: writei_def Let_def)
  next
    case False
    then have "unat off + unat n \<le> unat (d_size ?x)"
      using lim(2) by (simp add: word_less_nat_alt)
    then have "file_written s ip src (unat off) (unat n) u"
      by (rule written_file [OF s(1) u(2)])
    then show ?thesis
      using wf(2) c u(1,3) False n sz by (auto simp: writei_def Let_def)
  qed
qed

end
