(* ===== verification/FsProps.thy ===== *)
theory FsProps
  imports FsRw PipeProps
begin

text \<open>
  The properties of the file system: block allocation, reading and writing files, and reading
  back what was written.
\<close>

lemma lowest_free_None: "lowest_free s = None \<longleftrightarrow> (\<forall>b < sb_size (fsb s). used s b)"
proof
  assume n: "lowest_free s = None"
  show "\<forall>b < sb_size (fsb s). used s b"
  proof (intro allI impI)
    fix b assume "b < sb_size (fsb s)"
    then have "unat b \<in> set [0..<unat (sb_size (fsb s))]"
      by (simp add: word_less_nat_alt)
    then have "used s (of_nat (unat b))"
      using n unfolding lowest_free_def find_None_iff by blast
    then show "used s b"
      by simp
  qed
next
  assume a: "\<forall>b < sb_size (fsb s). used s b"
  have "(of_nat n :: uint) < sb_size (fsb s)" if "n < unat (sb_size (fsb s))" for n
    using that unsigned_less [of "sb_size (fsb s)", where 'a = nat] by (simp add: word_less_nat_alt unat_of_nat)
  then show "lowest_free s = None"
    unfolding lowest_free_def find_None_iff using a by auto
qed

lemma lowest_free_least:
  assumes "lowest_free s = Some n" "disk_ok s" "c < of_nat n"
  shows "used s c"
proof -
  have c: "unat c < n" "n < unat (sb_size (fsb s))"
    using assms(3) lowest_free_Some(3,4) [OF assms(1,2)] by (simp_all add: word_less_nat_alt)
  obtain i where i: "i < length [0..<unat (sb_size (fsb s))]" "n = [0..<unat (sb_size (fsb s))] ! i"
    "\<forall>j<i. \<not> \<not> used s (of_nat ([0..<unat (sb_size (fsb s))] ! j))"
    using assms(1) unfolding lowest_free_def find_Some_iff by auto
  then have "used s (of_nat (unat c))"
    using c by auto
  then show ?thesis
    by simp
qed

text \<open>
  C23. \<open>balloc\<close> in a transaction gives the free block with the lowest number: it marks the block in
  the free map and no other, fills it with zeros and changes no other block.  If every block is in
  use it panics.
\<close>

theorem balloc_lowest:
  assumes "disk_ok s" "tx M (Suc k) Map.empty s" "bmapstart (fsb s) \<in> M"
  shows "if \<forall>b < sb_size (fsb s). used s b then balloc ROOTDEV s = Inl (Panic ''balloc: out of blocks'')
    else \<exists>b t. balloc ROOTDEV s = Inr (b, t) \<and> b < sb_size (fsb s) \<and> \<not> used s b \<and> (\<forall>c<b. used s c) \<and>
      (\<forall>c. used t c \<longleftrightarrow> c = b \<or> used s c) \<and> (\<forall>i<BSIZE. fsv t b i = 0) \<and>
      (\<forall>c. c \<noteq> b \<and> c \<noteq> bmapstart (fsb s) \<longrightarrow> fsv t c = fsv s c) \<and> tx (insert b M) k Map.empty t"
proof (cases "lowest_free s")
  case None
  then show ?thesis
    using balloc_full [OF assms(1,2)] lowest_free_None [of s] by simp
next
  case (Some n)
  note l = lowest_free_Some [OF Some assms(1)]
  obtain t where t: "balloc ROOTDEV s = Inr (of_nat n, t)" "tx (insert (of_nat n) M) k Map.empty t" "fstep s t"
    "fsv t = (fsv s)(bmapstart (fsb s) := mark n (fsv s (bmapstart (fsb s))), of_nat n := zeroed (fsv s (of_nat n)))"
    by (rule balloc_ok [OF assms(1,2) _ assms(3) _ _ Some]) simp_all
  have "used t c \<longleftrightarrow> c = of_nat n \<or> used s c" for c
    using marked_used [of t n s, OF _ l(3)] t(4) l(6) fstepD(1) [OF t(3)] by simp
  then show ?thesis
    using t(1,2,4) l(1,2) lowest_free_None [of s] Some lowest_free_least [OF Some assms(1)] by (auto simp: zeroed_def)
qed

text \<open>
  C22. \<open>readi\<close> on a file gives its bytes from the offset on, as many as asked for or as there are
  before the end, and their number; an offset beyond the end, or one that wraps around with the
  count, gives -1.  Nothing changes.
\<close>

theorem readi_reads:
  assumes "file_ok s ip" "fsinv Map.empty s" "nat (lh_n (log s)) < NBUF"
  shows "if d_size (din (icache s ip)) < off \<or> off + n < off then readi dv ip off n s = Inr (- 1, [], s)
    else \<exists>t. readi dv ip off n s =
        Inr (int (min (unat n) (unat (d_size (din (icache s ip))) - unat off)),
          map (fbyte s ip) [unat off..<min (unat off + unat n) (unat (d_size (din (icache s ip))))], t) \<and>
      fsinv Map.empty t \<and> icache t = icache s \<and> log t = log s \<and> fsv t = fsv s"
proof (cases "d_size (din (icache s ip)) < off \<or> off + n < off")
  case True
  then show ?thesis
    using assms(1) by (auto simp: readi_def file_ok_def Let_def)
next
  case False
  let ?sz = "unat (d_size (din (icache s ip)))"
  have o: "unat off \<le> ?sz"
    using False by (simp add: word_less_nat_alt)
  then have m: "unat off + min (unat n) (?sz - unat off) = min (unat off + unat n) ?sz"
    by simp
  have "off \<le> d_size (din (icache s ip))" "off \<le> off + n"
    using False by auto
  from readi_ok [OF assms this refl, of dv] show ?thesis
    unfolding m using False by auto
qed

text \<open>
  C20. \<open>writei\<close> in a transaction with room for the blocks it needs writes the \<open>n\<close> bytes of its
  source at the offset: the file grows to hold them, its other bytes stay, new blocks come from
  the free map, the inode on the disk follows the one in memory, and no block and no inode of
  another file changes.  An offset beyond the end, a wrap-around, or an end beyond the largest
  file gives -1 and changes nothing.
\<close>

theorem writei_writes:
  assumes "file_ok s ip" "room {} (span (unat off) (unat n) + k) s ip"
  shows "if d_size (din (icache s ip)) < off \<or> off + n < off \<or> MAXFILE * BSIZE < unat (off + n)
    then writei dv ip src off n s = Inr (- 1, s)
    else \<exists>t. writei dv ip src off n s = Inr (int (unat n), t) \<and> file_written s ip src (unat off) (unat n) t \<and> room {} k t ip"
proof (cases "d_size (din (icache s ip)) < off \<or> off + n < off \<or> MAXFILE * BSIZE < unat (off + n)")
  case True
  have "unat (of_nat (MAXFILE * BSIZE) :: uint) = MAXFILE * BSIZE"
    by (simp add: MAXFILE_def NDIRECT_def NINDIRECT_def BSIZE_def)
  then have "d_size (din (icache s ip)) < off \<or> off + n < off \<or> of_nat (MAXFILE * BSIZE) < off + n"
    using True by (simp only: word_less_nat_alt)
  then show ?thesis
    using True assms(1) by (auto simp: writei_def file_ok_def Let_def)
next
  case False
  then have o: "off \<le> d_size (din (icache s ip))" "off \<le> off + n"
    by auto
  then have "unat off + unat n \<le> MAXFILE * BSIZE"
    using no_wrap [OF o(2)] False by simp
  then show ?thesis
    using writei_ok [OF assms o] False by simp
qed

text \<open>
  C21. Reading back what was written: after a \<open>writei\<close> of \<open>n\<close> bytes at an offset within a file, a
  \<open>readi\<close> of \<open>n\<close> bytes there returns exactly the bytes of the source.
\<close>

theorem read_after_write:
  assumes "file_ok s ip" "room {} (span (unat off) (unat n)) s ip" "off \<le> d_size (din (icache s ip))" "off \<le> off + n"
    "unat off + unat n \<le> MAXFILE * BSIZE"
  shows "\<exists>t u. writei dv ip src off n s = Inr (int (unat n), t) \<and>
    readi dv ip off n t = Inr (int (unat n), map src [0..<unat n], u)"
proof -
  obtain t where t: "writei dv ip src off n s = Inr (int (unat n), t)" "file_written s ip src (unat off) (unat n) t" "room {} 0 t ip"
    using writei_ok [OF assms(1), of off n 0] assms(2-5) by auto
  note w = t(2) [unfolded file_written_def]
  have tx: "fsinv Map.empty t" "nat (lh_n (log t)) < NBUF"
    using t(3) txD(1,2) by (fastforce simp: room_def)+
  let ?sz = "unat (d_size (din (icache t ip)))"
  have sz: "unat off + unat n \<le> ?sz"
    using w by simp
  then have o: "off \<le> d_size (din (icache t ip))"
    by (simp add: word_le_nat_alt)
  obtain u where u: "readi dv ip off n t = Inr (int (unat n), map (fbyte t ip) [unat off..<unat off + unat n], u)"
    using readi_ok [OF _ tx o assms(4) refl, of dv] w sz by auto
  have "map (fbyte t ip) [unat off..<unat off + unat n] = map src [0..<unat n]"
    using w sz by (intro nth_equalityI) auto
  then show ?thesis
    using t(1) u by auto
qed

section \<open>An empty file on a small disk\<close>

text \<open>The disk with the superblock \<open>demo_sb\<close>, blocks 0 to 63 in use, and inode 1 for an empty file.\<close>

definition demo_disk :: "uint \<Rightarrow> uint \<Rightarrow> cbuf" where
  "demo_disk dr bno i = (if bno = 58 \<and> i < 8 then 255 else 0)"

definition demo_fs :: fsst where
  "demo_fs = logst.extend (demo_log demo_disk)
     (fsst.fields (\<lambda>_. demo_inode\<lparr>i_dev := ROOTDEV, i_inum := 1, din := demo_dinode\<lparr>d_type := T_FILE\<rparr>\<rparr>) demo_sb)"

lemma demo_fs_sel:
  "log demo_fs = demo_logrec" "fsb demo_fs = demo_sb" "disk demo_fs = demo_disk"
  "icache demo_fs ip = demo_inode\<lparr>i_dev := ROOTDEV, i_inum := 1, din := demo_dinode\<lparr>d_type := T_FILE\<rparr>\<rparr>"
  using demo_log_ok(2,3) [of demo_disk] by (simp_all add: demo_fs_def logst.extend_def fsst.fields_def)

lemma demo_fs_inv: "fsinv Map.empty demo_fs"
proof -
  have "ptable.truncate demo_fs = ptable.truncate (demo_log demo_disk)"
    by (simp add: demo_fs_def logst.extend_def ptable.truncate_def)
  then have "quiet demo_fs = quiet (demo_log demo_disk)"
    by (metis quiet_truncate)
  moreover have "bcache demo_fs = bcache (demo_log demo_disk)" "disk demo_fs = disk (demo_log demo_disk)"
    "idequeue demo_fs = idequeue (demo_log demo_disk)" "havedisk1 demo_fs = havedisk1 (demo_log demo_disk)"
    "ide_err demo_fs = ide_err (demo_log demo_disk)" "log demo_fs = log (demo_log demo_disk)"
    by (simp_all add: demo_fs_def logst.extend_def)
  ultimately show ?thesis
    using demo_log_inv(1) [of demo_disk] by (simp add: fsinv_def ginv_def bio_ok_def)
qed

lemma demo_fs_view: "fsv demo_fs = demo_disk ROOTDEV"
proof
  fix b
  have "logged demo_logrec = {}"
    by (simp add: logged_def demo_logrec_def)
  then show "fsv demo_fs b = demo_disk ROOTDEV b"
    using fsv_clean [OF fsinvD(1) [OF demo_fs_inv]] by (simp add: demo_fs_sel)
qed

lemma demo_fs_used: "used demo_fs b \<longleftrightarrow> b < 64"
proof -
  have "bit (255 :: uchar) (n mod 8)" for n
  proof -
    have e: "(255 :: uchar) = - 1"
      by simp
    show ?thesis
      unfolding e by (simp add: bit_simps)
  qed
  moreover have "unat b div 8 < 8 \<longleftrightarrow> unat b < 64"
    by (simp add: div_less_iff_less_mult)
  ultimately show ?thesis
    by (simp add: used_def bit_used_iff demo_fs_view demo_fs_sel demo_sb_def demo_disk_def word_less_nat_alt)
qed

lemma demo_fs_ok: "disk_ok demo_fs" "file_ok demo_fs 0"
proof -
  have l: "in_log demo_logrec b \<longleftrightarrow> 2 \<le> b \<and> b < 32" for b
  proof -
    have "unat (2 :: uint) = 2"
      by simp
    then have "int (unat b) < int (unat (2 :: uint)) + 30 \<longleftrightarrow> unat b < 32"
      by linarith
    then show ?thesis
      by (simp add: in_log_def demo_logrec_def word_le_nat_alt word_less_nat_alt)
  qed
  show d: "disk_ok demo_fs"
    unfolding disk_ok_def demo_fs_used demo_fs_sel l by (auto simp: demo_sb_def FSSIZE_def intro: less_trans)
  have s: "fslot demo_fs 0 i = 0" for i
    by (simp add: slot_def demo_fs_sel demo_dinode_def)
  have "iblock demo_fs 0 = 32"
    by (simp add: demo_fs_sel demo_sb_def IBLOCK_def IPB_def DINODE_SIZE_def demo_inode_def)
  then show "file_ok demo_fs 0"
    using d unfolding file_ok_def file_wf_def s unfolding own_block_def demo_fs_used demo_fs_sel l
    by (simp add: demo_sb_def T_FILE_def T_DEV_def demo_dinode_def)
qed

lemma demo_fs_room: "tx {58, 32} 3 Map.empty demo_fs" "room {} 2 demo_fs 0"
proof -
  have "logged demo_logrec = {}"
    by (simp add: logged_def demo_logrec_def)
  then show tx: "tx {58, 32} 3 Map.empty demo_fs"
    using demo_fs_inv by (simp add: tx_def demo_fs_sel demo_logrec_def NBUF_def MAXOPBLOCKS_def)
  have "{64, 65, 66} \<subseteq> free_blocks demo_fs"
    by (simp add: free_blocks_def demo_fs_used demo_fs_sel demo_sb_def)
  then have "3 \<le> card (free_blocks demo_fs)"
    using card_mono [OF finite_free, of "{64, 65, 66}"] by (simp add: numeral_3_eq_3)
  moreover have "need demo_fs 0 = 1" "iblock demo_fs 0 = 32"
    by (simp_all add: need_def demo_fs_sel demo_dinode_def demo_sb_def IBLOCK_def IPB_def DINODE_SIZE_def demo_inode_def)
  ultimately show "room {} 2 demo_fs 0"
    unfolding room_def using tx by (intro conjI exI [of _ "{58, 32}"]) (simp_all add: demo_fs_sel demo_sb_def demo_dinode_def)
qed

lemma demo_write_room: "room {} (span (unat (0 :: uint)) (unat (3 :: uint)) + 1) demo_fs 0"
proof -
  have "span (unat (0 :: uint)) (unat (3 :: uint)) + 1 = 2"
    by (simp add: span_def BSIZE_def)
  then show ?thesis
    using demo_fs_room(2) by (simp only:)
qed

lemma demo_write_args:
  "\<not> (d_size (din (icache demo_fs 0)) < 0 \<or> 0 + (3 :: uint) < 0 \<or> MAXFILE * BSIZE < unat (0 + (3 :: uint)))"
  "(0 :: uint) \<le> d_size (din (icache demo_fs 0))" "(0 :: uint) \<le> 0 + 3" "unat (0 :: uint) + unat (3 :: uint) \<le> MAXFILE * BSIZE"
  by (simp_all add: MAXFILE_def BSIZE_def NDIRECT_def)

definition no_dev :: "nat \<Rightarrow> fsst devsw" where
  "no_dev = (\<lambda>_. \<lparr>dev_read = None, dev_write = None\<rparr>)"

theorem balloc_lowest_witness:
  "\<exists>t. balloc ROOTDEV demo_fs = Inr (64, t) \<and> (\<forall>c. used t c \<longleftrightarrow> c < 65)"
proof -
  have tx: "tx {58, 32} (Suc 2) Map.empty demo_fs" "bmapstart (fsb demo_fs) \<in> {58, 32}"
    using demo_fs_room(1) by (simp_all add: demo_fs_sel demo_sb_def)
  have "\<not> (\<forall>b < sb_size (fsb demo_fs). used demo_fs b)"
    by (auto simp: demo_fs_used demo_fs_sel demo_sb_def intro!: exI [of _ 64])
  note r = balloc_lowest [OF demo_fs_ok(1) tx, unfolded if_not_P [OF this]]
  obtain b t where t: "balloc ROOTDEV demo_fs = Inr (b, t)" "\<not> b < 64" "\<forall>c<b. c < 64" "\<forall>c. used t c \<longleftrightarrow> c = b \<or> c < 64"
    using r unfolding demo_fs_used by blast
  then have "b = 64"
    by (metis less_irrefl linorder_neqE)
  moreover have "c = 64 \<or> c < 64 \<longleftrightarrow> c < 65" for c :: uint
    by (auto simp: word_less_nat_alt word_unat_eq_iff)
  ultimately show ?thesis
    using t by auto
qed

theorem writei_writes_witness:
  "\<exists>t. writei no_dev 0 (\<lambda>i. of_nat i + 65) 0 3 demo_fs = Inr (3, t) \<and> d_size (din (icache t 0)) = 3 \<and>
     fbyte t 0 2 = 67 \<and> file_ok t 0"
proof -
  obtain t where t: "writei no_dev 0 (\<lambda>i. of_nat i + 65) 0 3 demo_fs = Inr (3, t)"
    "file_written demo_fs 0 (\<lambda>i. of_nat i + 65) 0 3 t"
    using writei_writes [OF demo_fs_ok(2) demo_write_room, of no_dev "\<lambda>i. of_nat i + 65", unfolded if_not_P [OF demo_write_args(1)]]
    by auto
  then show ?thesis
    by (auto simp: file_written_def demo_fs_sel demo_dinode_def word_unat_eq_iff)
qed

theorem readi_reads_witness:
  "\<exists>(s :: fsst) t. d_size (din (icache s 0)) = 3 \<and> readi no_dev 0 1 5 s = Inr (2, [66, 67], t)"
proof -
  obtain s where s: "file_written demo_fs 0 (\<lambda>i. of_nat i + 65) 0 3 s" "room {} 1 s 0"
    using writei_ok [OF demo_fs_ok(2) demo_write_room demo_write_args(2-4)] by auto
  then have w: "file_ok s 0" "unat (d_size (din (icache s 0))) = 3" "\<forall>i<3. fbyte s 0 i = of_nat i + 65"
    by (auto simp: file_written_def demo_fs_sel demo_dinode_def)
  have sz: "d_size (din (icache s 0)) = 3"
    using w(2) by (simp add: word_unat_eq_iff)
  have "fsinv Map.empty s" "nat (lh_n (log s)) < NBUF"
    using s(2) txD(1,2) by (fastforce simp: room_def)+
  from readi_reads [OF w(1) this, of 1 5 no_dev] show ?thesis
    using sz w(3) by (auto simp: upt_rec)
qed

theorem read_after_write_witness:
  "\<exists>t u. writei no_dev 0 (\<lambda>i. of_nat i + 65) 0 3 demo_fs = Inr (3, t) \<and> readi no_dev 0 0 3 t = Inr (3, [65, 66, 67], u)"
proof -
  have "room {} (span (unat (0 :: uint)) (unat (3 :: uint))) demo_fs 0"
    using demo_write_room by (rule room_less)
  from read_after_write [OF demo_fs_ok(2) this demo_write_args(2-4), of no_dev "\<lambda>i. of_nat i + 65"] show ?thesis
    by (auto simp: upt_rec)
qed

end
