(* ===== verification/SysProps.thy ===== *)
theory SysProps
  imports Exec ConsProps
begin

text \<open>
  The arguments of system calls: what the kernel takes from user memory lies within the process.
\<close>

lemma takeWhile_iff:
  "(\<exists>x\<in>set xs. \<not> P x) \<and> takeWhile P xs = bs \<longleftrightarrow>
   length bs < length xs \<and> (\<forall>i<length bs. bs ! i = xs ! i \<and> P (bs ! i)) \<and> \<not> P (xs ! length bs)"
proof (induction xs arbitrary: bs)
  case (Cons x xs)
  show ?case
  proof (cases "P x")
    case True
    show ?thesis
    proof (cases bs)
      case (Cons b cs)
      have "(\<forall>i<Suc (length cs). (b # cs) ! i = (x # xs) ! i \<and> P ((b # cs) ! i)) \<longleftrightarrow>
          b = x \<and> P b \<and> (\<forall>i<length cs. cs ! i = xs ! i \<and> P (cs ! i))"
        by (auto simp: less_Suc_eq_0_disj)
      then show ?thesis
        using True Cons.IH [of cs] Cons by auto
    qed (use True in auto)
  next
    case False
    then show ?thesis
      by (cases bs) auto
  qed
qed simp

lemma fits_iff:
  fixes a z :: uint
  assumes "unat z \<le> 2 ^ 31" "n < 2 ^ 31" "0 < n"
  shows "\<not> z \<le> a \<and> \<not> z < a + of_nat n \<longleftrightarrow> unat a + n \<le> unat z"
proof (cases "unat a < unat z")
  case True
  then have "unat (a + of_nat n) = unat a + n"
    using assms by (intro unat_add_small) simp
  then show ?thesis
    using True by (auto simp: word_le_nat_alt word_less_nat_alt)
next
  case False
  then show ?thesis
    using assms(3) by (auto simp: word_le_nat_alt word_less_nat_alt)
qed

text \<open>
  C31. The arguments of a system call stay within the process, although the sums are taken in 32
  bits.  With the argument slot \<open>e\<close> on the user stack and the word \<open>v\<close> in it, \<open>argptr\<close> with a
  length that is not negative gives \<open>v\<close> exactly if the slot and all bytes of the block lie below
  the size of the process; \<open>argstr\<close> gives exactly the bytes before the first null byte at \<open>v\<close>, if
  that null byte lies below the size; otherwise both fail.
\<close>

theorem args_in_process:
  fixes s :: "'a kern_scheme"
  assumes "cproc (mycpu s) = Some p" "sz (ptab s p) \<le> KERNBASE" "0 \<le> len" "len < 2 ^ 31"
    and "e = tf_esp (tf (ptab s p)) + 4 + 4 * of_nat n" "v = get32 (at (user_mem p s) e) 0"
  shows "argptr n len s = Inr (if unat e + 4 \<le> unat (sz (ptab s p)) \<and> unat v < unat (sz (ptab s p)) \<and>
      unat v + nat len \<le> unat (sz (ptab s p)) then Some v else None) \<and>
    (\<exists>r. argstr n s = Inr r \<and> (\<forall>bs. r = Some bs \<longleftrightarrow> unat e + 4 \<le> unat (sz (ptab s p)) \<and>
      unat v + length bs < unat (sz (ptab s p)) \<and>
      (\<forall>i<length bs. bs ! i = user_mem p s (v + of_nat i) \<and> bs ! i \<noteq> 0) \<and>
      user_mem p s (v + of_nat (length bs)) = 0))"
proof -
  let ?z = "sz (ptab s p)"
  have z: "unat ?z \<le> 2 ^ 31"
    using assms(2) by (simp add: word_le_nat_alt KERNBASE_def)
  have ai: "argint n s = Inr (if unat e + 4 \<le> unat ?z then Some v else None)"
    using fits_iff [OF z, of 4 e] assms(1,5,6) by (auto simp: argint_def fetchint_def with_proc_def)
  have len: "(of_int len :: uint) = of_nat (nat len)"
    using assms(3) by simp
  have blk: "\<not> ?z \<le> v \<and> \<not> ?z < v + of_int len \<longleftrightarrow> unat v < unat ?z \<and> unat v + nat len \<le> unat ?z"
  proof (cases "nat len = 0")
    case True
    then show ?thesis
      unfolding len by (auto simp: word_le_nat_alt word_less_nat_alt)
  next
    case False
    then show ?thesis
      using fits_iff [OF z, of "nat len" v] assms(4) unfolding len by auto
  qed
  have "argptr n len s = Inr (if unat e + 4 \<le> unat ?z \<and> unat v < unat ?z \<and> unat v + nat len \<le> unat ?z then Some v else None)"
    using blk assms(1) by (auto simp: argptr_def ai with_proc_def)
  moreover have "\<exists>r. fetchstr v s = Inr r \<and> (\<forall>bs. r = Some bs \<longleftrightarrow> unat v + length bs < unat ?z \<and>
      (\<forall>i<length bs. bs ! i = user_mem p s (v + of_nat i) \<and> bs ! i \<noteq> 0) \<and> user_mem p s (v + of_nat (length bs)) = 0)"
  proof (cases "?z \<le> v")
    case True
    then show ?thesis
      using assms(1) by (auto simp: fetchstr_def with_proc_def word_le_nat_alt)
  next
    case False
    define xs where "xs = map (at (user_mem p s) v) [0..<unat (?z - v)]"
    have l: "length xs = unat ?z - unat v" "unat v < unat ?z"
      using False by (simp_all add: xs_def unat_sub word_le_nat_alt)
    have nth: "xs ! i = user_mem p s (v + of_nat i)" if "i < length xs" for i
      using that by (simp add: xs_def at_def)
    have tw: "(0 \<in> set xs \<and> takeWhile (\<lambda>c. c \<noteq> 0) xs = bs) \<longleftrightarrow> unat v + length bs < unat ?z \<and>
      (\<forall>i<length bs. bs ! i = user_mem p s (v + of_nat i) \<and> bs ! i \<noteq> 0) \<and> user_mem p s (v + of_nat (length bs)) = 0" for bs
      using takeWhile_iff [of xs "\<lambda>c. c \<noteq> 0" bs] l nth by auto
    have "fetchstr v s = Inr (if 0 \<in> set xs then Some (takeWhile (\<lambda>c. c \<noteq> 0) xs) else None)"
      using False assms(1) unfolding fetchstr_def with_proc_def by (simp add: xs_def [symmetric] Let_def)
    then show ?thesis
      unfolding tw [symmetric] by auto
  qed
  ultimately show ?thesis
    by (auto simp: argstr_def ai)
qed

theorem args_in_process_witness:
  "argptr 0 16 (upd_proc 0 (\<lambda>x. x\<lparr>sz := 4096, tf := (tf x)\<lparr>tf_esp := 4000\<rparr>\<rparr>) demo_kern) = Inr (Some 0)"
proof -
  let ?s = "upd_proc 0 (\<lambda>x. x\<lparr>sz := 4096, tf := (tf x)\<lparr>tf_esp := 4000\<rparr>\<rparr>) demo_kern"
  have c: "cproc (mycpu ?s) = Some 0"
    using demo_kern_ok(2) by (simp add: runs_def upd_proc_def mycpu_def)
  have z: "sz (ptab ?s 0) = 4096" "tf_esp (tf (ptab ?s 0)) = 4000" "user_mem 0 ?s = (\<lambda>_. 0)"
    by (simp_all add: upd_proc_def user_mem_def demo_kern_sel)
  have v: "get32 (at (user_mem 0 ?s) e) 0 = 0" for e
    by (simp add: z get32_def at_def)
  have k: "sz (ptab ?s 0) \<le> KERNBASE"
    by (simp add: z KERNBASE_def)
  show ?thesis
    using args_in_process [OF c k, of 16 _ 0 0] v by (simp add: z)
qed

end
