(* ===== verification/Spec2Isabelle.thy ===== *)
theory Spec2Isabelle
  imports ProcProps ProcResults SleepWake ProcScan UserLib Umalloc Grep PipeProps ConsProps Trap ShRun FsProps SysProps
begin

text \<open>
  A verification library for the xv6 operating system of src/xv6-pdx, in the build with
  \<^verbatim>\<open>CS333_PROJECT=5\<close> (state lists, multi-level feedback scheduling with promotion, users and
  groups, file modes).

  \<^bold>\<open>The program.\<close>  A small Unix for x86 machines with several CPUs.  Spin locks (spinlock.c) protect
  the shared data.  The page allocator (kalloc.c) hands out physical memory.  Processes, the
  scheduler, sleep and wakeup are in proc.c.  The file system is a stack of layers: the IDE driver
  (ide.c), a buffer cache (bio.c), a write-ahead log (log.c), and inodes, directories and paths
  (fs.c).  Above it are open files (file.c), pipes (pipe.c) and the console (console.c, kbd.c,
  uart.c).  Processes enter the kernel through trap.c and syscall.c, which dispatch to sysproc.c,
  sysfile.c and exec.c.  User programs are linked with ulib.c, printf.c and umalloc.c; the largest
  are the shell (sh.c) and grep (grep.c).

  \<^bold>\<open>The state.\<close>  The kernel state is one record that grows layer by layer, each theory extending
  the record of the layer below: \<open>machine\<close> (CPUs, locks, ticks; Spinlock), \<open>kmem\<close> (Kalloc), \<open>ptable\<close>
  (process table and state lists; ProcList), \<open>bio\<close> (buffers, disk and the sequence of disk writes;
  Bio), \<open>logst\<close> (Log), \<open>fsst\<close> (inode cache and superblock; Fs), \<open>filest\<close> (open files and pipes;
  Pipe), \<open>kern\<close> (user memory, screen, serial port, input buffer; Console).  An operation works on
  every extension of its layer's record, so that the layers above are untouched by typing.

  \<^bold>\<open>Results.\<close>  Code that can stop returns a value of \<open>'a res\<close>: \<open>Inr\<close> for a normal return, \<open>Inl\<close> for
  a panic, a null pointer followed, a spin on a lock held elsewhere, a wait for another process,
  or a loop that does not end.  A sleep that the code resumes is a result of its own (\<open>PSlept\<close> in
  Pipe, and the resume definitions beside it).  Integers are words of their C width where they can
  wrap around, and \<open>int\<close> where the code compares signed values.

  \<^bold>\<open>Theories and sources.\<close>
  \<^item> Prelude: types.h, param.h, memlayout.h and mmu.h constants, the result type, ring counters.
    Chain: linked lists in memory.  CString: string.c.  Layout: the structures of fs.h in a block.
  \<^item> Spinlock: spinlock.c and the CPU part of proc.h.  Kalloc: kalloc.c.
  \<^item> ProcList, ProcTable, ProcOps: the state lists and the operations of proc.c under \<open>ptable.lock\<close>.
    ProcInv, ProcSwitch, ProcExit, ProcAlloc: their effect on lists and table.  ProcSys, ProcReach:
    CPUs taking turns, and the reachable states.  ProcProps, ProcResults: the properties.
    SleepWake: \<open>sleep\<close> and \<open>wakeup\<close> of two CPUs, section by section.  ProcScan: the table-scan versions that proc.c keeps for other builds.  ProcDemo: the concrete
    system of the witnesses.  ProcShow: \<open>getprocs\<close> and the listings.  ProcLife: \<open>userinit\<close>, \<open>fork\<close>, \<open>exit\<close>.
  \<^item> Bio: bio.c and ide.c; BioCache: the cache laws.  Log: log.c; LogTx: the laws of a transaction;
    LogCrash, LogAtomic: commit, crash and recovery.
  \<^item> Fs, FsDir: fs.c.  FsTx, FsAlloc, FsFile, FsRw, FsProps: blocks in a transaction, allocation, the
    block map, reading and writing.
  \<^item> Quiet: how components above the process table use it.  Pipe, PipeProps: pipe.c.  File: file.c.
    Console, ConsProps: console.c.  Kbd: kbd.c, kbd.h and the interrupt of uart.c.
  \<^item> Syscall: syscall.c and sysproc.c.  SysFile: sysfile.c.  Exec: exec.c and the dispatcher of
    syscall.c.  Trap: trap.c.  SysProps: the arguments of system calls.
  \<^item> UserLib: ulib.c and printf.c.  Umalloc: umalloc.c.  Grep: grep.c.  Sh, ShProps, ShRun: sh.c.

  \<^bold>\<open>What is shown.\<close>
  \<^item> Processes.  In every state reachable by critical sections of any CPUs the six kinds of state
    lists partition the process table, the operations under \<open>ptable.lock\<close> return without a panic, a
    dispatched process is runnable and runs on one CPU only.  The scheduler takes the first process
    of the best queue after a promotion that is due; budgets, demotion, \<open>wait\<close>, \<open>kill\<close>, \<open>allocproc\<close> and
    \<open>setpriority\<close> are described on every branch.  However the sections of \<open>sleep\<close> and of a waker on
    another CPU interleave, the wakeup is not lost.  The list versions compute what the table scans
    compute, \<open>exit\<close> provided that no free slot names the caller as its parent.
  \<^item> Locks and memory.  The lock excludes others for every interleaving at the grain of the atomic
    exchange; the page allocator never gives out a page twice.
  \<^item> Disk.  The cache serves the current contents of each block from one buffer.  A commit is atomic:
    after a crash between any two disk writes, also during recovery, the disk has all blocks of the
    transaction or none.  \<open>balloc\<close>, \<open>readi\<close> and \<open>writei\<close> implement files as byte sequences, keep the
    block maps apart, and what is written is read back.
  \<^item> Pipes and console.  The ring buffers with wrapping counters are first-in first-out queues and
    line-edited input; printing stays on the screen.  The kernel takes no argument of a system call
    from beyond the memory of the process.
  \<^item> User programs.  The blocks that \<open>malloc\<close> hands out never overlap, and \<open>malloc\<close> and \<open>free\<close>
    always return.  The matcher of grep decides the language of its expression; \<open>atoi\<close> reads what
    \<open>printf\<close> prints; the parser of the shell ends on every line and hands on all its words, uncut;
    a pipeline is wired with no end of the pipe left open.

  \<^bold>\<open>Interfaces.\<close>  The locales \<open>state_lists\<close> (ProcList), \<open>page_allocator\<close> (Kalloc) and \<open>byte_channel\<close>
  (Pipe) state what the clients use of the lists, the allocator and the queue of a pipe; each is
  interpreted on the definitions of its component.

  \<^bold>\<open>Bounds.\<close>  List walks in proc.c, bio.c and ide.c take \<open>NPROC\<close>, \<open>NBUF\<close> or a like bound as fuel and
  give \<open>Diverge\<close> beyond it; the invariants say that lists have no repetition, so they are never
  longer.  \<open>balloc\<close> runs at most one round per block of the free map and one more.  The parser of
  the shell takes four times the length of the line and four as the depth of its calls, which is
  shown to be enough.  The two loops of umalloc.c are partial functions, shown to
  return.  All other loops are structural or have a termination proof.

  \<^bold>\<open>Parameters.\<close>  vm.c and x86.h are not among the sources.  The functions of vm.c are the fields of
  \<open>vmops\<close> and \<open>execops\<close>, arguments of the operations that call them; string instructions of x86.h
  are arguments of \<open>memset\<close>; the clock chip, the bytes of the keyboard and the serial port, and
  the return addresses on a kernel stack are arguments too, as are the system calls that the user
  programs make, with what is relied on of \<open>read\<close> and \<open>sbrk\<close> as hypotheses.

  \<^bold>\<open>Not modelled.\<close>  The programming of interrupt controllers and timers (lapic.c, ioapic.c,
  picirq.c, timer.c, the set-up parts of uart.c, ide.c and trap.c), the start-up through BIOS
  tables (mp.c, main.c) and the boot loader (bootmain.c), and the assembly files: they act on
  hardware and leave no kernel data behind that the rest depends on.  mkfs.c runs on the build
  host.  The small user commands and the test programs are sequences of system calls without data
  structures of their own.  Of the shell, the prompt and the opening of the console at the start
  are left out, and of grep the opening of its files.
\<close>

end
